(* ===== verification/Prelude.thy ===== *)
theory Prelude
  imports Main "HOL-Library.Code_Target_Nat" "HOL-Library.Word" "HOL-Library.Monad_Syntax"
begin

text \<open>
  Shared vocabulary of the development: the machine integers of \<^verbatim>\<open>src/misc.h\<close>, byte
  buffers with checked accesses, the network-order loads and stores the C code writes as
  \<^verbatim>\<open>ntohs(p->field)\<close> and \<^verbatim>\<open>p->field = htons(v)\<close>, and the C library routines
  \<^verbatim>\<open>memcpy\<close>, \<^verbatim>\<open>memcmp\<close> and \<^verbatim>\<open>memchr\<close>.

  A computation that touches memory has type \<^typ>\<open>'a option\<close> and is written with the
  \<open>do\<close> notation of \<open>HOL-Library.Monad_Syntax\<close>: \<^term>\<open>None\<close> stands for an access
  outside the object (undefined behaviour in C) or for a failed \<^verbatim>\<open>assert\<close>. A theorem
  that concludes \<open>f x = Some r\<close> therefore includes that \<open>f\<close> is memory safe on \<open>x\<close> and
  that its assertions hold. Results that the code itself reports (\<^verbatim>\<open>return false\<close>,
  \<^verbatim>\<open>return -1\<close>) are ordinary values inside.
\<close>

named_theorems buf_simps \<open>equations of the buffer accesses\<close>

type_synonym u8 = "8 word"
type_synonym u16 = "16 word"
type_synonym u32 = "32 word"
type_synonym bytes = "u8 list"

section \<open>Loads and stores on a buffer\<close>

definition rd8 :: "bytes \<Rightarrow> nat \<Rightarrow> u8 option" where
  "rd8 m i = (if i < length m then Some (m ! i) else None)"

definition wr8 :: "bytes \<Rightarrow> nat \<Rightarrow> u8 \<Rightarrow> bytes option" where
  "wr8 m i b = (if i < length m then Some (m[i := b]) else None)"

definition be16 :: "u8 \<Rightarrow> u8 \<Rightarrow> u16" where
  "be16 a b = word_cat a b"

definition be32 :: "u8 \<Rightarrow> u8 \<Rightarrow> u8 \<Rightarrow> u8 \<Rightarrow> u32" where
  "be32 a b c d = word_cat (be16 a b) (be16 c d)"

definition be16_bytes :: "u16 \<Rightarrow> bytes" where
  "be16_bytes w = [ucast (drop_bit 8 w), ucast w]"

definition be32_bytes :: "u32 \<Rightarrow> bytes" where
  "be32_bytes w = be16_bytes (ucast (drop_bit 16 w)) @ be16_bytes (ucast w)"

definition rd16 :: "bytes \<Rightarrow> nat \<Rightarrow> u16 option" where
  "rd16 m i = do { a \<leftarrow> rd8 m i; b \<leftarrow> rd8 m (i + 1); Some (be16 a b) }"

definition rd32 :: "bytes \<Rightarrow> nat \<Rightarrow> u32 option" where
  "rd32 m i = do {
     a \<leftarrow> rd8 m i; b \<leftarrow> rd8 m (i + 1); c \<leftarrow> rd8 m (i + 2); d \<leftarrow> rd8 m (i + 3);
     Some (be32 a b c d) }"

text \<open>\<^verbatim>\<open>memcpy(dst + i, src, n)\<close> where \<open>src\<close> is the list of the \<open>n\<close> bytes copied.\<close>

definition put :: "bytes \<Rightarrow> nat \<Rightarrow> bytes \<Rightarrow> bytes option" where
  "put m i src = (if i + length src \<le> length m
     then Some (take i m @ src @ drop (i + length src) m) else None)"

definition wr16 :: "bytes \<Rightarrow> nat \<Rightarrow> u16 \<Rightarrow> bytes option" where
  "wr16 m i w = put m i (be16_bytes w)"

definition wr32 :: "bytes \<Rightarrow> nat \<Rightarrow> u32 \<Rightarrow> bytes option" where
  "wr32 m i w = put m i (be32_bytes w)"

text \<open>The \<open>n\<close> bytes at \<open>m + i\<close>, as \<^verbatim>\<open>memcpy\<close> and \<^verbatim>\<open>memcmp\<close> read them.\<close>

definition slice_at :: "bytes \<Rightarrow> nat \<Rightarrow> nat \<Rightarrow> bytes option" where
  "slice_at m i n = (if i + n \<le> length m then Some (take n (drop i m)) else None)"

text \<open>
  \<^verbatim>\<open>memchr(m + p, c, n)\<close>: the offset of the first byte equal to \<open>c\<close>, \<open>Some None\<close> for
  \<^verbatim>\<open>NULL\<close>. It reads no further than the byte it finds.
\<close>

fun memchr :: "bytes \<Rightarrow> nat \<Rightarrow> nat \<Rightarrow> u8 \<Rightarrow> nat option option" where
  "memchr m p 0 c = Some None"
| "memchr m p (Suc n) c =
     do { b \<leftarrow> rd8 m p; if b = c then Some (Some p) else memchr m (Suc p) n c }"

text \<open>\<^verbatim>\<open>assert(P)\<close>.\<close>

definition c_assert :: "bool \<Rightarrow> unit option" where
  "c_assert P = (if P then Some () else None)"

lemma c_assert_simps [simp]: "c_assert True = Some ()" "c_assert False = None"
  by (simp_all add: c_assert_def)

lemma c_assert_eq_Some [simp]: "c_assert P = Some u \<longleftrightarrow> P"
  by (simp add: c_assert_def)

text \<open>
  A step that may end the program: \<^verbatim>\<open>exit(1)\<close> is the value \<open>Exit\<close>, and \<open>and_then\<close>
  sequences such steps.
\<close>

datatype 'a run = Exit | Run 'a

definition and_then :: "'a run option \<Rightarrow> ('a \<Rightarrow> 'b run option) \<Rightarrow> 'b run option" where
  "and_then x f = (case x of None \<Rightarrow> None | Some Exit \<Rightarrow> Some Exit | Some (Run a) \<Rightarrow> f a)"

text \<open>The lengths of binary addresses in \<^verbatim>\<open>src/net.h\<close>.\<close>

definition IPV4_LEN :: nat where "IPV4_LEN = 4"
definition IPV6_LEN :: nat where "IPV6_LEN = 16"

section \<open>Integers\<close>

text \<open>The 32-bit \<^verbatim>\<open>int\<close> an integer value is converted to: two's complement wrap-around.\<close>

definition to_i32 :: "int \<Rightarrow> int" where
  "to_i32 x = sint (word_of_int x :: 32 word)"

lemma to_i32_id [simp]: "- (2 ^ 31) \<le> x \<Longrightarrow> x < 2 ^ 31 \<Longrightarrow> to_i32 x = x"
  by (simp add: to_i32_def signed_of_int signed_take_bit_int_eq_self)

lemma to_i32_range: "- (2 ^ 31) \<le> to_i32 x \<and> to_i32 x < 2 ^ 31"
  using sint_range_size [of "word_of_int x :: 32 word"]
  by (simp add: to_i32_def word_size)

lemma unat_u8_less [simp]: "unat (b :: u8) < 256"
  using unsigned_less [of b] by simp

lemma unat_u16_less [simp]: "unat (b :: u16) < 65536"
  using unsigned_less [of b] by simp

lemma unat_be16: "unat (be16 a b) = 256 * unat a + unat b"
proof -
  have lt: "256 * unat a + unat b < 65536"
    using unat_u8_less [of a] unat_u8_less [of b] by linarith
  have "be16 a b = push_bit 8 (ucast a) + ucast b"
    by (simp add: be16_def word_cat_eq)
  also have "\<dots> = word_of_nat (256 * unat a + unat b)"
    by (simp add: push_bit_eq_mult mult.commute)
  finally show ?thesis
    using lt by (simp only: unat_of_nat) simp
qed

lemma be16_bytes_be16 [simp]: "be16_bytes (be16 a b) = [a, b]"
  by (auto simp: be16_bytes_def be16_def intro!: bit_word_eqI simp: bit_simps)

lemma be16_of_bytes [simp]: "be16 (ucast (drop_bit 8 w)) (ucast w) = w"
  by (rule bit_word_eqI) (auto simp: be16_def bit_simps)

lemma length_be16_bytes [simp]: "length (be16_bytes w) = 2"
  by (simp add: be16_bytes_def)

lemma length_be32_bytes [simp]: "length (be32_bytes w) = 4"
  by (simp add: be32_bytes_def)

lemma be32_bytes_be32 [simp]: "be32_bytes (be32 a b c d) = [a, b, c, d]"
proof -
  have "ucast (drop_bit 16 (be32 a b c d)) = be16 a b" "ucast (be32 a b c d) = be16 c d"
    by (auto simp: be32_def intro!: bit_word_eqI simp: bit_simps)
  then show ?thesis by (simp add: be32_bytes_def)
qed

lemma be16_nth [simp]: "be16 (be16_bytes w ! 0) (be16_bytes w ! 1) = w"
  by (simp add: be16_bytes_def)

lemma be32_of_bytes [simp]:
  "be32 (be32_bytes w ! 0) (be32_bytes w ! 1) (be32_bytes w ! 2) (be32_bytes w ! 3) = w"
proof -
  have "word_cat (ucast (drop_bit 16 w) :: u16) (ucast w :: u16) = w"
    by (rule bit_word_eqI) (auto simp: bit_simps)
  then show ?thesis
    by (simp add: be32_bytes_def be32_def be16_bytes_def numeral_2_eq_2 numeral_3_eq_3)
qed

section \<open>Buffers\<close>

lemma rd8_eq [buf_simps]: "i < length m \<Longrightarrow> rd8 m i = Some (m ! i)"
  by (simp add: rd8_def)

lemma rd16_eq [buf_simps]: "i + 1 < length m \<Longrightarrow> rd16 m i = Some (be16 (m ! i) (m ! (i + 1)))"
  by (simp add: rd16_def rd8_def)

lemma rd32_eq [buf_simps]: "i + 3 < length m \<Longrightarrow>
    rd32 m i = Some (be32 (m ! i) (m ! (i + 1)) (m ! (i + 2)) (m ! (i + 3)))"
  by (simp add: rd32_def rd8_def)

lemma wr8_eq [buf_simps]: "i < length m \<Longrightarrow> wr8 m i b = Some (m[i := b])"
  by (simp add: wr8_def)

lemma put_eq: "i + length s \<le> length m \<Longrightarrow>
    put m i s = Some (take i m @ s @ drop (i + length s) m)"
  by (simp add: put_def)

lemma wr16_eq [buf_simps]: "i + 1 < length m \<Longrightarrow>
    wr16 m i w = Some (m[i := ucast (drop_bit 8 w), Suc i := ucast w])"
  by (auto simp: wr16_def put_def be16_bytes_def upd_conv_take_nth_drop take_Suc_conv_app_nth
      intro!: nth_equalityI simp: nth_append nth_list_update nth_Cons')

lemma put_length: "put m i s = Some m' \<Longrightarrow> length m' = length m"
  by (auto simp: put_def split: if_splits)

lemma wr8_length: "wr8 m i b = Some m' \<Longrightarrow> length m' = length m"
  by (auto simp: wr8_def split: if_splits)

lemma put_nth_other:
  "put m i s = Some m' \<Longrightarrow> j < i \<or> i + length s \<le> j \<Longrightarrow> m' ! j = m ! j"
  by (cases "j < length m") (auto simp: put_def nth_append split: if_splits)

lemma put_append [simp]: "put (xs @ old @ ys) (length xs) s = Some (xs @ s @ ys)"
  if "length old = length s"
  using that by (simp add: put_def)

lemma rd8_append [simp]: "rd8 (xs @ b # ys) (length xs) = Some b"
  by (simp add: rd8_def nth_append)

lemma wr8_append [simp]: "wr8 (xs @ b # ys) (length xs) v = Some (xs @ v # ys)"
  by (simp add: wr8_def nth_append list_update_append)

lemma rd16_append [simp]: "rd16 (xs @ a # b # ys) (length xs) = Some (be16 a b)"
  by (simp add: rd16_def rd8_def nth_append)

lemma memchr_None:
  "p + n \<le> length m \<Longrightarrow> memchr m p n c = Some None \<longleftrightarrow> c \<notin> set (take n (drop p m))"
  by (induction m p n c rule: memchr.induct)
     (auto simp: rd8_def Cons_nth_drop_Suc [symmetric])

lemma memchr_Some:
  "p + n \<le> length m \<Longrightarrow> memchr m p n c = Some (Some q) \<Longrightarrow>
     p \<le> q \<and> q < p + n \<and> m ! q = c \<and> c \<notin> set (take (q - p) (drop p m))"
proof (induction m p n c rule: memchr.induct)
  case (2 m p n c)
  show ?case
  proof (cases "m ! p = c")
    case True
    with 2 show ?thesis by (auto simp: rd8_def)
  next
    case False
    with 2 have IH: "Suc p \<le> q \<and> q < Suc p + n \<and> m ! q = c
        \<and> c \<notin> set (take (q - Suc p) (drop (Suc p) m))"
      by (auto simp: rd8_def)
    then have "take (q - p) (drop p m) = m ! p # take (q - Suc p) (drop (Suc p) m)"
      using 2 by (simp add: Cons_nth_drop_Suc [symmetric] take_Cons' Suc_diff_le)
    with IH False show ?thesis by auto
  qed
qed simp

lemma memchr_total: "p + n \<le> length m \<Longrightarrow> \<exists>r. memchr m p n c = Some r"
  by (induction m p n c rule: memchr.induct) (auto simp: rd8_def)

text \<open>The result of \<^const>\<open>memchr\<close> in terms of the bytes before the match.\<close>

lemma memchr_append:
  "c \<notin> set w \<Longrightarrow> length w < n \<Longrightarrow>
     memchr (pre @ w @ c # post) (length pre) n c = Some (Some (length pre + length w))"
proof (induction w arbitrary: pre n)
  case Nil
  then show ?case by (cases n) (simp_all add: rd8_def nth_append)
next
  case (Cons b w)
  then obtain k where n: "n = Suc k" by (cases n) auto
  with Cons.prems have "memchr ((pre @ [b]) @ w @ c # post) (length (pre @ [b])) k c
      = Some (Some (length (pre @ [b]) + length w))"
    by (intro Cons.IH) auto
  with Cons.prems n show ?case by (auto simp: rd8_def nth_append)
qed

end
