(* ===== verification/Tag.thy ===== *)
theory Tag
  imports Prelude "HOL-Library.Char_ord"
begin

text \<open>
  Domain tags (\<^verbatim>\<open>src/tag.h\<close>, \<^verbatim>\<open>src/tag.c\<close>): the table \<open>s_tag_to_name\<close> from the tag
  values \<open>0 .. TAG_NONE\<close> to their names, the registration of user-defined tags in the slots
  \<open>TAG__USER .. TAG__MAX\<close>, and the two lookups. The static array is the state and is passed
  explicitly. A C string is the \<^typ>\<open>string\<close> of its bytes before the terminator, so
  \<^verbatim>\<open>strcmp(a, b) == 0\<close> is equality.
\<close>

definition TAG_CHN :: nat where "TAG_CHN = 0"
definition TAG_GFW :: nat where "TAG_GFW = 1"
definition TAG__USER :: nat where "TAG__USER = 2"
definition TAG__MAX :: nat where "TAG__MAX = 7"
definition TAG_NONE :: nat where "TAG_NONE = TAG__MAX + 1"

lemmas tag_consts = TAG_CHN_def TAG_GFW_def TAG__USER_def TAG__MAX_def TAG_NONE_def

text \<open>The error value \<^verbatim>\<open>(u8)-1\<close>.\<close>

definition TAG_ERR :: u8 where "TAG_ERR = 255"

type_synonym tag_table = "string option list"

definition s_tag_to_name :: tag_table where
  "s_tag_to_name = [Some ''chn'', Some ''gfw'', None, None, None, None, None, None, Some ''none'']"

section \<open>Operations\<close>

text \<open>\<^verbatim>\<open>for (u8 tag = 0; tag <= TAG_NONE; ++tag)\<close> of \<open>tag_from_name\<close>.\<close>

function tag_from_name_loop :: "tag_table \<Rightarrow> string \<Rightarrow> nat \<Rightarrow> u8" where
  "tag_from_name_loop t name tag =
     (if tag \<le> TAG_NONE
      then (if t ! tag = Some name then word_of_nat tag else tag_from_name_loop t name (tag + 1))
      else TAG_ERR)"
  by pat_completeness auto
termination by (relation "measure (\<lambda>(t, n, tag). Suc TAG_NONE - tag)") auto

declare tag_from_name_loop.simps [simp del]

definition tag_from_name :: "tag_table \<Rightarrow> string \<Rightarrow> u8" where
  "tag_from_name t name = tag_from_name_loop t name 0"

definition tag_char_ok :: "char \<Rightarrow> bool" where
  "tag_char_ok c \<longleftrightarrow> (CHR ''0'' \<le> c \<and> c \<le> CHR ''9'') \<or> (CHR ''a'' \<le> c \<and> c \<le> CHR ''z'')
     \<or> (CHR ''A'' \<le> c \<and> c \<le> CHR ''Z'') \<or> c = CHR ''_''"

text \<open>The slot the second loop of \<open>tag_register\<close> fills, from \<open>TAG__USER\<close> upwards.\<close>

function tag_free_slot :: "tag_table \<Rightarrow> nat \<Rightarrow> nat option" where
  "tag_free_slot t tag =
     (if tag \<le> TAG__MAX
      then (if t ! tag = None then Some tag else tag_free_slot t (tag + 1))
      else None)"
  by pat_completeness auto
termination by (relation "measure (\<lambda>(t, tag). Suc TAG__MAX - tag)") auto

declare tag_free_slot.simps [simp del]

text \<open>
  \<open>tag_register\<close>: the returned tag, what is stored through \<open>p_overflow\<close> (\<^term>\<open>None\<close>
  when nothing is), and the new table.
\<close>

definition tag_register :: "tag_table \<Rightarrow> string \<Rightarrow> u8 \<times> bool option \<times> tag_table" where
  "tag_register t name =
     (let tag = tag_from_name t name
      in if tag \<noteq> TAG_ERR
         then (if tag = word_of_nat TAG_CHN \<or> tag = word_of_nat TAG_GFW \<or> tag = word_of_nat TAG_NONE
               then (TAG_ERR, Some False, t)
               else (tag, None, t))
         else if \<not> list_all tag_char_ok name then (TAG_ERR, Some False, t)
         else (case tag_free_slot t TAG__USER of
                 Some slot \<Rightarrow> (word_of_nat slot, None, t[slot := Some name])
               | None \<Rightarrow> (TAG_ERR, Some True, t)))"

definition tag_is_valid :: "tag_table \<Rightarrow> u8 \<Rightarrow> bool" where
  "tag_is_valid t tag \<longleftrightarrow> unat tag < length t \<and> t ! unat tag \<noteq> None"

definition tag_to_name :: "tag_table \<Rightarrow> u8 \<Rightarrow> string" where
  "tag_to_name t tag =
     (if unat tag < length t then (case t ! unat tag of Some n \<Rightarrow> n | None \<Rightarrow> ''(null)'')
      else ''(null)'')"

text \<open>\<open>Tag.is_null\<close> of \<^verbatim>\<open>src/tag.zig\<close>: the user tag called \<^verbatim>\<open>null\<close> discards queries.\<close>

definition tag_is_null :: "tag_table \<Rightarrow> u8 \<Rightarrow> bool" where
  "tag_is_null t tag \<longleftrightarrow> tag_to_name t tag = ''null''"

section \<open>Invariant\<close>

text \<open>
  The table has one slot per tag, the three predefined names stay where they are, and no
  name occurs twice.
\<close>

definition tag_inv :: "tag_table \<Rightarrow> bool" where
  "tag_inv t \<longleftrightarrow> length t = TAG_NONE + 1 \<and> t ! TAG_CHN = Some ''chn'' \<and> t ! TAG_GFW = Some ''gfw''
     \<and> t ! TAG_NONE = Some ''none''
     \<and> (\<forall>i < length t. \<forall>j < length t. t ! i \<noteq> None \<longrightarrow> t ! i = t ! j \<longrightarrow> i = j)"

lemma less_9_cases: "i < (9::nat) \<longleftrightarrow>
    i = 0 \<or> i = 1 \<or> i = 2 \<or> i = 3 \<or> i = 4 \<or> i = 5 \<or> i = 6 \<or> i = 7 \<or> i = 8"
  by arith

lemma tag_inv_init: "tag_inv s_tag_to_name"
proof -
  have "i = j" if "i < 9" "j < 9" "s_tag_to_name ! i \<noteq> None" "s_tag_to_name ! i = s_tag_to_name ! j"
    for i j
    using that(3,4) that(1,2)[unfolded less_9_cases]
    by (elim disjE) (simp_all add: s_tag_to_name_def)
  then show ?thesis
    by (simp add: tag_inv_def tag_consts) (auto simp: s_tag_to_name_def)
qed

lemma tag_inv_length: "tag_inv t \<Longrightarrow> length t = 9"
  by (simp add: tag_inv_def tag_consts)

lemma tag_inv_inj:
  "tag_inv t \<Longrightarrow> t ! i = Some n \<Longrightarrow> t ! j = Some n \<Longrightarrow> i < 9 \<Longrightarrow> j < 9 \<Longrightarrow> i = j"
  by (simp add: tag_inv_def tag_consts)

text \<open>The lookup loop finds the least slot with the name.\<close>

lemma tag_from_name_loop_found:
  assumes "tag \<le> i" "i \<le> TAG_NONE" "t ! i = Some name"
    and "\<And>j. tag \<le> j \<Longrightarrow> j < i \<Longrightarrow> t ! j \<noteq> Some name"
  shows "tag_from_name_loop t name tag = word_of_nat i"
  using assms
proof (induction t name tag rule: tag_from_name_loop.induct)
  case (1 t name tag)
  show ?case
  proof (cases "tag = i")
    case True
    with "1.prems" show ?thesis by (simp add: tag_from_name_loop.simps)
  next
    case False
    with "1.prems" have *: "tag + 1 \<le> i" "t ! tag \<noteq> Some name" "tag \<le> TAG_NONE" by auto
    with "1.prems" have "tag_from_name_loop t name (tag + 1) = word_of_nat i"
      by (intro "1.IH") auto
    with * show ?thesis by (simp add: tag_from_name_loop.simps [of t name tag])
  qed
qed

lemma tag_from_name_loop_missing:
  "(\<And>j. tag \<le> j \<Longrightarrow> j \<le> TAG_NONE \<Longrightarrow> t ! j \<noteq> Some name) \<Longrightarrow> tag_from_name_loop t name tag = TAG_ERR"
proof (induction t name tag rule: tag_from_name_loop.induct)
  case (1 t name tag)
  then have "tag \<le> TAG_NONE \<Longrightarrow> t ! tag \<noteq> Some name" by auto
  moreover have "tag \<le> TAG_NONE \<Longrightarrow> tag_from_name_loop t name (tag + 1) = TAG_ERR"
    using "1.IH" "1.prems" calculation by auto
  ultimately show ?case by (simp add: tag_from_name_loop.simps [of t name tag])
qed

lemma tag_from_name_eq:
  assumes "tag_inv t" "i < 9" "t ! i = Some name"
  shows "tag_from_name t name = word_of_nat i"
  unfolding tag_from_name_def
proof (rule tag_from_name_loop_found)
  fix j assume "j < i"
  then show "t ! j \<noteq> Some name"
    using tag_inv_inj [OF assms(1,3), of j] assms(2) by auto
qed (use assms in \<open>simp_all add: tag_consts\<close>)

lemma tag_from_name_missing:
  assumes "\<And>i. i < 9 \<Longrightarrow> t ! i \<noteq> Some name"
  shows "tag_from_name t name = TAG_ERR"
  unfolding tag_from_name_def
  by (rule tag_from_name_loop_missing) (use assms in \<open>auto simp: tag_consts\<close>)

lemma word_of_nat_tag: "i < 9 \<Longrightarrow> unat (word_of_nat i :: u8) = i"
  by (simp add: unat_of_nat)

lemma word_of_nat_tag_neq_err: "i < 9 \<Longrightarrow> word_of_nat i \<noteq> TAG_ERR"
proof
  assume "i < 9" "word_of_nat i = TAG_ERR"
  then have "unat TAG_ERR = i" by (metis word_of_nat_tag)
  moreover have "unat TAG_ERR = 255" by (simp add: TAG_ERR_def)
  ultimately show False using \<open>i < 9\<close> by simp
qed

text \<open>The allocation loop returns the least free user slot.\<close>

lemma tag_free_slot_Some:
  "tag_free_slot t tag = Some s \<Longrightarrow>
     tag \<le> s \<and> s \<le> TAG__MAX \<and> t ! s = None \<and> (\<forall>j. tag \<le> j \<longrightarrow> j < s \<longrightarrow> t ! j \<noteq> None)"
proof (induction t tag rule: tag_free_slot.induct)
  case (1 t tag)
  note eq = tag_free_slot.simps [of t tag]
  show ?case
  proof (cases "tag \<le> TAG__MAX \<and> t ! tag \<noteq> None")
    case True
    with "1.prems" eq have "tag_free_slot t (tag + 1) = Some s" by simp
    with "1.IH" True have "tag + 1 \<le> s \<and> s \<le> TAG__MAX \<and> t ! s = None
        \<and> (\<forall>j. tag + 1 \<le> j \<longrightarrow> j < s \<longrightarrow> t ! j \<noteq> None)" by blast
    with True show ?thesis by (metis Suc_eq_plus1 Suc_leD le_antisym not_less_eq_eq)
  next
    case False
    with "1.prems" eq show ?thesis by (auto split: if_splits)
  qed
qed

lemma tag_free_slot_None:
  "tag_free_slot t tag = None \<longleftrightarrow> (\<forall>j. tag \<le> j \<longrightarrow> j \<le> TAG__MAX \<longrightarrow> t ! j \<noteq> None)"
proof (induction t tag rule: tag_free_slot.induct)
  case (1 t tag)
  note eq = tag_free_slot.simps [of t tag]
  show ?case
  proof (cases "tag \<le> TAG__MAX \<and> t ! tag \<noteq> None")
    case True
    with 1 eq show ?thesis by (metis Suc_eq_plus1 Suc_leD le_antisym not_less_eq_eq)
  next
    case False
    with eq show ?thesis by auto
  qed
qed

text \<open>The three outcomes of a registration, with the slot they concern.\<close>

lemma tag_register_known:
  assumes "tag_inv t" "i < 9" "t ! i = Some name"
  shows "tag_register t name =
    (if TAG__USER \<le> i \<and> i \<le> TAG__MAX then (word_of_nat i, None, t) else (TAG_ERR, Some False, t))"
proof -
  have eq: "word_of_nat i = (word_of_nat k :: u8) \<longleftrightarrow> i = k" if "k < 9" for k
    using that assms(2) word_of_nat_tag by metis
  have "(word_of_nat i = (word_of_nat TAG_CHN :: u8) \<or> word_of_nat i = (word_of_nat TAG_GFW :: u8)
      \<or> word_of_nat i = (word_of_nat TAG_NONE :: u8)) \<longleftrightarrow> i = 0 \<or> i = 1 \<or> i = 8"
    by (subst (1 2 3) eq) (simp_all add: tag_consts)
  also have "\<dots> \<longleftrightarrow> \<not> (TAG__USER \<le> i \<and> i \<le> TAG__MAX)"
    using assms(2) unfolding tag_consts by arith
  finally have "(word_of_nat i = (word_of_nat TAG_CHN :: u8) \<or> word_of_nat i = (word_of_nat TAG_GFW :: u8)
      \<or> word_of_nat i = (word_of_nat TAG_NONE :: u8)) \<longleftrightarrow> \<not> (TAG__USER \<le> i \<and> i \<le> TAG__MAX)" .
  then show ?thesis
    using tag_from_name_eq [OF assms] word_of_nat_tag_neq_err [OF assms(2)]
    by (simp add: tag_register_def Let_def)
qed

lemma tag_register_new:
  assumes "tag_inv t" "\<And>i. i < 9 \<Longrightarrow> t ! i \<noteq> Some name"
  shows "tag_register t name =
    (if \<not> list_all tag_char_ok name then (TAG_ERR, Some False, t)
     else case tag_free_slot t TAG__USER of
        Some slot \<Rightarrow> (word_of_nat slot, None, t[slot := Some name])
      | None \<Rightarrow> (TAG_ERR, Some True, t))"
  using tag_from_name_missing [OF assms(2)] by (simp add: tag_register_def Let_def)

lemma tag_inv_update:
  assumes "tag_inv t" "TAG__USER \<le> s" "s \<le> TAG__MAX" "\<And>i. i < 9 \<Longrightarrow> t ! i \<noteq> Some name"
  shows "tag_inv (t[s := Some name])"
proof -
  have "i = j" if "i < 9" "j < 9" "t[s := Some name] ! i = Some n" "t[s := Some name] ! j = Some n"
    for i j n
    using that assms tag_inv_length [OF assms(1)] tag_inv_inj [OF assms(1), of i n j]
    by (cases "i = s"; cases "j = s") (auto simp: nth_list_update)
  then show ?thesis
    using assms(1-3) unfolding tag_inv_def by (auto simp: tag_consts)
qed

section \<open>Properties\<close>

text \<open>
  C39: registering any name keeps the tag table well formed: nine slots, the predefined tags
  \<^verbatim>\<open>chn\<close>, \<^verbatim>\<open>gfw\<close> and \<^verbatim>\<open>none\<close> in place, no name in two slots.
\<close>

theorem tag_register_keeps_inv:
  assumes "tag_inv t"
  shows "tag_inv (snd (snd (tag_register t name)))"
proof (cases "\<exists>i < 9. t ! i = Some name")
  case True
  then show ?thesis using tag_register_known [OF assms] assms by auto
next
  case False
  then have "\<And>i. i < 9 \<Longrightarrow> t ! i \<noteq> Some name" by blast
  then show ?thesis
    using tag_register_new [OF assms] tag_inv_update [OF assms] assms
    by (auto dest: tag_free_slot_Some split: option.splits)
qed

theorem tag_register_keeps_inv_witness:
  "tag_inv (snd (snd (tag_register s_tag_to_name ''usr'')))"
  by (rule tag_register_keeps_inv [OF tag_inv_init])

text \<open>
  C38: what a registration returns. It succeeds exactly when the name is in a user slot already,
  or is new, made of letters, digits and underscores, and some user slot is free; a new name gets
  the first free slot. The tag is in \<open>TAG__USER .. TAG__MAX\<close>, both lookups find the name under
  it afterwards, no other slot has changed, and a repeated registration returns the same tag and
  changes nothing. A failure leaves the table alone, and reports an overflow exactly when a new,
  well-formed name finds all user slots taken.
\<close>

theorem tag_register_outcome:
  assumes inv: "tag_inv t" and reg: "tag_register t name = (tag, ov, t')"
  shows "(tag \<noteq> TAG_ERR \<longleftrightarrow> (\<exists>i. 2 \<le> i \<and> i \<le> 7 \<and> t ! i = Some name)
            \<or> list_all tag_char_ok name \<and> (\<forall>i < 9. t ! i \<noteq> Some name) \<and> (\<exists>i. 2 \<le> i \<and> i \<le> 7 \<and> t ! i = None))
       \<and> (tag \<noteq> TAG_ERR \<longrightarrow> t ! unat tag = Some name \<and> t' = t
            \<or> t ! unat tag = None \<and> t' = t[unat tag := Some name] \<and> (\<forall>i. 2 \<le> i \<and> i < unat tag \<longrightarrow> t ! i \<noteq> None))
       \<and> (tag \<noteq> TAG_ERR \<longrightarrow> ov = None \<and> 2 \<le> unat tag \<and> unat tag \<le> 7 \<and> tag_to_name t' tag = name
            \<and> tag_from_name t' name = tag \<and> tag_register t' name = (tag, None, t')
            \<and> (\<forall>i < 9. i \<noteq> unat tag \<longrightarrow> t' ! i = t ! i))
       \<and> (tag = TAG_ERR \<longrightarrow> t' = t \<and> ov \<noteq> None)
       \<and> (ov = Some True \<longleftrightarrow> list_all tag_char_ok name \<and> (\<forall>i < 9. t ! i \<noteq> None \<and> t ! i \<noteq> Some name))"
proof (cases "\<exists>i < 9. t ! i = Some name")
  case True
  then obtain i where i: "i < 9" "t ! i = Some name" by blast
  note known = tag_register_known [OF inv i, simplified reg]
  have only: "j = i" if "t ! j = Some name" "j < 9" for j using tag_inv_inj [OF inv that(1) i(2) that(2) i(1)] .
  show ?thesis
  proof (cases "TAG__USER \<le> i \<and> i \<le> TAG__MAX")
    case True
    then have r: "tag = word_of_nat i" "ov = None" "t' = t" "2 \<le> i" "i \<le> 7" using known by (auto simp: tag_consts)
    have "tag \<noteq> TAG_ERR" "unat tag = i" using word_of_nat_tag_neq_err [OF i(1)] word_of_nat_tag [OF i(1)] r(1) by simp_all
    moreover have "tag_to_name t' tag = name" using i r tag_inv_length [OF inv] \<open>unat tag = i\<close> by (simp add: tag_to_name_def)
    ultimately show ?thesis using tag_from_name_eq [OF inv i] r i reg by (simp; blast)
  next
    case False
    then have r: "tag = TAG_ERR" "ov = Some False" "t' = t" "\<not> (2 \<le> i \<and> i \<le> 7)" using known by (auto simp: tag_consts)
    have "t ! j \<noteq> Some name" if "2 \<le> j \<and> j \<le> 7" for j using only [of j] that r(4) by auto
    then show ?thesis using r i by auto
  qed
next
  case False
  then have new: "\<And>i. i < 9 \<Longrightarrow> t ! i \<noteq> Some name" by blast
  then have new7: "\<And>i. 2 \<le> i \<and> i \<le> 7 \<Longrightarrow> t ! i \<noteq> Some name" by auto
  note eq = tag_register_new [OF inv new, simplified reg]
  show ?thesis
  proof (cases "tag_free_slot t TAG__USER")
    case None
    then have full: "t ! i \<noteq> None" if "i < 9" for i
      using inv that[unfolded less_9_cases]
      by (elim disjE) (simp_all add: tag_free_slot_None tag_inv_def tag_consts)
    have "tag = TAG_ERR" "t' = t" "ov = Some (list_all tag_char_ok name)" using None eq by (auto split: if_splits)
    moreover have "t ! i \<noteq> None" if "i \<le> 7" for i using full [of i] that by simp
    then have "\<not> (\<exists>i. 2 \<le> i \<and> i \<le> 7 \<and> t ! i = None)" by blast
    moreover have "\<not> (\<exists>i. 2 \<le> i \<and> i \<le> 7 \<and> t ! i = Some name)" using new7 by blast
    ultimately show ?thesis using full new by auto
  next
    case (Some s)
    then have s: "2 \<le> s" "s \<le> 7" "t ! s = None" "\<forall>j. 2 \<le> j \<and> j < s \<longrightarrow> t ! j \<noteq> None"
      by (auto dest: tag_free_slot_Some simp: tag_consts)
    have inv': "tag_inv (t[s := Some name])"
      by (rule tag_inv_update [OF inv _ _ new]) (use s in \<open>simp_all add: tag_consts\<close>)
    have at: "t[s := Some name] ! s = Some name" "s < 9"
      using s tag_inv_length [OF inv] by auto
    show ?thesis
    proof (cases "list_all tag_char_ok name")
      case True
      with eq Some have r: "tag = word_of_nat s" "ov = None" "t' = t[s := Some name]" by auto
      have u: "unat tag = s" "tag \<noteq> TAG_ERR" using r(1) word_of_nat_tag [OF at(2)] word_of_nat_tag_neq_err [OF at(2)] by simp_all
      have "tag_to_name t' tag = name" "\<forall>i < 9. i \<noteq> unat tag \<longrightarrow> t' ! i = t ! i"
        using r at tag_inv_length [OF inv] u(1) by (simp_all add: tag_to_name_def)
      moreover have "tag_from_name t' name = tag" "tag_register t' name = (tag, None, t')"
        using tag_from_name_eq [OF inv' at(2,1)] tag_register_known [OF inv' at(2,1)] r s
        by (simp_all add: tag_consts)
      moreover have "\<not> (\<forall>i < 9. t ! i \<noteq> None \<and> t ! i \<noteq> Some name)" using s(3) at(2) by blast
      ultimately show ?thesis using s r u True new by simp blast
    next
      case False
      then have r: "tag = TAG_ERR" "ov = Some False" "t' = t" using eq Some by simp_all
      moreover have "\<not> (\<exists>i. 2 \<le> i \<and> i \<le> 7 \<and> t ! i = Some name)" using new7 by blast
      ultimately show ?thesis using False by simp
    qed
  qed
qed

theorem tag_register_outcome_witness:
  "tag_to_name (snd (snd (tag_register s_tag_to_name ''usr''))) 2 = ''usr''"
proof -
  have reg: "tag_register s_tag_to_name ''usr'' = (2, None, s_tag_to_name[2 := Some ''usr''])"
    by code_simp
  show ?thesis
    using tag_register_outcome [OF tag_inv_init reg] by (simp add: reg TAG_ERR_def)
qed

end
