(* ===== verification/Dns_Header.thy ===== *)
theory Dns_Header
  imports Prelude
begin

unbundle bit_operations_syntax

text \<open>
  The fixed part of a DNS message (\<^verbatim>\<open>src/dns.h\<close>, \<^verbatim>\<open>src/dns.c\<close>): \<^verbatim>\<open>struct dns_header\<close>
  with its bit-fields, the accessors and the operations that turn a message into a reply by
  editing the header: \<open>dns_empty_reply\<close>, \<open>dns_servfail_reply\<close>, \<open>dns_truncate\<close> and
  \<open>dns_make_reply\<close>. A message is the byte buffer that holds it; a pointer into it is an
  offset. The record \<open>dns_header\<close> and \<open>view_header\<close> give the abstract header, and each
  operation is shown to be a record update on it.
\<close>

section \<open>Sizes\<close>

definition HEADER_LEN :: nat where "HEADER_LEN = 12"
definition QUESTION_LEN :: nat where "QUESTION_LEN = 4"
definition DNS_NAME_WIRE_MINLEN :: nat where "DNS_NAME_WIRE_MINLEN = 1"
definition DNS_NAME_WIRE_MAXLEN :: nat where "DNS_NAME_WIRE_MAXLEN = 255"
definition DNS_NAME_MAXLEN :: nat where "DNS_NAME_MAXLEN = 253"
definition DNS_NAME_LABEL_MAXLEN :: nat where "DNS_NAME_LABEL_MAXLEN = 63"
definition DNS_NAME_PTR_MINVAL :: nat where "DNS_NAME_PTR_MINVAL = 192"
definition DNS_QMSG_MAXSIZE :: nat where "DNS_QMSG_MAXSIZE = 512"
definition DNS_MSG_MINSIZE :: nat where
  "DNS_MSG_MINSIZE = HEADER_LEN + DNS_NAME_WIRE_MINLEN + QUESTION_LEN"
definition DNS_MSG_MAXSIZE :: nat where "DNS_MSG_MAXSIZE = 65535"

definition DNS_RCODE_NOERROR :: u8 where "DNS_RCODE_NOERROR = 0"
definition DNS_RCODE_SERVFAIL :: u8 where "DNS_RCODE_SERVFAIL = 2"
definition DNS_RCODE_NXDOMAIN :: u8 where "DNS_RCODE_NXDOMAIN = 3"

definition DNS_TYPE_A :: u16 where "DNS_TYPE_A = 1"
definition DNS_TYPE_AAAA :: u16 where "DNS_TYPE_AAAA = 28"
definition DNS_TYPE_OPT :: u16 where "DNS_TYPE_OPT = 41"

lemmas dns_sizes = HEADER_LEN_def QUESTION_LEN_def DNS_NAME_WIRE_MINLEN_def
  DNS_NAME_WIRE_MAXLEN_def DNS_NAME_MAXLEN_def DNS_NAME_LABEL_MAXLEN_def DNS_NAME_PTR_MINVAL_def
  DNS_QMSG_MAXSIZE_def DNS_MSG_MINSIZE_def DNS_MSG_MAXSIZE_def
lemmas dns_types = DNS_TYPE_A_def DNS_TYPE_AAAA_def DNS_TYPE_OPT_def
lemmas dns_rcodes = DNS_RCODE_NOERROR_def DNS_RCODE_SERVFAIL_def DNS_RCODE_NXDOMAIN_def

definition msg_minlen :: "nat \<Rightarrow> nat" where
  "msg_minlen qnamelen = HEADER_LEN + qnamelen + QUESTION_LEN"

definition dns_header_len :: u16 where
  "dns_header_len = word_of_nat HEADER_LEN"

definition dns_question_len :: "nat \<Rightarrow> u16" where
  "dns_question_len qnamelen = word_of_nat (qnamelen + QUESTION_LEN)"

definition dns_ascii_namelen :: "int \<Rightarrow> int" where
  "dns_ascii_namelen qnamelen = (let n = qnamelen - 2 in if n > 0 then n else 0)"

section \<open>The bit-fields of the header\<close>

datatype hdr_field = Qr | Opcode | Aa | Tc | Rd | Ra | Z | Rcode

text \<open>
  The two declarations of the header's third and fourth byte, one per bit-field order of the
  ABI: a big-endian ABI allocates the fields of a byte from the most significant bit down, a
  little-endian one from the least significant bit up.
\<close>

definition hdr_decl_be :: "(hdr_field \<times> nat) list list" where
  "hdr_decl_be = [[(Qr, 1), (Opcode, 4), (Aa, 1), (Tc, 1), (Rd, 1)], [(Ra, 1), (Z, 3), (Rcode, 4)]]"

definition hdr_decl_le :: "(hdr_field \<times> nat) list list" where
  "hdr_decl_le = [[(Rd, 1), (Tc, 1), (Aa, 1), (Opcode, 4), (Qr, 1)], [(Rcode, 4), (Z, 3), (Ra, 1)]]"

fun alloc_lsb :: "(hdr_field \<times> nat) list \<Rightarrow> nat \<Rightarrow> hdr_field \<Rightarrow> (nat \<times> nat) option" where
  "alloc_lsb [] pos f = None"
| "alloc_lsb ((g, w) # fs) pos f = (if g = f then Some (pos, w) else alloc_lsb fs (pos + w) f)"

fun alloc_msb :: "(hdr_field \<times> nat) list \<Rightarrow> nat \<Rightarrow> hdr_field \<Rightarrow> (nat \<times> nat) option" where
  "alloc_msb [] hi f = None"
| "alloc_msb ((g, w) # fs) hi f = (if g = f then Some (hi - w, w) else alloc_msb fs (hi - w) f)"

text \<open>The byte of a field, the number of its least significant bit, and its width.\<close>

fun hdr_byte :: "hdr_field \<Rightarrow> nat" where
  "hdr_byte Qr = 2" | "hdr_byte Opcode = 2" | "hdr_byte Aa = 2" | "hdr_byte Tc = 2" | "hdr_byte Rd = 2"
| "hdr_byte Ra = 3" | "hdr_byte Z = 3" | "hdr_byte Rcode = 3"

fun hdr_shift :: "hdr_field \<Rightarrow> nat" where
  "hdr_shift Qr = 7" | "hdr_shift Opcode = 3" | "hdr_shift Aa = 2" | "hdr_shift Tc = 1" | "hdr_shift Rd = 0"
| "hdr_shift Ra = 7" | "hdr_shift Z = 4" | "hdr_shift Rcode = 0"

fun hdr_width :: "hdr_field \<Rightarrow> nat" where
  "hdr_width Opcode = 4" | "hdr_width Z = 3" | "hdr_width Rcode = 4" | "hdr_width _ = 1"

text \<open>A bit-field read and a bit-field store, which drops the bits that do not fit.\<close>

definition fld_get :: "nat \<Rightarrow> nat \<Rightarrow> u8 \<Rightarrow> u8" where
  "fld_get s w b = take_bit w (drop_bit s b)"

definition fld_set :: "nat \<Rightarrow> nat \<Rightarrow> u8 \<Rightarrow> u8 \<Rightarrow> u8" where
  "fld_set s w v b = (b AND NOT (push_bit s (mask w))) OR push_bit s (take_bit w v)"

definition hdr_get :: "hdr_field \<Rightarrow> bytes \<Rightarrow> u8 option" where
  "hdr_get f m = do { b \<leftarrow> rd8 m (hdr_byte f); Some (fld_get (hdr_shift f) (hdr_width f) b) }"

definition hdr_set :: "hdr_field \<Rightarrow> u8 \<Rightarrow> bytes \<Rightarrow> bytes option" where
  "hdr_set f v m = do { b \<leftarrow> rd8 m (hdr_byte f);
     wr8 m (hdr_byte f) (fld_set (hdr_shift f) (hdr_width f) v b) }"

section \<open>Accessors\<close>

text \<open>\<open>id\<close> is read and stored as it is, without \<^verbatim>\<open>ntohs\<close>, on a little-endian host.\<close>

definition dns_get_id :: "bytes \<Rightarrow> u16 option" where
  "dns_get_id m = do { a \<leftarrow> rd8 m 0; b \<leftarrow> rd8 m 1; Some (be16 b a) }"

definition dns_set_id :: "bytes \<Rightarrow> u16 \<Rightarrow> bytes option" where
  "dns_set_id m qid = put m 0 (rev (be16_bytes qid))"

definition get_question_count :: "bytes \<Rightarrow> u16 option" where "get_question_count m = rd16 m 4"
definition get_answer_count :: "bytes \<Rightarrow> u16 option" where "get_answer_count m = rd16 m 6"
definition get_authority_count :: "bytes \<Rightarrow> u16 option" where "get_authority_count m = rd16 m 8"
definition get_additional_count :: "bytes \<Rightarrow> u16 option" where "get_additional_count m = rd16 m 10"

definition dns_get_qtype :: "bytes \<Rightarrow> nat \<Rightarrow> u16 option" where
  "dns_get_qtype m qnamelen = rd16 m (HEADER_LEN + qnamelen)"

definition dns_get_rcode :: "bytes \<Rightarrow> u8 option" where
  "dns_get_rcode m = hdr_get Rcode m"

definition dns_is_tc :: "bytes \<Rightarrow> bool option" where
  "dns_is_tc m = do { v \<leftarrow> hdr_get Tc m; Some (v \<noteq> 0) }"

definition dns_is_good :: "bytes \<Rightarrow> bool option" where
  "dns_is_good m = do {
     rcode \<leftarrow> dns_get_rcode m;
     tc \<leftarrow> dns_is_tc m;
     Some (\<not> tc \<and> (rcode = DNS_RCODE_NOERROR \<or> rcode = DNS_RCODE_NXDOMAIN)) }"

section \<open>Replies made from the message itself\<close>

definition dns_empty_reply :: "bytes \<Rightarrow> nat \<Rightarrow> (bytes \<times> u16) option" where
  "dns_empty_reply msg qnamelen = do {
     m \<leftarrow> hdr_set Qr 1 msg;
     m \<leftarrow> hdr_set Ra 1 m;
     m \<leftarrow> hdr_set Rcode DNS_RCODE_NOERROR m;
     m \<leftarrow> wr16 m 6 0;
     m \<leftarrow> wr16 m 8 0;
     m \<leftarrow> wr16 m 10 0;
     Some (m, word_of_nat (if qnamelen > 0 then msg_minlen qnamelen else HEADER_LEN)) }"

definition dns_servfail_reply :: "bytes \<Rightarrow> nat \<Rightarrow> (bytes \<times> u16) option" where
  "dns_servfail_reply msg qnamelen = do {
     (m, len) \<leftarrow> dns_empty_reply msg qnamelen;
     m \<leftarrow> hdr_set Aa 0 m;
     m \<leftarrow> hdr_set Rcode DNS_RCODE_SERVFAIL m;
     Some (m, len) }"

definition get_qnamelen :: "bytes \<Rightarrow> int \<Rightarrow> nat option" where
  "get_qnamelen msg len = do {
     let len = len - int HEADER_LEN;
     _ \<leftarrow> c_assert (len > 0);
     p \<leftarrow> memchr msg HEADER_LEN (nat len) 0;
     p \<leftarrow> p;
     Some (p + 1 - HEADER_LEN) }"

text \<open>\<open>out\<close> is the caller's buffer, which the call overwrites.\<close>

definition dns_truncate :: "bytes \<Rightarrow> int \<Rightarrow> bytes \<Rightarrow> (bytes \<times> u16) option" where
  "dns_truncate msg len out = do {
     qnamelen \<leftarrow> get_qnamelen msg len;
     hq \<leftarrow> slice_at msg 0 (msg_minlen qnamelen);
     o1 \<leftarrow> put out 0 hq;
     o2 \<leftarrow> hdr_set Tc 1 o1;
     dns_empty_reply o2 qnamelen }"

definition dns_make_reply :: "bytes \<Rightarrow> bytes \<Rightarrow> nat \<Rightarrow> bytes \<Rightarrow> u16 \<Rightarrow> bytes option" where
  "dns_make_reply rmsg qmsg qnamelen answer answer_n = do {
     hq \<leftarrow> slice_at qmsg 0 (msg_minlen qnamelen);
     r \<leftarrow> put rmsg 0 hq;
     (r, _) \<leftarrow> dns_empty_reply r qnamelen;
     r \<leftarrow> wr16 r 6 answer_n;
     r \<leftarrow> hdr_set Aa 1 r;
     put r (msg_minlen qnamelen) answer }"

section \<open>The abstract header\<close>

record dns_header =
  hd_id :: u16
  hd_qr :: u8
  hd_opcode :: u8
  hd_aa :: u8
  hd_tc :: u8
  hd_rd :: u8
  hd_ra :: u8
  hd_z :: u8
  hd_rcode :: u8
  hd_qdcount :: u16
  hd_ancount :: u16
  hd_nscount :: u16
  hd_arcount :: u16

definition view_header :: "bytes \<Rightarrow> dns_header option" where
  "view_header m = do {
     qid \<leftarrow> dns_get_id m;
     qr \<leftarrow> hdr_get Qr m; opcode \<leftarrow> hdr_get Opcode m; aa \<leftarrow> hdr_get Aa m; tc \<leftarrow> hdr_get Tc m;
     rd \<leftarrow> hdr_get Rd m; ra \<leftarrow> hdr_get Ra m; z \<leftarrow> hdr_get Z m; rcode \<leftarrow> hdr_get Rcode m;
     qd \<leftarrow> get_question_count m; an \<leftarrow> get_answer_count m; ns \<leftarrow> get_authority_count m;
     ar \<leftarrow> get_additional_count m;
     Some \<lparr>hd_id = qid, hd_qr = qr, hd_opcode = opcode, hd_aa = aa, hd_tc = tc, hd_rd = rd, hd_ra = ra,
       hd_z = z, hd_rcode = rcode, hd_qdcount = qd, hd_ancount = an, hd_nscount = ns, hd_arcount = ar\<rparr> }"

definition hd_update :: "hdr_field \<Rightarrow> u8 \<Rightarrow> dns_header \<Rightarrow> dns_header" where
  "hd_update f v h = (let v' = take_bit (hdr_width f) v in case f of
      Qr \<Rightarrow> h\<lparr>hd_qr := v'\<rparr> | Opcode \<Rightarrow> h\<lparr>hd_opcode := v'\<rparr> | Aa \<Rightarrow> h\<lparr>hd_aa := v'\<rparr>
    | Tc \<Rightarrow> h\<lparr>hd_tc := v'\<rparr> | Rd \<Rightarrow> h\<lparr>hd_rd := v'\<rparr> | Ra \<Rightarrow> h\<lparr>hd_ra := v'\<rparr>
    | Z \<Rightarrow> h\<lparr>hd_z := v'\<rparr> | Rcode \<Rightarrow> h\<lparr>hd_rcode := v'\<rparr>)"

section \<open>Lemmas\<close>

lemma fld_get_set_same: "s + w \<le> 8 \<Longrightarrow> fld_get s w (fld_set s w v b) = take_bit w v"
  by (rule bit_word_eqI) (auto simp: fld_get_def fld_set_def bit_simps dest: bit_imp_le_length)

lemma fld_get_set_other:
  "s + w \<le> s' \<or> s' + w' \<le> s \<Longrightarrow> fld_get s w (fld_set s' w' v b) = fld_get s w b"
  by (rule bit_word_eqI) (auto simp: fld_get_def fld_set_def bit_simps dest: bit_imp_le_length)

lemma hdr_set_eq: "12 \<le> length m \<Longrightarrow>
    hdr_set f v m = Some (m[hdr_byte f := fld_set (hdr_shift f) (hdr_width f) v (m ! hdr_byte f)])"
  by (cases f) (auto simp: hdr_set_def rd8_def wr8_def)

lemma hdr_get_eq: "12 \<le> length m \<Longrightarrow>
    hdr_get f m = Some (fld_get (hdr_shift f) (hdr_width f) (m ! hdr_byte f))"
  by (cases f) (auto simp: hdr_get_def rd8_def)

lemma hdr_set_length: "hdr_set f v m = Some m' \<Longrightarrow> length m' = length m"
  by (auto simp: hdr_set_def rd8_def wr8_def bind_eq_Some_conv split: if_splits)

lemma hdr_set_nth: "hdr_set f v m = Some m' \<Longrightarrow> i \<noteq> 2 \<Longrightarrow> i \<noteq> 3 \<Longrightarrow> m' ! i = m ! i"
  by (cases f) (auto simp: hdr_set_def rd8_def wr8_def bind_eq_Some_conv split: if_splits)

lemma hdr_get_set:
  assumes "hdr_set f v m = Some m'" "12 \<le> length m"
  shows "hdr_get g m' = (if f = g then Some (take_bit (hdr_width f) v) else hdr_get g m)"
proof -
  have m': "m' = m[hdr_byte f := fld_set (hdr_shift f) (hdr_width f) v (m ! hdr_byte f)]"
    using assms by (simp add: hdr_set_eq)
  have "hdr_byte f \<noteq> hdr_byte g \<or> f = g \<or> hdr_shift g + hdr_width g \<le> hdr_shift f
      \<or> hdr_shift f + hdr_width f \<le> hdr_shift g" "hdr_shift f + hdr_width f \<le> 8" "hdr_byte f < 12"
    by (cases f; cases g; simp)+
  then show ?thesis
    using assms(2)
    by (cases "hdr_byte f = hdr_byte g") (auto simp: m' hdr_get_eq fld_get_set_same fld_get_set_other)
qed

lemma view_header_eq: "12 \<le> length m \<Longrightarrow> view_header m = Some
   \<lparr>hd_id = be16 (m ! 1) (m ! 0), hd_qr = fld_get 7 1 (m ! 2), hd_opcode = fld_get 3 4 (m ! 2),
    hd_aa = fld_get 2 1 (m ! 2), hd_tc = fld_get 1 1 (m ! 2), hd_rd = fld_get 0 1 (m ! 2),
    hd_ra = fld_get 7 1 (m ! 3), hd_z = fld_get 4 3 (m ! 3), hd_rcode = fld_get 0 4 (m ! 3),
    hd_qdcount = be16 (m ! 4) (m ! 5), hd_ancount = be16 (m ! 6) (m ! 7),
    hd_nscount = be16 (m ! 8) (m ! 9), hd_arcount = be16 (m ! 10) (m ! 11)\<rparr>"
  by (auto simp: view_header_def dns_get_id_def hdr_get_eq get_question_count_def get_answer_count_def
      get_authority_count_def get_additional_count_def rd8_def rd16_def)

lemma view_header_total: "12 \<le> length m \<Longrightarrow> \<exists>h. view_header m = Some h"
  by (simp add: view_header_eq)

lemma view_header_set:
  assumes "hdr_set f v m = Some m'" "12 \<le> length m"
  shows "view_header m' = map_option (hd_update f v) (view_header m)"
proof -
  have m': "m' = m[hdr_byte f := fld_set (hdr_shift f) (hdr_width f) v (m ! hdr_byte f)]"
    using assms by (simp add: hdr_set_eq)
  show ?thesis
    using assms(2) unfolding m'
    by (cases f) (simp_all add: view_header_eq hd_update_def nth_list_update
        fld_get_set_same fld_get_set_other del: One_nat_def take_bit_eq_mod)
qed

lemma view_header_counts:
  assumes "12 \<le> length m"
  shows "wr16 m 6 w = Some m' \<Longrightarrow> view_header m' = map_option (\<lambda>h. h\<lparr>hd_ancount := w\<rparr>) (view_header m)"
    and "wr16 m 8 w = Some m' \<Longrightarrow> view_header m' = map_option (\<lambda>h. h\<lparr>hd_nscount := w\<rparr>) (view_header m)"
    and "wr16 m 10 w = Some m' \<Longrightarrow> view_header m' = map_option (\<lambda>h. h\<lparr>hd_arcount := w\<rparr>) (view_header m)"
  using assms by (auto simp: wr16_eq view_header_eq nth_list_update)

lemma wr16_some: "i + 1 < length m \<Longrightarrow> \<exists>m'. wr16 m i w = Some m' \<and> length m' = length m"
  by (simp add: wr16_eq)

lemma hdr_set_some: "12 \<le> length m \<Longrightarrow> \<exists>m'. hdr_set f v m = Some m' \<and> length m' = length m"
  by (simp add: hdr_set_eq)

lemma hdr_byte_less: "hdr_byte f < 12"
  by (cases f) simp_all

lemma hdr_set_drop: "hdr_set f v m = Some m' \<Longrightarrow> 12 \<le> k \<Longrightarrow> drop k m' = drop k m"
  using hdr_byte_less [of f]
  by (auto simp: hdr_set_def wr8_def drop_update_cancel bind_eq_Some_conv split: if_splits)

lemma wr16_drop: "wr16 m i w = Some m' \<Longrightarrow> i + 2 \<le> k \<Longrightarrow> drop k m' = drop k m"
proof (cases "i + 1 < length m")
  case True
  then show "wr16 m i w = Some m' \<Longrightarrow> i + 2 \<le> k \<Longrightarrow> drop k m' = drop k m"
    by (auto simp: wr16_eq drop_update_cancel)
qed (simp add: wr16_def put_def)

text \<open>
  \<open>dns_empty_reply\<close> as a header update: the answer is a response with no records, everything
  behind the header is left alone.
\<close>

definition hd_empty :: "dns_header \<Rightarrow> dns_header" where
  "hd_empty h = h\<lparr>hd_qr := 1, hd_ra := 1, hd_rcode := 0, hd_ancount := 0, hd_nscount := 0, hd_arcount := 0\<rparr>"

definition reply_len :: "nat \<Rightarrow> u16" where
  "reply_len qnamelen = word_of_nat (if qnamelen > 0 then msg_minlen qnamelen else HEADER_LEN)"

lemma dns_empty_reply_ok:
  assumes "12 \<le> length msg" "view_header msg = Some h"
  shows "\<exists>m'. dns_empty_reply msg qn = Some (m', reply_len qn) \<and> view_header m' = Some (hd_empty h)
    \<and> length m' = length msg \<and> drop 12 m' = drop 12 msg"
proof -
  obtain a where a: "hdr_set Qr 1 msg = Some a" "length a = length msg"
    using hdr_set_some assms(1) by blast
  obtain b where b: "hdr_set Ra 1 a = Some b" "length b = length msg"
    using hdr_set_some [of a Ra 1] a assms(1) by auto
  obtain c where c: "hdr_set Rcode DNS_RCODE_NOERROR b = Some c" "length c = length msg"
    using hdr_set_some [of b Rcode DNS_RCODE_NOERROR] b assms(1) by auto
  obtain d where d: "wr16 c 6 0 = Some d" "length d = length msg"
    using wr16_some [of 6 c 0] c assms(1) by auto
  obtain e where e: "wr16 d 8 0 = Some e" "length e = length msg"
    using wr16_some [of 8 d 0] d assms(1) by auto
  obtain f where f: "wr16 e 10 0 = Some f" "length f = length msg"
    using wr16_some [of 10 e 0] e assms(1) by auto
  have "view_header f = Some (hd_empty h)"
    using view_header_set [OF a(1)] view_header_set [OF b(1)] view_header_set [OF c(1)]
      view_header_counts(1) [OF _ d(1)] view_header_counts(2) [OF _ e(1)]
      view_header_counts(3) [OF _ f(1)] a b c d e f assms
    by (simp add: hd_update_def hd_empty_def dns_rcodes)
  moreover have "drop 12 f = drop 12 msg"
    using hdr_set_drop [OF a(1)] hdr_set_drop [OF b(1)] hdr_set_drop [OF c(1)]
      wr16_drop [OF d(1)] wr16_drop [OF e(1)] wr16_drop [OF f(1)] by simp
  ultimately show ?thesis
    using a b c d e f by (simp add: dns_empty_reply_def reply_len_def)
qed

lemma dns_servfail_reply_ok:
  assumes "12 \<le> length msg" "view_header msg = Some h"
  shows "\<exists>m'. dns_servfail_reply msg qn = Some (m', reply_len qn)
    \<and> view_header m' = Some ((hd_empty h)\<lparr>hd_aa := 0, hd_rcode := 2\<rparr>)
    \<and> length m' = length msg \<and> drop 12 m' = drop 12 msg"
proof -
  obtain a where a: "dns_empty_reply msg qn = Some (a, reply_len qn)" "view_header a = Some (hd_empty h)"
    "length a = length msg" "drop 12 a = drop 12 msg"
    using dns_empty_reply_ok [OF assms] by blast
  obtain b where b: "hdr_set Aa 0 a = Some b" "length b = length msg"
    using hdr_set_some [of a Aa 0] a assms(1) by auto
  obtain c where c: "hdr_set Rcode DNS_RCODE_SERVFAIL b = Some c" "length c = length msg"
    using hdr_set_some [of b Rcode DNS_RCODE_SERVFAIL] b assms(1) by auto
  have "view_header c = Some ((hd_empty h)\<lparr>hd_aa := 0, hd_rcode := 2\<rparr>)"
    using view_header_set [OF b(1)] view_header_set [OF c(1)] a b c assms
    by (simp add: hd_update_def dns_rcodes take_bit_eq_mod)
  moreover have "drop 12 c = drop 12 msg"
    using hdr_set_drop [OF b(1)] hdr_set_drop [OF c(1)] a by simp
  ultimately show ?thesis
    using a b c by (simp add: dns_servfail_reply_def)
qed

lemma view_header_append: "length hdr = 12 \<Longrightarrow> view_header (hdr @ x) = view_header hdr"
  by (simp add: view_header_eq nth_append)

lemma view_header_split:
  "12 \<le> length m \<Longrightarrow> m = take 12 m @ drop 12 m \<and> length (take 12 m) = 12
     \<and> view_header (take 12 m) = view_header m"
  by (simp add: view_header_eq)

text \<open>The name of the question is found by its terminating zero.\<close>

lemma get_qnamelen_eq:
  assumes "length hdr = 12" "0 \<notin> set w" "msg = hdr @ w @ 0 # q" "len = int (length msg)"
  shows "get_qnamelen msg len = Some (length w + 1)"
proof -
  have "memchr msg 12 (nat (len - 12)) 0 = Some (Some (12 + length w))"
    using memchr_append [of 0 w "nat (len - 12)" hdr q] assms by simp
  then show ?thesis
    using assms by (simp add: get_qnamelen_def dns_sizes)
qed

lemma put_front:
  "length s \<le> length m \<Longrightarrow> put m 0 s = Some (s @ drop (length s) m)"
  by (simp add: put_def)

section \<open>Properties\<close>

text \<open>
  the layout of the header's bit-fields does not depend on the platform: the big-endian
  declaration allocated from the top bit and the little-endian one allocated from the bottom
  bit put every field at the same bits of the same byte, those the accessors use.
\<close>

lemma header_layout_agrees:
  "alloc_msb (hdr_decl_be ! (hdr_byte f - 2)) 8 f = Some (hdr_shift f, hdr_width f)
   \<and> alloc_lsb (hdr_decl_le ! (hdr_byte f - 2)) 0 f = Some (hdr_shift f, hdr_width f)"
  by (cases f) (simp_all add: hdr_decl_be_def hdr_decl_le_def)

text \<open>
  \<open>dns_servfail_reply\<close> on a buffer that holds a header never fails, returns the length of
  header and question (the header alone for \<open>qnamelen = 0\<close>), and changes the header only: the
  message becomes a response with \<open>SERVFAIL\<close>, not authoritative, with no records, keeping id,
  opcode, \<open>RD\<close> and the question count.
\<close>

lemma dns_servfail_reply_header:
  assumes "12 \<le> length msg"
  shows "\<exists>h m'. view_header msg = Some h
    \<and> dns_servfail_reply msg qn = Some (m', word_of_nat (if qn > 0 then 16 + qn else 12))
    \<and> view_header m' = Some (h\<lparr>hd_qr := 1, hd_ra := 1, hd_aa := 0, hd_rcode := 2,
         hd_ancount := 0, hd_nscount := 0, hd_arcount := 0\<rparr>)
    \<and> length m' = length msg \<and> drop 12 m' = drop 12 msg"
proof -
  obtain h where h: "view_header msg = Some h" using view_header_total [OF assms] by blast
  have "reply_len qn = word_of_nat (if qn > 0 then 16 + qn else 12)"
    by (simp add: reply_len_def msg_minlen_def dns_sizes add.commute)
  then show ?thesis
    using dns_servfail_reply_ok [OF assms h, of qn] h by (auto simp: hd_empty_def)
qed

lemma dns_servfail_reply_header_witness:
  "\<exists>m' n. dns_servfail_reply [0x12, 0x34, 1, 0, 0, 1, 0, 0, 0, 0, 0, 0, 0, 0, 1, 0, 1] 1 = Some (m', n)"
  using dns_servfail_reply_header
    [of "[0x12, 0x34, 1, 0, 0, 1, 0, 0, 0, 0, 0, 0, 0, 0, 1, 0, 1]" 1] by auto

text \<open>
  \<open>dns_truncate\<close> on a message made of a header, a name terminated by its first zero byte and
  a question copies exactly header and question into the caller's buffer, sets \<open>TC\<close> and the
  reply bits, zeroes the record counts and returns the length of the copy; the rest of the
  buffer keeps its bytes.
\<close>

lemma dns_truncate_ok:
  assumes hdr: "length hdr = 12" "view_header hdr = Some h" and w: "0 \<notin> set w" and q: "length q = 4"
    and room: "16 + (length w + 1) \<le> length out"
  shows "\<exists>hdr'. dns_truncate (hdr @ w @ 0 # q @ records) (int (length (hdr @ w @ 0 # q @ records))) out
      = Some (hdr' @ w @ 0 # q @ drop (17 + length w) out, word_of_nat (17 + length w))
    \<and> length hdr' = 12
    \<and> view_header hdr' = Some (h\<lparr>hd_tc := 1, hd_qr := 1, hd_ra := 1, hd_rcode := 0,
         hd_ancount := 0, hd_nscount := 0, hd_arcount := 0\<rparr>)"
proof -
  let ?msg = "hdr @ w @ 0 # q @ records" and ?qn = "length w + 1"
  let ?hq = "hdr @ w @ 0 # q"
  let ?o1 = "?hq @ drop (17 + length w) out"
  have qn: "get_qnamelen ?msg (int (length ?msg)) = Some ?qn"
    using get_qnamelen_eq [OF hdr(1) w refl refl] .
  have sl: "slice_at ?msg 0 (msg_minlen ?qn) = Some ?hq"
    using hdr q by (simp add: slice_at_def msg_minlen_def dns_sizes)
  have p: "put out 0 ?hq = Some ?o1"
    using hdr q room by (simp add: put_front)
  have len: "12 \<le> length ?o1" using hdr by simp
  obtain o2 where o2: "hdr_set Tc 1 ?o1 = Some o2" "length o2 = length ?o1"
    using hdr_set_some [OF len] by blast
  have v2: "view_header o2 = Some (h\<lparr>hd_tc := 1\<rparr>)"
    using view_header_set [OF o2(1) len] hdr
    by (simp add: view_header_append hd_update_def take_bit_eq_mod)
  have len2: "12 \<le> length o2" using len o2 by simp
  obtain o3 where o3: "dns_empty_reply o2 ?qn = Some (o3, reply_len ?qn)"
    "view_header o3 = Some (hd_empty (h\<lparr>hd_tc := 1\<rparr>))" "length o3 = length o2"
    "drop 12 o3 = drop 12 o2"
    using dns_empty_reply_ok [OF len2 v2] by blast
  have "drop 12 o3 = w @ 0 # q @ drop (17 + length w) out"
    using o3 hdr_set_drop [OF o2(1), of 12] hdr by simp
  moreover have "12 \<le> length o3" using o3 len2 by simp
  ultimately have "o3 = take 12 o3 @ w @ 0 # q @ drop (17 + length w) out" "length (take 12 o3) = 12"
    "view_header (take 12 o3) = Some (hd_empty (h\<lparr>hd_tc := 1\<rparr>))"
    using view_header_split [of o3] o3 by auto
  moreover have "reply_len ?qn = word_of_nat (17 + length w)"
    by (simp add: reply_len_def msg_minlen_def dns_sizes)
  moreover have "dns_truncate ?msg (int (length ?msg)) out = Some (o3, reply_len ?qn)"
    using qn sl p o2 o3 by (simp add: dns_truncate_def)
  ultimately show ?thesis
    by (intro exI [of _ "take 12 o3"]) (auto simp: hd_empty_def)
qed

end
