(* ===== verification/Dns_Name.thy ===== *)
theory Dns_Name
  imports Dns_Header
begin

text \<open>
  Domain names in \<^verbatim>\<open>src/dns.c\<close>: the conversion of a wire name (length-prefixed labels
  and a terminating zero) to a dotted ASCII name and back (\<open>decode_name\<close>,
  \<open>dns_wire_to_ascii\<close>, \<open>dns_ascii_to_wire\<close>) and the enumeration of the suffixes of the
  question's name (\<open>dns_qname_domains\<close>). The specification side is the list of labels of a
  name: \<open>wire_labels\<close> and \<open>dotted\<close> print it, \<open>parse_labels\<close> reads the wire form.
\<close>

definition DOT :: u8 where "DOT = 46"

section \<open>decode_name\<close>

text \<open>
  The loop over the labels. \<open>pos\<close> is the offset of \<^verbatim>\<open>out\<close> in its buffer, \<open>s\<close> that of
  \<^verbatim>\<open>src\<close>; the result is the returned flag and the output buffer.
\<close>

function decode_name_loop :: "bytes \<Rightarrow> nat \<Rightarrow> bytes \<Rightarrow> nat \<Rightarrow> int \<Rightarrow> bool \<Rightarrow> (bool \<times> bytes) option" where
  "decode_name_loop out pos src s len first =
     (if len \<ge> 2 then do {
        (out, pos) \<leftarrow> (if first then Some (out, pos)
                      else do { out \<leftarrow> wr8 out pos DOT; Some (out, pos + 1) });
        b \<leftarrow> rd8 src s;
        let label_len = int (unat b);
        let len = len - 1;
        if label_len < 1 \<or> label_len > int DNS_NAME_LABEL_MAXLEN then Some (False, out)
        else if label_len > len then Some (False, out)
        else decode_name_loop out (pos + unat b) src (s + 1 + unat b) (len - label_len) False
      } else Some (len = 0, out))"
  by pat_completeness auto
termination
  by (relation "measure (\<lambda>(out, pos, src, s, len, first). nat len)") auto

declare decode_name_loop.simps [simp del]

definition decode_name :: "bytes \<Rightarrow> bytes \<Rightarrow> nat \<Rightarrow> int \<Rightarrow> (bool \<times> bytes) option" where
  "decode_name out src s len =
     (if len \<le> int DNS_NAME_WIRE_MINLEN then do {
        out \<leftarrow> wr8 out 0 DOT;
        out \<leftarrow> wr8 out 1 0;
        Some (True, out) }
      else do {
        let len = len - 1;
        data \<leftarrow> slice_at src (s + 1) (nat len);
        out \<leftarrow> put out 0 data;
        decode_name_loop out 0 src s len True })"

definition dns_wire_to_ascii :: "bytes \<Rightarrow> int \<Rightarrow> bytes \<Rightarrow> (bool \<times> bytes) option" where
  "dns_wire_to_ascii wire_name wire_len buf = do {
     _ \<leftarrow> c_assert (int DNS_NAME_WIRE_MINLEN \<le> wire_len \<and> wire_len \<le> int DNS_NAME_WIRE_MAXLEN);
     decode_name buf wire_name 0 wire_len }"

section \<open>dns_ascii_to_wire\<close>

lemma memchr_bounds: "memchr m p n c = Some (Some q) \<Longrightarrow> p \<le> q \<and> q < p + n"
  by (induction m p n c rule: memchr.induct) (force simp: bind_eq_Some_conv split: if_splits)+

text \<open>
  The loop over the dots of \<open>ascii_name\<close>, from \<open>start\<close> to \<open>aend\<close>; \<open>Some None\<close> is
  \<^verbatim>\<open>return 0\<close>, and a success returns \<open>buf_n\<close>, the buffer and the level.
\<close>

function ascii_to_wire_loop ::
    "bytes \<Rightarrow> nat \<Rightarrow> nat \<Rightarrow> bytes \<Rightarrow> nat \<Rightarrow> u8 \<Rightarrow> (nat \<times> bytes \<times> u8) option option" where
  "ascii_to_wire_loop ascii start aend buf buf_n level = do {
     r \<leftarrow> memchr ascii start (aend - start) DOT;
     let fin = (case r of Some p \<Rightarrow> p | None \<Rightarrow> aend);
     let len = to_i32 (int fin - int start);
     if len < 1 \<or> len > int DNS_NAME_LABEL_MAXLEN then Some None
     else if int buf_n + 1 + len > int DNS_NAME_WIRE_MAXLEN then Some None
     else do {
       buf \<leftarrow> wr8 buf buf_n (word_of_int len);
       lab \<leftarrow> slice_at ascii start (nat len);
       buf \<leftarrow> put buf (buf_n + 1) lab;
       let buf_n = buf_n + 1 + nat len;
       let level = level + 1;
       if r = None \<or> fin = aend then
         (if buf_n + 1 > DNS_NAME_WIRE_MAXLEN then Some None
          else do { buf \<leftarrow> wr8 buf buf_n 0; Some (Some (buf_n + 1, buf, level)) })
       else ascii_to_wire_loop ascii (fin + 1) aend buf buf_n level } }"
  by pat_completeness auto
termination
  by (relation "measure (\<lambda>(ascii, start, aend, buf, buf_n, level). aend - start)")
     (auto dest!: memchr_bounds)

declare ascii_to_wire_loop.simps [simp del]

definition dns_ascii_to_wire :: "bytes \<Rightarrow> nat \<Rightarrow> bytes \<Rightarrow> (nat \<times> bytes \<times> u8) option option" where
  "dns_ascii_to_wire ascii_name ascii_len buf = ascii_to_wire_loop ascii_name 0 ascii_len buf 0 0"

section \<open>dns_qname_domains\<close>

text \<open>The first loop: the number of labels of the name, \<open>Some None\<close> for \<^verbatim>\<open>return -1\<close>.\<close>

function qname_level_loop :: "bytes \<Rightarrow> nat \<Rightarrow> nat \<Rightarrow> nat \<Rightarrow> nat option option" where
  "qname_level_loop m p qname_end level =
     (if p < qname_end then do {
        b \<leftarrow> rd8 m p;
        if b = 0 then Some (Some level)
        else if unat b \<le> DNS_NAME_LABEL_MAXLEN
        then qname_level_loop m (p + 1 + unat b) qname_end (level + 1)
        else Some None }
      else Some None)"
  by pat_completeness auto
termination by (relation "measure (\<lambda>(m, p, e, l). e - p)") auto

declare qname_level_loop.simps [simp del]

text \<open>The second loop: \<open>acc\<close> is the part of \<^verbatim>\<open>domains[8]\<close> already filled.\<close>

fun qname_domains_loop :: "bytes \<Rightarrow> nat \<Rightarrow> nat \<Rightarrow> u8 \<Rightarrow> nat list \<Rightarrow> nat list option" where
  "qname_domains_loop m p 0 interest acc = Some acc"
| "qname_domains_loop m p (Suc l) interest acc = do {
     acc \<leftarrow> (if Suc l \<le> 8 \<and> bit interest l
            then do { _ \<leftarrow> c_assert (length acc < 8); Some (acc @ [p]) }
            else Some acc);
     b \<leftarrow> rd8 m p;
     qname_domains_loop m (p + 1 + unat b) l interest acc }"

text \<open>\<^verbatim>\<open>__builtin_ctz\<close> of a byte.\<close>

definition ctz8 :: "u8 \<Rightarrow> nat" where
  "ctz8 w = length (takeWhile (\<lambda>i. \<not> bit w i) [0..<8])"

text \<open>
  The returned count, the filled part of \<open>domains\<close> (offsets into the message) and what is
  stored through \<open>p_domain_end\<close>.
\<close>

definition dns_qname_domains :: "bytes \<Rightarrow> nat \<Rightarrow> u8 \<Rightarrow> (int \<times> nat list \<times> nat option) option" where
  "dns_qname_domains msg qnamelen interest_levels = do {
     let qname = HEADER_LEN;
     let qname_end = qname + qnamelen;
     lv \<leftarrow> qname_level_loop msg qname qname_end 0;
     case lv of None \<Rightarrow> Some (-1, [], None)
     | Some qname_level \<Rightarrow> do {
         _ \<leftarrow> c_assert (interest_levels \<noteq> 0);
         let min_interest_level = ctz8 interest_levels + 1;
         if qname_level < min_interest_level then Some (0, [], None)
         else do {
           domains \<leftarrow> qname_domains_loop msg qname qname_level interest_levels [];
           Some (int (length domains), domains, Some (qname_end - 1)) } } }"

section \<open>Names as lists of labels\<close>

definition label_ok :: "bytes \<Rightarrow> bool" where
  "label_ok l \<longleftrightarrow> 1 \<le> length l \<and> length l \<le> 63"

definition wire_label :: "bytes \<Rightarrow> bytes" where
  "wire_label l = word_of_nat (length l) # l"

definition wire_labels :: "bytes list \<Rightarrow> bytes" where
  "wire_labels ls = concat (map wire_label ls)"

fun dotted :: "bytes list \<Rightarrow> bytes" where
  "dotted [] = []"
| "dotted (l # ls) = l @ concat (map (\<lambda>x. DOT # x) ls)"

function parse_labels :: "bytes \<Rightarrow> bytes list option" where
  "parse_labels [] = Some []"
| "parse_labels (b # xs) =
     (if 1 \<le> unat b \<and> unat b \<le> 63 \<and> unat b \<le> length xs
      then map_option (Cons (take (unat b) xs)) (parse_labels (drop (unat b) xs)) else None)"
  by pat_completeness auto
termination by (relation "measure length") auto

fun split_dots :: "bytes \<Rightarrow> bytes list" where
  "split_dots [] = [[]]"
| "split_dots (c # cs) = (if c = DOT then [] # split_dots cs
     else (case split_dots cs of l # ls \<Rightarrow> (c # l) # ls | [] \<Rightarrow> [[c]]))"

section \<open>Lemmas on labels\<close>

lemma unat_len_word [simp]: "n \<le> 63 \<Longrightarrow> unat (word_of_nat n :: u8) = n"
  by (simp add: unat_of_nat)

lemma parse_labels_wire_label:
  "label_ok l \<Longrightarrow> parse_labels (wire_label l @ xs) = map_option (Cons l) (parse_labels xs)"
  by (simp add: wire_label_def label_ok_def)

lemma parse_wire_labels: "list_all label_ok ls \<Longrightarrow> parse_labels (wire_labels ls) = Some ls"
  by (induction ls) (simp_all add: wire_labels_def parse_labels_wire_label)

lemma parse_labels_Some:
  "parse_labels w = Some ls \<Longrightarrow> w = wire_labels ls \<and> list_all label_ok ls"
proof (induction w arbitrary: ls rule: parse_labels.induct)
  case (2 b xs)
  then have ok: "1 \<le> unat b" "unat b \<le> 63" "unat b \<le> length xs"
    by (auto split: if_splits)
  with 2 obtain ls' where ls: "ls = take (unat b) xs # ls'"
    "parse_labels (drop (unat b) xs) = Some ls'" by auto
  then have "drop (unat b) xs = wire_labels ls'" "list_all label_ok ls'"
    using "2.IH" ok by auto
  moreover have "wire_label (take (unat b) xs) = b # take (unat b) xs"
    using ok by (simp add: wire_label_def)
  moreover have "label_ok (take (unat b) xs)"
    using ok by (simp add: label_ok_def)
  ultimately show ?case
    using ls append_take_drop_id [of "unat b" xs] by (simp add: wire_labels_def)
qed (simp add: wire_labels_def)

lemma parse_labels_iff: "parse_labels w = Some ls \<longleftrightarrow> w = wire_labels ls \<and> list_all label_ok ls"
  using parse_labels_Some parse_wire_labels by blast

lemma length_wire_labels: "length (wire_labels ls) = (\<Sum>l\<leftarrow>ls. length l + 1)"
  by (induction ls) (simp_all add: wire_labels_def wire_label_def)

lemma length_dots: "length (concat (map (\<lambda>x. DOT # x) ls)) = length (wire_labels ls)"
  by (induction ls) (simp_all add: wire_labels_def wire_label_def)

lemma length_dotted: "ls \<noteq> [] \<Longrightarrow> length (dotted ls) + 1 = length (wire_labels ls)"
  by (cases ls) (simp_all add: length_dots, simp add: wire_labels_def wire_label_def)

section \<open>decode_name computes the dotted name\<close>

lemma decode_name_loop_rest:
  "\<exists>out'. decode_name_loop (pre @ w @ post) (length pre) (spre @ w @ spost) (length spre)
        (int (length w)) False = Some (parse_labels w \<noteq> None, out')
     \<and> length out' = length (pre @ w @ post)
     \<and> (\<forall>ls. parse_labels w = Some ls \<longrightarrow> out' = pre @ concat (map (\<lambda>x. DOT # x) ls) @ post)"
proof (induction w arbitrary: pre spre rule: parse_labels.induct)
  case 1
  then show ?case by (simp add: decode_name_loop.simps)
next
  case (2 b xs)
  note eq = decode_name_loop.simps [of "pre @ (b # xs) @ post" "length pre" "spre @ (b # xs) @ spost"
      "length spre" "int (length (b # xs))" False]
  show ?case
  proof (cases "1 \<le> unat b \<and> unat b \<le> 63 \<and> unat b \<le> length xs")
    case False
    then have "decode_name_loop (pre @ (b # xs) @ post) (length pre) (spre @ (b # xs) @ spost) (length spre)
        (int (length (b # xs))) False = Some (False, if xs = [] then pre @ (b # xs) @ post else pre @ DOT # xs @ post)"
      unfolding eq by (cases xs) (auto simp: dns_sizes Let_def simp del: of_nat_unat)
    with False show ?thesis by auto
  next
    case True
    let ?n = "unat b"
    have out: "pre @ DOT # xs @ post = (pre @ DOT # take ?n xs) @ drop ?n xs @ post"
      and src: "spre @ b # xs @ spost = (spre @ b # take ?n xs) @ drop ?n xs @ spost" by simp_all
    have lens: "length pre + 1 + ?n = length (pre @ DOT # take ?n xs)"
      "length spre + 1 + ?n = length (spre @ b # take ?n xs)"
      "int (length (b # xs)) - 1 - int ?n = int (length (drop ?n xs))"
      using True by auto
    have xs: "xs \<noteq> []" using True by auto
    have "decode_name_loop (pre @ (b # xs) @ post) (length pre) (spre @ (b # xs) @ spost) (length spre)
        (int (length (b # xs))) False
      = decode_name_loop (pre @ DOT # xs @ post) (length pre + 1 + ?n) (spre @ b # xs @ spost)
        (length spre + 1 + ?n) (int (length (b # xs)) - 1 - int ?n) False"
      unfolding eq using True xs by (auto simp: dns_sizes Let_def add.assoc simp del: of_nat_unat)
    also have "\<dots> = decode_name_loop ((pre @ DOT # take ?n xs) @ drop ?n xs @ post)
        (length (pre @ DOT # take ?n xs)) ((spre @ b # take ?n xs) @ drop ?n xs @ spost)
        (length (spre @ b # take ?n xs)) (int (length (drop ?n xs))) False"
      by (simp only: out src lens)
    finally show ?thesis
      using "2.IH" [OF True, of "pre @ DOT # take ?n xs" "spre @ b # take ?n xs"] True
      by auto
  qed
qed

text \<open>
  \<open>decode_name\<close> on the \<open>len = length w + 1\<close> bytes \<open>w @ [z]\<close> at \<open>s\<close>, with a buffer
  of at least \<open>len - 1\<close> bytes (two for the root).
\<close>

lemma decode_name_root: "2 \<le> length out \<Longrightarrow> len \<le> 1 \<Longrightarrow>
    decode_name out src s len = Some (True, DOT # 0 # drop 2 out)"
  by (cases out; cases "tl out") (auto simp: decode_name_def wr8_def dns_sizes)

lemma decode_name_labels:
  assumes "w \<noteq> []" "length w \<le> length out"
  shows "\<exists>out'. decode_name out (spre @ w @ z # spost) (length spre) (int (length w) + 1)
      = Some (parse_labels w \<noteq> None, out') \<and> length out' = length out
    \<and> (\<forall>ls. parse_labels w = Some ls \<longrightarrow> out' = dotted ls @ z # drop (length w) out)"
proof -
  obtain b xs where w: "w = b # xs" using assms(1) by (cases w) auto
  define post where "post = z # drop (length w) out"
  define src where "src = spre @ w @ z # spost"
  have data: "slice_at src (length spre + 1) (length w) = Some (xs @ [z])"
    by (simp add: src_def w slice_at_def)
  have put: "put out 0 (xs @ [z]) = Some (xs @ post)"
    using assms by (simp add: post_def w put_front)
  have r: "rd8 src (length spre) = Some b"
    by (simp add: src_def w rd8_def nth_append)
  have start: "decode_name out src (length spre) (int (length w) + 1)
      = decode_name_loop (xs @ post) 0 src (length spre) (int (length w)) True"
    using data put assms(1) by (simp add: decode_name_def dns_sizes)
  note eq = decode_name_loop.simps [of "xs @ post" 0 src "length spre" "int (length w)" True]
  show ?thesis
  proof (cases "1 \<le> unat b \<and> unat b \<le> 63 \<and> unat b \<le> length xs")
    case False
    then have "decode_name_loop (xs @ post) 0 src (length spre) (int (length w)) True = Some (False, xs @ post)"
      unfolding eq by (cases xs) (auto simp: w r dns_sizes Let_def simp del: of_nat_unat)
    with False show ?thesis
      using start assms by (auto simp: w src_def post_def)
  next
    case True
    let ?n = "unat b"
    have src: "src = (spre @ b # take ?n xs) @ drop ?n xs @ z # spost"
      by (simp add: src_def w)
    have lens: "length spre + 1 + ?n = length (spre @ b # take ?n xs)"
      "?n = length (take ?n xs)" "int (length w) - 1 - int ?n = int (length (drop ?n xs))"
      using True by (auto simp: w)
    have out: "xs @ post = take ?n xs @ drop ?n xs @ post" by simp
    have "xs \<noteq> []" using True by auto
    then have "decode_name_loop (xs @ post) 0 src (length spre) (int (length w)) True
      = decode_name_loop (xs @ post) ?n src (length spre + 1 + ?n) (int (length w) - 1 - int ?n) False"
      unfolding eq using True by (auto simp: w r dns_sizes Let_def simp del: of_nat_unat)
    also have "\<dots> = decode_name_loop (take ?n xs @ drop ?n xs @ post) (length (take ?n xs))
        ((spre @ b # take ?n xs) @ drop ?n xs @ z # spost)
        (length (spre @ b # take ?n xs)) (int (length (drop ?n xs))) False"
      by (simp only: out src lens(1,3)) (simp only: lens(2) [symmetric])
    finally show ?thesis
      using decode_name_loop_rest [of "take ?n xs" "drop ?n xs" post "spre @ b # take ?n xs" "z # spost"]
        start True assms by (auto simp: w src_def post_def)
  qed
qed

section \<open>ascii_to_wire prints the labels between the dots\<close>

lemma split_dots_nonempty: "split_dots s \<noteq> []"
  by (induction s) (auto split: list.splits)

lemma split_dots_no_dot: "DOT \<notin> set l \<Longrightarrow> split_dots l = [l]"
  by (induction l) auto

lemma split_dots_dot: "DOT \<notin> set l \<Longrightarrow> split_dots (l @ DOT # r) = l # split_dots r"
  by (induction l) (auto simp: split_dots_nonempty)

lemma dotted_Cons: "ls \<noteq> [] \<Longrightarrow> dotted (l # ls) = l @ DOT # dotted ls"
  by (cases ls) simp_all

lemma dotted_split_dots: "dotted (split_dots s) = s"
proof (induction s)
  case (Cons c s)
  then show ?case
    using split_dots_nonempty [of s] by (cases "split_dots s") (auto simp: dotted_Cons)
qed simp

lemma split_dots_dotted:
  "ls \<noteq> [] \<Longrightarrow> (\<And>l. l \<in> set ls \<Longrightarrow> DOT \<notin> set l) \<Longrightarrow> split_dots (dotted ls) = ls"
proof (induction ls)
  case (Cons l ls)
  show ?case
  proof (cases "ls = []")
    case True
    with Cons.prems show ?thesis by (simp add: split_dots_no_dot)
  next
    case False
    with Cons show ?thesis by (simp add: split_dots_dot dotted_Cons del: dotted.simps(2))
  qed
qed simp

lemma length_wire_split_dots: "length (wire_labels (split_dots s)) = length s + 1"
  using length_dotted [OF split_dots_nonempty, of s] by (simp add: dotted_split_dots)

lemma first_dot_cases:
  obtains (no_dot) "DOT \<notin> set s"
    | (dot) l r where "s = l @ DOT # r" "DOT \<notin> set l"
  by (metis split_list_first)

lemma memchr_no_dot:
  "c \<notin> set w \<Longrightarrow> memchr (pre @ w) (length pre) (length w) c = Some None"
  by (subst memchr_None) simp_all

text \<open>One label: what the body of the loop stores, with the room it needs.\<close>

lemma ascii_to_wire_step:
  assumes r: "memchr (pre @ l @ tl') (length pre) (aend - length pre) DOT = Some r"
    and fin: "(case r of Some p \<Rightarrow> p | None \<Rightarrow> aend) = length pre + length l"
    and small: "length l < 2 ^ 31"
  shows "ascii_to_wire_loop (pre @ l @ tl') (length pre) aend (B @ post) (length B) level =
    (if \<not> label_ok l \<or> length B + 1 + length l > 255 then Some None
     else if length (wire_label l) \<le> length post then
       (let B' = B @ wire_label l; post' = drop (length l + 1) post in
        if r = None \<or> length pre + length l = aend then
          (if length B' + 1 > 255 then Some None
           else do { buf \<leftarrow> wr8 (B' @ post') (length B') 0; Some (Some (length B' + 1, buf, level + 1)) })
        else ascii_to_wire_loop (pre @ l @ tl') (length pre + length l + 1) aend (B' @ post') (length B') (level + 1))
     else None)"
proof -
  note eq = ascii_to_wire_loop.simps [of "pre @ l @ tl'" "length pre" aend "B @ post" "length B" level]
  have len: "to_i32 (int (length pre + length l) - int (length pre)) = int (length l)"
    using small by simp
  note eq' = eq [unfolded r Option.bind.bind_lunit Let_def fin len]
  show ?thesis
  proof (cases "\<not> label_ok l \<or> length B + 1 + length l > 255")
    case True
    then have "int (length l) < 1 \<or> int (length l) > 63 \<or> int (length B) + 1 + int (length l) > 255"
      by (auto simp: label_ok_def not_le)
    then show ?thesis
      using True unfolding eq' by (auto simp: dns_sizes)
  next
    case False
    then have lab: "l \<noteq> []" "length l \<le> 63" "length B + 1 + length l \<le> 255"
      by (auto simp: label_ok_def)
    show ?thesis
    proof (cases "length (wire_label l) \<le> length post")
      case fits: True
      then obtain p0 post0 where post: "post = p0 # post0" by (cases post) (auto simp: wire_label_def)
      have "put (B @ word_of_nat (length l) # post0) (length B + 1) l
          = Some (B @ word_of_nat (length l) # l @ drop (length l) post0)"
        using fits by (simp add: put_def post wire_label_def)
      moreover have "slice_at (pre @ l @ tl') (length pre) (length l) = Some l"
        by (simp add: slice_at_def)
      ultimately show ?thesis
        using False fits lab unfolding eq'
        by (simp add: dns_sizes Let_def post wire_label_def add.assoc)
    next
      case nofit: False
      have "put (B @ x # xs) (length B + 1) l = None" if "post = y # xs" for x y xs
        using nofit that by (simp add: put_def wire_label_def)
      moreover have "slice_at (pre @ l @ tl') (length pre) (length l) = Some l"
        by (simp add: slice_at_def)
      ultimately show ?thesis
        using False nofit lab unfolding eq'
        by (cases post) (simp_all add: dns_sizes Let_def wire_label_def wr8_def)
    qed
  qed
qed

lemma ascii_to_wire_loop_eq:
  assumes "length pre + length rest < 2 ^ 31" "length B + length post = 255"
  shows "ascii_to_wire_loop (pre @ rest) (length pre) (length (pre @ rest)) (B @ post) (length B) level =
    Some (if list_all label_ok (split_dots rest) \<and> length B + length rest + 2 \<le> 255
          then Some (length B + length rest + 2,
            B @ wire_labels (split_dots rest) @ 0 # drop (length rest + 2) post,
            level + word_of_nat (length (split_dots rest)))
          else None)"
  using assms
proof (induction "length rest" arbitrary: pre rest B post level rule: less_induct)
  case less
  show ?case
  proof (cases rest rule: first_dot_cases)
    case no_dot
    have "memchr (pre @ rest @ []) (length pre) (length (pre @ rest) - length pre) DOT = Some None"
      using memchr_no_dot [OF no_dot, of pre] by simp
    note step = ascii_to_wire_step [OF this, of B post level]
    have "wr8 (B @ wire_label rest @ drop (length rest + 1) post) (length (B @ wire_label rest)) 0
        = Some (B @ wire_label rest @ 0 # drop (length rest + 2) post)"
      if fits: "length B + length rest + 2 \<le> 255"
    proof -
      obtain x xs where x: "drop (length rest + 1) post = x # xs"
        using fits less.prems by (cases "drop (length rest + 1) post") auto
      then have "xs = drop (length rest + 2) post" by (metis drop_Suc tl_drop list.sel(3) add_2_eq_Suc' Suc_eq_plus1)
      with x show ?thesis using wr8_append [of "B @ wire_label rest" x xs 0] by simp
    qed
    then show ?thesis
      using step less.prems
      by (auto simp: split_dots_no_dot [OF no_dot] wire_labels_def wire_label_def Let_def)
  next
    case (dot l r)
    have at: "memchr (pre @ l @ DOT # r) (length pre) (length (pre @ rest) - length pre) DOT
        = Some (Some (length pre + length l))"
      using memchr_append [OF dot(2), of "length rest" pre r] by (simp add: dot(1))
    have "length l < 2 ^ 31" using less.prems by (simp add: dot(1))
    note step = ascii_to_wire_step [OF at _ this, of B post level]
    have pre: "pre @ rest = (pre @ l @ [DOT]) @ r" by (simp add: dot(1))
    have "ascii_to_wire_loop ((pre @ l @ [DOT]) @ r) (length (pre @ l @ [DOT])) (length ((pre @ l @ [DOT]) @ r))
       ((B @ wire_label l) @ drop (length l + 1) post) (length (B @ wire_label l)) (level + 1) =
      Some (if list_all label_ok (split_dots r) \<and> length (B @ wire_label l) + length r + 2 \<le> 255
          then Some (length (B @ wire_label l) + length r + 2,
            (B @ wire_label l) @ wire_labels (split_dots r) @ 0 # drop (length r + 2) (drop (length l + 1) post),
            level + 1 + word_of_nat (length (split_dots r)))
          else None)" if "length B + 1 + length l \<le> 255"
      using less.prems that by (intro less.hyps) (auto simp: dot(1) wire_label_def)
    then show ?thesis
      using step less.prems
      by (auto simp: dot(1) split_dots_dot [OF dot(2)] wire_labels_def wire_label_def Let_def algebra_simps)
  qed
qed

section \<open>The suffixes of the question's name\<close>

text \<open>
  The suffixes of a name whose number of labels is one of the levels in \<open>interest\<close> (bit
  \<open>l - 1\<close> for level \<open>l\<close>), the longest first, and where they start when the name is at \<open>p\<close>.
\<close>

fun interest_suffixes :: "u8 \<Rightarrow> bytes list \<Rightarrow> bytes list list" where
  "interest_suffixes i [] = []"
| "interest_suffixes i (l # ls) =
     (if length ls < 8 \<and> bit i (length ls) then [l # ls] else []) @ interest_suffixes i ls"

fun suffix_offs :: "u8 \<Rightarrow> nat \<Rightarrow> bytes list \<Rightarrow> nat list" where
  "suffix_offs i p [] = []"
| "suffix_offs i p (l # ls) =
     (if length ls < 8 \<and> bit i (length ls) then [p] else []) @ suffix_offs i (p + 1 + length l) ls"

lemma qname_level_loop_stop: "e \<le> p \<Longrightarrow> qname_level_loop m p e lv = Some None"
  by (simp add: qname_level_loop.simps)

lemma qname_level_loop_eq:
  "0 \<notin> set w \<Longrightarrow> qname_level_loop (pre @ w @ 0 # post) (length pre) (length pre + length w + 1) lv
     = Some (map_option (\<lambda>ls. lv + length ls) (parse_labels w))"
proof (induction w arbitrary: pre lv rule: parse_labels.induct)
  case 1
  then show ?case by (simp add: qname_level_loop.simps)
next
  case (2 b xs)
  note eq = qname_level_loop.simps [of "pre @ (b # xs) @ 0 # post" "length pre"
      "length pre + length (b # xs) + 1" lv]
  have b: "b \<noteq> 0" "1 \<le> unat b" using "2.prems" by (auto simp: Suc_le_eq unat_gt_0)
  show ?case
  proof (cases "unat b \<le> length xs")
    case True
    have m: "pre @ (b # xs) @ 0 # post = (pre @ b # take (unat b) xs) @ drop (unat b) xs @ 0 # post"
      by simp
    have lens: "length pre + 1 + unat b = length (pre @ b # take (unat b) xs)"
      "length pre + length (b # xs) + 1
        = length (pre @ b # take (unat b) xs) + length (drop (unat b) xs) + 1"
      using True by simp_all
    have "qname_level_loop (pre @ (b # xs) @ 0 # post) (length pre + 1 + unat b)
        (length pre + length (b # xs) + 1) (lv + 1)
      = qname_level_loop ((pre @ b # take (unat b) xs) @ drop (unat b) xs @ 0 # post)
        (length (pre @ b # take (unat b) xs))
        (length (pre @ b # take (unat b) xs) + length (drop (unat b) xs) + 1) (lv + 1)"
      by (simp only: m lens)
    then show ?thesis
      using "2.IH" [of "pre @ b # take (unat b) xs" "lv + 1"] "2.prems" True b
      unfolding eq by (auto simp: dns_sizes option.map_comp o_def dest: in_set_dropD)
  next
    case False
    then show ?thesis
      using b unfolding eq by (auto simp: dns_sizes qname_level_loop_stop)
  qed
qed

lemma length_suffix_offs: "length (suffix_offs i p ls) = length (interest_suffixes i ls)"
  by (induction ls arbitrary: p) auto

lemma suffix_offs_le: "length (suffix_offs i p ls) \<le> min 8 (length ls)"
proof (induction ls arbitrary: p)
  case (Cons l ls)
  from Cons.IH [of "p + 1 + length l"] show ?case
    by (cases "length ls < 8") (simp_all add: min_def split: if_splits)
qed simp

lemma suffix_offs_le_8: "length (suffix_offs i p ls) \<le> 8"
  using suffix_offs_le [of i p ls] by simp

lemma qname_domains_loop_eq:
  "list_all label_ok ls \<Longrightarrow> length acc + min 8 (length ls) \<le> 8 \<Longrightarrow>
   qname_domains_loop (pre @ wire_labels ls @ post) (length pre) (length ls) i acc
     = Some (acc @ suffix_offs i (length pre) ls)"
proof (induction ls arbitrary: pre acc)
  case (Cons l ls)
  have b: "rd8 (pre @ wire_labels (l # ls) @ post) (length pre) = Some (word_of_nat (length l))"
    by (simp add: wire_labels_def wire_label_def)
  have n: "unat (word_of_nat (length l) :: u8) = length l"
    using Cons.prems by (simp add: label_ok_def)
  have "qname_domains_loop ((pre @ wire_label l) @ wire_labels ls @ post) (length (pre @ wire_label l))
      (length ls) i acc' = Some (acc' @ suffix_offs i (length (pre @ wire_label l)) ls)"
    if "length acc' + min 8 (length ls) \<le> 8" for acc'
    using Cons.prems that by (intro Cons.IH) auto
  then show ?case
    using Cons.prems b n by (auto simp: wire_labels_def wire_label_def)
qed simp

text \<open>The bytes from each stored pointer to \<^verbatim>\<open>domain_end\<close> are the suffix of that level.\<close>

lemma suffix_offs_bytes:
  "map (\<lambda>p. take (length pre + length (wire_labels ls) - p) (drop p (pre @ wire_labels ls @ post)))
      (suffix_offs i (length pre) ls) = map wire_labels (interest_suffixes i ls)"
proof (induction ls arbitrary: pre)
  case (Cons l ls)
  show ?case
    using Cons.IH [of "pre @ wire_label l"]
    by (simp add: wire_labels_def wire_label_def add.assoc)
qed simp

lemma takeWhile_upt:
  fixes P n defines "t \<equiv> length (takeWhile P [0..<n])"
  shows "t \<le> n" "j < t \<Longrightarrow> P j" "t < n \<Longrightarrow> \<not> P t"
proof -
  show le: "t \<le> n" using length_takeWhile_le [of P "[0..<n]"] by (simp add: t_def)
  show "P j" if j: "j < t"
  proof -
    have "takeWhile P [0..<n] ! j = j"
      using j le by (simp add: t_def takeWhile_nth)
    moreover have "takeWhile P [0..<n] ! j \<in> set (takeWhile P [0..<n])"
      using j by (simp add: t_def)
    ultimately show ?thesis by (auto dest: set_takeWhileD)
  qed
  show "\<not> P t" if "t < n"
    using nth_length_takeWhile [of P "[0..<n]"] that by (simp add: t_def)
qed

lemma ctz8_props:
  assumes "i \<noteq> 0"
  shows "ctz8 i < 8" "bit i (ctz8 i)" "k < ctz8 i \<Longrightarrow> \<not> bit i k"
proof -
  have set: "\<exists>k < 8. bit i k"
  proof (rule ccontr)
    assume "\<not> (\<exists>k < 8. bit i k)"
    then have "i = 0" by (intro bit_word_eqI) auto
    with assms show False ..
  qed
  note tw = takeWhile_upt [where P = "\<lambda>i'. \<not> bit i i'" and n = 8, folded ctz8_def]
  show below: "k < ctz8 i \<Longrightarrow> \<not> bit i k" for k by (rule tw(2))
  have "ctz8 i \<noteq> 8" using set below by auto
  then show "ctz8 i < 8" using tw(1) by simp
  then show "bit i (ctz8 i)" using tw(3) by simp
qed

lemma interest_suffixes_below: "(\<forall>k < length ls. \<not> bit i k) \<Longrightarrow> interest_suffixes i ls = []"
  by (induction ls) auto

lemma interest_suffixes_above: "k < length ls \<Longrightarrow> k < 8 \<Longrightarrow> bit i k \<Longrightarrow> interest_suffixes i ls \<noteq> []"
  by (induction ls) (auto simp: less_Suc_eq)

section \<open>The conversions\<close>

text \<open>The text of a name: the root is a single dot.\<close>

definition name_text :: "bytes list \<Rightarrow> bytes" where
  "name_text ls = (if ls = [] then [DOT] else dotted ls)"

lemma decode_name_text:
  assumes "length w \<le> 254" "length buf = DNS_NAME_MAXLEN + 1"
  shows "\<exists>out. decode_name buf (spre @ w @ 0 # spost) (length spre) (int (length w) + 1)
      = Some (parse_labels w \<noteq> None, out)
    \<and> length out = DNS_NAME_MAXLEN + 1
    \<and> (\<forall>ls. parse_labels w = Some ls \<longrightarrow> take (length (name_text ls) + 1) out = name_text ls @ [0])"
proof (cases "w = []")
  case True
  then show ?thesis
    using decode_name_root [of buf 1 "spre @ 0 # spost" "length spre"] assms
    by (simp add: name_text_def dns_sizes)
next
  case False
  have "length w \<le> length buf" using assms by (simp add: dns_sizes)
  from decode_name_labels [OF False this, of spre 0 spost] obtain out where
    out: "decode_name buf (spre @ w @ 0 # spost) (length spre) (int (length w) + 1)
      = Some (parse_labels w \<noteq> None, out)" "length out = length buf"
    and text_out: "\<And>ls. parse_labels w = Some ls \<Longrightarrow> out = dotted ls @ 0 # drop (length w) buf"
    by auto
  have "ls \<noteq> []" if "parse_labels w = Some ls" for ls
    using that False by (auto simp: parse_labels_iff wire_labels_def)
  then show ?thesis
    using out text_out assms by (auto simp: dns_sizes name_text_def)
qed

lemma dns_wire_to_ascii_eq:
  assumes "length w \<le> 254" "length buf = DNS_NAME_MAXLEN + 1"
  shows "\<exists>out. dns_wire_to_ascii (w @ [0]) (int (length w) + 1) buf = Some (parse_labels w \<noteq> None, out)
    \<and> length out = DNS_NAME_MAXLEN + 1
    \<and> (\<forall>ls. parse_labels w = Some ls \<longrightarrow> take (length (name_text ls) + 1) out = name_text ls @ [0])"
  using decode_name_text [OF assms, of "[]" "[]"] assms
  by (auto simp: dns_wire_to_ascii_def dns_sizes)

lemma dns_ascii_to_wire_eq:
  assumes "length a < 2 ^ 31" "length buf = DNS_NAME_WIRE_MAXLEN"
  shows "dns_ascii_to_wire a (length a) buf =
    Some (if list_all label_ok (split_dots a) \<and> length a + 2 \<le> DNS_NAME_WIRE_MAXLEN
          then Some (length a + 2, wire_labels (split_dots a) @ 0 # drop (length a + 2) buf,
                     word_of_nat (length (split_dots a)))
          else None)"
  using ascii_to_wire_loop_eq [of "[]" a "[]" buf 0] assms
  by (simp add: dns_ascii_to_wire_def dns_sizes)

section \<open>Properties\<close>

text \<open>
  C29: \<open>dns_wire_to_ascii\<close> is memory safe on every wire name of 1 to 255 bytes that ends in a
  zero byte, with the 254-byte buffer its prototype asks for, although \<open>decode_name\<close> copies
  the whole name at once and then overwrites length bytes in place. It reports success
  exactly when the bytes before the final zero are a sequence of labels of 1 to 63 bytes, and
  then the buffer starts with the NUL-terminated text of the name: its labels separated by
  dots, or one dot for the root.
\<close>
theorem dns_wire_to_ascii_correct:
  assumes "length w \<le> 254" "length buf = DNS_NAME_MAXLEN + 1"
  shows "\<exists>out. dns_wire_to_ascii (w @ [0]) (int (length w) + 1) buf = Some (parse_labels w \<noteq> None, out)
    \<and> length out = DNS_NAME_MAXLEN + 1
    \<and> (\<forall>ls. parse_labels w = Some ls \<longrightarrow> take (length (name_text ls) + 1) out = name_text ls @ [0])"
  by (rule dns_wire_to_ascii_eq [OF assms])

theorem dns_wire_to_ascii_correct_witness:
  "\<exists>out. dns_wire_to_ascii ([2, 99, 110, 1, 97] @ [0]) (int (length [2, 99, 110, 1, 97 :: u8]) + 1)
       (replicate 254 7) = Some (True, out) \<and> take 5 out = [99, 110, DOT, 97, 0]"
proof -
  have "parse_labels [2, 99, 110, 1, 97] = Some [[99, 110], [97]]" by simp
  then show ?thesis
    using dns_wire_to_ascii_correct [of "[2, 99, 110, 1, 97]" "replicate 254 7"]
    by (auto simp: dns_sizes name_text_def simp flip: numeral_2_eq_2)
qed

text \<open>
  C30: \<open>dns_ascii_to_wire\<close> never writes outside its 255-byte buffer, for an ASCII name of any
  length an \<open>int\<close> can measure. It accepts a name exactly when every part between two dots
  has 1 to 63 bytes and the wire form fits 255 bytes, and then stores the length-prefixed
  labels and the final zero, returns their number of bytes and the number of labels, and
  leaves the rest of the buffer untouched.
\<close>
theorem dns_ascii_to_wire_correct:
  assumes "length a < 2 ^ 31" "length buf = DNS_NAME_WIRE_MAXLEN"
  shows "dns_ascii_to_wire a (length a) buf =
    Some (if list_all label_ok (split_dots a) \<and> length a + 2 \<le> DNS_NAME_WIRE_MAXLEN
          then Some (length a + 2, wire_labels (split_dots a) @ 0 # drop (length a + 2) buf,
                     word_of_nat (length (split_dots a)))
          else None)"
  by (rule dns_ascii_to_wire_eq [OF assms])

theorem dns_ascii_to_wire_correct_witness:
  "dns_ascii_to_wire [97, DOT, 98] 3 (replicate 255 7)
     = Some (Some (5, [1, 97, 1, 98, 0] @ replicate 250 7, 2))
   \<and> dns_ascii_to_wire [97, DOT] 2 (replicate 255 7) = Some None"
  using dns_ascii_to_wire_correct [of "[97, DOT, 98]" "replicate 255 7"]
    dns_ascii_to_wire_correct [of "[97, DOT]" "replicate 255 7"]
  by (simp add: dns_sizes DOT_def label_ok_def wire_labels_def wire_label_def flip: numeral_2_eq_2)

text \<open>
  C31: Round trip. Whatever ASCII name \<open>dns_ascii_to_wire\<close> accepts, \<open>dns_wire_to_ascii\<close> of
  the stored wire name succeeds and gives back the same text, NUL terminated.
\<close>
theorem ascii_wire_ascii:
  assumes "length a < 2 ^ 31" "length buf = DNS_NAME_WIRE_MAXLEN" "length buf' = DNS_NAME_MAXLEN + 1"
    and conv: "dns_ascii_to_wire a (length a) buf = Some (Some (n, wire, level))"
  shows "\<exists>out. dns_wire_to_ascii (take n wire) (int n) buf' = Some (True, out)
    \<and> take (length a + 1) out = a @ [0]"
proof -
  let ?w = "wire_labels (split_dots a)"
  have ok: "list_all label_ok (split_dots a)" "length a + 2 \<le> 255" "n = length a + 2"
    "wire = ?w @ 0 # drop (length a + 2) buf"
    using conv dns_ascii_to_wire_eq [OF assms(1,2)] by (auto simp: dns_sizes split: if_splits)
  have "take n wire = ?w @ [0]" "int n = int (length ?w) + 1" "length ?w \<le> 254"
    using ok by (simp_all add: length_wire_split_dots)
  moreover have "parse_labels ?w = Some (split_dots a)"
    using parse_wire_labels [OF ok(1)] .
  moreover have "name_text (split_dots a) = a"
    by (simp add: name_text_def split_dots_nonempty dotted_split_dots)
  ultimately show ?thesis
    using dns_wire_to_ascii_eq [of ?w buf'] assms(3) by auto
qed

theorem ascii_wire_ascii_witness:
  "\<exists>out. dns_wire_to_ascii (take 5 ([1, 97, 1, 98, 0] @ replicate 250 7)) (int 5) (replicate 254 7)
       = Some (True, out) \<and> take 4 out = [97, DOT, 98] @ [0]"
proof -
  have "dns_ascii_to_wire [97, DOT, 98] (length [97, DOT, 98]) (replicate 255 7)
     = Some (Some (5, [1, 97, 1, 98, 0] @ replicate 250 7, 2))"
    by (subst dns_ascii_to_wire_eq)
       (simp_all add: dns_sizes DOT_def label_ok_def wire_labels_def wire_label_def)
  from ascii_wire_ascii [OF _ _ _ this, of "replicate 254 7"] show ?thesis
    by (simp add: dns_sizes flip: numeral_2_eq_2)
qed

text \<open>
  C32: Round trip. For a name other than the root whose labels contain no dot, converting the
  wire form to text and back gives the same wire name and its number of labels. (The text of
  the root is a dot, which \<open>dns_ascii_to_wire\<close> rejects.)
\<close>
theorem wire_ascii_wire:
  assumes ok: "list_all label_ok ls" "ls \<noteq> []" "\<And>l. l \<in> set ls \<Longrightarrow> DOT \<notin> set l"
    and w: "w = wire_labels ls" "length w \<le> 254"
    and buf: "length buf = DNS_NAME_MAXLEN + 1" "length buf' = DNS_NAME_WIRE_MAXLEN"
  shows "\<exists>out. dns_wire_to_ascii (w @ [0]) (int (length w) + 1) buf = Some (True, out)
    \<and> dns_ascii_to_wire (take (length w - 1) out) (length w - 1) buf'
        = Some (Some (length w + 1, w @ 0 # drop (length w + 1) buf', word_of_nat (length ls)))"
proof -
  have parse: "parse_labels w = Some ls" using parse_wire_labels [OF ok(1)] w by simp
  obtain out where out: "dns_wire_to_ascii (w @ [0]) (int (length w) + 1) buf = Some (True, out)"
    "length out = 254" "take (length (dotted ls) + 1) out = dotted ls @ [0]"
    using dns_wire_to_ascii_eq [OF w(2) buf(1)] parse ok(2) by (auto simp: name_text_def dns_sizes)
  have split: "split_dots (dotted ls) = ls" using split_dots_dotted ok(2,3) by blast
  have len: "length (dotted ls) + 1 = length w" using length_dotted [OF ok(2)] w by simp
  have "take (length w - 1) out = dotted ls"
    using out(3) len by (metis Suc_eq_plus1 add_diff_cancel_right' append_eq_conv_conj diff_le_self
        le_add1 min_def take_take)
  moreover have "length (dotted ls) = length w - 1" "length (dotted ls) + 2 = length w + 1"
    using len by simp_all
  ultimately show ?thesis
    using dns_ascii_to_wire_eq [of "dotted ls" buf'] out len split ok(1) w buf(2)
    by (auto simp: dns_sizes)
qed

theorem wire_ascii_wire_witness:
  "\<exists>out. dns_wire_to_ascii (wire_labels [[97], [98]] @ [0]) (int (length (wire_labels [[97], [98]])) + 1)
       (replicate 254 7) = Some (True, out)
    \<and> dns_ascii_to_wire (take (length (wire_labels [[97], [98]]) - 1) out)
        (length (wire_labels [[97], [98]]) - 1) (replicate 255 7)
       = Some (Some (length (wire_labels [[97], [98]]) + 1,
           wire_labels [[97], [98]] @ 0 # drop (length (wire_labels [[97], [98]]) + 1) (replicate 255 7),
           word_of_nat (length [[97], [98 :: u8]])))"
  by (rule wire_ascii_wire)
     (auto simp: label_ok_def DOT_def wire_labels_def wire_label_def dns_sizes)

lemma dns_qname_domains_eq:
  assumes "length hdr = HEADER_LEN" "0 \<notin> set w" "interest \<noteq> 0"
    and msg_def: "msg = hdr @ w @ 0 # rest"
  shows "case parse_labels w of
      None \<Rightarrow> dns_qname_domains msg (length w + 1) interest = Some (-1, [], None)
    | Some ls \<Rightarrow> \<exists>ds end_ptr. dns_qname_domains msg (length w + 1) interest = Some (int (length ds), ds, end_ptr)
        \<and> length ds \<le> 8
        \<and> end_ptr = (if ds = [] then None else Some (HEADER_LEN + length w))
        \<and> map (\<lambda>p. take (HEADER_LEN + length w - p) (drop p msg)) ds
            = map wire_labels (interest_suffixes interest ls)"
proof (cases "parse_labels w")
  case None
  then show ?thesis
    using qname_level_loop_eq [OF assms(2), of hdr rest 0] assms(1,3)
    by (simp add: dns_qname_domains_def msg_def Let_def add.assoc)
next
  case (Some ls)
  then have w: "w = wire_labels ls" "list_all label_ok ls" by (auto simp: parse_labels_iff)
  let ?ds = "suffix_offs interest HEADER_LEN ls"
  note ctz = ctz8_props [OF assms(3)]
  have lv: "qname_level_loop msg HEADER_LEN (HEADER_LEN + (length w + 1)) 0 = Some (Some (length ls))"
    using qname_level_loop_eq [OF assms(2), of hdr rest 0] assms(1) Some
    by (simp add: msg_def add.assoc)
  have dom: "qname_domains_loop msg HEADER_LEN (length ls) interest [] = Some ?ds"
    using qname_domains_loop_eq [OF w(2), of "[]" hdr "0 # rest" interest] assms(1)
    by (simp add: msg_def w(1))
  have bytes: "map (\<lambda>p. take (HEADER_LEN + length w - p) (drop p msg)) ?ds
      = map wire_labels (interest_suffixes interest ls)"
    using suffix_offs_bytes [of hdr ls "0 # rest" interest] assms(1) by (simp add: msg_def w(1))
  have empty: "?ds = []" if "length ls < ctz8 interest + 1"
    using that ctz(3) interest_suffixes_below [of ls interest]
      length_suffix_offs [of interest HEADER_LEN ls] by simp
  have nonempty: "?ds \<noteq> []" if "\<not> length ls < ctz8 interest + 1"
    using that ctz interest_suffixes_above [of "ctz8 interest" ls interest]
      length_suffix_offs [of interest HEADER_LEN ls] by auto
  show ?thesis
    using lv dom bytes empty nonempty assms(3) Some suffix_offs_le_8 [of interest HEADER_LEN ls]
    by (cases "length ls < ctz8 interest + 1")
       (simp_all add: dns_qname_domains_def Let_def)
qed

text \<open>
  C28: \<open>dns_qname_domains\<close> on a question name \<open>w @ [0]\<close> whose only zero byte is the last
  (what \<open>check_msg\<close> establishes) reads only the name and stores at most the eight pointers
  its array holds. If the name is not a sequence of labels of at most 63 bytes it returns -1.
  Otherwise the stored pointers delimit, together with the stored end pointer, exactly the
  suffixes whose number of labels is a level of \<open>interest_levels\<close>, the longest first, and
  their number is returned; the end pointer is stored when there is one.
\<close>
theorem dns_qname_domains_suffixes:
  assumes "length hdr = HEADER_LEN" "0 \<notin> set w" "interest \<noteq> 0"
    and msg_def: "msg = hdr @ w @ 0 # rest"
  shows "case parse_labels w of
      None \<Rightarrow> dns_qname_domains msg (length w + 1) interest = Some (-1, [], None)
    | Some ls \<Rightarrow> \<exists>ds end_ptr. dns_qname_domains msg (length w + 1) interest = Some (int (length ds), ds, end_ptr)
        \<and> length ds \<le> 8
        \<and> end_ptr = (if ds = [] then None else Some (HEADER_LEN + length w))
        \<and> map (\<lambda>p. take (HEADER_LEN + length w - p) (drop p msg)) ds
            = map wire_labels (interest_suffixes interest ls)"
  by (rule dns_qname_domains_eq [OF assms])

theorem dns_qname_domains_suffixes_witness:
  "\<exists>ds e. dns_qname_domains (replicate 12 0 @ [1, 97, 2, 99, 110] @ 0 # [0, 1, 0, 1])
        (length [1, 97, 2, 99, 110 :: u8] + 1) 3 = Some (int (length ds), ds, e)
    \<and> map (\<lambda>p. take (HEADER_LEN + length [1, 97, 2, 99, 110 :: u8] - p)
        (drop p (replicate 12 0 @ [1, 97, 2, 99, 110] @ 0 # [0, 1, 0, 1]))) ds
      = map wire_labels [[[97], [99, 110]], [[99, 110]]]"
proof -
  have "parse_labels [1, 97, 2, 99, 110] = Some [[97], [99, 110]]" by simp
  moreover have "interest_suffixes 3 [[97], [99, 110]] = [[[97], [99, 110]], [[99, 110]]]"
    by code_simp
  moreover note dns_qname_domains_suffixes [of "replicate 12 0" "[1, 97, 2, 99, 110]" 3 _ "[0, 1, 0, 1]",
      OF _ _ _ refl]
  ultimately show ?thesis
    unfolding HEADER_LEN_def by (simp del: list.map append.simps list.size) blast
qed

end
