(* ===== verification/Dns_Records.thy ===== *)
theory Dns_Records
  imports Dns_Header
begin

text \<open>
  The resource records of a DNS message in \<^verbatim>\<open>src/dns.c\<close>: \<open>skip_name\<close>, the iterator
  \<open>foreach_record\<close> with its callback, and the operations built on it: \<open>dns_get_bufsz\<close>,
  \<open>dns_test_ip\<close>, \<open>dns_add_ip\<close>, \<open>dns_get_ttl\<close>, \<open>dns_update_ttl\<close> and
  \<open>rm_additional\<close>. A remaining length is an \<^typ>\<open>int\<close> because \<^verbatim>\<open>skip_name\<close> may make it
  negative. The specification side parses the section into a list of \<open>rr\<close>; the locale
  \<open>record_visitor\<close> states what a callback promises about one record and derives what the
  iterator does with the whole section.
\<close>

section \<open>skip_name\<close>

definition RECORD_LEN :: nat where "RECORD_LEN = 10"

function skip_name_loop :: "bytes \<Rightarrow> nat \<Rightarrow> int \<Rightarrow> (nat \<times> int) option option" where
  "skip_name_loop m ptr len =
     (if len > 0 then do {
        b \<leftarrow> rd8 m ptr;
        let label_len = unat b;
        if label_len = 0 then Some (Some (ptr + 1, len - 1))
        else if label_len \<ge> DNS_NAME_PTR_MINVAL then Some (Some (ptr + 2, len - 2))
        else if label_len \<le> DNS_NAME_LABEL_MAXLEN
        then skip_name_loop m (ptr + (1 + label_len)) (len - (1 + int label_len))
        else Some None }
      else Some (Some (ptr, len)))"
  by pat_completeness auto
termination by (relation "measure (\<lambda>(m, ptr, len). nat len)") (auto simp del: of_nat_unat)

declare skip_name_loop.simps [simp del]

definition skip_name :: "bytes \<Rightarrow> nat \<Rightarrow> int \<Rightarrow> (nat \<times> int) option option" where
  "skip_name m ptr len = do {
     r \<leftarrow> skip_name_loop m ptr len;
     case r of None \<Rightarrow> Some None
     | Some (ptr, len) \<Rightarrow> if len < int RECORD_LEN then Some None else Some (Some (ptr, len)) }"

section \<open>foreach_record\<close>

text \<open>
  A callback gets the message, the offset of the record, \<open>rnamelen\<close> and the user data, and
  returns its result, \<^verbatim>\<open>is_break\<close>, the message and the user data. The loop returns
  \<open>None\<close> for \<^verbatim>\<open>return false\<close> and otherwise the final \<open>ptr\<close> and \<open>len\<close>.
\<close>

type_synonym 'u record_cb = "bytes \<Rightarrow> nat \<Rightarrow> int \<Rightarrow> 'u \<Rightarrow> (bool \<times> bool \<times> bytes \<times> 'u) option"

fun foreach_record_loop ::
    "'u record_cb option \<Rightarrow> nat \<Rightarrow> bytes \<Rightarrow> nat \<Rightarrow> int \<Rightarrow> 'u \<Rightarrow> ((nat \<times> int) option \<times> bytes \<times> 'u) option" where
  "foreach_record_loop f 0 m ptr len ud = Some (Some (ptr, len), m, ud)"
| "foreach_record_loop f (Suc n) m ptr len ud = do {
     let old_len = len;
     r \<leftarrow> skip_name m ptr len;
     case r of None \<Rightarrow> Some (None, m, ud)
     | Some (ptr, len) \<Rightarrow> do {
         let rnamelen = old_len - len;
         let rec = ptr;
         rdatalen \<leftarrow> rd16 m (rec + 8);
         let recordlen = RECORD_LEN + unat rdatalen;
         if len < int recordlen then Some (None, m, ud)
         else do {
           let ptr = ptr + recordlen;
           let len = len - int recordlen;
           case f of None \<Rightarrow> foreach_record_loop f n m ptr len ud
           | Some cb \<Rightarrow> do {
               (ok, is_break, m, ud) \<leftarrow> cb m rec rnamelen ud;
               if \<not> ok then Some (None, m, ud)
               else if is_break then Some (Some (ptr, len), m, ud)
               else foreach_record_loop f n m ptr len ud } } } }"

text \<open>The result, \<open>*p_ptr\<close> and \<open>*p_len\<close>, which a failure leaves alone.\<close>

definition foreach_record ::
    "bytes \<Rightarrow> nat \<Rightarrow> int \<Rightarrow> int \<Rightarrow> 'u record_cb option \<Rightarrow> 'u \<Rightarrow> (bool \<times> nat \<times> int \<times> bytes \<times> 'u) option" where
  "foreach_record m ptr len count f ud =
     (if count \<le> 0 then Some (True, ptr, len, m, ud)
      else do {
        (r, m, ud) \<leftarrow> foreach_record_loop f (nat count) m ptr len ud;
        case r of None \<Rightarrow> Some (False, ptr, len, m, ud)
        | Some (ptr', len') \<Rightarrow> Some (True, ptr', len', m, ud) })"

definition skip_record :: "bytes \<Rightarrow> nat \<Rightarrow> int \<Rightarrow> int \<Rightarrow> (bool \<times> nat \<times> int) option" where
  "skip_record m ptr len count = do {
     (ok, ptr, len, m, u) \<leftarrow> foreach_record m ptr len count None ();
     Some (ok, ptr, len) }"

section \<open>The operations\<close>

definition get_records_count :: "bytes \<Rightarrow> int option" where
  "get_records_count m = do {
     an \<leftarrow> get_answer_count m; ns \<leftarrow> get_authority_count m; ar \<leftarrow> get_additional_count m;
     Some (int (unat an) + int (unat ns) + int (unat ar)) }"

text \<open>\<^verbatim>\<open>move_to_records\<close>: the new offset and the remaining length.\<close>

definition move_to_records :: "int \<Rightarrow> nat \<Rightarrow> nat \<times> int" where
  "move_to_records len qnamelen = (msg_minlen qnamelen, len - int (msg_minlen qnamelen))"

subsection \<open>dns_get_bufsz\<close>

definition DNS_EDNS_MINSIZE :: nat where "DNS_EDNS_MINSIZE = 512"
definition DNS_EDNS_MAXSIZE :: nat where "DNS_EDNS_MAXSIZE = 4096"

definition get_bufsz :: "u16 record_cb" where
  "get_bufsz m rec rnamelen bufsz = do {
     rtype \<leftarrow> rd16 m rec;
     if rtype = DNS_TYPE_OPT then do {
       sz \<leftarrow> rd16 m (rec + 2);
       let sz = (if unat sz < DNS_EDNS_MINSIZE then word_of_nat DNS_EDNS_MINSIZE
                 else if unat sz > DNS_EDNS_MAXSIZE then word_of_nat DNS_EDNS_MAXSIZE else sz);
       Some (True, True, m, sz) }
     else Some (True, False, m, bufsz) }"

definition dns_get_bufsz :: "bytes \<Rightarrow> int \<Rightarrow> nat \<Rightarrow> u16 option" where
  "dns_get_bufsz msg len qnamelen = do {
     let bufsz = word_of_nat DNS_EDNS_MINSIZE;
     ar \<leftarrow> get_additional_count msg;
     let additional_count = int (unat ar);
     if additional_count \<le> 0 then Some bufsz
     else do {
       an \<leftarrow> get_answer_count msg;
       ns \<leftarrow> get_authority_count msg;
       let (ptr, len) = move_to_records len qnamelen;
       (ok, ptr, len) \<leftarrow> skip_record msg ptr len (int (unat an) + int (unat ns));
       if \<not> ok then Some bufsz
       else do {
         (_, _, _, _, bufsz) \<leftarrow> foreach_record msg ptr len additional_count (Some get_bufsz) bufsz;
         Some bufsz } } }"

subsection \<open>dns_test_ip and dns_add_ip\<close>


definition DNS_TEST_IP_IS_CHINA_IP :: int where "DNS_TEST_IP_IS_CHINA_IP = 0"
definition DNS_TEST_IP_NON_CHINA_IP :: int where "DNS_TEST_IP_NON_CHINA_IP = 1"
definition DNS_TEST_IP_NO_IP_FOUND :: int where "DNS_TEST_IP_NO_IP_FOUND = 2"
definition DNS_TEST_IP_OTHER_CASE :: int where "DNS_TEST_IP_OTHER_CASE = 3"

definition check_ip_datalen :: "u16 \<Rightarrow> bytes \<Rightarrow> nat \<Rightarrow> bool option" where
  "check_ip_datalen rtype m rec = do {
     rdatalen \<leftarrow> rd16 m (rec + 8);
     let expect_len = (if rtype = DNS_TYPE_A then IPV4_LEN else IPV6_LEN);
     Some (unat rdatalen = expect_len) }"

text \<open>
  The set operations of \<^verbatim>\<open>src/ipset.c\<close> are arguments here (they are modelled in the ipset
  theories and supplied there); they act on a state \<open>'w\<close> and get the bytes of the address.
\<close>

type_synonym 'w ip_test = "bytes \<Rightarrow> bool \<Rightarrow> 'w \<Rightarrow> (bool \<times> 'w) option"
type_synonym 'w ip_add = "bytes \<Rightarrow> bool \<Rightarrow> 'w \<Rightarrow> 'w option"

definition test_ip :: "'w ip_test \<Rightarrow> (int \<times> 'w) record_cb" where
  "test_ip ipset_test_ip m rec rnamelen ud = do {
     let (res, w) = ud;
     rtype \<leftarrow> rd16 m rec;
     if rtype = DNS_TYPE_A \<or> rtype = DNS_TYPE_AAAA then do {
       good \<leftarrow> check_ip_datalen rtype m rec;
       if \<not> good then Some (False, False, m, ud)
       else do {
         let v4 = (rtype = DNS_TYPE_A);
         ip \<leftarrow> slice_at m (rec + RECORD_LEN) (if v4 then IPV4_LEN else IPV6_LEN);
         (china, w) \<leftarrow> ipset_test_ip ip v4 w;
         Some (True, True, m, (if china then DNS_TEST_IP_IS_CHINA_IP else DNS_TEST_IP_NON_CHINA_IP, w)) } }
     else Some (True, False, m, ud) }"

definition add_ip :: "'w ip_add \<Rightarrow> 'w record_cb" where
  "add_ip ipset_add_ip m rec rnamelen w = do {
     rtype \<leftarrow> rd16 m rec;
     if rtype = DNS_TYPE_A \<or> rtype = DNS_TYPE_AAAA then do {
       good \<leftarrow> check_ip_datalen rtype m rec;
       if \<not> good then Some (False, False, m, w)
       else do {
         let v4 = (rtype = DNS_TYPE_A);
         ip \<leftarrow> slice_at m (rec + RECORD_LEN) (if v4 then IPV4_LEN else IPV6_LEN);
         w \<leftarrow> ipset_add_ip ip v4 w;
         Some (True, False, m, w) } }
     else Some (True, False, m, w) }"

definition dns_test_ip :: "'w ip_test \<Rightarrow> bytes \<Rightarrow> int \<Rightarrow> nat \<Rightarrow> 'w \<Rightarrow> (int \<times> 'w) option" where
  "dns_test_ip ipset_test_ip msg len qnamelen w = do {
     good \<leftarrow> dns_is_good msg;
     if \<not> good then Some (DNS_TEST_IP_OTHER_CASE, w)
     else do {
       an \<leftarrow> get_answer_count msg;
       let (ptr, len) = move_to_records len qnamelen;
       (ok, _, _, _, res, w) \<leftarrow> foreach_record msg ptr len (int (unat an)) (Some (test_ip ipset_test_ip))
         (DNS_TEST_IP_NO_IP_FOUND, w);
       Some (if ok then res else DNS_TEST_IP_OTHER_CASE, w) } }"

definition dns_add_ip ::
    "'w ip_add \<Rightarrow> ('w \<Rightarrow> 'w option) \<Rightarrow> bytes \<Rightarrow> int \<Rightarrow> nat \<Rightarrow> 'w \<Rightarrow> 'w option" where
  "dns_add_ip ipset_add_ip ipset_end_add_ip msg len qnamelen w = do {
     good \<leftarrow> dns_is_good msg;
     if \<not> good then Some w
     else do {
       an \<leftarrow> get_answer_count msg;
       let (ptr, len) = move_to_records len qnamelen;
       (_, _, _, _, w) \<leftarrow> foreach_record msg ptr len (int (unat an)) (Some (add_ip ipset_add_ip)) w;
       ipset_end_add_ip w } }"

subsection \<open>dns_get_ttl and dns_update_ttl\<close>

record get_ttl_ud =
  u_min_ttl :: int
  u_max_ttl :: int
  u_ttl :: int
  u_nodata :: bool

definition get_ttl :: "get_ttl_ud record_cb" where
  "get_ttl m rec rnamelen u = do {
     rtype \<leftarrow> rd16 m rec;
     if rtype \<noteq> DNS_TYPE_OPT then do {
       raw \<leftarrow> rd32 m (rec + 4);
       let ttl = sint raw;
       let (ttl, overwritten) = (if u_min_ttl u > 0 \<and> ttl < u_min_ttl u then (u_min_ttl u, True) else (ttl, False));
       let (ttl, overwritten) = (if u_max_ttl u > 0 \<and> ttl > u_max_ttl u then (u_max_ttl u, True) else (ttl, overwritten));
       m \<leftarrow> (if overwritten then wr32 m (rec + 4) (word_of_int ttl) else Some m);
       let u = (if u_nodata u \<or> ttl < u_ttl u then u\<lparr>u_nodata := False, u_ttl := ttl\<rparr> else u);
       Some (True, False, m, u) }
     else Some (True, False, m, u) }"

definition update_ttl :: "int record_cb" where
  "update_ttl m rec rnamelen ttl_change = do {
     rtype \<leftarrow> rd16 m rec;
     if rtype \<noteq> DNS_TYPE_OPT then do {
       raw \<leftarrow> rd32 m (rec + 4);
       let ttl = to_i32 (sint raw + ttl_change);
       m \<leftarrow> wr32 m (rec + 4) (word_of_int (max ttl 1));
       Some (True, False, m, ttl_change) }
     else Some (True, False, m, ttl_change) }"

text \<open>The result and the message, whose TTLs are clamped in place.\<close>

definition dns_get_ttl :: "bytes \<Rightarrow> int \<Rightarrow> nat \<Rightarrow> int \<Rightarrow> int \<Rightarrow> int \<Rightarrow> (int \<times> bytes) option" where
  "dns_get_ttl msg len qnamelen nodata_ttl min_ttl max_ttl = do {
     good \<leftarrow> dns_is_good msg;
     if \<not> good then Some (-1, msg)
     else do {
       count \<leftarrow> get_records_count msg;
       let (ptr, len) = move_to_records len qnamelen;
       (ok, _, _, msg, ud) \<leftarrow> foreach_record msg ptr len count (Some get_ttl)
         \<lparr>u_min_ttl = min_ttl, u_max_ttl = max_ttl, u_ttl = nodata_ttl, u_nodata = True\<rparr>;
       Some (if ok then u_ttl ud else -1, msg) } }"

definition dns_update_ttl :: "bytes \<Rightarrow> int \<Rightarrow> nat \<Rightarrow> int \<Rightarrow> bytes option" where
  "dns_update_ttl msg len qnamelen ttl_change = do {
     count \<leftarrow> get_records_count msg;
     let (ptr, len) = move_to_records len qnamelen;
     (ok, _, len, msg, _) \<leftarrow> foreach_record msg ptr len count (Some update_ttl) ttl_change;
     _ \<leftarrow> c_assert ok;
     _ \<leftarrow> c_assert (len = 0);
     Some msg }"

subsection \<open>rm_additional\<close>

definition rm_additional :: "bytes \<Rightarrow> int \<Rightarrow> nat \<Rightarrow> (u16 \<times> bytes) option" where
  "rm_additional msg len qnamelen = do {
     good \<leftarrow> dns_is_good msg;
     if \<not> good then Some (word_of_int len, msg)
     else do {
       an \<leftarrow> get_answer_count msg;
       ns \<leftarrow> get_authority_count msg;
       let (ptr, len) = move_to_records len qnamelen;
       (ok, ptr, len) \<leftarrow> skip_record msg ptr len (int (unat an) + int (unat ns));
       if \<not> ok then Some (0, msg)
       else do {
         msg \<leftarrow> wr16 msg 10 0;
         Some (word_of_nat ptr, msg) } } }"

section \<open>Sections as lists of records\<close>

record rr =
  rr_name :: bytes
  rr_type :: u16
  rr_class :: u16
  rr_ttl :: u32
  rr_data :: bytes

definition encode_rr :: "rr \<Rightarrow> bytes" where
  "encode_rr r = rr_name r @ be16_bytes (rr_type r) @ be16_bytes (rr_class r) @ be32_bytes (rr_ttl r)
     @ be16_bytes (word_of_nat (length (rr_data r))) @ rr_data r"

definition encode_rrs :: "rr list \<Rightarrow> bytes" where
  "encode_rrs rs = concat (map encode_rr rs)"

text \<open>The length of the owner name at the start of a byte list, in any of its compressions.\<close>

function rname_len :: "bytes \<Rightarrow> nat option" where
  "rname_len [] = None"
| "rname_len (b # xs) =
     (if b = 0 then Some 1
      else if 192 \<le> unat b then Some 2
      else if unat b \<le> 63 \<and> unat b \<le> length xs
      then map_option (\<lambda>n. n + 1 + unat b) (rname_len (drop (unat b) xs)) else None)"
  by pat_completeness auto
termination by (relation "measure length") auto

definition parse_rr :: "bytes \<Rightarrow> (rr \<times> bytes) option" where
  "parse_rr xs = (case rname_len xs of None \<Rightarrow> None
   | Some n \<Rightarrow> if length xs < n + RECORD_LEN then None
     else let ys = drop n xs; dl = unat (be16 (ys ! 8) (ys ! 9)) in
       if length xs < n + RECORD_LEN + dl then None
       else Some (\<lparr>rr_name = take n xs, rr_type = be16 (ys ! 0) (ys ! 1), rr_class = be16 (ys ! 2) (ys ! 3),
          rr_ttl = be32 (ys ! 4) (ys ! 5) (ys ! 6) (ys ! 7), rr_data = take dl (drop RECORD_LEN ys)\<rparr>,
          drop (RECORD_LEN + dl) ys))"

text \<open>
  Up to \<open>n\<close> records from the start of \<open>xs\<close>: the records that parse, the bytes behind them,
  and whether there were \<open>n\<close>.
\<close>

fun records :: "nat \<Rightarrow> bytes \<Rightarrow> rr list \<times> bytes \<times> bool" where
  "records 0 xs = ([], xs, True)"
| "records (Suc n) xs = (case parse_rr xs of None \<Rightarrow> ([], xs, False)
   | Some (r, rest) \<Rightarrow> (let (rs, rem, c) = records n rest in (r # rs, rem, c)))"

text \<open>What a callback does to one record, and the same along a list.\<close>

type_synonym 'u record_act = "rr \<Rightarrow> 'u \<Rightarrow> (bool \<times> bool \<times> rr \<times> 'u) option"

fun visit :: "'u record_act \<Rightarrow> rr list \<Rightarrow> 'u \<Rightarrow> (bool \<times> bool \<times> rr list \<times> 'u) option" where
  "visit act [] u = Some (True, False, [], u)"
| "visit act (r # rs) u = do {
     (ok, brk, r', u) \<leftarrow> act r u;
     if \<not> ok then Some (False, False, r' # rs, u)
     else if brk then Some (True, True, r' # rs, u)
     else do { (ok, brk, rs', u) \<leftarrow> visit act rs u; Some (ok, brk, r' # rs', u) } }"

section \<open>Reading and writing the fields of an encoded record\<close>

lemma rd16_at: "i = length xs \<Longrightarrow> rd16 (xs @ be16_bytes w @ ys) i = Some w"
  by (simp add: be16_bytes_def)

lemma rd32_at: "i = length xs \<Longrightarrow> rd32 (xs @ be32_bytes w @ ys) i = Some w"
proof -
  obtain a b c d where w: "be32_bytes w = [a, b, c, d]" by (auto simp: be32_bytes_def be16_bytes_def)
  have "rd32 (xs @ [a, b, c, d] @ ys) (length xs) = Some (be32 a b c d)"
    by (simp add: rd32_def rd8_def nth_append)
  moreover have "be32 a b c d = w"
    using be32_of_bytes [of w] unfolding w by (simp add: numeral_2_eq_2 numeral_3_eq_3)
  ultimately show "i = length xs \<Longrightarrow> ?thesis" using w by simp
qed

lemma wr32_at: "i = length xs \<Longrightarrow> wr32 (xs @ be32_bytes w @ ys) i v = Some (xs @ be32_bytes v @ ys)"
  by (simp add: wr32_def)

lemma rr_fields [buf_simps]:
  fixes r pre post
  defines "m \<equiv> pre @ encode_rr r @ post" and "rec \<equiv> length pre + length (rr_name r)"
  shows "rd16 m rec = Some (rr_type r)"
    and "rd16 m (rec + 2) = Some (rr_class r)"
    and "rd32 m (rec + 4) = Some (rr_ttl r)"
    and "rd16 m (rec + 8) = Some (word_of_nat (length (rr_data r)))"
    and "k = length (rr_data r) \<Longrightarrow> slice_at m (rec + RECORD_LEN) k = Some (rr_data r)"
    and "wr32 m (rec + 4) v = Some (pre @ encode_rr (r\<lparr>rr_ttl := v\<rparr>) @ post)"
proof -
  let ?n = "pre @ rr_name r" and ?t = "be16_bytes (rr_type r)" and ?c = "be16_bytes (rr_class r)"
    and ?l = "be32_bytes (rr_ttl r)" and ?d = "be16_bytes (word_of_nat (length (rr_data r)))"
  have m: "m = ?n @ ?t @ ?c @ ?l @ ?d @ rr_data r @ post"
    by (simp add: m_def encode_rr_def)
  show "rd16 m rec = Some (rr_type r)"
    unfolding m by (rule rd16_at) (simp add: rec_def)
  show "rd16 m (rec + 2) = Some (rr_class r)"
    using rd16_at [of "rec + 2" "?n @ ?t" "rr_class r"] by (simp add: m rec_def)
  show "rd32 m (rec + 4) = Some (rr_ttl r)"
    using rd32_at [of "rec + 4" "?n @ ?t @ ?c" "rr_ttl r"] by (simp add: m rec_def)
  show "rd16 m (rec + 8) = Some (word_of_nat (length (rr_data r)))"
    using rd16_at [of "rec + 8" "?n @ ?t @ ?c @ ?l"] by (simp add: m rec_def)
  show "k = length (rr_data r) \<Longrightarrow> slice_at m (rec + RECORD_LEN) k = Some (rr_data r)"
    by (simp add: m rec_def slice_at_def RECORD_LEN_def)
  show "wr32 m (rec + 4) v = Some (pre @ encode_rr (r\<lparr>rr_ttl := v\<rparr>) @ post)"
    using wr32_at [of "rec + 4" "?n @ ?t @ ?c" "rr_ttl r" _ v] by (simp add: m rec_def encode_rr_def)
qed

lemma rr_class_at [buf_simps]:
  "rd16 (pre @ encode_rr r @ post) (Suc (Suc (length pre + length (rr_name r)))) = Some (rr_class r)"
  using rr_fields(2) [of pre r post] by simp

lemma length_encode_ttl [simp]: "length (encode_rr (r\<lparr>rr_ttl := v\<rparr>)) = length (encode_rr r)"
  by (simp add: encode_rr_def)

section \<open>Parsing\<close>

definition wf_rr :: "rr \<Rightarrow> bool" where
  "wf_rr r \<longleftrightarrow> rname_len (rr_name r) = Some (length (rr_name r)) \<and> length (rr_data r) < 65536"

lemma rname_len_append: "rname_len w = Some n \<Longrightarrow> rname_len (w @ x) = Some n"
  by (induction w arbitrary: n rule: rname_len.induct) (auto split: if_splits)

lemma rname_len_take: "rname_len w = Some n \<Longrightarrow> n \<le> length w \<Longrightarrow> rname_len (take n w) = Some n"
proof (induction w arbitrary: n rule: rname_len.induct)
  case (2 b xs)
  show ?case
  proof (cases "b = 0 \<or> 192 \<le> unat b")
    case True
    with 2 show ?thesis by (cases n) (auto split: if_splits)
  next
    case False
    with 2 obtain k where k: "rname_len (drop (unat b) xs) = Some k" "n = k + 1 + unat b"
      "unat b \<le> 63" "unat b \<le> length xs" by (auto split: if_splits)
    moreover have "drop (unat b) (take (k + unat b) xs) = take k (drop (unat b) xs)"
      by (simp add: take_drop add.commute)
    ultimately show ?thesis using 2 False by (simp add: min_def)
  qed
qed simp

lemma drop_record_header:
  "drop (RECORD_LEN + k) ([a, b, c, d, e, f, g, h, i, j] @ zs) = drop k zs"
  by (simp add: RECORD_LEN_def eval_nat_numeral)

lemma parse_rr_Some:
  assumes "parse_rr xs = Some (r, rest)"
  shows "xs = encode_rr r @ rest" "wf_rr r"
proof -
  obtain n where n: "rname_len xs = Some n" "n + RECORD_LEN \<le> length xs"
    using assms by (auto simp: parse_rr_def split: option.splits if_splits)
  define ys where "ys = drop n xs"
  define dl where "dl = unat (be16 (ys ! 8) (ys ! 9))"
  let ?r = "\<lparr>rr_name = take n xs, rr_type = be16 (ys ! 0) (ys ! 1), rr_class = be16 (ys ! 2) (ys ! 3),
      rr_ttl = be32 (ys ! 4) (ys ! 5) (ys ! 6) (ys ! 7), rr_data = take dl (drop RECORD_LEN ys)\<rparr>"
  have "parse_rr xs = (if length xs < n + RECORD_LEN + dl then None else Some (?r, drop (RECORD_LEN + dl) ys))"
    using n by (simp add: parse_rr_def ys_def dl_def Let_def del: nth_drop drop_drop)
  with assms have fits: "n + RECORD_LEN + dl \<le> length xs" and r: "r = ?r"
    and rest: "rest = drop (RECORD_LEN + dl) ys"
    by (auto split: if_splits)
  have "10 \<le> length ys" using n by (simp add: ys_def RECORD_LEN_def)
  then obtain a b c d e f g h i j zs where ys: "ys = [a, b, c, d, e, f, g, h, i, j] @ zs"
    by (auto simp: numeral_eq_Suc Suc_le_length_iff)
  have "length (rr_data r) = dl" using fits by (simp add: r ys_def)
  moreover have "word_of_nat dl = be16 i j" by (simp add: dl_def ys)
  moreover have "dl < 65536" by (simp add: dl_def)
  ultimately have "encode_rr r @ rest = take n xs @ ys"
    unfolding rest ys drop_record_header by (simp add: encode_rr_def r RECORD_LEN_def ys)
  then show "xs = encode_rr r @ rest" by (simp add: ys_def)
  have "length (rr_name r) = n" using n by (simp add: r)
  then show "wf_rr r"
    using rname_len_take [OF n(1)] n \<open>length (rr_data r) = dl\<close> \<open>dl < 65536\<close>
    by (simp add: wf_rr_def r)
qed

lemma parse_rr_encode: "wf_rr r \<Longrightarrow> parse_rr (encode_rr r @ rest) = Some (r, rest)"
proof -
  assume wf: "wf_rr r"
  let ?xs = "encode_rr r @ rest" and ?n = "length (rr_name r)"
  have n: "rname_len ?xs = Some ?n"
    using wf rname_len_append by (auto simp: wf_rr_def encode_rr_def)
  obtain a b where t: "be16_bytes (rr_type r) = [a, b]" "be16 a b = rr_type r"
    by (simp add: be16_bytes_def)
  obtain c d where cl: "be16_bytes (rr_class r) = [c, d]" "be16 c d = rr_class r"
    by (simp add: be16_bytes_def)
  obtain e f g h where tl: "be32_bytes (rr_ttl r) = [e, f, g, h]" "be32 e f g h = rr_ttl r"
    using be32_of_bytes [of "rr_ttl r"]
    by (simp add: be32_bytes_def be16_bytes_def numeral_2_eq_2 numeral_3_eq_3)
  obtain i j where dl: "be16_bytes (word_of_nat (length (rr_data r))) = [i, j]"
    "be16 i j = word_of_nat (length (rr_data r))"
    by (simp add: be16_bytes_def)
  have ys: "drop ?n ?xs = [a, b, c, d, e, f, g, h, i, j] @ rr_data r @ rest"
    by (simp add: encode_rr_def t cl tl dl)
  have len: "length ?xs = ?n + RECORD_LEN + length (rr_data r) + length rest"
    by (simp add: encode_rr_def RECORD_LEN_def)
  have data: "unat (be16 i j) = length (rr_data r)"
    using wf by (simp add: dl(2) wf_rr_def unat_of_nat)
  have name: "take ?n ?xs = rr_name r" by (simp add: encode_rr_def)
  show "parse_rr ?xs = Some (r, rest)"
    unfolding parse_rr_def n option.case Let_def ys name drop_record_header
    using t cl tl data len by (simp add: RECORD_LEN_def)
qed

lemma records_Some:
  "records n xs = (rs, rem, c) \<Longrightarrow> xs = encode_rrs rs @ rem \<and> list_all wf_rr rs \<and> length rs \<le> n
     \<and> (c \<longleftrightarrow> length rs = n)"
proof (induction n arbitrary: xs rs)
  case (Suc n)
  show ?case
  proof (cases "parse_rr xs")
    case (Some p)
    then obtain r rest where p: "parse_rr xs = Some (r, rest)" by (cases p) auto
    with Suc show ?thesis
      using parse_rr_Some [OF p] by (auto simp: encode_rrs_def split: prod.splits)
  qed (use Suc in \<open>auto simp: encode_rrs_def\<close>)
qed (auto simp: encode_rrs_def)

lemma records_encode:
  "list_all wf_rr rs \<Longrightarrow> records (length rs) (encode_rrs rs @ rest) = (rs, rest, True)"
  by (induction rs) (simp_all add: encode_rrs_def parse_rr_encode)

lemma records_add:
  "records (n + k) xs = (let (rs, rem, c) = records n xs in
     if c then (let (rs', rem', c') = records k rem in (rs @ rs', rem', c')) else (rs, rem, False))"
  by (induction n arbitrary: xs) (auto split: option.splits prod.splits)

section \<open>The iterator visits the records\<close>

lemma skip_name_loop_eq:
  "\<exists>r. skip_name_loop (pre @ xs @ post) (length pre) (int (length xs)) = Some r
    \<and> (case rname_len xs of Some n \<Rightarrow> r = Some (length pre + n, int (length xs) - int n)
       | None \<Rightarrow> (case r of None \<Rightarrow> True | Some (p, l) \<Rightarrow> l \<le> 0))"
proof (induction xs arbitrary: pre rule: rname_len.induct)
  case 1
  then show ?case by (simp add: skip_name_loop.simps)
next
  case (2 b xs)
  note eq = skip_name_loop.simps [of "pre @ (b # xs) @ post" "length pre" "int (length (b # xs))"]
  consider "b = 0" | "b \<noteq> 0" "192 \<le> unat b" | "b \<noteq> 0" "\<not> 192 \<le> unat b" "63 < unat b"
    | "b \<noteq> 0" "unat b \<le> 63" "unat b \<le> length xs" | "b \<noteq> 0" "unat b \<le> 63" "length xs < unat b"
    by linarith
  then show ?case
  proof cases
    case 4
    have nz: "unat b \<noteq> 0" using 4 by (simp add: unat_eq_zero)
    have m: "pre @ (b # xs) @ post = (pre @ b # take (unat b) xs) @ drop (unat b) xs @ post"
      by simp
    have lens: "length pre + (1 + unat b) = length (pre @ b # take (unat b) xs)"
      "int (length (b # xs)) - (1 + int (unat b)) = int (length (drop (unat b) xs))"
      using 4 by auto
    have "skip_name_loop (pre @ (b # xs) @ post) (length pre) (int (length (b # xs)))
      = skip_name_loop (pre @ (b # xs) @ post) (length pre + (1 + unat b))
          (int (length (b # xs)) - (1 + int (unat b)))"
      unfolding eq using 4 nz by (simp add: dns_sizes Let_def del: of_nat_unat)
    also have "\<dots> = skip_name_loop ((pre @ b # take (unat b) xs) @ drop (unat b) xs @ post)
        (length (pre @ b # take (unat b) xs)) (int (length (drop (unat b) xs)))"
      by (simp only: m lens)
    finally have "skip_name_loop (pre @ (b # xs) @ post) (length pre) (int (length (b # xs)))
      = skip_name_loop ((pre @ b # take (unat b) xs) @ drop (unat b) xs @ post)
        (length (pre @ b # take (unat b) xs)) (int (length (drop (unat b) xs)))" .
    moreover have "\<not> 192 \<le> unat b" using 4 by simp
    moreover obtain r where r: "skip_name_loop ((pre @ b # take (unat b) xs) @ drop (unat b) xs @ post)
        (length (pre @ b # take (unat b) xs)) (int (length (drop (unat b) xs))) = Some r"
      "case rname_len (drop (unat b) xs) of
         Some n \<Rightarrow> r = Some (length (pre @ b # take (unat b) xs) + n, int (length (drop (unat b) xs)) - int n)
       | None \<Rightarrow> (case r of None \<Rightarrow> True | Some (p, l) \<Rightarrow> l \<le> 0)"
      using "2.IH" [of "pre @ b # take (unat b) xs"] 4 \<open>\<not> 192 \<le> unat b\<close> by blast
    ultimately show ?thesis
      using 4 by (cases "rname_len (drop (unat b) xs)") (auto simp del: of_nat_unat)
  next
    case 5
    have nz: "unat b \<noteq> 0" using 5 by (simp add: unat_eq_zero)
    have stop: "skip_name_loop m p l = Some (Some (p, l))" if "l \<le> 0" for m p l
      using that by (simp add: skip_name_loop.simps)
    have "int (length (b # xs)) - (1 + int (unat b)) \<le> 0" using 5 by (simp del: of_nat_unat)
    then show ?thesis
      unfolding eq using 5 nz by (simp add: dns_sizes Let_def stop del: of_nat_unat)
  qed (unfold eq, auto simp: dns_sizes Let_def unat_eq_zero)
qed

lemma skip_name_eq:
  "skip_name (pre @ xs @ post) (length pre) (int (length xs)) = Some (case rname_len xs of None \<Rightarrow> None
     | Some n \<Rightarrow> if length xs < n + RECORD_LEN then None
                 else Some (length pre + n, int (length xs) - int n))"
  using skip_name_loop_eq [of pre xs post]
  by (auto simp: skip_name_def RECORD_LEN_def split: option.splits)

text \<open>One round of the loop: the record that \<^const>\<open>parse_rr\<close> finds.\<close>

lemma foreach_record_step:
  "foreach_record_loop f (Suc n) (pre @ xs @ post) (length pre) (int (length xs)) u =
   (case parse_rr xs of None \<Rightarrow> Some (None, pre @ xs @ post, u)
    | Some (r, rest) \<Rightarrow> (case f of
        None \<Rightarrow> foreach_record_loop f n (pre @ xs @ post) (length pre + length (encode_rr r)) (int (length rest)) u
      | Some cb \<Rightarrow> do {
          (ok, is_break, m, u) \<leftarrow> cb (pre @ xs @ post) (length pre + length (rr_name r)) (int (length (rr_name r))) u;
          if \<not> ok then Some (None, m, u)
          else if is_break then Some (Some (length pre + length (encode_rr r), int (length rest)), m, u)
          else foreach_record_loop f n m (length pre + length (encode_rr r)) (int (length rest)) u }))"
proof (cases "rname_len xs")
  case None
  then show ?thesis by (simp add: skip_name_eq parse_rr_def)
next
  case (Some n')
  show ?thesis
  proof (cases "length xs < n' + RECORD_LEN")
    case True
    with Some show ?thesis by (simp add: skip_name_eq parse_rr_def)
  next
    case fits: False
    define ys where "ys = drop n' xs"
    have d: "rd16 (pre @ xs @ post) (length pre + n' + 8) = Some (be16 (ys ! 8) (ys ! 9))"
      using fits by (simp add: rd16_eq nth_append ys_def RECORD_LEN_def ac_simps)
    show ?thesis
    proof (cases "parse_rr xs")
      case None
      then have "length xs < n' + RECORD_LEN + unat (be16 (ys ! 8) (ys ! 9))"
        using Some fits by (simp add: parse_rr_def ys_def Let_def split: if_splits)
      then show ?thesis
        using Some fits None d by (simp add: skip_name_eq Let_def del: of_nat_unat)
    next
      case (Some p)
      then obtain r rest where p: "parse_rr xs = Some (r, rest)" by (cases p) auto
      have r: "length (rr_name r) = n'" "length (rr_data r) = unat (be16 (ys ! 8) (ys ! 9))"
        and le: "n' + RECORD_LEN + unat (be16 (ys ! 8) (ys ! 9)) \<le> length xs"
        and rest: "length rest = length xs - (n' + RECORD_LEN + unat (be16 (ys ! 8) (ys ! 9)))"
        using p \<open>rname_len xs = Some n'\<close> fits
        by (auto simp: parse_rr_def ys_def Let_def RECORD_LEN_def split: if_splits)
      have len: "length (encode_rr r) = n' + RECORD_LEN + unat (be16 (ys ! 8) (ys ! 9))"
        by (simp add: encode_rr_def r RECORD_LEN_def)
      have nf: "(length xs < n' + RECORD_LEN) = False"
        and nl: "(int (length xs) - int n' < int (RECORD_LEN + unat (be16 (ys ! 8) (ys ! 9)))) = False"
        and ptr: "length pre + n' + (RECORD_LEN + unat (be16 (ys ! 8) (ys ! 9))) = length pre + length (encode_rr r)"
        and rn: "int (length xs) - (int (length xs) - int n') = int n'"
        and lr: "int (length xs) - int n' - int (RECORD_LEN + unat (be16 (ys ! 8) (ys ! 9))) = int (length rest)"
        using fits le by (auto simp: len rest simp del: of_nat_unat)
      show ?thesis
        by (simp only: foreach_record_loop.simps skip_name_eq \<open>rname_len xs = Some n'\<close> option.case Let_def
            nf nl if_False Option.bind.bind_lunit prod.case d ptr rn lr p r)
    qed
  qed
qed

lemma foreach_record_pos:
  "0 < n \<Longrightarrow> foreach_record m ptr len (int n) f u = do {
     (r, m, u) \<leftarrow> foreach_record_loop f n m ptr len u;
     case r of None \<Rightarrow> Some (False, ptr, len, m, u) | Some (ptr', len') \<Rightarrow> Some (True, ptr', len', m, u) }"
  by (simp add: foreach_record_def)

section \<open>The contract of a callback\<close>

text \<open>
  \<open>act\<close> says what the callback does with a record, wherever the record is in the message: the
  result and \<^verbatim>\<open>is_break\<close>, the record it leaves in place (of the same size) and the user
  data. From this the iterator visits the records of the section in order.
\<close>

locale record_visitor =
  fixes cb :: "'u record_cb" and act :: "'u record_act"
  assumes cb_act: "length (rr_data r) < 65536 \<Longrightarrow>
      cb (pre @ encode_rr r @ post) (length pre + length (rr_name r)) k u =
      map_option (\<lambda>(ok, brk, r', u'). (ok, brk, pre @ encode_rr r' @ post, u')) (act r u)"
    and act_size: "act r u = Some (ok, brk, r', u') \<Longrightarrow> length (encode_rr r') = length (encode_rr r)"
begin

lemma visit_size:
  "visit act rs u = Some (ok, brk, rs', u') \<Longrightarrow>
     length (encode_rrs rs') = length (encode_rrs rs)"
proof (induction rs arbitrary: u ok brk rs' u')
  case (Cons r rs)
  obtain ok1 brk1 r' u1 where a: "act r u = Some (ok1, brk1, r', u1)"
    using Cons.prems by (auto simp: bind_eq_Some_conv)
  with Cons.prems consider "rs' = r' # rs" | rs1 where "visit act rs u1 = Some (ok, brk, rs1, u')" "rs' = r' # rs1"
    by (auto simp: bind_eq_Some_conv split: if_splits)
  then show ?case
  proof cases
    case 2
    with Cons.IH [OF 2(1)] act_size [OF a] show ?thesis by (simp add: encode_rrs_def)
  qed (use act_size [OF a] in \<open>simp add: encode_rrs_def\<close>)
qed (simp add: encode_rrs_def)

lemma loop_visit:
  assumes "records n xs = (rs, rem, c)" "visit act rs u = Some (ok, brk, rs', u')"
  shows "\<exists>q. foreach_record_loop (Some cb) n (pre @ xs @ post) (length pre) (int (length xs)) u
      = Some (q, pre @ encode_rrs rs' @ rem @ post, u')
    \<and> (q \<noteq> None \<longleftrightarrow> ok \<and> (brk \<or> c))
    \<and> (ok \<and> \<not> brk \<and> c \<longrightarrow> q = Some (length pre + length (encode_rrs rs), int (length rem)))"
  using assms
proof (induction n arbitrary: pre xs rs u rs')
  case 0
  then show ?case by (auto simp: encode_rrs_def)
next
  case (Suc n)
  show ?case
  proof (cases "parse_rr xs")
    case None
    with Suc.prems show ?thesis by (auto simp: foreach_record_step encode_rrs_def simp del: foreach_record_loop.simps)
  next
    case (Some p)
    then obtain r rest where p: "parse_rr xs = Some (r, rest)" by (cases p) auto
    obtain rs0 where rs: "records n rest = (rs0, rem, c)" "rs = r # rs0"
      using Suc.prems(1) p by (auto split: prod.splits)
    have xs: "xs = encode_rr r @ rest" and wf: "length (rr_data r) < 65536"
      using parse_rr_Some [OF p] by (auto simp: wf_rr_def)
    have rest: "rest = encode_rrs rs0 @ rem" using records_Some [OF rs(1)] by simp
    obtain ok1 brk1 r' u1 where a: "act r u = Some (ok1, brk1, r', u1)"
      using Suc.prems(2) rs by (auto simp: bind_eq_Some_conv)
    have cb: "cb (pre @ xs @ post) (length pre + length (rr_name r)) k u
        = Some (ok1, brk1, pre @ encode_rr r' @ rest @ post, u1)" for k
      using cb_act [OF wf, of pre "rest @ post" k u] a by (simp add: xs)
    have size: "length (encode_rr r') = length (encode_rr r)" using act_size [OF a] .
    show ?thesis
    proof (cases "ok1 \<and> \<not> brk1")
      case False
      with Suc.prems(2) rs(2) a show ?thesis
        by (auto simp: foreach_record_step p cb rest encode_rrs_def simp del: foreach_record_loop.simps)
    next
      case True
      then obtain rs1 where v: "visit act rs0 u1 = Some (ok, brk, rs1, u')" "rs' = r' # rs1"
        using Suc.prems(2) rs a by (auto simp: bind_eq_Some_conv)
      obtain q where q: "foreach_record_loop (Some cb) n ((pre @ encode_rr r') @ rest @ post)
          (length (pre @ encode_rr r')) (int (length rest)) u1
          = Some (q, (pre @ encode_rr r') @ encode_rrs rs1 @ rem @ post, u')"
        "q \<noteq> None \<longleftrightarrow> ok \<and> (brk \<or> c)"
        "ok \<and> \<not> brk \<and> c \<longrightarrow> q = Some (length (pre @ encode_rr r') + length (encode_rrs rs0), int (length rem))"
        using Suc.IH [OF rs(1) v(1), of "pre @ encode_rr r'"] by blast
      then show ?thesis
        using True size
        by (auto simp: foreach_record_step p cb rs(2) v(2) encode_rrs_def simp del: foreach_record_loop.simps)
    qed
  qed
qed

lemma foreach_visit:
  assumes "records n xs = (rs, rem, c)" "visit act rs u = Some (ok, brk, rs', u')"
  shows "\<exists>p l. foreach_record (pre @ xs @ post) (length pre) (int (length xs)) (int n) (Some cb) u
      = Some (ok \<and> (brk \<or> c), p, l, pre @ encode_rrs rs' @ rem @ post, u')
    \<and> (ok \<and> \<not> brk \<and> c \<longrightarrow> p = length pre + length (encode_rrs rs) \<and> l = int (length rem))"
proof (cases "n = 0")
  case True
  with assms show ?thesis by (auto simp: foreach_record_def encode_rrs_def)
next
  case False
  obtain q where "foreach_record_loop (Some cb) n (pre @ xs @ post) (length pre) (int (length xs)) u
      = Some (q, pre @ encode_rrs rs' @ rem @ post, u')"
    "q \<noteq> None \<longleftrightarrow> ok \<and> (brk \<or> c)"
    "ok \<and> \<not> brk \<and> c \<longrightarrow> q = Some (length pre + length (encode_rrs rs), int (length rem))"
    using loop_visit [OF assms] by blast
  then show ?thesis
    using False by (cases q) (auto simp: foreach_record_pos)
qed

lemma loop_visit_None:
  assumes "records n xs = (rs, rem, c)" "visit act rs u = None"
  shows "foreach_record_loop (Some cb) n (pre @ xs @ post) (length pre) (int (length xs)) u = None"
  using assms
proof (induction n arbitrary: pre xs rs u)
  case (Suc n)
  then obtain r rest rs0 where p: "parse_rr xs = Some (r, rest)" and rs: "records n rest = (rs0, rem, c)"
    "rs = r # rs0"
    by (auto split: option.splits prod.splits)
  have xs: "xs = encode_rr r @ rest" and wf: "length (rr_data r) < 65536"
    using parse_rr_Some [OF p] by (auto simp: wf_rr_def)
  have cb: "cb (pre @ xs @ post) (length pre + length (rr_name r)) k u
      = map_option (\<lambda>(ok, brk, r', u'). (ok, brk, pre @ encode_rr r' @ rest @ post, u')) (act r u)" for k
    using cb_act [OF wf, of pre "rest @ post" k u] by (simp add: xs)
  show ?case
  proof (cases "act r u")
    case None
    then show ?thesis
      by (simp add: foreach_record_step p cb del: foreach_record_loop.simps)
  next
    case (Some a)
    then obtain r' u1 where a: "act r u = Some (True, False, r', u1)" "visit act rs0 u1 = None"
      using Suc.prems(2) rs by (cases a) (auto simp: bind_eq_None_conv split: if_splits prod.splits)
    have "length (encode_rr r') = length (encode_rr r)" using act_size [OF a(1)] .
    then show ?thesis
      using Suc.IH [OF rs(1) a(2), of "pre @ encode_rr r'"]
      by (simp add: foreach_record_step p cb a(1) del: foreach_record_loop.simps)
  qed
qed simp

lemma foreach_visit_None:
  "records n xs = (rs, rem, c) \<Longrightarrow> visit act rs u = None \<Longrightarrow>
     foreach_record (pre @ xs @ post) (length pre) (int (length xs)) (int n) (Some cb) u = None"
  by (cases "n = 0") (auto simp: foreach_record_pos loop_visit_None)

end

text \<open>\<^verbatim>\<open>f == NULL\<close> visits with a callback that does nothing.\<close>

definition skip_cb :: "unit record_cb" where
  "skip_cb m rec rnamelen u = Some (True, False, m, u)"

lemma foreach_record_loop_NULL:
  "foreach_record_loop None n m ptr len () = foreach_record_loop (Some skip_cb) n m ptr len ()"
  by (induction n arbitrary: m ptr len)
     (auto simp: skip_cb_def Let_def intro!: Option.bind_cong split: option.split)

lemma foreach_record_NULL:
  "foreach_record m ptr len count None () = foreach_record m ptr len count (Some skip_cb) ()"
  by (simp add: foreach_record_def foreach_record_loop_NULL)

interpretation skip: record_visitor skip_cb "\<lambda>r u. Some (True, False, r, u)"
  by unfold_locales (auto simp: skip_cb_def)

lemma visit_skip: "visit (\<lambda>r u. Some (True, False, r, u)) rs () = Some (True, False, rs, ())"
  by (induction rs) simp_all

lemma skip_record_eq:
  assumes "records n xs = (rs, rem, c)"
  shows "\<exists>p l. skip_record (pre @ xs @ post) (length pre) (int (length xs)) (int n) = Some (c, p, l)
    \<and> (c \<longrightarrow> p = length pre + length (encode_rrs rs) \<and> l = int (length rem))"
  using skip.foreach_visit [OF assms visit_skip, of pre post]
  by (auto simp: skip_record_def foreach_record_NULL)

section \<open>What the callbacks do with a record\<close>

definition clamp_bufsz :: "u16 \<Rightarrow> u16" where
  "clamp_bufsz w = word_of_nat (max 512 (min 4096 (unat w)))"

definition act_bufsz :: "u16 record_act" where
  "act_bufsz r u = Some (if rr_type r = DNS_TYPE_OPT then (True, True, r, clamp_bufsz (rr_class r))
     else (True, False, r, u))"

definition is_addr :: "rr \<Rightarrow> bool" where
  "is_addr r \<longleftrightarrow> rr_type r = DNS_TYPE_A \<or> rr_type r = DNS_TYPE_AAAA"

definition addr_ok :: "rr \<Rightarrow> bool" where
  "addr_ok r \<longleftrightarrow> length (rr_data r) = (if rr_type r = DNS_TYPE_A then 4 else 16)"

definition act_test :: "'w ip_test \<Rightarrow> (int \<times> 'w) record_act" where
  "act_test t r u = (if \<not> is_addr r then Some (True, False, r, u)
     else if \<not> addr_ok r then Some (False, False, r, u)
     else do { (china, w) \<leftarrow> t (rr_data r) (rr_type r = DNS_TYPE_A) (snd u);
               Some (True, True, r, (if china then 0 else 1, w)) })"

definition act_add :: "'w ip_add \<Rightarrow> 'w record_act" where
  "act_add a r w = (if \<not> is_addr r then Some (True, False, r, w)
     else if \<not> addr_ok r then Some (False, False, r, w)
     else do { w \<leftarrow> a (rr_data r) (rr_type r = DNS_TYPE_A) w; Some (True, False, r, w) })"

definition clamp_ttl :: "int \<Rightarrow> int \<Rightarrow> int \<Rightarrow> int" where
  "clamp_ttl mn mx t = (let t' = (if mn > 0 \<and> t < mn then mn else t) in if mx > 0 \<and> t' > mx then mx else t')"

definition rr_sttl :: "rr \<Rightarrow> int" where "rr_sttl r = sint (rr_ttl r)"

definition clamp_rr :: "int \<Rightarrow> int \<Rightarrow> rr \<Rightarrow> rr" where
  "clamp_rr mn mx r = (if rr_type r = DNS_TYPE_OPT then r else r\<lparr>rr_ttl := word_of_int (clamp_ttl mn mx (rr_sttl r))\<rparr>)"

definition act_get_ttl :: "get_ttl_ud record_act" where
  "act_get_ttl r u = Some (True, False, clamp_rr (u_min_ttl u) (u_max_ttl u) r,
     if rr_type r = DNS_TYPE_OPT then u
     else let t = clamp_ttl (u_min_ttl u) (u_max_ttl u) (rr_sttl r) in
       if u_nodata u \<or> t < u_ttl u then u\<lparr>u_nodata := False, u_ttl := t\<rparr> else u)"

definition update_rr :: "int \<Rightarrow> rr \<Rightarrow> rr" where
  "update_rr change r = (if rr_type r = DNS_TYPE_OPT then r
     else r\<lparr>rr_ttl := word_of_int (max (to_i32 (rr_sttl r + change)) 1)\<rparr>)"

lemma rr_ttl_self: "r\<lparr>rr_ttl := rr_ttl r\<rparr> = r"
  by simp

lemma length_encode_clamp [simp]: "length (encode_rr (clamp_rr mn mx r)) = length (encode_rr r)"
  by (simp add: clamp_rr_def)

lemma length_encode_update [simp]: "length (encode_rr (update_rr ch r)) = length (encode_rr r)"
  by (simp add: update_rr_def)

lemma check_ip_datalen_eq: "length (rr_data r) < 65536 \<Longrightarrow>
   check_ip_datalen (rr_type r) (pre @ encode_rr r @ post) (length pre + length (rr_name r)) = Some (addr_ok r)"
  by (simp add: check_ip_datalen_def buf_simps addr_ok_def IPV4_LEN_def IPV6_LEN_def unat_of_nat)

interpretation bufsz: record_visitor get_bufsz act_bufsz
proof unfold_locales
  have "(if unat sz < DNS_EDNS_MINSIZE then word_of_nat DNS_EDNS_MINSIZE
      else if unat sz > DNS_EDNS_MAXSIZE then word_of_nat DNS_EDNS_MAXSIZE else sz) = clamp_bufsz sz" for sz
    by (auto simp: clamp_bufsz_def DNS_EDNS_MINSIZE_def DNS_EDNS_MAXSIZE_def max_def min_def)
  then show "get_bufsz (pre @ encode_rr r @ post) (length pre + length (rr_name r)) k u =
      map_option (\<lambda>(ok, brk, r', u'). (ok, brk, pre @ encode_rr r' @ post, u')) (act_bufsz r u)"
    for r pre post k u
    by (simp add: get_bufsz_def act_bufsz_def buf_simps)
qed (auto simp: act_bufsz_def split: if_splits)

interpretation test: record_visitor "test_ip t" "act_test t"
proof unfold_locales
  fix r :: rr and pre post k and u :: "int \<times> 'a"
  assume len: "length (rr_data r) < 65536"
  have slice: "slice_at (pre @ encode_rr r @ post) (length pre + length (rr_name r) + RECORD_LEN) n
      = Some (rr_data r)" if "n = length (rr_data r)" for n
    using rr_fields(5) [OF that] by (simp add: add.assoc)
  show "test_ip t (pre @ encode_rr r @ post) (length pre + length (rr_name r)) k u =
      map_option (\<lambda>(ok, brk, r', u'). (ok, brk, pre @ encode_rr r' @ post, u')) (act_test t r u)"
    using check_ip_datalen_eq [OF len, of pre post]
    by (cases u; cases "addr_ok r")
      (auto simp: test_ip_def act_test_def buf_simps is_addr_def Let_def slice addr_ok_def IPV4_LEN_def
        IPV6_LEN_def DNS_TEST_IP_IS_CHINA_IP_def DNS_TEST_IP_NON_CHINA_IP_def dns_types map_option_bind
        intro!: Option.bind_cong split: if_splits)
qed (auto simp: act_test_def bind_eq_Some_conv split: if_splits)

interpretation add: record_visitor "add_ip a" "act_add a"
proof unfold_locales
  fix r :: rr and pre post k and u :: 'a
  assume len: "length (rr_data r) < 65536"
  have slice: "slice_at (pre @ encode_rr r @ post) (length pre + length (rr_name r) + RECORD_LEN) n
      = Some (rr_data r)" if "n = length (rr_data r)" for n
    using rr_fields(5) [OF that] by (simp add: add.assoc)
  show "add_ip a (pre @ encode_rr r @ post) (length pre + length (rr_name r)) k u =
      map_option (\<lambda>(ok, brk, r', u'). (ok, brk, pre @ encode_rr r' @ post, u')) (act_add a r u)"
    using check_ip_datalen_eq [OF len, of pre post]
    by (cases "addr_ok r")
      (auto simp: add_ip_def act_add_def buf_simps is_addr_def Let_def slice addr_ok_def IPV4_LEN_def
        IPV6_LEN_def dns_types map_option_bind intro!: Option.bind_cong split: if_splits)
qed (auto simp: act_add_def bind_eq_Some_conv split: if_splits)

interpretation get: record_visitor get_ttl act_get_ttl
proof unfold_locales
  fix r :: rr and pre post k and u :: get_ttl_ud
  show "get_ttl (pre @ encode_rr r @ post) (length pre + length (rr_name r)) k u =
      map_option (\<lambda>(ok, brk, r', u'). (ok, brk, pre @ encode_rr r' @ post, u')) (act_get_ttl r u)"
    by (auto simp: get_ttl_def act_get_ttl_def clamp_rr_def clamp_ttl_def rr_sttl_def buf_simps Let_def)
qed (auto simp: act_get_ttl_def)

interpretation update: record_visitor update_ttl "\<lambda>r ch. Some (True, False, update_rr ch r, ch)"
proof unfold_locales
  fix r :: rr and pre post k and u :: int
  show "update_ttl (pre @ encode_rr r @ post) (length pre + length (rr_name r)) k u =
      map_option (\<lambda>(ok, brk, r', u'). (ok, brk, pre @ encode_rr r' @ post, u'))
        (Some (True, False, update_rr u r, u))"
    by (simp add: update_ttl_def update_rr_def rr_sttl_def buf_simps Let_def)
qed auto

section \<open>The visits as functions of the list of records\<close>

lemma visit_bufsz:
  "\<exists>brk. visit act_bufsz rs u = Some (True, brk, rs,
     case find (\<lambda>r. rr_type r = DNS_TYPE_OPT) rs of None \<Rightarrow> u | Some r \<Rightarrow> clamp_bufsz (rr_class r))"
  by (induction rs) (auto simp: act_bufsz_def)

lemma visit_test:
  "visit (act_test t) rs (res, w) = (case find is_addr rs of
     None \<Rightarrow> Some (True, False, rs, (res, w))
   | Some r \<Rightarrow> if \<not> addr_ok r then Some (False, False, rs, (res, w))
       else map_option (\<lambda>(china, w'). (True, True, rs, (if china then 0 else 1, w')))
              (t (rr_data r) (rr_type r = DNS_TYPE_A) w))"
  by (induction rs) (auto simp: act_test_def map_option_bind map_conv_bind_option
      intro!: Option.bind_cong split: option.split)

text \<open>The addresses of a list of records are added in order, up to one of a wrong size.\<close>

fun add_addrs :: "'w ip_add \<Rightarrow> rr list \<Rightarrow> 'w \<Rightarrow> 'w option" where
  "add_addrs a [] w = Some w"
| "add_addrs a (r # rs) w =
     (if \<not> is_addr r then add_addrs a rs w
      else if \<not> addr_ok r then Some w
      else do { w \<leftarrow> a (rr_data r) (rr_type r = DNS_TYPE_A) w; add_addrs a rs w })"

lemma visit_add:
  "visit (act_add a) rs w = map_option (\<lambda>w'. (\<forall>r \<in> set rs. is_addr r \<longrightarrow> addr_ok r, False, rs, w'))
    (add_addrs a rs w)"
proof (induction rs arbitrary: w)
  case (Cons r rs)
  show ?case
  proof (cases "is_addr r \<and> addr_ok r")
    case True
    then show ?thesis
      using Cons
      by (cases "a (rr_data r) (rr_type r = DNS_TYPE_A) w"; cases "add_addrs a rs (the (a (rr_data r) (rr_type r = DNS_TYPE_A) w))")
        (auto simp: act_add_def)
  next
    case False
    then show ?thesis
      using Cons by (cases "add_addrs a rs w") (auto simp: act_add_def)
  qed
qed simp

definition non_opt :: "rr list \<Rightarrow> rr list" where
  "non_opt rs = filter (\<lambda>r. rr_type r \<noteq> DNS_TYPE_OPT) rs"

lemma visit_get_ttl:
  "\<exists>u'. visit act_get_ttl rs u = Some (True, False, map (clamp_rr (u_min_ttl u) (u_max_ttl u)) rs, u')
    \<and> u_min_ttl u' = u_min_ttl u \<and> u_max_ttl u' = u_max_ttl u
    \<and> u_nodata u' = (u_nodata u \<and> non_opt rs = [])
    \<and> u_ttl u' = (let ts = map (\<lambda>r. clamp_ttl (u_min_ttl u) (u_max_ttl u) (rr_sttl r)) (non_opt rs) in
        if ts = [] then u_ttl u else if u_nodata u then Min (set ts) else min (u_ttl u) (Min (set ts)))"
proof (induction rs arbitrary: u)
  case (Cons r rs)
  define u1 where "u1 = snd (snd (snd (the (act_get_ttl r u))))"
  have a: "act_get_ttl r u = Some (True, False, clamp_rr (u_min_ttl u) (u_max_ttl u) r, u1)"
    by (simp add: u1_def act_get_ttl_def)
  have keep: "u_min_ttl u1 = u_min_ttl u" "u_max_ttl u1 = u_max_ttl u"
    by (auto simp: u1_def act_get_ttl_def Let_def)
  let ?t = "clamp_ttl (u_min_ttl u) (u_max_ttl u) (rr_sttl r)"
  show ?case
  proof (cases "rr_type r = DNS_TYPE_OPT")
    case True
    then have "u1 = u" by (simp add: u1_def act_get_ttl_def)
    with Cons [of u] a True show ?thesis by (auto simp: non_opt_def)
  next
    case False
    then have "\<not> u_nodata u1" "u_ttl u1 = (if u_nodata u then ?t else min (u_ttl u) ?t)"
      by (auto simp: u1_def act_get_ttl_def Let_def)
    with Cons [of u1] a False keep show ?thesis
      by (cases "filter (\<lambda>r. rr_type r \<noteq> DNS_TYPE_OPT) rs = []")
        (auto simp: non_opt_def Let_def min.assoc simp del: set_filter)
  qed
qed (simp add: non_opt_def)

lemma visit_update: "visit (\<lambda>r ch. Some (True, False, update_rr ch r, ch)) rs ch
   = Some (True, False, map (update_rr ch) rs, ch)"
  by (induction rs) simp_all

section \<open>The operations on a whole message\<close>

text \<open>
  A message is \<open>hq @ xs @ post\<close>: header and question, the bytes of the record sections up to
  \<open>len\<close>, and what the buffer holds behind the message.
\<close>

definition hd_good :: "dns_header \<Rightarrow> bool" where
  "hd_good h \<longleftrightarrow> hd_tc h = 0 \<and> (hd_rcode h = 0 \<or> hd_rcode h = 3)"

lemma view_header_prefix: "12 \<le> length hq \<Longrightarrow> view_header (hq @ x) = view_header hq"
  by (cases "hq = []") (simp_all add: view_header_eq nth_append)

lemma view_accessors:
  assumes "view_header m = Some h"
  shows "get_question_count m = Some (hd_qdcount h)" "get_answer_count m = Some (hd_ancount h)"
    "get_authority_count m = Some (hd_nscount h)" "get_additional_count m = Some (hd_arcount h)"
    "hdr_get Qr m = Some (hd_qr h)" "hdr_get Tc m = Some (hd_tc h)"
    "dns_is_good m = Some (hd_good h)"
  using assms
  by (auto simp: view_header_def dns_is_good_def dns_get_rcode_def dns_is_tc_def hd_good_def dns_rcodes
      bind_eq_Some_conv)

lemma msg_view:
  assumes "length hq = msg_minlen qn" "view_header hq = Some h"
  shows "view_header (hq @ x) = Some h"
  using assms by (simp add: view_header_prefix msg_minlen_def dns_sizes)

lemma records_moved:
  "length hq = msg_minlen qn \<Longrightarrow> len = int (length hq + length xs) \<Longrightarrow>
     move_to_records len qn = (length hq, int (length xs))"
  by (simp add: move_to_records_def)

lemma dns_get_bufsz_eq:
  assumes hq: "length hq = msg_minlen qn" "view_header hq = Some h"
    and len: "len = int (length hq + length xs)"
    and rs: "records (unat (hd_ancount h) + unat (hd_nscount h)) xs = (rs, rem, c)"
  shows "dns_get_bufsz (hq @ xs @ post) len qn = Some (if \<not> c then 512
     else case find (\<lambda>r. rr_type r = DNS_TYPE_OPT) (fst (records (unat (hd_arcount h)) rem)) of
       None \<Rightarrow> 512 | Some r \<Rightarrow> clamp_bufsz (rr_class r))"
proof (cases "hd_arcount h = 0")
  case True
  then show ?thesis
    using view_accessors [OF msg_view [OF hq], of "xs @ post"]
    by (simp add: dns_get_bufsz_def DNS_EDNS_MINSIZE_def)
next
  case False
  then have ar: "\<not> int (unat (hd_arcount h)) \<le> 0" by (simp add: unat_eq_zero del: of_nat_unat)
  note acc = view_accessors [OF msg_view [OF hq], of "xs @ post"]
  obtain p l where skip: "skip_record (hq @ xs @ post) (length hq) (int (length xs))
      (int (unat (hd_ancount h) + unat (hd_nscount h))) = Some (c, p, l)"
    "c \<longrightarrow> p = length hq + length (encode_rrs rs) \<and> l = int (length rem)"
    using skip_record_eq [OF rs, of hq post] by blast
  note start = acc ar records_moved [OF hq(1) len] skip [unfolded of_nat_add]
  show ?thesis
  proof (cases c)
    case False
    then show ?thesis
      using start by (simp add: dns_get_bufsz_def DNS_EDNS_MINSIZE_def Let_def del: of_nat_unat)
  next
    case True
    have m: "hq @ xs @ post = (hq @ encode_rrs rs) @ rem @ post"
      using records_Some [OF rs] by simp
    obtain rs2 rem2 c2 where rs2: "records (unat (hd_arcount h)) rem = (rs2, rem2, c2)"
      by (cases "records (unat (hd_arcount h)) rem") auto
    let ?u = "case find (\<lambda>r. rr_type r = DNS_TYPE_OPT) rs2 of None \<Rightarrow> 512 | Some r \<Rightarrow> clamp_bufsz (rr_class r)"
    obtain brk where v: "visit act_bufsz rs2 512 = Some (True, brk, rs2, ?u)"
      using visit_bufsz by blast
    obtain ok p' l' m' where "foreach_record (hq @ xs @ post) (length hq + length (encode_rrs rs)) (int (length rem))
        (int (unat (hd_arcount h))) (Some get_bufsz) 512 = Some (ok, p', l', m', ?u)"
      using bufsz.foreach_visit [OF rs2 v, of "hq @ encode_rrs rs" post] m by auto
    then show ?thesis
      using True start rs2
      by (simp add: dns_get_bufsz_def DNS_EDNS_MINSIZE_def Let_def del: of_nat_unat)
  qed
qed

lemma dns_get_ttl_eq:
  assumes hq: "length hq = msg_minlen qn" "view_header hq = Some h" "hd_good h"
    and len: "len = int (length hq + length xs)"
    and rs: "records (unat (hd_ancount h) + unat (hd_nscount h) + unat (hd_arcount h)) xs = (rs, rem, c)"
  shows "dns_get_ttl (hq @ xs @ post) len qn nodata_ttl mn mx =
    Some (if \<not> c then -1
          else let ts = map (\<lambda>r. clamp_ttl mn mx (rr_sttl r)) (non_opt rs) in
            if ts = [] then nodata_ttl else Min (set ts),
          hq @ encode_rrs (map (clamp_rr mn mx) rs) @ rem @ post)"
proof -
  let ?u = "\<lparr>u_min_ttl = mn, u_max_ttl = mx, u_ttl = nodata_ttl, u_nodata = True\<rparr>"
  obtain u' where v: "visit act_get_ttl rs ?u = Some (True, False, map (clamp_rr mn mx) rs, u')"
    and u': "u_ttl u' = (let ts = map (\<lambda>r. clamp_ttl mn mx (rr_sttl r)) (non_opt rs) in
        if ts = [] then nodata_ttl else Min (set ts))"
    using visit_get_ttl [of rs ?u] by auto
  obtain p l where "foreach_record (hq @ xs @ post) (length hq) (int (length xs))
      (int (unat (hd_ancount h) + unat (hd_nscount h) + unat (hd_arcount h))) (Some get_ttl) ?u
    = Some (c, p, l, hq @ encode_rrs (map (clamp_rr mn mx) rs) @ rem @ post, u')"
    using get.foreach_visit [OF rs v, of hq post] by auto
  then show ?thesis
    using view_accessors [OF msg_view [OF hq(1,2)], of "xs @ post"] hq(3) records_moved [OF hq(1) len] u'
    by (simp add: dns_get_ttl_def get_records_count_def Let_def)
qed

lemma dns_update_ttl_eq:
  assumes hq: "length hq = msg_minlen qn" "view_header hq = Some h"
    and len: "len = int (length hq + length xs)"
    and rs: "records (unat (hd_ancount h) + unat (hd_nscount h) + unat (hd_arcount h)) xs = (rs, rem, c)"
  shows "dns_update_ttl (hq @ xs @ post) len qn change =
    (if c \<and> rem = [] then Some (hq @ encode_rrs (map (update_rr change) rs) @ post) else None)"
proof -
  obtain p l where "foreach_record (hq @ xs @ post) (length hq) (int (length xs))
      (int (unat (hd_ancount h) + unat (hd_nscount h) + unat (hd_arcount h))) (Some update_ttl) change
    = Some (c, p, l, hq @ encode_rrs (map (update_rr change) rs) @ rem @ post, change)"
    "c \<longrightarrow> l = int (length rem)"
    using update.foreach_visit [OF rs visit_update [of rs change], of hq post] by auto
  then show ?thesis
    using view_accessors [OF msg_view [OF hq(1,2)], of "xs @ post"] records_moved [OF hq(1) len]
    by (auto simp: dns_update_ttl_def get_records_count_def Let_def)
qed

lemma rm_additional_eq:
  assumes hq: "length hq = msg_minlen qn" "view_header hq = Some h" "hd_good h"
    and len: "len = int (length hq + length xs)"
    and rs: "records (unat (hd_ancount h) + unat (hd_nscount h)) xs = (rs, rem, c)"
  shows "\<exists>hq'. rm_additional (hq @ xs @ post) len qn =
      Some (if c then (word_of_nat (length hq + length (encode_rrs rs)), hq' @ xs @ post)
            else (0, hq @ xs @ post))
    \<and> length hq' = length hq \<and> view_header hq' = Some (h\<lparr>hd_arcount := 0\<rparr>) \<and> drop 12 hq' = drop 12 hq"
proof -
  have l12: "12 \<le> length hq" using hq(1) by (simp add: msg_minlen_def dns_sizes)
  obtain p l where skip: "skip_record (hq @ xs @ post) (length hq) (int (length xs))
      (int (unat (hd_ancount h) + unat (hd_nscount h))) = Some (c, p, l)"
    "c \<longrightarrow> p = length hq + length (encode_rrs rs) \<and> l = int (length rem)"
    using skip_record_eq [OF rs, of hq post] by blast
  obtain hq' where w: "wr16 hq 10 0 = Some hq'" "length hq' = length hq"
    using wr16_some [of 10 hq 0] l12 by auto
  have w': "wr16 (hq @ xs @ post) 10 0 = Some (hq' @ xs @ post)"
    using w l12 by (auto simp: wr16_eq list_update_append)
  have "view_header hq' = Some (h\<lparr>hd_arcount := 0\<rparr>)"
    using view_header_counts(3) [OF l12 w(1)] hq(2) by simp
  moreover have "drop 12 hq' = drop 12 hq" using wr16_drop [OF w(1)] by simp
  ultimately show ?thesis
    using view_accessors [OF msg_view [OF hq(1,2)], of "xs @ post"] hq(3) records_moved [OF hq(1) len] skip w w'
    by (intro exI [of _ hq']) (auto simp: rm_additional_def Let_def)
qed

lemma dns_test_ip_eq:
  assumes hq: "length hq = msg_minlen qn" "view_header hq = Some h" "hd_good h"
    and len: "len = int (length hq + length xs)"
    and rs: "records (unat (hd_ancount h)) xs = (rs, rem, c)"
  shows "dns_test_ip t (hq @ xs @ post) len qn w =
    (case find is_addr rs of
       None \<Rightarrow> Some (if c then 2 else 3, w)
     | Some r \<Rightarrow> if \<not> addr_ok r then Some (3, w)
         else map_option (\<lambda>(china, w'). (if china then 0 else 1, w')) (t (rr_data r) (rr_type r = DNS_TYPE_A) w))"
proof -
  note acc = view_accessors [OF msg_view [OF hq(1,2)], of "xs @ post"] hq(3) records_moved [OF hq(1) len]
  let ?v = "visit (act_test t) rs (2, w)"
  have fe: "\<exists>p l. foreach_record (hq @ xs @ post) (length hq) (int (length xs)) (int (unat (hd_ancount h)))
      (Some (test_ip t)) (2, w) = Some (ok \<and> (brk \<or> c), p, l, hq @ encode_rrs rs' @ rem @ post, u')"
    if "?v = Some (ok, brk, rs', u')" for ok brk rs' u'
    using test.foreach_visit [OF rs that, of hq post] by auto
  show ?thesis
  proof (cases "find is_addr rs")
    case None
    then obtain p l where "foreach_record (hq @ xs @ post) (length hq) (int (length xs)) (int (unat (hd_ancount h)))
      (Some (test_ip t)) (2, w) = Some (c, p, l, hq @ encode_rrs rs @ rem @ post, 2, w)"
      using fe [of True False rs "(2, w)"] by (auto simp: visit_test)
    with None acc show ?thesis
      by (simp add: dns_test_ip_def DNS_TEST_IP_NO_IP_FOUND_def DNS_TEST_IP_OTHER_CASE_def Let_def del: of_nat_unat)
  next
    case (Some r)
    show ?thesis
    proof (cases "addr_ok r")
      case False
      with Some obtain p l where "foreach_record (hq @ xs @ post) (length hq) (int (length xs))
          (int (unat (hd_ancount h))) (Some (test_ip t)) (2, w)
          = Some (False, p, l, hq @ encode_rrs rs @ rem @ post, 2, w)"
        using fe [of False False rs "(2, w)"] by (auto simp: visit_test)
      with Some False acc show ?thesis
        by (simp add: dns_test_ip_def DNS_TEST_IP_NO_IP_FOUND_def DNS_TEST_IP_OTHER_CASE_def Let_def del: of_nat_unat)
    next
      case True
      show ?thesis
      proof (cases "t (rr_data r) (rr_type r = DNS_TYPE_A) w")
        case None
        with Some True have "?v = None" by (simp add: visit_test)
        then have "foreach_record (hq @ xs @ post) (length hq) (int (length xs))
          (int (unat (hd_ancount h))) (Some (test_ip t)) (2, w) = None"
          by (rule test.foreach_visit_None [OF rs])
        with Some True None acc show ?thesis
          by (simp add: dns_test_ip_def DNS_TEST_IP_NO_IP_FOUND_def Let_def del: of_nat_unat)
      next
        case res: (Some cw)
        obtain china w' where cw: "cw = (china, w')" by (cases cw)
        obtain p l where "foreach_record (hq @ xs @ post) (length hq) (int (length xs))
            (int (unat (hd_ancount h))) (Some (test_ip t)) (2, w)
            = Some (True, p, l, hq @ encode_rrs rs @ rem @ post, if china then 0 else 1, w')"
          using fe [of True True rs "(if china then 0 else 1, w')"] Some True res cw
          by (auto simp: visit_test)
        with Some True res cw acc show ?thesis
          by (simp add: dns_test_ip_def DNS_TEST_IP_NO_IP_FOUND_def Let_def del: of_nat_unat)
      qed
    qed
  qed
qed

lemma dns_add_ip_eq:
  assumes hq: "length hq = msg_minlen qn" "view_header hq = Some h" "hd_good h"
    and len: "len = int (length hq + length xs)"
    and rs: "records (unat (hd_ancount h)) xs = (rs, rem, c)"
  shows "dns_add_ip a e (hq @ xs @ post) len qn w = do { w \<leftarrow> add_addrs a rs w; e w }"
proof -
  note acc = view_accessors [OF msg_view [OF hq(1,2)], of "xs @ post"] hq(3) records_moved [OF hq(1) len]
  show ?thesis
  proof (cases "add_addrs a rs w")
    case None
    then have "visit (act_add a) rs w = None" by (simp add: visit_add)
    then have "foreach_record (hq @ xs @ post) (length hq) (int (length xs))
          (int (unat (hd_ancount h))) (Some (add_ip a)) w = None"
      by (rule add.foreach_visit_None [OF rs])
    with None acc show ?thesis
      by (simp add: dns_add_ip_def Let_def del: of_nat_unat)
  next
    case (Some w')
    then have "visit (act_add a) rs w = Some (\<forall>r \<in> set rs. is_addr r \<longrightarrow> addr_ok r, False, rs, w')"
      by (simp add: visit_add)
    from add.foreach_visit [OF rs this, of hq post] obtain ok p l m where
      "foreach_record (hq @ xs @ post) (length hq) (int (length xs))
          (int (unat (hd_ancount h))) (Some (add_ip a)) w = Some (ok, p, l, m, w')" by blast
    with Some acc show ?thesis
      by (simp add: dns_add_ip_def Let_def del: of_nat_unat)
  qed
qed

section \<open>Properties\<close>

text \<open>
  C35: \<open>dns_get_bufsz\<close> never fails on a message that holds header and question. It returns 512
  unless the answer and authority records all parse and an OPT record is found among the
  additional records that parse; then it is the class field of the first one, raised to 512 or
  lowered to 4096. The result is therefore between 512 and 4096 for every packet.
\<close>
theorem dns_get_bufsz_correct:
  assumes "length hq = msg_minlen qn" "view_header hq = Some h"
    and rs: "records (unat (hd_ancount h) + unat (hd_nscount h)) xs = (rs, rem, complete)"
  shows "\<exists>sz. dns_get_bufsz (hq @ xs @ post) (int (length hq + length xs)) qn = Some sz
    \<and> 512 \<le> unat sz \<and> unat sz \<le> 4096
    \<and> sz = (if \<not> complete then 512
       else case find (\<lambda>r. rr_type r = DNS_TYPE_OPT) (fst (records (unat (hd_arcount h)) rem)) of
         None \<Rightarrow> 512 | Some r \<Rightarrow> clamp_bufsz (rr_class r))"
proof -
  have "512 \<le> unat (clamp_bufsz w) \<and> unat (clamp_bufsz w) \<le> 4096" for w
    by (auto simp: clamp_bufsz_def max_def min_def)
  then show ?thesis
    using dns_get_bufsz_eq [OF assms(1,2) refl rs, of post] by (auto split: option.split)
qed

definition sample_opt :: rr where
  "sample_opt = \<lparr>rr_name = [0], rr_type = 41, rr_class = 9000, rr_ttl = 0, rr_data = []\<rparr>"

theorem dns_get_bufsz_correct_witness:
  "\<exists>sz. dns_get_bufsz (([0, 7, 1, 0, 0, 1, 0, 0, 0, 0, 0, 1] @ [1, 97, 0, 0, 1, 0, 1]) @ encode_rr sample_opt @ [])
      (int (length (([0, 7, 1, 0, 0, 1, 0, 0, 0, 0, 0, 1] @ [1, 97, 0, 0, 1, 0, 1]) :: bytes) + length (encode_rr sample_opt))) 3
     = Some sz \<and> 512 \<le> unat sz \<and> unat sz \<le> 4096"
proof -
  let ?hq = "[0, 7, 1, 0, 0, 1, 0, 0, 0, 0, 0, 1] @ [1, 97, 0, 0, 1, 0, 1] :: bytes"
  have "length ?hq = msg_minlen 3" by (simp add: msg_minlen_def dns_sizes)
  moreover obtain h where "view_header ?hq = Some h" using view_header_total [of ?hq] by auto
  moreover obtain rs rem c where
    "records (unat (hd_ancount h) + unat (hd_nscount h)) (encode_rr sample_opt) = (rs, rem, c)"
    by (cases "records (unat (hd_ancount h) + unat (hd_nscount h)) (encode_rr sample_opt)") auto
  ultimately show ?thesis
    using dns_get_bufsz_correct [of ?hq 3 h "encode_rr sample_opt" rs rem c "[]"] by blast
qed

text \<open>
  \<open>dns_test_ip\<close> on a good reply is decided by the first A or AAAA record of the answer
  section that parses: if its data does not have the size of an address the result is
  \<^verbatim>\<open>OTHER_CASE\<close>, otherwise \<^verbatim>\<open>IS_CHINA_IP\<close> or \<^verbatim>\<open>NON_CHINA_IP\<close> as the set contains that
  address, and the set is asked exactly once. Without such a record the result is
  \<^verbatim>\<open>NO_IP_FOUND\<close>, or \<^verbatim>\<open>OTHER_CASE\<close> if the section does not parse. \<open>t\<close> is the set's
  membership test and \<open>w\<close> its state.
\<close>
lemma dns_test_ip_verdict:
  assumes "length hq = msg_minlen qn" "view_header hq = Some h" "hd_good h"
    and rs: "records (unat (hd_ancount h)) xs = (rs, rem, complete)"
  shows "dns_test_ip t (hq @ xs @ post) (int (length hq + length xs)) qn w =
    (case find is_addr rs of
       None \<Rightarrow> Some (if complete then DNS_TEST_IP_NO_IP_FOUND else DNS_TEST_IP_OTHER_CASE, w)
     | Some r \<Rightarrow> if \<not> addr_ok r then Some (DNS_TEST_IP_OTHER_CASE, w)
         else map_option (\<lambda>(china, w').
             (if china then DNS_TEST_IP_IS_CHINA_IP else DNS_TEST_IP_NON_CHINA_IP, w'))
           (t (rr_data r) (rr_type r = DNS_TYPE_A) w))"
  unfolding DNS_TEST_IP_NO_IP_FOUND_def DNS_TEST_IP_OTHER_CASE_def DNS_TEST_IP_IS_CHINA_IP_def
    DNS_TEST_IP_NON_CHINA_IP_def
  by (rule dns_test_ip_eq [OF assms(1-3) refl rs])

text \<open>
  \<open>dns_add_ip\<close> on a good reply hands the addresses of the A and AAAA records of the answer
  section to the set in the order of the records, stops at the first record whose data does
  not have the size of an address or does not parse, and then always ends the batch.
\<close>
lemma dns_add_ip_adds_addresses:
  assumes "length hq = msg_minlen qn" "view_header hq = Some h" "hd_good h"
    and rs: "records (unat (hd_ancount h)) xs = (rs, rem, complete)"
  shows "dns_add_ip a end_add (hq @ xs @ post) (int (length hq + length xs)) qn w
    = do { w \<leftarrow> add_addrs a rs w; end_add w }"
  using dns_add_ip_eq [OF assms(1-3) refl rs] .

definition sample_a :: rr where
  "sample_a = \<lparr>rr_name = [192, 12], rr_type = 1, rr_class = 1, rr_ttl = 300, rr_data = [1, 2, 4, 8]\<rparr>"

lemma sample_a_records: "records (Suc 0) (encode_rr sample_a) = ([sample_a], [], True)"
  using records_encode [of "[sample_a]" "[]"] by (simp add: encode_rrs_def wf_rr_def sample_a_def)

lemma sample_header:
  "\<exists>h. view_header ([0, 7, 129, 128, 0, 1, 0, 1, 0, 0, 0, 0] @ [1, 97, 0, 0, 1, 0, 1]) = Some h
    \<and> hd_good h \<and> unat (hd_ancount h) = 1"
  by (auto simp: view_header_eq hd_good_def fld_get_def be16_def word_cat_eq)

lemma dns_test_ip_verdict_witness:
  "dns_test_ip (\<lambda>ip v4 w. Some (ip = [1, 2, 4, 8] \<and> v4, w + 1))
     (([0, 7, 129, 128, 0, 1, 0, 1, 0, 0, 0, 0] @ [1, 97, 0, 0, 1, 0, 1]) @ encode_rr sample_a @ [])
     (int (length ([0, 7, 129, 128, 0, 1, 0, 1, 0, 0, 0, 0] @ [1, 97, 0, 0, 1, 0, 1 :: u8])
        + length (encode_rr sample_a))) 3 (0 :: nat) = Some (DNS_TEST_IP_IS_CHINA_IP, 1)"
proof -
  let ?hq = "[0, 7, 129, 128, 0, 1, 0, 1, 0, 0, 0, 0] @ [1, 97, 0, 0, 1, 0, 1] :: bytes"
  obtain h where h: "view_header ?hq = Some h" "hd_good h" "unat (hd_ancount h) = 1"
    using sample_header by blast
  have lhq: "length ?hq = msg_minlen 3" by (simp add: msg_minlen_def dns_sizes)
  have recs: "records (unat (hd_ancount h)) (encode_rr sample_a) = ([sample_a], [], True)"
    using sample_a_records h by simp
  show ?thesis
    by (simp only: dns_test_ip_verdict [OF lhq h(1,2) recs])
      (simp add: is_addr_def addr_ok_def sample_a_def dns_types)
qed

lemma dns_add_ip_adds_addresses_witness:
  "dns_add_ip (\<lambda>ip v4 w. Some (w @ [ip])) (\<lambda>w. Some (w @ [[]]))
     (([0, 7, 129, 128, 0, 1, 0, 1, 0, 0, 0, 0] @ [1, 97, 0, 0, 1, 0, 1]) @ encode_rr sample_a @ [])
     (int (length ([0, 7, 129, 128, 0, 1, 0, 1, 0, 0, 0, 0] @ [1, 97, 0, 0, 1, 0, 1 :: u8])
        + length (encode_rr sample_a))) 3 [] = Some [[1, 2, 4, 8], []]"
proof -
  let ?hq = "[0, 7, 129, 128, 0, 1, 0, 1, 0, 0, 0, 0] @ [1, 97, 0, 0, 1, 0, 1] :: bytes"
  obtain h where h: "view_header ?hq = Some h" "hd_good h" "unat (hd_ancount h) = 1"
    using sample_header by blast
  have lhq: "length ?hq = msg_minlen 3" by (simp add: msg_minlen_def dns_sizes)
  have recs: "records (unat (hd_ancount h)) (encode_rr sample_a) = ([sample_a], [], True)"
    using sample_a_records h by simp
  show ?thesis
    by (simp only: dns_add_ip_adds_addresses [OF lhq h(1,2) recs])
      (simp add: is_addr_def addr_ok_def sample_a_def dns_types)
qed

end
