(* ===== verification/Dns_Check.thy ===== *)
theory Dns_Check
  imports Dns_Name Dns_Records
begin

text \<open>
  The checks of \<^verbatim>\<open>src/dns.c\<close> every packet from the network goes through: \<open>check_msg\<close>,
  \<open>dns_check_query\<close> and \<open>dns_check_reply\<close>, and what a message that passed them guarantees
  to the operations that run later. A result is the returned flag, the message (edited in
  place), the contents of \<^verbatim>\<open>ascii_name\<close> (\<open>None\<close> for a \<^verbatim>\<open>NULL\<close> pointer) and what is
  stored through \<^verbatim>\<open>p_qnamelen\<close> and \<^verbatim>\<open>p_newlen\<close>, if anything.
\<close>

section \<open>check_msg\<close>

definition DNS_QR_QUERY :: u8 where "DNS_QR_QUERY = 0"
definition DNS_QR_REPLY :: u8 where "DNS_QR_REPLY = 1"

definition check_msg ::
    "bool \<Rightarrow> bytes \<Rightarrow> int \<Rightarrow> bytes option \<Rightarrow> (bool \<times> bytes \<times> bytes option \<times> nat option) option" where
  "check_msg is_query msg len ascii_name =
     (if len < int DNS_MSG_MINSIZE \<or> len > int DNS_MSG_MAXSIZE then Some (False, msg, ascii_name, None)
      else do {
        qr \<leftarrow> hdr_get Qr msg;
        if qr \<noteq> (if is_query then DNS_QR_QUERY else DNS_QR_REPLY) then Some (False, msg, ascii_name, None)
        else do {
          qd \<leftarrow> get_question_count msg;
          if unat qd \<noteq> 1 then Some (False, msg, ascii_name, None)
          else do {
            tc \<leftarrow> hdr_get Tc msg;
            msg \<leftarrow> (if is_query \<and> tc \<noteq> 0 then hdr_set Tc 0 msg else Some msg);
            let len = len - int HEADER_LEN;
            p \<leftarrow> memchr msg HEADER_LEN (nat len) 0;
            case p of None \<Rightarrow> Some (False, msg, ascii_name, None)
            | Some p \<Rightarrow> do {
                let qnamelen = p + 1 - HEADER_LEN;
                if qnamelen < DNS_NAME_WIRE_MINLEN \<or> qnamelen > DNS_NAME_WIRE_MAXLEN
                then Some (False, msg, ascii_name, None)
                else do {
                  (ok, ascii_name) \<leftarrow> (case ascii_name of None \<Rightarrow> Some (True, None)
                    | Some buf \<Rightarrow> do { (ok, out) \<leftarrow> decode_name buf msg HEADER_LEN (int qnamelen);
                                     Some (ok, Some out) });
                  if \<not> ok then Some (False, msg, ascii_name, None)
                  else do {
                    let len = len - int qnamelen;
                    Some (\<not> len < int QUESTION_LEN, msg, ascii_name, Some qnamelen) } } } } } })"

definition dns_check_query ::
    "bytes \<Rightarrow> int \<Rightarrow> bytes option \<Rightarrow> (bool \<times> bytes \<times> bytes option \<times> nat option) option" where
  "dns_check_query msg len ascii_name = check_msg True msg len ascii_name"

definition dns_check_reply ::
    "bytes \<Rightarrow> int \<Rightarrow> bytes option \<Rightarrow> (bool \<times> bytes \<times> bytes option \<times> nat option \<times> u16 option) option" where
  "dns_check_reply msg len ascii_name = do {
     (ok, msg, ascii_name, p_qnamelen) \<leftarrow> check_msg False msg len ascii_name;
     if \<not> ok then Some (False, msg, ascii_name, p_qnamelen, None)
     else do {
       qnamelen \<leftarrow> p_qnamelen;
       (newlen, msg) \<leftarrow> rm_additional msg len qnamelen;
       if newlen = 0 then Some (False, msg, ascii_name, p_qnamelen, Some newlen)
       else do {
         msg \<leftarrow> hdr_set Ra 1 msg;
         Some (True, msg, ascii_name, p_qnamelen, Some newlen) } } }"

section \<open>The result of the check\<close>

text \<open>What \<^verbatim>\<open>ascii_name\<close> holds after the decoding of the name \<open>w\<close>.\<close>

definition ascii_after :: "bytes option \<Rightarrow> bytes \<Rightarrow> bytes option \<Rightarrow> bool" where
  "ascii_after asc w asc' \<longleftrightarrow> (case asc of None \<Rightarrow> asc' = None
     | Some buf \<Rightarrow> (case asc' of None \<Rightarrow> False | Some out \<Rightarrow> length out = DNS_NAME_MAXLEN + 1
         \<and> (case parse_labels w of None \<Rightarrow> False
            | Some ls \<Rightarrow> take (length (name_text ls) + 1) out = name_text ls @ [0])))"

text \<open>The conditions under which \<open>check_msg\<close> accepts.\<close>

definition msg_ok :: "bool \<Rightarrow> dns_header \<Rightarrow> bytes \<Rightarrow> bytes \<Rightarrow> bytes option \<Rightarrow> bool" where
  "msg_ok is_query h w r asc \<longleftrightarrow>
     13 + length w + length r \<le> 65535 \<and> length w + 1 \<le> 255 \<and> 4 \<le> length r
   \<and> hd_qr h = (if is_query then 0 else 1) \<and> hd_qdcount h = 1
   \<and> (asc = None \<or> parse_labels w \<noteq> None)"

definition ascii_buf :: "bytes option \<Rightarrow> bool" where
  "ascii_buf asc \<longleftrightarrow> (case asc of None \<Rightarrow> True | Some buf \<Rightarrow> length buf = DNS_NAME_MAXLEN + 1)"

lemma hd_tc_clear: "hd_tc h = 0 \<Longrightarrow> h\<lparr>hd_tc := 0\<rparr> = h"
  by simp

lemma clear_tc:
  assumes "length hdr = 12" "view_header hdr = Some h"
  shows "\<exists>hdr'. (if b then hdr_set Tc 0 (hdr @ x) else Some (hdr @ x)) = Some (hdr' @ x)
    \<and> length hdr' = 12 \<and> view_header hdr' = Some (if b then h\<lparr>hd_tc := 0\<rparr> else h)"
proof (cases b)
  case True
  obtain m where m: "hdr_set Tc 0 (hdr @ x) = Some m" "length m = 12 + length x"
    using hdr_set_some [of "hdr @ x" Tc 0] assms by auto
  have "view_header m = Some (h\<lparr>hd_tc := 0\<rparr>)"
    using view_header_set [OF m(1)] assms by (simp add: view_header_append hd_update_def)
  moreover have "drop 12 m = x" using hdr_set_drop [OF m(1), of 12] assms by simp
  moreover have "m = take 12 m @ drop 12 m" "length (take 12 m) = 12" using m by auto
  ultimately show ?thesis
    using m True view_header_split [of m] by (intro exI [of _ "take 12 m"]) auto
qed (use assms in auto)

lemma check_msg_eq:
  assumes hdr: "length hdr = 12" "view_header hdr = Some h" and w: "0 \<notin> set w"
    and asc: "ascii_buf asc" and msg: "msg = hdr @ w @ 0 # r @ post"
    and len: "len = int (13 + length w + length r)"
  shows "\<exists>hdr' asc' qn. check_msg q msg len asc = Some (msg_ok q h w r asc, hdr' @ w @ 0 # r @ post, asc', qn)
    \<and> length hdr' = 12
    \<and> (msg_ok q h w r asc \<longrightarrow> qn = Some (length w + 1) \<and> ascii_after asc w asc'
        \<and> view_header hdr' = Some (if q then h\<lparr>hd_tc := 0\<rparr> else h))"
proof (cases "len < int DNS_MSG_MINSIZE \<or> len > int DNS_MSG_MAXSIZE")
  case True
  then show ?thesis
    using len hdr by (intro exI [of _ hdr]) (auto simp: check_msg_def msg msg_ok_def dns_sizes)
next
  case False
  let ?rest = "w @ 0 # r @ post"
  have "view_header (hdr @ ?rest) = Some h" using hdr by (simp add: view_header_append)
  note acc = view_accessors [OF this]
  show ?thesis
  proof (cases "hd_qr h = (if q then 0 else 1) \<and> hd_qdcount h = 1")
    case False
    have "unat (hd_qdcount h) = 1 \<longleftrightarrow> hd_qdcount h = 1" by (simp add: word_unat_eq_iff)
    with False \<open>\<not> (len < _ \<or> _)\<close> show ?thesis
      using hdr acc
      by (intro exI [of _ hdr])
        (auto simp: check_msg_def msg msg_ok_def DNS_QR_QUERY_def DNS_QR_REPLY_def split: if_splits)
  next
    case True
    obtain hdr' where hdr': "(if q \<and> hd_tc h \<noteq> 0 then hdr_set Tc 0 (hdr @ ?rest) else Some (hdr @ ?rest))
        = Some (hdr' @ ?rest)" "length hdr' = 12"
      "view_header hdr' = Some (if q \<and> hd_tc h \<noteq> 0 then h\<lparr>hd_tc := 0\<rparr> else h)"
      using clear_tc [OF hdr] by blast
    have hd: "(if q \<and> hd_tc h \<noteq> 0 then h\<lparr>hd_tc := 0\<rparr> else h) = (if q then h\<lparr>hd_tc := 0\<rparr> else h)"
      by simp
    have mem: "memchr (hdr' @ ?rest) HEADER_LEN (nat (len - int HEADER_LEN)) 0 = Some (Some (12 + length w))"
      using memchr_append [OF w, of "nat (len - 12)" hdr' "r @ post"] hdr'(2) len by (simp add: dns_sizes)
    let ?long = "length w + 1 > 255"
    have start: "check_msg q msg len asc = (if ?long then Some (False, hdr' @ ?rest, asc, None) else do {
        (ok, asc) \<leftarrow> (case asc of None \<Rightarrow> Some (True, None)
           | Some buf \<Rightarrow> do { (ok, out) \<leftarrow> decode_name buf (hdr' @ ?rest) HEADER_LEN (int (length w + 1));
                            Some (ok, Some out) });
        if \<not> ok then Some (False, hdr' @ ?rest, asc, None)
        else Some (4 \<le> length r, hdr' @ ?rest, asc, Some (length w + 1)) })"
    proof -
      have n1: "12 + length w + 1 - HEADER_LEN = length w + 1" by (simp add: dns_sizes)
      have n2: "(\<not> len - int HEADER_LEN - int (length w + 1) < int QUESTION_LEN) = (4 \<le> length r)"
        using len by (auto simp: dns_sizes)
      have n3: "(length w + 1 < DNS_NAME_WIRE_MINLEN \<or> length w + 1 > DNS_NAME_WIRE_MAXLEN) = ?long"
        by (simp add: dns_sizes)
      have u: "(unat (hd_qdcount h) \<noteq> 1) = False" "(hd_qr h \<noteq> (if q then DNS_QR_QUERY else DNS_QR_REPLY)) = False"
        using True by (auto simp: DNS_QR_QUERY_def DNS_QR_REPLY_def)
      from False show ?thesis
        unfolding check_msg_def msg Let_def
        by (simp only: acc u if_False Option.bind.bind_lunit hdr'(1) mem option.case n1 n2 n3)
    qed
    show ?thesis
    proof (cases ?long)
      case True
      then show ?thesis using start hdr' by (auto simp: msg_ok_def)
    next
      case short: False
      show ?thesis
      proof (cases asc)
        case None
        then show ?thesis
          using start short hdr' hd True False len
          by (intro exI [of _ hdr']) (auto simp: msg_ok_def ascii_after_def dns_sizes)
      next
        case (Some buf)
        then have "length buf = DNS_NAME_MAXLEN + 1" using asc by (simp add: ascii_buf_def)
        from decode_name_text [OF _ this, of w hdr' "r @ post"] obtain out where
          out: "decode_name buf (hdr' @ ?rest) HEADER_LEN (int (length w + 1)) = Some (parse_labels w \<noteq> None, out)"
          "length out = DNS_NAME_MAXLEN + 1"
          "\<forall>ls. parse_labels w = Some ls \<longrightarrow> take (length (name_text ls) + 1) out = name_text ls @ [0]"
          using short hdr'(2) by (auto simp: dns_sizes add.commute)
        then show ?thesis
          using start short hdr' hd True False len Some
          by (cases "parse_labels w"; intro exI [of _ hdr'])
            (auto simp: msg_ok_def ascii_after_def dns_sizes)
      qed
    qed
  qed
qed

lemma check_msg_no_zero:
  assumes hdr: "length hdr = 12" "view_header hdr = Some h" and w: "0 \<notin> set body"
    and len: "len = int (12 + length body)"
  shows "\<exists>hdr'. check_msg q (hdr @ body @ post) len asc = Some (False, hdr' @ body @ post, asc, None)
    \<and> length hdr' = 12"
proof -
  let ?m = "hdr @ body @ post"
  have "view_header ?m = Some h" using hdr by (simp add: view_header_append)
  note acc = view_accessors [OF this]
  obtain hdr' where hdr': "(if q \<and> hd_tc h \<noteq> 0 then hdr_set Tc 0 ?m else Some ?m)
      = Some (hdr' @ body @ post)" "length hdr' = 12"
    using clear_tc [OF hdr] by blast
  have mem: "memchr (hdr' @ body @ post) HEADER_LEN (nat (len - int HEADER_LEN)) 0 = Some None"
    using hdr'(2) len w by (subst memchr_None) (auto simp: dns_sizes)
  show ?thesis
    using acc hdr hdr' mem
    by (cases "len < int DNS_MSG_MINSIZE \<or> len > int DNS_MSG_MAXSIZE";
        cases "hd_qr h \<noteq> (if q then DNS_QR_QUERY else DNS_QR_REPLY)"; cases "unat (hd_qdcount h) \<noteq> 1")
      (auto simp: check_msg_def Let_def)
qed

text \<open>Every buffer is one of the two shapes.\<close>

lemma msg_shapes:
  assumes "12 \<le> len" "len \<le> int (length msg)"
  obtains (no_zero) hdr body post where "msg = hdr @ body @ post" "length hdr = 12"
      "len = int (12 + length body)" "0 \<notin> set body"
    | (name) hdr w r post where "msg = hdr @ w @ 0 # r @ post" "length hdr = 12"
      "len = int (13 + length w + length r)" "0 \<notin> set w"
proof -
  define body where "body = take (nat len - 12) (drop 12 msg)"
  have msg: "msg = take 12 msg @ body @ drop (nat len) msg"
    using assms by (simp add: body_def flip: append_assoc take_add)
  have lens: "length (take 12 msg) = 12" "len = int (12 + length body)"
    using assms by (auto simp: body_def)
  show ?thesis
  proof (cases "0 \<in> set body")
    case True
    then obtain w r where "body = w @ 0 # r" "0 \<notin> set w" using split_list_first by metis
    then show ?thesis using name [of "take 12 msg" w r "drop (nat len) msg"] msg lens by auto
  qed (use no_zero msg lens in blast)
qed

lemma hdr_ra:
  assumes "length hdr = 12" "view_header hdr = Some h"
  shows "\<exists>hdr'. hdr_set Ra 1 (hdr @ x) = Some (hdr' @ x) \<and> length hdr' = 12
    \<and> view_header hdr' = Some (h\<lparr>hd_ra := 1\<rparr>)"
proof -
  obtain m where m: "hdr_set Ra 1 (hdr @ x) = Some m" "length m = 12 + length x"
    using hdr_set_some [of "hdr @ x" Ra 1] assms by auto
  have "view_header m = Some (h\<lparr>hd_ra := 1\<rparr>)"
    using view_header_set [OF m(1)] assms by (simp add: view_header_append hd_update_def take_bit_eq_mod)
  moreover have "drop 12 m = x" using hdr_set_drop [OF m(1), of 12] assms by simp
  moreover have "m = take 12 m @ drop 12 m" "length (take 12 m) = 12" using m by auto
  ultimately show ?thesis
    using m view_header_split [of m] by (intro exI [of _ "take 12 m"]) auto
qed

lemma encode_rrs_le: "records n xs = (rs, rem, c) \<Longrightarrow> length (encode_rrs rs) \<le> length xs"
  using records_Some [of n xs rs rem c] by simp

definition reply_newlen :: "dns_header \<Rightarrow> bytes \<Rightarrow> bytes \<Rightarrow> rr list \<Rightarrow> nat" where
  "reply_newlen h w xs rs = 17 + length w + (if hd_good h then length (encode_rrs rs) else length xs)"

lemma unat_reply_newlen:
  assumes "msg_ok False h w (q @ xs) asc" "length q = 4" "records n xs = (rs, rem, c)"
  shows "unat (word_of_nat (reply_newlen h w xs rs) :: u16) = reply_newlen h w xs rs"
proof -
  have "reply_newlen h w xs rs < 65536"
    using assms encode_rrs_le [OF assms(3)] by (auto simp: reply_newlen_def msg_ok_def)
  then show ?thesis by (simp only: unat_of_nat) simp
qed

definition checked_header :: "dns_header \<Rightarrow> dns_header" where
  "checked_header h = (if hd_good h then h\<lparr>hd_ra := 1, hd_arcount := 0\<rparr> else h\<lparr>hd_ra := 1\<rparr>)"

lemma dns_check_reply_eq:
  assumes hdr: "length hdr = 12" "view_header hdr = Some h" and w: "0 \<notin> set w"
    and asc: "ascii_buf asc" and q: "length q = 4" and msg: "msg = hdr @ w @ 0 # q @ xs @ post"
    and len: "len = int (17 + length w + length xs)"
    and rs: "records (unat (hd_ancount h) + unat (hd_nscount h)) xs = (rs, rem, c)"
    and ok: "ok \<longleftrightarrow> msg_ok False h w (q @ xs) asc \<and> (hd_good h \<longrightarrow> c)"
  shows "\<exists>hdr' asc' qn nl. dns_check_reply msg len asc = Some (ok, hdr' @ w @ 0 # q @ xs @ post, asc', qn, nl)
    \<and> length hdr' = 12
    \<and> (ok \<longrightarrow> qn = Some (length w + 1) \<and> nl = Some (word_of_nat (reply_newlen h w xs rs))
        \<and> ascii_after asc w asc' \<and> view_header hdr' = Some (checked_header h))"
proof -
  have msg': "msg = hdr @ w @ 0 # (q @ xs) @ post" and len': "len = int (13 + length w + length (q @ xs))"
    using msg len q by simp_all
  obtain hdr1 asc1 qn1 where chk: "check_msg False msg len asc
      = Some (msg_ok False h w (q @ xs) asc, hdr1 @ w @ 0 # q @ xs @ post, asc1, qn1)" "length hdr1 = 12"
    and good: "msg_ok False h w (q @ xs) asc \<Longrightarrow> qn1 = Some (length w + 1) \<and> ascii_after asc w asc1
        \<and> view_header hdr1 = Some h"
    using check_msg_eq [OF hdr w asc msg' len', of False] by auto
  show ?thesis
  proof (cases "msg_ok False h w (q @ xs) asc")
    case False
    then show ?thesis using chk ok by (auto simp: dns_check_reply_def)
  next
    case True
    note g = good [OF True]
    let ?hq = "hdr1 @ w @ 0 # q"
    have hq: "length ?hq = msg_minlen (length w + 1)" "view_header ?hq = Some h"
      using chk(2) g q by (simp_all add: msg_minlen_def dns_sizes view_header_append)
    have len_hq: "len = int (length ?hq + length xs)" using len chk(2) q by simp
    have max: "17 + length w + length xs \<le> 65535" using True q by (simp add: msg_ok_def)
    have nz: "(word_of_nat n :: u16) \<noteq> 0" if "0 < n" "n \<le> 65535" for n
      using that by (simp add: word_unat_eq_iff unat_of_nat)
    show ?thesis
    proof (cases "hd_good h")
      case False
      have "rm_additional (?hq @ xs @ post) len (length w + 1) = Some (word_of_int len, ?hq @ xs @ post)"
        using view_accessors [OF msg_view [OF hq], of "xs @ post"] False by (simp add: rm_additional_def)
      moreover have "word_of_int len = (word_of_nat (17 + length w + length xs) :: u16)"
        using len by simp
      moreover obtain hdr2 where "hdr_set Ra 1 (hdr1 @ w @ 0 # q @ xs @ post) = Some (hdr2 @ w @ 0 # q @ xs @ post)"
        "length hdr2 = 12" "view_header hdr2 = Some (h\<lparr>hd_ra := 1\<rparr>)"
        using hdr_ra [OF chk(2)] g by blast
      ultimately show ?thesis
        using chk g True ok False nz [OF _ max]
        by (simp add: dns_check_reply_def checked_header_def reply_newlen_def)
    next
      case isgood: True
      obtain hq' where rm: "rm_additional (?hq @ xs @ post) len (length w + 1) =
          Some (if c then (word_of_nat (length ?hq + length (encode_rrs rs)), hq' @ xs @ post)
            else (0, ?hq @ xs @ post))" "length hq' = length ?hq"
          "view_header hq' = Some (h\<lparr>hd_arcount := 0\<rparr>)" "drop 12 hq' = w @ 0 # q"
        using rm_additional_eq [OF hq isgood len_hq rs, of post] chk(2) by auto
      show ?thesis
      proof (cases c)
        case False
        then show ?thesis
          using chk g True ok isgood rm by (auto simp: dns_check_reply_def)
      next
        case c: True
        have "12 \<le> length hq'" using rm(2) chk(2) by simp
        from view_header_split [OF this] have hq': "hq' = take 12 hq' @ w @ 0 # q" "length (take 12 hq') = 12"
          "view_header (take 12 hq') = Some (h\<lparr>hd_arcount := 0\<rparr>)"
          using rm by auto
        obtain hdr2 where ra: "hdr_set Ra 1 (take 12 hq' @ w @ 0 # q @ xs @ post) = Some (hdr2 @ w @ 0 # q @ xs @ post)"
          "length hdr2 = 12" "view_header hdr2 = Some (h\<lparr>hd_arcount := 0, hd_ra := 1\<rparr>)"
          using hdr_ra [OF hq'(2,3)] by blast
        have whole: "hq' @ xs @ post = take 12 hq' @ w @ 0 # q @ xs @ post" by (subst hq'(1)) simp
        have n: "length ?hq + length (encode_rrs rs) = reply_newlen h w xs rs"
          using chk(2) q isgood by (simp add: reply_newlen_def)
        have "(word_of_nat (reply_newlen h w xs rs) :: u16) \<noteq> 0"
          using encode_rrs_le [OF rs] max by (intro nz) (auto simp: reply_newlen_def)
        then show ?thesis
          using chk g True ok isgood c rm(1) [unfolded n whole] ra
          by (simp add: dns_check_reply_def checked_header_def)
      qed
    qed
  qed
qed

lemma wf_clamp_update [simp]: "wf_rr (clamp_rr mn mx r) = wf_rr r" "wf_rr (update_rr ch r) = wf_rr r"
  by (simp_all add: wf_rr_def clamp_rr_def update_rr_def)

text \<open>An accepted reply, taken apart.\<close>

lemma checked_reply_parts:
  assumes chk: "dns_check_reply msg len asc = Some (True, msg', asc', Some qn, Some newlen)"
    and fits: "len \<le> int (length msg)" and asc: "ascii_buf asc" and isgood: "dns_is_good msg = Some True"
  obtains hdr w q h rs post where "msg' = (hdr @ w @ 0 # q) @ encode_rrs rs @ post" "length hdr = 12" "0 \<notin> set w" "length q = 4"
    "qn = length w + 1" "qn \<le> 255" "unat newlen = length ((hdr @ w @ 0 # q) @ encode_rrs rs)" "list_all wf_rr rs"
    "view_header hdr = Some h" "hd_good h"
    "unat (hd_ancount h) + unat (hd_nscount h) + unat (hd_arcount h) = length rs"
    "unat newlen \<le> nat len"
proof -
  have "12 \<le> len"
    using chk by (auto simp: dns_check_reply_def check_msg_def dns_sizes split: if_splits)
  from msg_shapes [OF this fits] show thesis
  proof cases
    case (1 hdr body post)
    obtain h where h: "view_header hdr = Some h" using view_header_total [of hdr] 1 by auto
    from check_msg_no_zero [OF 1(2) h 1(4,3), of False post asc] chk 1(1) show thesis
      by (auto simp: dns_check_reply_def)
  next
    case (2 hdr w r post)
    obtain h where h: "view_header hdr = Some h" using view_header_total [of hdr] 2 by auto
    have "hd_good h"
      using isgood view_accessors(7) [of msg h] h 2 by (simp add: view_header_append)
    have "4 \<le> length r"
    proof (rule ccontr)
      assume "\<not> 4 \<le> length r"
      then have "\<not> msg_ok False h w r asc" by (simp add: msg_ok_def)
      then show False
        using check_msg_eq [OF 2(2) h 2(4) asc 2(1,3), of False] chk by (auto simp: dns_check_reply_def)
    qed
    let ?q = "take 4 r" and ?xs = "drop 4 r"
    obtain rs rem c where rs: "records (unat (hd_ancount h) + unat (hd_nscount h)) ?xs = (rs, rem, c)"
      by (cases "records (unat (hd_ancount h) + unat (hd_nscount h)) ?xs") auto
    have msg: "msg = hdr @ w @ 0 # ?q @ ?xs @ post" and len: "len = int (17 + length w + length ?xs)"
      using 2 \<open>4 \<le> length r\<close> by (auto simp flip: append_assoc)
    have q: "length ?q = 4" using \<open>4 \<le> length r\<close> by simp
    from dns_check_reply_eq [OF 2(2) h 2(4) asc q msg len rs refl] chk \<open>hd_good h\<close>
    obtain hdr' where r: "msg_ok False h w (?q @ ?xs) asc" c "msg' = hdr' @ w @ 0 # ?q @ ?xs @ post"
      "length hdr' = 12" "qn = length w + 1" "newlen = word_of_nat (reply_newlen h w ?xs rs)"
      "view_header hdr' = Some (h\<lparr>hd_ra := 1, hd_arcount := 0\<rparr>)"
      by (auto simp: checked_header_def)
    note enc = records_Some [OF rs]
    let ?hq = "hdr' @ w @ 0 # ?q"
    have lhq: "length ?hq = 17 + length w" using r(4) q by simp
    have n: "unat newlen = 17 + length w + length (encode_rrs rs)"
      unfolding r(6) unat_reply_newlen [OF r(1) q rs] using \<open>hd_good h\<close> by (simp add: reply_newlen_def)
    have post: "?xs @ post = encode_rrs rs @ rem @ post" using enc by simp
    show thesis
    proof
      show "msg' = ?hq @ encode_rrs rs @ rem @ post"
        unfolding r(3) post by simp
      show "view_header hdr' = Some (h\<lparr>hd_ra := 1, hd_arcount := 0\<rparr>)" by (rule r(7))
      show "unat newlen \<le> nat len" using n encode_rrs_le [OF rs] len by simp
      show "qn \<le> 255" using r(1,5) by (simp add: msg_ok_def)
    qed (use n lhq enc r q 2(4) \<open>hd_good h\<close> in \<open>auto simp: hd_good_def\<close>)
  qed
qed

lemma checked_reply_shape:
  assumes "dns_check_reply msg len asc = Some (True, msg', asc', Some qn, Some newlen)"
    and "len \<le> int (length msg)" "ascii_buf asc" "dns_is_good msg = Some True"
  obtains hq h rs post where "msg' = hq @ encode_rrs rs @ post" "length hq = msg_minlen qn"
    "unat newlen = length (hq @ encode_rrs rs)" "list_all wf_rr rs"
    "view_header hq = Some h" "hd_good h"
    "unat (hd_ancount h) + unat (hd_nscount h) + unat (hd_arcount h) = length rs"
    "unat newlen \<le> nat len"
proof (rule checked_reply_parts [OF assms])
  fix hdr w q h rs post
  assume p: "msg' = (hdr @ w @ 0 # q) @ encode_rrs rs @ post" "length hdr = 12" "length q = 4" "qn = length w + 1"
    "unat newlen = length ((hdr @ w @ 0 # q) @ encode_rrs rs)" "list_all wf_rr rs" "view_header hdr = Some h" "hd_good h"
    "unat (hd_ancount h) + unat (hd_nscount h) + unat (hd_arcount h) = length rs" "unat newlen \<le> nat len"
  then show thesis
    by (intro that [of "hdr @ w @ 0 # q" rs post h]) (simp_all add: msg_minlen_def dns_sizes view_header_append)
qed

section \<open>Properties\<close>

text \<open>
  C6: No packet from the network makes the checks misbehave: for every buffer, every length up
  to the size of the buffer and every ASCII buffer of the documented size (or \<^verbatim>\<open>NULL\<close>),
  \<open>dns_check_query\<close> and \<open>dns_check_reply\<close> return without reading or writing outside the
  message and the ASCII buffer, and the message keeps its length.
\<close>
theorem dns_check_memory_safe:
  assumes "len \<le> int (length msg)" "ascii_buf asc"
  shows "(\<exists>ok msg' asc' qn. dns_check_query msg len asc = Some (ok, msg', asc', qn) \<and> length msg' = length msg)
    \<and> (\<exists>ok msg' asc' qn nl. dns_check_reply msg len asc = Some (ok, msg', asc', qn, nl) \<and> length msg' = length msg)"
proof (cases "len < 12")
  case True
  then show ?thesis
    by (auto simp: dns_check_query_def dns_check_reply_def check_msg_def dns_sizes)
next
  case False
  then have le: "12 \<le> len" by simp
  show ?thesis
  proof (rule msg_shapes [OF le assms(1)])
    fix hdr body post
    assume no_zero: "msg = hdr @ body @ post" "length hdr = 12" "len = int (12 + length body)" "0 \<notin> set body"
    obtain h where h: "view_header hdr = Some h" using view_header_total [of hdr] no_zero by auto
    show ?thesis
      using check_msg_no_zero [OF no_zero(2) h no_zero(4,3), of True post asc]
        check_msg_no_zero [OF no_zero(2) h no_zero(4,3), of False post asc] no_zero
      by (auto simp: dns_check_query_def dns_check_reply_def)
  next
    fix hdr w r post
    assume name: "msg = hdr @ w @ 0 # r @ post" "length hdr = 12"
      "len = int (13 + length w + length r)" "0 \<notin> set w"
    obtain h where h: "view_header hdr = Some h" using view_header_total [of hdr] name by auto
    note chk = check_msg_eq [OF name(2) h name(4) assms(2) name(1) name(3)]
    have query: "\<exists>ok msg' asc' qn. dns_check_query msg len asc = Some (ok, msg', asc', qn) \<and> length msg' = length msg"
      using chk [of True] name by (auto simp: dns_check_query_def)
    show ?thesis
    proof (cases "4 \<le> length r")
      case False
      then have "\<not> msg_ok False h w r asc" by (simp add: msg_ok_def)
      then show ?thesis using query chk [of False] name by (auto simp: dns_check_reply_def)
    next
      case True
      let ?xs = "drop 4 r"
      obtain rs rem c where rs: "records (unat (hd_ancount h) + unat (hd_nscount h)) ?xs = (rs, rem, c)"
        by (cases "records (unat (hd_ancount h) + unat (hd_nscount h)) ?xs") auto
      have msg: "msg = hdr @ w @ 0 # take 4 r @ ?xs @ post" and len: "len = int (17 + length w + length ?xs)"
        using name True by (auto simp flip: append_assoc)
      have q: "length (take 4 r) = 4" using True by simp
      show ?thesis
        using query dns_check_reply_eq [OF name(2) h name(4) assms(2) q msg len rs refl] name True
        by auto
    qed
  qed
qed

theorem dns_check_memory_safe_witness:
  "\<exists>ok msg' asc' qn. dns_check_query (replicate 5 192 @ [1] @ replicate 14 63) 20 (Some (replicate 254 0))
     = Some (ok, msg', asc', qn)"
  using dns_check_memory_safe [of 20 "replicate 5 192 @ [1] @ replicate 14 63" "Some (replicate 254 0)"]
  by (auto simp: ascii_buf_def dns_sizes)

text \<open>
  C21: \<open>dns_check_query\<close> on a packet with a 12-byte header, a name that ends at its first zero
  byte and \<open>r\<close> behind it accepts exactly when the packet has at most 65535 bytes, \<open>QR\<close> says
  query, there is one question, the name has at most 255 bytes and is a sequence of labels, and
  at least the four bytes of the question follow. It then clears \<open>TC\<close> and nothing else, stores
  the length of the name, and leaves the dotted name, NUL terminated, in the ASCII buffer.
\<close>
theorem dns_check_query_correct:
  assumes "length hdr = 12" "view_header hdr = Some h" "0 \<notin> set w" "length buf = 254"
  shows "\<exists>hdr' asc' qn. dns_check_query (hdr @ w @ 0 # r @ post) (int (13 + length w + length r)) (Some buf)
      = Some (13 + length w + length r \<le> 65535 \<and> length w + 1 \<le> 255 \<and> 4 \<le> length r
          \<and> hd_qr h = 0 \<and> hd_qdcount h = 1 \<and> parse_labels w \<noteq> None,
          hdr' @ w @ 0 # r @ post, asc', qn)
    \<and> (13 + length w + length r \<le> 65535 \<and> length w + 1 \<le> 255 \<and> 4 \<le> length r
          \<and> hd_qr h = 0 \<and> hd_qdcount h = 1 \<longrightarrow>
       (\<forall>ls. parse_labels w = Some ls \<longrightarrow> qn = Some (length w + 1)
          \<and> view_header hdr' = Some (h\<lparr>hd_tc := 0\<rparr>)
          \<and> (\<exists>out. asc' = Some out \<and> take (length (name_text ls) + 1) out = name_text ls @ [0])))"
proof -
  have asc: "ascii_buf (Some buf)" using assms(4) by (simp add: ascii_buf_def dns_sizes)
  from check_msg_eq [OF assms(1,2,3) asc refl refl, of True r post] obtain hdr' asc' qn where
    chk: "dns_check_query (hdr @ w @ 0 # r @ post) (int (13 + length w + length r)) (Some buf)
       = Some (msg_ok True h w r (Some buf), hdr' @ w @ 0 # r @ post, asc', qn)"
    "msg_ok True h w r (Some buf) \<longrightarrow> qn = Some (length w + 1) \<and> ascii_after (Some buf) w asc'
        \<and> view_header hdr' = Some (h\<lparr>hd_tc := 0\<rparr>)"
    by (auto simp: dns_check_query_def)
  show ?thesis
    using chk by (intro exI [of _ hdr'] exI [of _ asc'] exI [of _ qn])
      (auto simp: msg_ok_def ascii_after_def split: option.splits)
qed

theorem dns_check_query_correct_witness:
  "\<exists>hdr' asc' qn. dns_check_query ([0, 7, 1, 0, 0, 1, 0, 0, 0, 0, 0, 0] @ [2, 99, 110] @ 0 # [0, 1, 0, 1] @ [])
      (int (13 + length [2, 99, 110 :: u8] + length [0, 1, 0, 1 :: u8])) (Some (replicate 254 0))
    = Some (True, hdr' @ [2, 99, 110] @ 0 # [0, 1, 0, 1] @ [], asc', qn) \<and> qn = Some 4"
proof -
  let ?h = "[0, 7, 1, 0, 0, 1, 0, 0, 0, 0, 0, 0] :: bytes"
  obtain h where h: "view_header ?h = Some h" using view_header_total [of ?h] by auto
  then have "hd_qr h = 0" "hd_qdcount h = 1"
    by (auto simp: view_header_eq fld_get_def be16_def intro!: bit_word_eqI simp: bit_simps)
  moreover have "parse_labels [2, 99, 110] = Some [[99, 110]]" by simp
  ultimately show ?thesis
    using dns_check_query_correct [OF _ h, of "[2, 99, 110]" "replicate 254 0" "[0, 1, 0, 1]" "[]"]
    by (auto simp del: append.simps simp flip: numeral_2_eq_2)
qed

text \<open>
  C20: \<open>dns_check_reply\<close> on every packet. One that is shorter than a header, or has no zero byte
  behind it, is rejected. Any other consists of a header, a name \<open>w\<close> up to the first zero byte and
  some rest \<open>r\<close>; it is accepted exactly when the sizes are in range, the rest has room for a
  question, it is a reply to one question, the name is well formed if its text is asked for, and,
  if it is not truncated and has \<open>RCODE\<close> no-error or name-error, its answer and authority records
  all parse inside the packet. An accepted packet has \<open>RA\<close> set; if good, its additional section
  is dropped: the count is zero and \<open>newlen\<close>, which does not wrap, ends right behind the last
  authority record.
\<close>
theorem dns_check_reply_correct:
  assumes asc: "ascii_buf asc"
  shows "(\<forall>msg len. len \<le> int (length msg) \<and> (len < 12 \<or> 0 \<notin> set (drop 12 (take (nat len) msg))) \<longrightarrow>
        (\<exists>msg' qn nl. dns_check_reply msg len asc = Some (False, msg', asc, qn, nl)))
    \<and> (\<forall>hdr h w r post rs rem complete. length hdr = 12 \<and> view_header hdr = Some h \<and> 0 \<notin> set w
          \<and> records (unat (hd_ancount h) + unat (hd_nscount h)) (drop 4 r) = (rs, rem, complete) \<longrightarrow>
        (let ok = (13 + length w + length r \<le> 65535 \<and> length w + 1 \<le> 255 \<and> 4 \<le> length r \<and> hd_qr h = 1 \<and> hd_qdcount h = 1
              \<and> (asc = None \<or> parse_labels w \<noteq> None) \<and> (hd_good h \<longrightarrow> complete))
         in \<exists>hdr' asc' qn nl. dns_check_reply (hdr @ w @ 0 # r @ post) (int (13 + length w + length r)) asc
              = Some (ok, hdr' @ w @ 0 # r @ post, asc', qn, nl)
           \<and> (ok \<longrightarrow> qn = Some (length w + 1) \<and> ascii_after asc w asc' \<and> view_header hdr' = Some (checked_header h)
               \<and> (\<exists>newlen. nl = Some newlen
                   \<and> unat newlen = 17 + length w + (if hd_good h then length (encode_rrs rs) else length r - 4)))))"
proof (intro conjI allI impI, goal_cases)
  case (1 msg len)
  then have len: "len \<le> int (length msg)" and no: "len < 12 \<or> 0 \<notin> set (drop 12 (take (nat len) msg))" by blast+
  show ?case
  proof (cases "len < 12")
    case True
    then show ?thesis by (simp add: dns_check_reply_def check_msg_def dns_sizes)
  next
    case False
    let ?hdr = "take 12 (take (nat len) msg)" and ?body = "drop 12 (take (nat len) msg)" and ?post = "drop (nat len) msg"
    have m: "msg = ?hdr @ ?body @ ?post" by (metis append.assoc append_take_drop_id)
    have l: "length ?hdr = 12" "len = int (12 + length ?body)" using False len by simp_all
    have "12 \<le> length ?hdr" using l(1) by simp
    then obtain h where h: "view_header ?hdr = Some h" using view_header_total by blast
    have "0 \<notin> set ?body" using no False by blast
    from check_msg_no_zero [OF l(1) h this l(2), of False ?post asc] show ?thesis
      unfolding m [symmetric] by (auto simp: dns_check_reply_def)
  qed
next
  case (2 hdr h w r post rs rem complete)
  then have hdr: "length hdr = 12" "view_header hdr = Some h" and w: "0 \<notin> set w"
    and rs: "records (unat (hd_ancount h) + unat (hd_nscount h)) (drop 4 r) = (rs, rem, complete)" by blast+
  have m: "(13 + length w + length r \<le> 65535 \<and> length w + 1 \<le> 255 \<and> 4 \<le> length r \<and> hd_qr h = 1 \<and> hd_qdcount h = 1
      \<and> (asc = None \<or> parse_labels w \<noteq> None) \<and> (hd_good h \<longrightarrow> complete)) \<longleftrightarrow> msg_ok False h w r asc \<and> (hd_good h \<longrightarrow> complete)"
    by (auto simp: msg_ok_def)
  show ?case
    unfolding Let_def m
  proof (cases "msg_ok False h w r asc")
    case False
    from check_msg_eq [OF hdr w asc refl refl, of False r post] False show
      "\<exists>hdr' asc' qn nl. dns_check_reply (hdr @ w @ 0 # r @ post) (int (13 + length w + length r)) asc
          = Some (msg_ok False h w r asc \<and> (hd_good h \<longrightarrow> complete), hdr' @ w @ 0 # r @ post, asc', qn, nl)
        \<and> (msg_ok False h w r asc \<and> (hd_good h \<longrightarrow> complete) \<longrightarrow> qn = Some (length w + 1) \<and> ascii_after asc w asc'
            \<and> view_header hdr' = Some (checked_header h)
            \<and> (\<exists>newlen. nl = Some newlen \<and> unat newlen = 17 + length w + (if hd_good h then length (encode_rrs rs) else length r - 4)))"
      by (auto simp: dns_check_reply_def)
  next
    case True
    then have "r = take 4 r @ drop 4 r" "length (take 4 r) = 4" by (simp_all add: msg_ok_def)
    then obtain q xs where r: "r = q @ xs" "length q = 4" by blast
    then have rs: "records (unat (hd_ancount h) + unat (hd_nscount h)) xs = (rs, rem, complete)" using rs by simp
    have "unat (word_of_nat (reply_newlen h w xs rs) :: u16) = 17 + length w + (if hd_good h then length (encode_rrs rs) else length r - 4)"
      if "hd_good h \<longrightarrow> complete"
      using unat_reply_newlen [OF True [unfolded r(1)] r(2) rs] r by (simp add: reply_newlen_def that)
    note n = this
    have m': "hdr @ w @ 0 # r @ post = hdr @ w @ 0 # q @ xs @ post" "int (13 + length w + length r) = int (17 + length w + length xs)"
      using r by simp_all
    have join: "q @ xs @ post = r @ post" "q @ xs = r" using r(1) by simp_all
    from dns_check_reply_eq [OF hdr w asc r(2) m' rs refl, unfolded join] obtain hdr' asc' qn nl where
      "dns_check_reply (hdr @ w @ 0 # r @ post) (int (13 + length w + length r)) asc
        = Some (msg_ok False h w r asc \<and> (hd_good h \<longrightarrow> complete), hdr' @ w @ 0 # r @ post, asc', qn, nl)"
      "msg_ok False h w r asc \<and> (hd_good h \<longrightarrow> complete) \<longrightarrow> qn = Some (length w + 1) \<and> nl = Some (word_of_nat (reply_newlen h w xs rs))
        \<and> ascii_after asc w asc' \<and> view_header hdr' = Some (checked_header h)"
      by blast
    then show
      "\<exists>hdr' asc' qn nl. dns_check_reply (hdr @ w @ 0 # r @ post) (int (13 + length w + length r)) asc
          = Some (msg_ok False h w r asc \<and> (hd_good h \<longrightarrow> complete), hdr' @ w @ 0 # r @ post, asc', qn, nl)
        \<and> (msg_ok False h w r asc \<and> (hd_good h \<longrightarrow> complete) \<longrightarrow> qn = Some (length w + 1) \<and> ascii_after asc w asc'
            \<and> view_header hdr' = Some (checked_header h)
            \<and> (\<exists>newlen. nl = Some newlen \<and> unat newlen = 17 + length w + (if hd_good h then length (encode_rrs rs) else length r - 4)))"
      using n by (intro exI [of _ hdr'] exI [of _ asc'] exI [of _ qn] exI [of _ nl]) blast
  qed
qed

theorem dns_check_reply_correct_witness:
  "\<exists>hdr' asc' qn nl. dns_check_reply ([0, 7, 129, 0, 0, 1, 0, 0, 0, 0, 0, 0] @ [] @ 0 # [0, 1, 0] @ []) 16 None
    = Some (False, hdr' @ [] @ 0 # [0, 1, 0] @ [], asc', qn, nl)"
proof -
  let ?h = "[0, 7, 129, 0, 0, 1, 0, 0, 0, 0, 0, 0] :: bytes"
  obtain h where h: "view_header ?h = Some h" using view_header_total [of ?h] by auto
  have asc: "ascii_buf None" by (simp add: ascii_buf_def)
  obtain rs rem c where rs: "records (unat (hd_ancount h) + unat (hd_nscount h)) (drop 4 [0, 1, 0 :: u8]) = (rs, rem, c)"
    by (cases "records (unat (hd_ancount h) + unat (hd_nscount h)) (drop 4 [0, 1, 0 :: u8])") auto
  have "length ?h = 12 \<and> view_header ?h = Some h \<and> 0 \<notin> set ([] :: bytes)
      \<and> records (unat (hd_ancount h) + unat (hd_nscount h)) (drop 4 [0, 1, 0 :: u8]) = (rs, rem, c)" using h rs by simp
  from dns_check_reply_correct [OF asc, THEN conjunct2, rule_format, OF this, where post = "[]"] show ?thesis
    by (auto simp: Let_def)
qed

text \<open>
  C9: What the cache relies on. When \<open>dns_check_reply\<close> has accepted a good reply, then on the
  \<open>newlen\<close> bytes it kept \<open>dns_get_ttl\<close> succeeds: it clamps the TTL of every record between
  \<open>min_ttl\<close> and \<open>max_ttl\<close> (OPT records aside) and returns the smallest, or \<open>nodata_ttl\<close>
  when there is none. A later \<open>dns_update_ttl\<close> on the stored message cannot fail its
  assertions: every record parses, nothing is left over, each TTL becomes the clamped one plus
  the change, at least 1, and no other byte of the message changes.
\<close>
theorem checked_reply_ttls:
  assumes "dns_check_reply msg len asc = Some (True, msg', asc', Some qn, Some newlen)"
    and "len \<le> int (length msg)" "ascii_buf asc" "dns_is_good msg = Some True"
  shows "\<exists>hq rs post. msg' = hq @ encode_rrs rs @ post \<and> length hq = msg_minlen qn
    \<and> unat newlen = length (hq @ encode_rrs rs) \<and> list_all wf_rr rs
    \<and> (let kept = hq @ encode_rrs (map (clamp_rr min_ttl max_ttl) rs) @ post in
        dns_get_ttl msg' (int (unat newlen)) qn nodata_ttl min_ttl max_ttl =
          Some (let ts = map (\<lambda>r. clamp_ttl min_ttl max_ttl (rr_sttl r)) (non_opt rs) in
                  if ts = [] then nodata_ttl else Min (set ts), kept)
      \<and> dns_update_ttl kept (int (unat newlen)) qn change =
          Some (hq @ encode_rrs (map (update_rr change) (map (clamp_rr min_ttl max_ttl) rs)) @ post))"
proof -
  obtain hq h rs post where s: "msg' = hq @ encode_rrs rs @ post" "length hq = msg_minlen qn"
    "unat newlen = length (hq @ encode_rrs rs)" "list_all wf_rr rs"
    "view_header hq = Some h" "hd_good h"
    "unat (hd_ancount h) + unat (hd_nscount h) + unat (hd_arcount h) = length rs"
    using checked_reply_shape [OF assms] by metis
  let ?cs = "map (clamp_rr min_ttl max_ttl) rs"
  have rs: "records (length rs) (encode_rrs rs) = (rs, [], True)"
    using records_encode [OF s(4), of "[]"] by simp
  have cs: "records (length rs) (encode_rrs ?cs) = (?cs, [], True)"
    using records_encode [of ?cs "[]"] s(4) by (simp add: list_all_iff)
  have "length (encode_rrs ?cs) = length (encode_rrs rs)"
    by (simp add: encode_rrs_def length_concat comp_def)
  then have n: "int (unat newlen) = int (length hq + length (encode_rrs ?cs))"
    "int (unat newlen) = int (length hq + length (encode_rrs rs))" using s(3) by simp_all
  have "dns_get_ttl msg' (int (unat newlen)) qn nodata_ttl min_ttl max_ttl =
      Some (let ts = map (\<lambda>r. clamp_ttl min_ttl max_ttl (rr_sttl r)) (non_opt rs) in
              if ts = [] then nodata_ttl else Min (set ts), hq @ encode_rrs ?cs @ post)"
    unfolding s(1) using dns_get_ttl_eq [OF s(2,5,6) n(2), unfolded s(7), OF rs, of post] by simp
  moreover have "dns_update_ttl (hq @ encode_rrs ?cs @ post) (int (unat newlen)) qn change =
      Some (hq @ encode_rrs (map (update_rr change) ?cs) @ post)"
    using dns_update_ttl_eq [OF s(2,5) n(1), unfolded s(7), OF cs, of post change] by simp
  ultimately show ?thesis
    using s by (intro exI [of _ hq] exI [of _ rs] exI [of _ post]) (simp only: Let_def)
qed

text \<open>The check of a small good reply with one A record, used as an instance below.\<close>

definition sample_rr :: rr where
  "sample_rr = \<lparr>rr_name = [192, 12], rr_type = 1, rr_class = 1, rr_ttl = 300, rr_data = [1, 2, 4, 8]\<rparr>"

definition sample_reply :: bytes where
  "sample_reply = [0, 7, 129, 128, 0, 1, 0, 1, 0, 0, 0, 0] @ [1, 97] @ 0 # [0, 1, 0, 1] @ encode_rr sample_rr"

lemma sample_checked:
  "dns_check_reply sample_reply 35 None = Some (True, sample_reply, None, Some 3, Some 35)"
  by code_simp

theorem checked_reply_ttls_witness:
  "\<exists>ttl kept m. dns_get_ttl sample_reply (int (unat (35 :: u16))) 3 60 600 0 = Some (ttl, kept)
     \<and> dns_update_ttl kept (int (unat (35 :: u16))) 3 (- 60) = Some m"
proof -
  have "(35 :: int) \<le> int (length sample_reply)" "dns_is_good sample_reply = Some True"
    by code_simp+
  then show ?thesis
    using checked_reply_ttls [OF sample_checked, of 600 0 60 "- 60"]
    unfolding Let_def ascii_buf_def by auto
qed

end
