(* ===== verification/Hash.thy ===== *)
theory Hash
  imports Prelude
begin

unbundle bit_operations_syntax

text \<open>
  \<open>calc_hashv\<close> of \<^verbatim>\<open>src/misc.c\<close>: the Jenkins hash \<^verbatim>\<open>HASH_JEN\<close> of
  \<^verbatim>\<open>src/uthash.h\<close> on the bytes of a key, in 32-bit arithmetic. Every bucket index of the
  domain list and of the caches is made from it.
\<close>

text \<open>One \<^verbatim>\<open>a -= b; a -= c; a ^= x\<close> of the mix.\<close>

definition jen_step :: "u32 \<Rightarrow> u32 \<Rightarrow> u32 \<Rightarrow> u32 \<Rightarrow> u32" where
  "jen_step a b c x = (a - b - c) XOR x"

definition HASH_JEN_MIX :: "u32 \<times> u32 \<times> u32 \<Rightarrow> u32 \<times> u32 \<times> u32" where
  "HASH_JEN_MIX = (\<lambda>(a, b, c).
     let a = jen_step a b c (drop_bit 13 c) in let b = jen_step b c a (push_bit 8 a) in
     let c = jen_step c a b (drop_bit 13 b) in let a = jen_step a b c (drop_bit 12 c) in
     let b = jen_step b c a (push_bit 16 a) in let c = jen_step c a b (drop_bit 5 b) in
     let a = jen_step a b c (drop_bit 3 c) in let b = jen_step b c a (push_bit 10 a) in
     let c = jen_step c a b (drop_bit 15 b) in (a, b, c))"

text \<open>\<^verbatim>\<open>(unsigned)key[i] << s\<close>; a word of four key bytes, the first one lowest.\<close>

definition key_at :: "bytes \<Rightarrow> nat \<Rightarrow> nat \<Rightarrow> u32" where
  "key_at key i s = push_bit s (ucast (key ! i))"

definition key_word :: "bytes \<Rightarrow> nat \<Rightarrow> u32" where
  "key_word key i = key_at key i 0 + key_at key (i + 1) 8 + key_at key (i + 2) 16 + key_at key (i + 3) 24"

text \<open>The loop over blocks of twelve bytes; it returns the remaining key too.\<close>

function hash_jen_loop :: "bytes \<Rightarrow> u32 \<times> u32 \<times> u32 \<Rightarrow> bytes \<times> u32 \<times> u32 \<times> u32" where
  "hash_jen_loop key (i, j, h) =
     (if length key \<ge> 12
      then hash_jen_loop (drop 12 key) (HASH_JEN_MIX (i + key_word key 0, j + key_word key 4, h + key_word key 8))
      else (key, i, j, h))"
  by pat_completeness auto
termination by (relation "measure (\<lambda>(key, s). length key)") auto

declare hash_jen_loop.simps [simp del]

text \<open>The \<^verbatim>\<open>switch\<close> with fall-through: each remaining byte is added to its register.\<close>

definition hash_jen_tail :: "bytes \<Rightarrow> u32 \<times> u32 \<times> u32 \<Rightarrow> u32 \<times> u32 \<times> u32" where
  "hash_jen_tail key = (\<lambda>(i, j, h).
     let k = length key;
         h = (if k \<ge> 11 then h + key_at key 10 24 else h);
         h = (if k \<ge> 10 then h + key_at key 9 16 else h);
         h = (if k \<ge> 9 then h + key_at key 8 8 else h);
         j = (if k \<ge> 8 then j + key_at key 7 24 else j);
         j = (if k \<ge> 7 then j + key_at key 6 16 else j);
         j = (if k \<ge> 6 then j + key_at key 5 8 else j);
         j = (if k \<ge> 5 then j + key_at key 4 0 else j);
         i = (if k \<ge> 4 then i + key_at key 3 24 else i);
         i = (if k \<ge> 3 then i + key_at key 2 16 else i);
         i = (if k \<ge> 2 then i + key_at key 1 8 else i);
         i = (if k \<ge> 1 then i + key_at key 0 0 else i)
     in (i, j, h))"

definition HASH_JEN :: "bytes \<Rightarrow> u32" where
  "HASH_JEN key =
     (let (rest, i, j, h) = hash_jen_loop key (0x9e3779b9, 0x9e3779b9, 0xfeedbeef);
          (i, j, h) = HASH_JEN_MIX (hash_jen_tail rest (i, j, h + word_of_nat (length key)))
      in h)"

definition calc_hashv :: "bytes \<Rightarrow> u32" where
  "calc_hashv key = HASH_JEN key"

end
