(* ===== verification/Dnl_Arena.thy ===== *)
theory Dnl_Arena
  imports Hash
begin

text \<open>
  The storage of the domain-name lists in \<^verbatim>\<open>src/dnl.c\<close>: the arena of \<open>alloc\<close>, whose
  addresses are offsets from \<^verbatim>\<open>s_base\<close>, and the \<^verbatim>\<open>struct name\<close> and \<^verbatim>\<open>struct bucket\<close>
  objects in it. The state keeps the names and the buckets in two stores indexed by address.
  \<^verbatim>\<open>mmap\<close> and \<^verbatim>\<open>mremap\<close> are taken to succeed (the code exits otherwise); the memory they
  give is zero, so a bucket never written is \<open>zero_bucket\<close>. Addresses and sizes are \<^typ>\<open>nat\<close>,
  while \<open>alloc\<close> adds \<^verbatim>\<open>u32\<close> numbers. The theorems on loading and on looking up assume less than
  \<open>2 ^ 29\<close> bytes of names, which the bit-fields for addresses ask for anyway. These are fewer than
  \<open>2 ^ 26\<close> names, for which either map takes at most \<open>2 ^ 29\<close> bytes of buckets, so the arena ends
  below \<open>2 ^ 31\<close> and no addition wraps around; with more, the code would not notice. The counters
  of a map are \<^typ>\<open>u32\<close>.
\<close>

section \<open>Data\<close>

definition NAMEADDR_BIT :: nat where "NAMEADDR_BIT = 29"
definition NAMEADDR_END :: nat where "NAMEADDR_END = 2 ^ NAMEADDR_BIT - 1"

text \<open>What a bit-field of \<open>NAMEADDR_BIT\<close> bits keeps of an address, and one of the other three.\<close>

definition nameaddr_field :: "nat \<Rightarrow> nat" where
  "nameaddr_field a = a mod 2 ^ NAMEADDR_BIT"

definition tag_field :: "u8 \<Rightarrow> u8" where
  "tag_field t = take_bit (32 - NAMEADDR_BIT) t"

record name_t =
  n_next :: nat
  n_tag :: u8
  n_hashv :: u32
  n_namelen :: u8
  n_name :: bytes

datatype bucket_state = BUCKET_FREE | BUCKET_HEAD | BUCKET_NEXT

record bucket_t =
  b_state :: bucket_state
  b_head :: nat

definition zero_bucket :: bucket_t where
  "zero_bucket = \<lparr>b_state = BUCKET_FREE, b_head = 0\<rparr>"

record map_t =
  m_notnull :: bool
  m_buckets :: nat
  m_lcap :: nat
  m_nlists :: u32
  m_nitems :: u32
  m_shift :: nat

definition zero_map :: map_t where
  "zero_map = \<lparr>m_notnull = False, m_buckets = 0, m_lcap = 0, m_nlists = 0, m_nitems = 0, m_shift = 0\<rparr>"

text \<open>The static variables of the file.\<close>

record dnl_t =
  s_names :: "nat \<Rightarrow> name_t option"
  s_bkts :: "nat \<Rightarrow> bucket_t"
  s_end :: nat
  s_cap :: nat
  s_map1 :: map_t
  s_map2 :: map_t
  s_level_interest :: u8
  s_level_max :: nat
  s_pagesz :: nat

text \<open>\<open>s_pagesz\<close> is what \<^verbatim>\<open>sysconf(_SC_PAGESIZE)\<close> returns.\<close>

definition dnl_initial :: "nat \<Rightarrow> dnl_t" where
  "dnl_initial pagesz = \<lparr>s_names = (\<lambda>_. None), s_bkts = (\<lambda>_. zero_bucket), s_end = 0, s_cap = 0,
     s_map1 = zero_map, s_map2 = zero_map, s_level_interest = 0, s_level_max = 0,
     s_pagesz = pagesz\<rparr>"

section \<open>alloc\<close>

definition align_to :: "nat \<Rightarrow> nat \<Rightarrow> nat" where
  "align_to sz align = (let n = sz mod align in if n \<noteq> 0 then sz + (align - n) else sz)"

definition alloc :: "nat \<Rightarrow> nat \<Rightarrow> dnl_t \<Rightarrow> nat \<times> dnl_t" where
  "alloc sz align s =
     (let s = s\<lparr>s_end := align_to (s_end s) align\<rparr>;
          s = s\<lparr>s_end := s_end s + sz\<rparr>;
          s = (if s_end s > s_cap s then s\<lparr>s_cap := align_to (s_end s) (s_pagesz s)\<rparr> else s)
      in (s_end s - sz, s))"

definition NAME_SIZE :: nat where "NAME_SIZE = 9"
definition BUCKET_SIZE :: nat where "BUCKET_SIZE = 4"
definition BUCKET_ALIGN :: nat where "BUCKET_ALIGN = 4"

definition alloc_name :: "nat \<Rightarrow> dnl_t \<Rightarrow> nat \<times> dnl_t" where
  "alloc_name namelen s = alloc (NAME_SIZE + namelen) 1 s"

definition alloc_bucket :: "nat \<Rightarrow> dnl_t \<Rightarrow> nat \<times> dnl_t" where
  "alloc_bucket n s = alloc (BUCKET_SIZE * n) BUCKET_ALIGN s"

section \<open>Names\<close>

definition ptr_name :: "dnl_t \<Rightarrow> nat \<Rightarrow> name_t option" where
  "ptr_name s a = s_names s a"

definition get_hashv :: "dnl_t \<Rightarrow> nat \<Rightarrow> u32 option" where
  "get_hashv s a = map_option n_hashv (ptr_name s a)"

definition get_namesz :: "dnl_t \<Rightarrow> nat \<Rightarrow> nat option" where
  "get_namesz s a = map_option (\<lambda>p. NAME_SIZE + unat (n_namelen p)) (ptr_name s a)"

text \<open>\<open>name\<close> is the C string without its terminator.\<close>

definition add_name :: "bytes \<Rightarrow> u8 \<Rightarrow> dnl_t \<Rightarrow> nat \<times> dnl_t" where
  "add_name name tag s =
     (let namelen = word_of_nat (length name) :: u8;
          hashv = calc_hashv (take (unat namelen) name);
          (nameaddr, s) = alloc_name (unat namelen) s;
          p = \<lparr>n_next = nameaddr_field NAMEADDR_END, n_tag = tag_field tag, n_hashv = hashv,
               n_namelen = namelen, n_name = take (unat namelen) name\<rparr>
      in (nameaddr, s\<lparr>s_names := (s_names s)(nameaddr \<mapsto> p)\<rparr>))"

definition dnl_add_name :: "bytes \<Rightarrow> u8 \<Rightarrow> dnl_t \<Rightarrow> nat \<times> dnl_t" where
  "dnl_add_name name tag s = add_name name tag s"

definition name_eq_r :: "dnl_t \<Rightarrow> nat \<Rightarrow> u32 \<Rightarrow> u8 \<Rightarrow> bytes \<Rightarrow> bool option" where
  "name_eq_r s a hashv namelen name = do {
     p \<leftarrow> ptr_name s a;
     Some (n_hashv p = hashv \<and> n_namelen p = namelen
       \<and> take (unat namelen) (n_name p) = take (unat namelen) name) }"

definition name_eq :: "dnl_t \<Rightarrow> nat \<Rightarrow> nat \<Rightarrow> bool option" where
  "name_eq s addr1 addr2 =
     (if addr1 = addr2 then Some True
      else do { p \<leftarrow> ptr_name s addr2; name_eq_r s addr1 (n_hashv p) (n_namelen p) (n_name p) })"

section \<open>Buckets and lists\<close>

definition ptr_bucket :: "dnl_t \<Rightarrow> nat \<Rightarrow> bucket_t" where
  "ptr_bucket s a = s_bkts s a"

definition put_bucket :: "nat \<Rightarrow> bucket_t \<Rightarrow> dnl_t \<Rightarrow> dnl_t" where
  "put_bucket a b s = s\<lparr>s_bkts := (s_bkts s)(a := b)\<rparr>"

definition map_cap :: "map_t \<Rightarrow> nat" where
  "map_cap m = 2 ^ m_lcap m"

definition LOAD_FACTOR_X :: nat where "LOAD_FACTOR_X = 3"
definition LOAD_FACTOR_Y :: nat where "LOAD_FACTOR_Y = 4"

definition map_maxload :: "map_t \<Rightarrow> nat" where
  "map_maxload m = map_cap m * LOAD_FACTOR_X div LOAD_FACTOR_Y"

definition map_hashv :: "map_t \<Rightarrow> u32 \<Rightarrow> nat" where
  "map_hashv m hashv = unat hashv div 2 ^ m_shift m"

definition map_idx :: "map_t \<Rightarrow> u32 \<Rightarrow> nat" where
  "map_idx m hashv = map_hashv m hashv mod map_cap m"

definition bucket_by_idx :: "map_t \<Rightarrow> nat \<Rightarrow> nat" where
  "bucket_by_idx m idx = m_buckets m + BUCKET_SIZE * idx"

definition bucket_by_hashv :: "map_t \<Rightarrow> u32 \<Rightarrow> nat" where
  "bucket_by_hashv m hashv = bucket_by_idx m (map_idx m hashv)"

definition next_nameaddr :: "dnl_t \<Rightarrow> nat \<Rightarrow> nat option" where
  "next_nameaddr s a = (if a = NAMEADDR_END then Some NAMEADDR_END else map_option n_next (ptr_name s a))"

text \<open>
  \<^verbatim>\<open>return_if_exists\<close>: the loop of \<^verbatim>\<open>foreach_list\<close> from \<open>cur\<close>, with \<open>nxt\<close> its
  \<^verbatim>\<open>nextaddr_\<close>; \<open>Some None\<close> is the \<^verbatim>\<open>return\<close>, \<open>Some (Some n)\<close> the count. Where a
  list were cyclic the loop would not end, which is the value \<open>None\<close>.
\<close>

partial_function (option) return_if_exists_loop :: "dnl_t \<Rightarrow> nat \<Rightarrow> nat \<Rightarrow> nat \<Rightarrow> nat \<Rightarrow> nat option option" where
  "return_if_exists_loop s cur nxt nameaddr n =
     (if cur = NAMEADDR_END then Some (Some n)
      else do {
        eq \<leftarrow> name_eq s cur nameaddr;
        if eq then Some None
        else do {
          nxt' \<leftarrow> next_nameaddr s nxt;
          return_if_exists_loop s nxt nxt' nameaddr (n + 1) } })"

definition return_if_exists :: "dnl_t \<Rightarrow> nat \<Rightarrow> nat \<Rightarrow> nat option option" where
  "return_if_exists s bucket nameaddr = do {
     let cur = b_head (ptr_bucket s bucket);
     nxt \<leftarrow> next_nameaddr s cur;
     return_if_exists_loop s cur nxt nameaddr 0 }"

definition set_next :: "nat \<Rightarrow> nat \<Rightarrow> dnl_t \<Rightarrow> dnl_t option" where
  "set_next a v s = do {
     p \<leftarrow> ptr_name s a;
     Some (s\<lparr>s_names := (s_names s)(a \<mapsto> p\<lparr>n_next := nameaddr_field v\<rparr>)\<rparr>) }"

definition store_as_head :: "nat \<Rightarrow> nat \<Rightarrow> dnl_t \<Rightarrow> dnl_t option" where
  "store_as_head bucket nameaddr s = do {
     _ \<leftarrow> c_assert (b_state (ptr_bucket s bucket) = BUCKET_FREE);
     let s = put_bucket bucket \<lparr>b_state = BUCKET_HEAD, b_head = nameaddr_field nameaddr\<rparr> s;
     set_next nameaddr NAMEADDR_END s }"

definition store_as_body :: "nat \<Rightarrow> nat \<Rightarrow> dnl_t \<Rightarrow> dnl_t option" where
  "store_as_body bucket nameaddr s = do {
     _ \<leftarrow> c_assert (b_state (ptr_bucket s bucket) = BUCKET_HEAD);
     s \<leftarrow> set_next nameaddr (b_head (ptr_bucket s bucket)) s;
     Some (put_bucket bucket ((ptr_bucket s bucket)\<lparr>b_head := nameaddr_field nameaddr\<rparr>) s) }"

section \<open>Lists in the arena\<close>

text \<open>\<open>path nm a xs\<close>: following \<open>next\<close> from \<open>a\<close> gives the addresses \<open>xs\<close> and then the end.\<close>

fun path :: "(nat \<Rightarrow> name_t option) \<Rightarrow> nat \<Rightarrow> nat list \<Rightarrow> bool" where
  "path nm a [] \<longleftrightarrow> a = NAMEADDR_END"
| "path nm a (x # xs) \<longleftrightarrow> a = x \<and> x < NAMEADDR_END \<and> (\<exists>p. nm x = Some p \<and> path nm (n_next p) xs)"

lemma path_cong: "(\<And>x. x \<in> set xs \<Longrightarrow> nm' x = nm x) \<Longrightarrow> path nm' a xs = path nm a xs"
  by (induction xs arbitrary: a) auto

lemma path_upd [simp]: "x \<notin> set xs \<Longrightarrow> path (nm(x := v)) a xs = path nm a xs"
  by (rule path_cong) auto

lemma path_unique: "path nm a xs \<Longrightarrow> path nm a ys \<Longrightarrow> xs = ys"
proof (induction xs arbitrary: a ys)
  case Nil
  then show ?case by (cases ys) auto
next
  case (Cons x xs)
  then show ?case by (cases ys) auto
qed

lemma path_append: "path nm a (xs @ y # ys) \<Longrightarrow> path nm y (y # ys)"
  by (induction xs arbitrary: a) auto

lemma path_distinct: "path nm a xs \<Longrightarrow> distinct xs"
proof (induction xs arbitrary: a)
  case (Cons x xs)
  then obtain p where p: "a = x" "nm x = Some p" "path nm (n_next p) xs" by auto
  have "x \<notin> set xs"
  proof
    assume "x \<in> set xs"
    then obtain us vs where xs: "xs = us @ x # vs" by (meson split_list)
    have "path nm x (x # vs)" using p(3) unfolding xs by (rule path_append)
    moreover have "path nm x (x # xs)" using Cons.prems p(1) by simp
    ultimately have "x # vs = x # xs" by (rule path_unique)
    then show False using xs by (metis append_eq_Cons_conv length_append length_Cons less_add_Suc2
        list.inject nat_neq_iff)
  qed
  then show ?case using Cons.IH p(3) by simp
qed simp

lemma path_head_le: "path nm a xs \<Longrightarrow> a \<le> NAMEADDR_END"
  by (cases xs) auto

lemma path_names: "path nm a xs \<Longrightarrow> x \<in> set xs \<Longrightarrow> \<exists>p. nm x = Some p \<and> x < NAMEADDR_END"
  by (induction xs arbitrary: a) auto

lemma nameaddr_field_id [simp]: "a \<le> NAMEADDR_END \<Longrightarrow> nameaddr_field a = a"
  by (simp add: nameaddr_field_def NAMEADDR_END_def NAMEADDR_BIT_def)

lemma next_nameaddr_path: "path (s_names s) a xs \<Longrightarrow> \<exists>b. next_nameaddr s a = Some b \<and>
    (case xs of [] \<Rightarrow> b = NAMEADDR_END | x # ys \<Rightarrow> path (s_names s) b ys)"
  by (cases xs) (auto simp: next_nameaddr_def ptr_name_def)

text \<open>What a bucket holds: the addresses of its list, none where it is free or sends to the next map.\<close>

definition bucket_list :: "dnl_t \<Rightarrow> nat \<Rightarrow> nat list \<Rightarrow> bool" where
  "bucket_list s b xs \<longleftrightarrow> (if b_state (s_bkts s b) = BUCKET_HEAD
     then xs \<noteq> [] \<and> path (s_names s) (b_head (s_bkts s b)) xs else xs = [])"

lemma bucket_list_cong:
  "(\<And>x. x \<in> set xs \<Longrightarrow> s_names s' x = s_names s x) \<Longrightarrow> s_bkts s' b = s_bkts s b \<Longrightarrow>
     bucket_list s' b xs = bucket_list s b xs"
  using path_cong [of xs "s_names s'" "s_names s"] by (simp add: bucket_list_def)

lemma bucket_list_distinct: "bucket_list s b xs \<Longrightarrow> distinct xs"
  by (auto simp: bucket_list_def path_distinct split: if_splits)

text \<open>Storing a name at the front of the list of a bucket.\<close>

definition push_name :: "nat \<Rightarrow> nat \<Rightarrow> name_t \<Rightarrow> dnl_t \<Rightarrow> dnl_t" where
  "push_name b x p s = s\<lparr>
     s_names := (s_names s)(x \<mapsto> p\<lparr>n_next := if b_state (s_bkts s b) = BUCKET_HEAD then b_head (s_bkts s b)
                                     else NAMEADDR_END\<rparr>),
     s_bkts := (s_bkts s)(b := \<lparr>b_state = BUCKET_HEAD, b_head = x\<rparr>)\<rparr>"

lemma store_as_head_eq:
  assumes "b_state (s_bkts s b) = BUCKET_FREE" "s_names s x = Some p" "x < NAMEADDR_END"
  shows "store_as_head b x s = Some (push_name b x p s)"
  using assms by (simp add: store_as_head_def push_name_def ptr_bucket_def put_bucket_def set_next_def ptr_name_def)

lemma store_as_body_eq:
  assumes "b_state (s_bkts s b) = BUCKET_HEAD" "bucket_list s b xs" "s_names s x = Some p" "x < NAMEADDR_END"
  shows "store_as_body b x s = Some (push_name b x p s)"
proof -
  have "b_head (s_bkts s b) \<le> NAMEADDR_END"
    using assms path_head_le by (auto simp: bucket_list_def)
  then show ?thesis
    using assms
    by (cases "s_bkts s b")
      (simp add: store_as_body_def push_name_def ptr_bucket_def put_bucket_def set_next_def ptr_name_def)
qed

lemma bucket_list_push:
  assumes "bucket_list s b xs" "x \<notin> set xs" "x < NAMEADDR_END"
  shows "bucket_list (push_name b x p s) b (x # xs)"
  using assms by (auto simp: bucket_list_def push_name_def split: if_splits)

lemma bucket_list_push_other:
  assumes "x \<notin> set xs" "b' \<noteq> b"
  shows "bucket_list (push_name b x p s) b' xs = bucket_list s b' xs"
  using assms by (intro bucket_list_cong) (auto simp: push_name_def)

section \<open>The data of the names\<close>

text \<open>
  Lists change the \<open>next\<close> field only. \<open>names_rep s D\<close>: the name and the tag at an address
  are those \<open>D\<close> gives, the address is below the end marker, and the cached length and hash
  are those of the name.
\<close>

definition wf_name :: "name_t \<Rightarrow> bool" where
  "wf_name p \<longleftrightarrow> length (n_name p) < 256 \<and> n_namelen p = word_of_nat (length (n_name p))
     \<and> n_hashv p = calc_hashv (n_name p)"

type_synonym name_data = "nat \<Rightarrow> (bytes \<times> u8) option"

definition names_rep :: "dnl_t \<Rightarrow> name_data \<Rightarrow> bool" where
  "names_rep s D \<longleftrightarrow> (\<forall>a. map_option (\<lambda>p. (n_name p, n_tag p)) (s_names s a) = D a)
     \<and> (\<forall>a p. s_names s a = Some p \<longrightarrow> a < NAMEADDR_END \<and> wf_name p)"

definition name_at :: "name_data \<Rightarrow> nat \<Rightarrow> bytes" where
  "name_at D a = fst (the (D a))"

definition hash_at :: "name_data \<Rightarrow> nat \<Rightarrow> u32" where
  "hash_at D a = calc_hashv (name_at D a)"

lemma names_repD:
  assumes "names_rep s D" "D a = Some (nm, t)"
  shows "\<exists>p. s_names s a = Some p \<and> n_name p = nm \<and> n_tag p = t \<and> n_hashv p = hash_at D a
    \<and> a < NAMEADDR_END \<and> wf_name p \<and> n_name p = name_at D a"
proof -
  have "map_option (\<lambda>p. (n_name p, n_tag p)) (s_names s a) = Some (nm, t)"
    using assms by (simp add: names_rep_def)
  then show ?thesis
    using assms by (auto simp: names_rep_def hash_at_def name_at_def wf_name_def)
qed

lemma names_rep_Some: "names_rep s D \<Longrightarrow> s_names s a = Some p \<Longrightarrow> D a = Some (n_name p, n_tag p)"
  by (metis (no_types, lifting) names_rep_def option.simps(9))

lemma names_rep_next:
  assumes "names_rep s D" "s_names s x = Some p" "s_names s' = (s_names s)(x \<mapsto> p\<lparr>n_next := v\<rparr>)"
  shows "names_rep s' D"
  using assms names_rep_Some [OF assms(1,2)] by (auto simp: names_rep_def wf_name_def split: if_splits)

lemma names_rep_push:
  "names_rep s D \<Longrightarrow> s_names s x = Some p \<Longrightarrow> names_rep (push_name b x p s) D"
  by (rule names_rep_next [of s D x p]) (auto simp: push_name_def)

lemma name_eq_iff:
  assumes "names_rep s D" "D a = Some u" "D b = Some v"
  shows "name_eq s a b = Some (name_at D a = name_at D b)"
proof -
  obtain p where p: "s_names s a = Some p" "n_name p = name_at D a" "wf_name p"
    using names_repD [OF assms(1), of a "fst u" "snd u"] assms(2) by auto
  obtain q where q: "s_names s b = Some q" "n_name q = name_at D b" "wf_name q"
    using names_repD [OF assms(1), of b "fst v" "snd v"] assms(3) by auto
  have len: "unat (n_namelen q) = length (n_name q)" "unat (n_namelen p) = length (n_name p)"
    using p q by (simp_all add: wf_name_def unat_of_nat)
  have "n_hashv p = n_hashv q \<and> n_namelen p = n_namelen q
      \<and> take (unat (n_namelen q)) (n_name p) = take (unat (n_namelen q)) (n_name q)
    \<longleftrightarrow> n_name p = n_name q"
    using p(3) q(3) len by (metis wf_name_def take_all order_refl)
  then show ?thesis
    using p q by (simp add: name_eq_def name_eq_r_def ptr_name_def)
qed

end
