(* ===== verification/Dnl_Map.thy ===== *)
theory Dnl_Map
  imports Dnl_Arena
begin

text \<open>
  The two-level hash map of \<^verbatim>\<open>src/dnl.c\<close>: \<open>add_to_dnl\<close> puts a name into the first map,
  whose buckets hold at most \<open>MAX_COLLISION + 1\<close> names; a bucket that would hold more sends
  all its names to the second map, which \<open>resize_map2\<close> doubles in place. \<open>exists_in_dnl\<close>
  looks a name up. A loop over a list that does not end, a failed assertion and an access to an
  address that holds no name are the value \<open>None\<close>.
\<close>

section \<open>resize_map2\<close>

definition DEFAULT_LCAP :: nat where "DEFAULT_LCAP = 4"
definition MAX_COLLISION :: nat where "MAX_COLLISION = 4"

function calc_lcap_loop :: "nat \<Rightarrow> nat \<Rightarrow> nat \<Rightarrow> nat" where
  "calc_lcap_loop n cap lcap = (if 0 < cap \<and> cap < n then calc_lcap_loop n (cap * 2) (lcap + 1) else lcap)"
  by pat_completeness auto
termination by (relation "measure (\<lambda>(n, cap, lcap). n - cap)") auto

declare calc_lcap_loop.simps [simp del]

definition calc_lcap :: "nat \<Rightarrow> nat" where
  "calc_lcap n = calc_lcap_loop n 1 0"

definition map_set_notnull :: "nat \<Rightarrow> nat \<Rightarrow> map_t \<Rightarrow> dnl_t \<Rightarrow> map_t \<times> dnl_t" where
  "map_set_notnull in_lcap hashv_shift m s =
     (let m = m\<lparr>m_notnull := True\<rparr>;
          m = m\<lparr>m_lcap := in_lcap\<rparr>;
          (a, s) = alloc_bucket (map_cap m) s;
          m = m\<lparr>m_buckets := a\<rparr>
      in (m\<lparr>m_shift := hashv_shift\<rparr>, s))"

text \<open>
  Taking the name \<open>p\<close> out of the list of \<open>bucket\<close>, where \<open>prev\<close> is \<^verbatim>\<open>prev\<close> (\<open>None\<close> for
  \<^verbatim>\<open>NULL\<close>), and putting the name at \<open>cur\<close> into the list of \<open>newbucket\<close>.
\<close>

definition resize_unlink :: "nat \<Rightarrow> nat option \<Rightarrow> name_t \<Rightarrow> dnl_t \<Rightarrow> dnl_t option" where
  "resize_unlink bucket prev p s =
     (case prev of
        Some q \<Rightarrow> set_next q (n_next p) s
      | None \<Rightarrow>
          if n_next p \<noteq> NAMEADDR_END
          then Some (put_bucket bucket ((ptr_bucket s bucket)\<lparr>b_head := nameaddr_field (n_next p)\<rparr>) s)
          else Some ((put_bucket bucket ((ptr_bucket s bucket)\<lparr>b_state := BUCKET_FREE\<rparr>) s)
            \<lparr>s_map2 := (s_map2 s)\<lparr>m_nlists := m_nlists (s_map2 s) - 1\<rparr>\<rparr>))"

definition resize_link :: "nat \<Rightarrow> nat \<Rightarrow> dnl_t \<Rightarrow> dnl_t option" where
  "resize_link newbucket cur s =
     (if b_state (ptr_bucket s newbucket) = BUCKET_FREE then do {
        s \<leftarrow> store_as_head newbucket cur s;
        Some (s\<lparr>s_map2 := (s_map2 s)\<lparr>m_nlists := m_nlists (s_map2 s) + 1\<rparr>\<rparr>) }
      else do {
        _ \<leftarrow> c_assert (b_state (ptr_bucket s newbucket) = BUCKET_HEAD);
        store_as_body newbucket cur s })"

text \<open>The walk over the list of bucket \<open>idx\<close>: \<open>cur\<close> is \<^verbatim>\<open>curaddr\<close> and \<open>nxt\<close> is \<^verbatim>\<open>nextaddr_\<close>.\<close>

partial_function (option) resize_list_loop ::
    "dnl_t \<Rightarrow> nat \<Rightarrow> nat \<Rightarrow> nat option \<Rightarrow> nat \<Rightarrow> nat \<Rightarrow> dnl_t option" where
  "resize_list_loop s idx n prev cur nxt =
     (if cur = NAMEADDR_END then Some s
      else do {
        p \<leftarrow> ptr_name s cur;
        let newidx = map_idx (s_map2 s) (n_hashv p);
        (s, prev) \<leftarrow>
          (if newidx = idx then Some (s, Some cur)
           else do {
             _ \<leftarrow> c_assert (newidx \<ge> n);
             _ \<leftarrow> c_assert (newidx < map_cap (s_map2 s));
             s \<leftarrow> resize_unlink (bucket_by_idx (s_map2 s) idx) prev p s;
             s \<leftarrow> resize_link (bucket_by_idx (s_map2 s) newidx) cur s;
             Some (s, prev) });
        nxt' \<leftarrow> next_nameaddr s nxt;
        resize_list_loop s idx n prev nxt nxt' })"

text \<open>The loop over the buckets \<open>idx\<close>, \<open>idx + 1\<close>, ..., \<open>idx + k - 1\<close>.\<close>

fun resize_buckets_loop :: "nat \<Rightarrow> nat \<Rightarrow> nat \<Rightarrow> dnl_t \<Rightarrow> dnl_t option" where
  "resize_buckets_loop 0 idx n s = Some s"
| "resize_buckets_loop (Suc k) idx n s = do {
     let bucket = ptr_bucket s (bucket_by_idx (s_map2 s) idx);
     s \<leftarrow> (if b_state bucket \<noteq> BUCKET_HEAD then Some s
         else do {
           nxt \<leftarrow> next_nameaddr s (b_head bucket);
           resize_list_loop s idx n None (b_head bucket) nxt });
     resize_buckets_loop k (idx + 1) n s }"

definition resize_map2 :: "dnl_t \<Rightarrow> (bool \<times> dnl_t) option" where
  "resize_map2 s =
     (if unat (m_nitems (s_map2 s)) < map_maxload (s_map2 s) then Some (False, s)
      else do {
        let (a, s) = alloc_bucket (map_cap (s_map2 s)) s;
        _ \<leftarrow> c_assert (a = bucket_by_idx (s_map2 s) (map_cap (s_map2 s)));
        let s = s\<lparr>s_map2 := (s_map2 s)\<lparr>m_lcap := m_lcap (s_map2 s) + 1\<rparr>\<rparr>;
        let n = map_cap (s_map2 s) div 2;
        s \<leftarrow> resize_buckets_loop n 0 n s;
        Some (True, s) })"

section \<open>Adding a name\<close>

text \<open>The part of \<open>add_to_map2\<close> from the label \<^verbatim>\<open>redo\<close>.\<close>

partial_function (option) add_to_map2_redo :: "nat \<Rightarrow> dnl_t \<Rightarrow> dnl_t option" where
  "add_to_map2_redo nameaddr s = do {
     hashv \<leftarrow> get_hashv s nameaddr;
     let bucket = bucket_by_hashv (s_map2 s) hashv;
     if b_state (ptr_bucket s bucket) = BUCKET_FREE then do {
       (redo, s) \<leftarrow> resize_map2 s;
       if redo then add_to_map2_redo nameaddr s
       else do {
         s \<leftarrow> store_as_head bucket nameaddr s;
         let s = s\<lparr>s_map2 := (s_map2 s)\<lparr>m_nitems := m_nitems (s_map2 s) + 1\<rparr>\<rparr>;
         Some (s\<lparr>s_map2 := (s_map2 s)\<lparr>m_nlists := m_nlists (s_map2 s) + 1\<rparr>\<rparr>) } }
     else do {
       _ \<leftarrow> c_assert (b_state (ptr_bucket s bucket) = BUCKET_HEAD);
       r \<leftarrow> return_if_exists s bucket nameaddr;
       (case r of None \<Rightarrow> Some s
        | Some _ \<Rightarrow> do {
            (redo, s) \<leftarrow> resize_map2 s;
            if redo then add_to_map2_redo nameaddr s
            else do {
              s \<leftarrow> store_as_body bucket nameaddr s;
              Some (s\<lparr>s_map2 := (s_map2 s)\<lparr>m_nitems := m_nitems (s_map2 s) + 1\<rparr>\<rparr>) } }) } }"

definition add_to_map2 :: "nat \<Rightarrow> dnl_t \<Rightarrow> dnl_t option" where
  "add_to_map2 nameaddr s =
     (let s = (if \<not> m_notnull (s_map2 s)
          then (let (m, s) = map_set_notnull DEFAULT_LCAP (m_lcap (s_map1 s)) (s_map2 s) s in s\<lparr>s_map2 := m\<rparr>)
          else s)
      in add_to_map2_redo nameaddr s)"

text \<open>The loop that moves the names of a full bucket of the first map.\<close>

partial_function (option) spill_loop :: "nat \<Rightarrow> nat \<Rightarrow> dnl_t \<Rightarrow> dnl_t option" where
  "spill_loop cur nxt s =
     (if cur = NAMEADDR_END then Some s
      else do {
        let s = s\<lparr>s_map1 := (s_map1 s)\<lparr>m_nitems := m_nitems (s_map1 s) - 1\<rparr>\<rparr>;
        s \<leftarrow> add_to_map2 cur s;
        nxt' \<leftarrow> next_nameaddr s nxt;
        spill_loop nxt nxt' s })"

definition add_to_dnl :: "nat \<Rightarrow> dnl_t \<Rightarrow> dnl_t option" where
  "add_to_dnl nameaddr s = do {
     hashv \<leftarrow> get_hashv s nameaddr;
     let bucket = bucket_by_hashv (s_map1 s) hashv;
     case b_state (ptr_bucket s bucket) of
       BUCKET_FREE \<Rightarrow> do {
         s \<leftarrow> store_as_head bucket nameaddr s;
         let s = s\<lparr>s_map1 := (s_map1 s)\<lparr>m_nitems := m_nitems (s_map1 s) + 1\<rparr>\<rparr>;
         Some (s\<lparr>s_map1 := (s_map1 s)\<lparr>m_nlists := m_nlists (s_map1 s) + 1\<rparr>\<rparr>) }
     | BUCKET_HEAD \<Rightarrow> do {
         r \<leftarrow> return_if_exists s bucket nameaddr;
         case r of None \<Rightarrow> Some s
         | Some n \<Rightarrow>
             if n < MAX_COLLISION then do {
               s \<leftarrow> store_as_body bucket nameaddr s;
               Some (s\<lparr>s_map1 := (s_map1 s)\<lparr>m_nitems := m_nitems (s_map1 s) + 1\<rparr>\<rparr>) }
             else do {
               let s = s\<lparr>s_map1 := (s_map1 s)\<lparr>m_nlists := m_nlists (s_map1 s) - 1\<rparr>\<rparr>;
               let s = put_bucket bucket ((ptr_bucket s bucket)\<lparr>b_state := BUCKET_NEXT\<rparr>) s;
               let cur = b_head (ptr_bucket s bucket);
               nxt \<leftarrow> next_nameaddr s cur;
               s \<leftarrow> spill_loop cur nxt s;
               add_to_map2 nameaddr s } }
     | BUCKET_NEXT \<Rightarrow> add_to_map2 nameaddr s }"

section \<open>Looking a name up\<close>

text \<open>\<open>Some None\<close> is \<^verbatim>\<open>false\<close>, \<open>Some (Some tag)\<close> is \<^verbatim>\<open>true\<close> with \<^verbatim>\<open>*tag\<close> stored.\<close>

partial_function (option) exists_in_list_loop ::
    "dnl_t \<Rightarrow> nat \<Rightarrow> nat \<Rightarrow> u32 \<Rightarrow> u8 \<Rightarrow> bytes \<Rightarrow> u8 option option" where
  "exists_in_list_loop s cur nxt hashv namelen name =
     (if cur = NAMEADDR_END then Some None
      else do {
        eq \<leftarrow> name_eq_r s cur hashv namelen name;
        if eq then do { p \<leftarrow> ptr_name s cur; Some (Some (n_tag p)) }
        else do {
          nxt' \<leftarrow> next_nameaddr s nxt;
          exists_in_list_loop s nxt nxt' hashv namelen name } })"

definition exists_in_list :: "dnl_t \<Rightarrow> bucket_t \<Rightarrow> u32 \<Rightarrow> u8 \<Rightarrow> bytes \<Rightarrow> u8 option option" where
  "exists_in_list s bucket hashv namelen name = do {
     nxt \<leftarrow> next_nameaddr s (b_head bucket);
     exists_in_list_loop s (b_head bucket) nxt hashv namelen name }"

definition exists_in_dnl :: "dnl_t \<Rightarrow> bytes \<Rightarrow> u8 \<Rightarrow> u8 option option" where
  "exists_in_dnl s name namelen =
     (let hashv = calc_hashv (take (unat namelen) name);
          bucket = ptr_bucket s (bucket_by_hashv (s_map1 s) hashv)
      in case b_state bucket of
           BUCKET_HEAD \<Rightarrow> exists_in_list s bucket hashv namelen name
         | BUCKET_NEXT \<Rightarrow>
             (let bucket = ptr_bucket s (bucket_by_hashv (s_map2 s) hashv)
              in if b_state bucket = BUCKET_HEAD then exists_in_list s bucket hashv namelen name
                 else Some None)
         | BUCKET_FREE \<Rightarrow> Some None)"

section \<open>What a map operation leaves alone\<close>

text \<open>Everything but the names, the buckets and the list counter of the second map.\<close>

definition rest :: "dnl_t \<Rightarrow> dnl_t" where
  "rest s = s\<lparr>s_names := (\<lambda>_. None), s_bkts := (\<lambda>_. zero_bucket),
     s_map2 := (s_map2 s)\<lparr>m_nlists := 0\<rparr>\<rparr>"

lemma rest_updates [simp]:
  "rest (s\<lparr>s_names := x\<rparr>) = rest s" "rest (s\<lparr>s_bkts := y\<rparr>) = rest s"
  "rest (s\<lparr>s_map2 := (s_map2 s)\<lparr>m_nlists := z\<rparr>\<rparr>) = rest s"
  "rest (s\<lparr>s_bkts := y, s_map2 := (s_map2 s)\<lparr>m_nlists := z\<rparr>\<rparr>) = rest s"
  "rest (push_name b x' p s) = rest s"
  by (simp_all add: rest_def push_name_def)

lemma restD:
  assumes "rest s' = rest s"
  shows "s_map1 s' = s_map1 s" "s_end s' = s_end s" "m_lcap (s_map2 s') = m_lcap (s_map2 s)"
    "m_nitems (s_map2 s') = m_nitems (s_map2 s)" "m_notnull (s_map2 s') = m_notnull (s_map2 s)"
    "m_buckets (s_map2 s') = m_buckets (s_map2 s)" "m_shift (s_map2 s') = m_shift (s_map2 s)"
proof -
  have "f (rest s') = f (rest s)" for f :: "dnl_t \<Rightarrow> 'c" using assms by simp
  from this [of "\<lambda>s. (s_map1 s, s_end s)"]
  show "s_map1 s' = s_map1 s" "s_end s' = s_end s" by (simp_all add: rest_def)
next
  have "s_map2 (rest s') = s_map2 (rest s)" using assms by simp
  then have "(s_map2 s')\<lparr>m_nlists := 0\<rparr> = (s_map2 s)\<lparr>m_nlists := 0\<rparr>" by (simp add: rest_def)
  then show "m_lcap (s_map2 s') = m_lcap (s_map2 s)" "m_nitems (s_map2 s') = m_nitems (s_map2 s)"
    "m_notnull (s_map2 s') = m_notnull (s_map2 s)" "m_buckets (s_map2 s') = m_buckets (s_map2 s)"
    "m_shift (s_map2 s') = m_shift (s_map2 s)"
    by (cases "s_map2 s'"; cases "s_map2 s"; simp)+
qed

lemma geometry_cong:
  assumes "m_lcap m' = m_lcap m" "m_buckets m' = m_buckets m" "m_shift m' = m_shift m"
  shows "map_cap m' = map_cap m" "map_idx m' h = map_idx m h" "bucket_by_idx m' i = bucket_by_idx m i"
    "bucket_by_hashv m' h = bucket_by_hashv m h" "map_maxload m' = map_maxload m"
  using assms by (simp_all add: map_cap_def map_idx_def map_hashv_def bucket_by_idx_def
      bucket_by_hashv_def map_maxload_def)

lemma geometry_rest:
  assumes "rest s' = rest s"
  shows "map_cap (s_map2 s') = map_cap (s_map2 s)" "map_idx (s_map2 s') h = map_idx (s_map2 s) h"
    "bucket_by_idx (s_map2 s') i = bucket_by_idx (s_map2 s) i"
    "bucket_by_hashv (s_map2 s') h = bucket_by_hashv (s_map2 s) h"
    "map_maxload (s_map2 s') = map_maxload (s_map2 s)"
  using geometry_cong [OF restD(3,6,7) [OF assms]] by simp_all

lemma bucket_by_idx_inj [simp]: "bucket_by_idx m i = bucket_by_idx m j \<longleftrightarrow> i = j"
  by (simp add: bucket_by_idx_def BUCKET_SIZE_def)

section \<open>Moving names to the upper half\<close>

lemma path_relink:
  "path nm h (ks @ l # x # zs) \<Longrightarrow> distinct (ks @ l # x # zs) \<Longrightarrow> nm l = Some q \<Longrightarrow> nm x = Some p \<Longrightarrow>
     path (nm(l \<mapsto> q\<lparr>n_next := n_next p\<rparr>)) h (ks @ l # zs)"
  by (induction ks arbitrary: h) auto

lemma resize_unlink_spec:
  assumes bl: "bucket_list s b (ks @ x # zs)" and rep: "names_rep s D"
    and p: "s_names s x = Some p" and prev: "prev = (if ks = [] then None else Some (last ks))"
  shows "\<exists>s1. resize_unlink b prev p s = Some s1 \<and> rest s1 = rest s \<and> names_rep s1 D
    \<and> bucket_list s1 b (ks @ zs) \<and> b_state (s_bkts s1 b) \<noteq> BUCKET_NEXT
    \<and> (\<forall>y. y \<notin> set ks \<longrightarrow> s_names s1 y = s_names s y) \<and> (\<forall>b'. b' \<noteq> b \<longrightarrow> s_bkts s1 b' = s_bkts s b')"
proof (cases ks rule: rev_cases)
  case Nil
  have head: "b_state (s_bkts s b) = BUCKET_HEAD" "path (s_names s) (n_next p) zs"
    using bl p Nil by (auto simp: bucket_list_def split: if_splits)
  have "names_rep s' D" if "s_names s' = s_names s" for s'
    using rep that by (simp add: names_rep_def)
  then show ?thesis
    using head prev Nil path_head_le [OF head(2)]
    by (cases zs) (auto simp: resize_unlink_def put_bucket_def ptr_bucket_def bucket_list_def)
next
  case (snoc ks' l)
  have "path (s_names s) (b_head (s_bkts s b)) (ks' @ l # x # zs)" and head: "b_state (s_bkts s b) = BUCKET_HEAD"
    using bl snoc by (auto simp: bucket_list_def split: if_splits)
  moreover have "distinct (ks' @ l # x # zs)" using bucket_list_distinct [OF bl] snoc by simp
  moreover obtain q where q: "s_names s l = Some q"
    using path_names [OF calculation(1), of l] by auto
  ultimately have path: "path ((s_names s)(l \<mapsto> q\<lparr>n_next := n_next p\<rparr>)) (b_head (s_bkts s b)) (ks' @ l # zs)"
    using p by (intro path_relink) auto
  have "path (s_names s) (n_next p) zs"
    using path_append [of "s_names s" _ "ks' @ [l]" x zs] bl p snoc
    by (auto simp: bucket_list_def split: if_splits)
  then have le: "n_next p \<le> NAMEADDR_END" by (rule path_head_le)
  let ?s1 = "s\<lparr>s_names := (s_names s)(l \<mapsto> q\<lparr>n_next := n_next p\<rparr>)\<rparr>"
  have "resize_unlink b prev p s = Some ?s1"
    using prev snoc q le by (simp add: resize_unlink_def set_next_def ptr_name_def)
  moreover have "names_rep ?s1 D" using names_rep_next [OF rep q] by simp
  ultimately show ?thesis
    using path head snoc by (auto simp: bucket_list_def)
qed

lemma resize_link_spec:
  assumes "bucket_list s b ms" "b_state (s_bkts s b) \<noteq> BUCKET_NEXT" and rep: "names_rep s D"
    and x: "s_names s x = Some p" "x \<notin> set ms"
  shows "\<exists>s1. resize_link b x s = Some s1 \<and> rest s1 = rest s \<and> names_rep s1 D
    \<and> bucket_list s1 b (x # ms) \<and> b_state (s_bkts s1 b) \<noteq> BUCKET_NEXT
    \<and> (\<forall>y. y \<noteq> x \<longrightarrow> s_names s1 y = s_names s y) \<and> (\<forall>b'. b' \<noteq> b \<longrightarrow> s_bkts s1 b' = s_bkts s b')"
proof -
  have lt: "x < NAMEADDR_END" using rep x by (simp add: names_rep_def)
  let ?s1 = "push_name b x p s"
  note pushed = bucket_list_push [OF assms(1) x(2) lt, of p] names_rep_push [OF rep x(1), of b]
  have bl: "bucket_list (s\<lparr>s_map2 := m\<rparr>) b xs = bucket_list s b xs" for s :: dnl_t and m b xs
    by (simp add: bucket_list_def)
  have nr: "names_rep (s\<lparr>s_map2 := m\<rparr>) D = names_rep s D" for s :: dnl_t and m
    by (simp add: names_rep_def)
  show ?thesis
  proof (cases "b_state (s_bkts s b) = BUCKET_FREE")
    case True
    have "resize_link b x s = Some (?s1\<lparr>s_map2 := (s_map2 ?s1)\<lparr>m_nlists := m_nlists (s_map2 ?s1) + 1\<rparr>\<rparr>)"
      using True store_as_head_eq [OF True x(1) lt] by (simp add: resize_link_def ptr_bucket_def)
    then show ?thesis
      using pushed by (auto simp: bl nr) (auto simp: push_name_def)
  next
    case False
    then have head: "b_state (s_bkts s b) = BUCKET_HEAD" using assms(2) by (cases "b_state (s_bkts s b)") auto
    have "resize_link b x s = Some ?s1"
      using head store_as_body_eq [OF head assms(1) x(1) lt] by (simp add: resize_link_def ptr_bucket_def)
    then show ?thesis
      using pushed by (auto simp: push_name_def)
  qed
qed

lemma names_hash:
  "names_rep s D \<Longrightarrow> s_names s x = Some p \<Longrightarrow> n_hashv p = hash_at D x"
  using names_rep_Some [of s D x p] names_repD [of s D x "n_name p" "n_tag p"] by auto

text \<open>
  The walk over bucket \<open>i\<close>: of its names \<open>ks @ zs\<close>, \<open>ks\<close> are done and stay; of \<open>zs\<close> those
  with the new index \<open>i\<close> stay, the others go to bucket \<open>i + n\<close>.
\<close>

lemma resize_list_spec:
  assumes "path (s_names s) cur zs" "next_nameaddr s cur = Some nxt" "names_rep s D"
    and "bucket_list s (bucket_by_idx (s_map2 s) i) (ks @ zs)"
    and "b_state (s_bkts s (bucket_by_idx (s_map2 s) i)) \<noteq> BUCKET_NEXT"
    and "bucket_list s (bucket_by_idx (s_map2 s) (i + n)) ms"
    and "b_state (s_bkts s (bucket_by_idx (s_map2 s) (i + n))) \<noteq> BUCKET_NEXT"
    and "prev = (if ks = [] then None else Some (last ks))" "distinct (ks @ zs @ ms)"
    and "\<And>x. x \<in> set zs \<Longrightarrow> map_idx (s_map2 s) (hash_at D x) \<in> {i, i + n}"
    and "i < n" "map_cap (s_map2 s) = 2 * n"
  shows "\<exists>s'. resize_list_loop s i n prev cur nxt = Some s' \<and> rest s' = rest s \<and> names_rep s' D
    \<and> bucket_list s' (bucket_by_idx (s_map2 s) i)
        (ks @ filter (\<lambda>x. map_idx (s_map2 s) (hash_at D x) = i) zs)
    \<and> b_state (s_bkts s' (bucket_by_idx (s_map2 s) i)) \<noteq> BUCKET_NEXT
    \<and> bucket_list s' (bucket_by_idx (s_map2 s) (i + n))
        (rev (filter (\<lambda>x. map_idx (s_map2 s) (hash_at D x) \<noteq> i) zs) @ ms)
    \<and> b_state (s_bkts s' (bucket_by_idx (s_map2 s) (i + n))) \<noteq> BUCKET_NEXT
    \<and> (\<forall>y. y \<notin> set (ks @ zs) \<longrightarrow> s_names s' y = s_names s y)
    \<and> (\<forall>b. b \<noteq> bucket_by_idx (s_map2 s) i \<and> b \<noteq> bucket_by_idx (s_map2 s) (i + n)
         \<longrightarrow> s_bkts s' b = s_bkts s b)"
  using assms
proof (induction zs arbitrary: s cur nxt ks ms prev)
  case Nil
  then show ?case by (subst resize_list_loop.simps) auto
next
  case (Cons x zs)
  let ?bi = "bucket_by_idx (s_map2 s) i" and ?bj = "bucket_by_idx (s_map2 s) (i + n)"
  obtain p where p: "cur = x" "x < NAMEADDR_END" "s_names s x = Some p" "path (s_names s) (n_next p) zs"
    using Cons.prems(1) by auto
  have nxt: "nxt = n_next p"
    using Cons.prems(2) p by (simp add: next_nameaddr_def ptr_name_def)
  have hv: "n_hashv p = hash_at D x" using names_hash [OF Cons.prems(3) p(3)] .
  have x_end: "x \<noteq> NAMEADDR_END" using p(2) by simp
  have bij: "?bj \<noteq> ?bi" using Cons.prems(11) by simp
  show ?case
  proof (cases "map_idx (s_map2 s) (hash_at D x) = i")
    case True
    obtain nxt' where nxt': "next_nameaddr s nxt = Some nxt'"
      using next_nameaddr_path p(4) nxt by blast
    have step: "resize_list_loop s i n prev cur nxt = resize_list_loop s i n (Some x) nxt nxt'"
      by (subst resize_list_loop.simps) (simp add: p(1) x_end ptr_name_def p(3) hv True nxt')
    have path1: "path (s_names s) nxt zs" using p(4) nxt by simp
    have b1: "bucket_list s ?bi ((ks @ [x]) @ zs)" "distinct ((ks @ [x]) @ zs @ ms)"
      "Some x = (if ks @ [x] = [] then None else Some (last (ks @ [x])))"
      using Cons.prems(4,9) by auto
    have idx: "\<And>y. y \<in> set zs \<Longrightarrow> map_idx (s_map2 s) (hash_at D y) \<in> {i, i + n}"
      using Cons.prems(10) by simp
    note IH = Cons.IH [OF path1 nxt' Cons.prems(3) b1(1) Cons.prems(5-7) b1(3,2) idx Cons.prems(11,12)]
    have lists: "(ks @ [x]) @ filter (\<lambda>x. map_idx (s_map2 s) (hash_at D x) = i) zs
        = ks @ filter (\<lambda>x. map_idx (s_map2 s) (hash_at D x) = i) (x # zs)"
      "filter (\<lambda>x. map_idx (s_map2 s) (hash_at D x) \<noteq> i) zs
        = filter (\<lambda>x. map_idx (s_map2 s) (hash_at D x) \<noteq> i) (x # zs)"
      "set ((ks @ [x]) @ zs) = set (ks @ x # zs)"
      using True by auto
    show ?thesis
      using IH unfolding step lists .
  next
    case False
    then have newidx: "map_idx (s_map2 s) (hash_at D x) = i + n" using Cons.prems(10) by auto
    obtain s1 where s1: "resize_unlink ?bi prev p s = Some s1" "rest s1 = rest s" "names_rep s1 D"
      "bucket_list s1 ?bi (ks @ zs)" "b_state (s_bkts s1 ?bi) \<noteq> BUCKET_NEXT"
      "\<And>y. y \<notin> set ks \<Longrightarrow> s_names s1 y = s_names s y" "\<And>b. b \<noteq> ?bi \<Longrightarrow> s_bkts s1 b = s_bkts s b"
      using resize_unlink_spec [OF Cons.prems(4,3) p(3) Cons.prems(8)] by blast
    have "bucket_list s1 ?bj ms"
      using bucket_list_cong [of ms s1 s ?bj] s1(6) s1(7) [OF bij] Cons.prems(6,9) by auto
    moreover have "b_state (s_bkts s1 ?bj) \<noteq> BUCKET_NEXT" using s1(7) [OF bij] Cons.prems(7) by simp
    moreover have "s_names s1 x = Some p" using s1(6) [of x] p(3) Cons.prems(9) by simp
    moreover have "x \<notin> set ms" using Cons.prems(9) by simp
    ultimately obtain s2 where s2: "resize_link ?bj x s1 = Some s2" "rest s2 = rest s1" "names_rep s2 D"
      "bucket_list s2 ?bj (x # ms)" "b_state (s_bkts s2 ?bj) \<noteq> BUCKET_NEXT"
      "\<And>y. y \<noteq> x \<Longrightarrow> s_names s2 y = s_names s1 y" "\<And>b. b \<noteq> ?bj \<Longrightarrow> s_bkts s2 b = s_bkts s1 b"
      using resize_link_spec [OF _ _ s1(3), of ?bj ms x p] by blast
    have r: "rest s2 = rest s" using s1(2) s2(2) by simp
    note geo = geometry_rest [OF r] geometry_rest [OF s1(2)]
    have names2: "s_names s2 y = s_names s y" if "y \<notin> set ks" "y \<noteq> x" for y
      using that s1(6) s2(6) by simp
    have path2: "path (s_names s2) nxt zs"
    proof -
      have "path (s_names s2) (n_next p) zs = path (s_names s) (n_next p) zs"
        using Cons.prems(9) by (intro path_cong names2) auto
      then show ?thesis using p(4) nxt by simp
    qed
    then obtain nxt' where nxt': "next_nameaddr s2 nxt = Some nxt'"
      using next_nameaddr_path by blast
    have step: "resize_list_loop s i n prev cur nxt = resize_list_loop s2 i n prev nxt nxt'"
      using Cons.prems(11,12)
      by (subst resize_list_loop.simps)
        (simp add: p(1) x_end ptr_name_def p(3) hv newidx s1(1) s2(1) geo nxt')
    have b2: "bucket_list s2 ?bi (ks @ zs)"
    proof -
      have "bucket_list s2 ?bi (ks @ zs) = bucket_list s1 ?bi (ks @ zs)"
        using Cons.prems(9) s2(7) bij by (intro bucket_list_cong s2(6)) auto
      then show ?thesis using s1(4) by simp
    qed
    have st2: "b_state (s_bkts s2 ?bi) \<noteq> BUCKET_NEXT" using s1(5) s2(7) bij by simp
    have dist: "distinct (ks @ zs @ x # ms)" using Cons.prems(9) by auto
    have idx: "\<And>y. y \<in> set zs \<Longrightarrow> map_idx (s_map2 s2) (hash_at D y) \<in> {i, i + n}"
      using Cons.prems(10) by (simp add: geo)
    from Cons.IH [OF path2 nxt' s2(3), of ks "x # ms" prev, unfolded geo, OF b2 st2 s2(4,5) Cons.prems(8) dist]
    obtain s' where s': "resize_list_loop s2 i n prev nxt nxt' = Some s'" "rest s' = rest s2" "names_rep s' D"
      "bucket_list s' ?bi (ks @ filter (\<lambda>x. map_idx (s_map2 s) (hash_at D x) = i) zs)"
      "b_state (s_bkts s' ?bi) \<noteq> BUCKET_NEXT"
      "bucket_list s' ?bj (rev (filter (\<lambda>x. map_idx (s_map2 s) (hash_at D x) \<noteq> i) zs) @ x # ms)"
      "b_state (s_bkts s' ?bj) \<noteq> BUCKET_NEXT"
      "\<And>y. y \<notin> set (ks @ zs) \<Longrightarrow> s_names s' y = s_names s2 y"
      "\<And>b. b \<noteq> ?bi \<and> b \<noteq> ?bj \<Longrightarrow> s_bkts s' b = s_bkts s2 b"
      using Cons.prems(10,11,12) by auto
    have nm': "\<And>y. y \<notin> set (ks @ x # zs) \<Longrightarrow> s_names s' y = s_names s y"
      using s'(8) names2 by simp
    have bk': "\<And>b. b \<noteq> ?bi \<and> b \<noteq> ?bj \<Longrightarrow> s_bkts s' b = s_bkts s b"
      using s'(9) s1(7) s2(7) by simp
    have lists: "rev (filter (\<lambda>x. map_idx (s_map2 s) (hash_at D x) \<noteq> i) (x # zs)) @ ms
        = rev (filter (\<lambda>x. map_idx (s_map2 s) (hash_at D x) \<noteq> i) zs) @ x # ms"
      "filter (\<lambda>x. map_idx (s_map2 s) (hash_at D x) = i) (x # zs)
        = filter (\<lambda>x. map_idx (s_map2 s) (hash_at D x) = i) zs"
      using False by simp_all
    have "rest s' = rest s" using s'(2) r by simp
    then show ?thesis
      unfolding step lists using s'(1,3-7) nm' bk' by blast
  qed
qed

section \<open>Doubling the second map\<close>

text \<open>Bucket \<open>b\<close> holds the names of \<open>S\<close> that satisfy \<open>P\<close>, in some order.\<close>

definition brep :: "dnl_t \<Rightarrow> nat set \<Rightarrow> nat \<Rightarrow> (nat \<Rightarrow> bool) \<Rightarrow> bool" where
  "brep s S b P \<longleftrightarrow> (\<exists>xs. bucket_list s b xs \<and> set xs = {a \<in> S. P a} \<and> b_state (s_bkts s b) \<noteq> BUCKET_NEXT)"

lemma brep_cong:
  assumes "\<And>a. a \<in> S \<Longrightarrow> P a \<Longrightarrow> s_names s' a = s_names s a" "s_bkts s' b = s_bkts s b"
  shows "brep s' S b P = brep s S b P"
proof -
  have "bucket_list s' b xs = bucket_list s b xs" if "set xs = {a \<in> S. P a}" for xs
    using that assms by (intro bucket_list_cong) auto
  then show ?thesis using assms(2) by (auto simp: brep_def)
qed

lemma brep_set: "{a \<in> S. P a} = {a \<in> S. Q a} \<Longrightarrow> brep s S b P = brep s S b Q"
  by (simp add: brep_def)

definition map_rep :: "dnl_t \<Rightarrow> name_data \<Rightarrow> map_t \<Rightarrow> nat set \<Rightarrow> bool" where
  "map_rep s D m S \<longleftrightarrow>
     (\<forall>j < map_cap m. brep s S (bucket_by_idx m j) (\<lambda>a. map_idx m (hash_at D a) = j))"

text \<open>Half way through the doubling: the buckets below \<open>i\<close> are split.\<close>

definition half_rep :: "dnl_t \<Rightarrow> name_data \<Rightarrow> map_t \<Rightarrow> nat set \<Rightarrow> nat \<Rightarrow> nat \<Rightarrow> bool" where
  "half_rep s D m S n i \<longleftrightarrow> (\<forall>j < n.
     brep s S (bucket_by_idx m j)
       (\<lambda>a. map_idx m (hash_at D a) = j \<or> i \<le> j \<and> map_idx m (hash_at D a) = j + n)
   \<and> brep s S (bucket_by_idx m (j + n)) (\<lambda>a. map_idx m (hash_at D a) = j + n \<and> j < i))"

lemma half_rep_step:
  assumes half: "half_rep s D (s_map2 s) S n i" and rep: "names_rep s D" and i: "i < n"
    and cap: "map_cap (s_map2 s) = 2 * n"
  shows "\<exists>s'. (if b_state (ptr_bucket s (bucket_by_idx (s_map2 s) i)) \<noteq> BUCKET_HEAD then Some s
        else do {
          nxt \<leftarrow> next_nameaddr s (b_head (ptr_bucket s (bucket_by_idx (s_map2 s) i)));
          resize_list_loop s i n None (b_head (ptr_bucket s (bucket_by_idx (s_map2 s) i))) nxt }) = Some s'
    \<and> rest s' = rest s \<and> names_rep s' D \<and> half_rep s' D (s_map2 s) S n (i + 1)
    \<and> (\<forall>y. y \<notin> S \<longrightarrow> s_names s' y = s_names s y)
    \<and> (\<forall>b. b < bucket_by_idx (s_map2 s) 0 \<or> bucket_by_idx (s_map2 s) (2 * n) \<le> b \<longrightarrow> s_bkts s' b = s_bkts s b)"
proof -
  let ?m = "s_map2 s" and ?bi = "bucket_by_idx (s_map2 s) i" and ?bj = "bucket_by_idx (s_map2 s) (i + n)"
  let ?h = "\<lambda>a. map_idx (s_map2 s) (hash_at D a)"
  obtain xs where xs: "bucket_list s ?bi xs" "set xs = {a \<in> S. ?h a = i \<or> ?h a = i + n}"
    "b_state (s_bkts s ?bi) \<noteq> BUCKET_NEXT"
    using half i by (auto simp: half_rep_def brep_def)
  have bj: "bucket_list s ?bj []" "b_state (s_bkts s ?bj) \<noteq> BUCKET_NEXT"
    using half i by (auto simp: half_rep_def brep_def)
  show ?thesis
  proof (cases "b_state (s_bkts s ?bi) = BUCKET_HEAD")
    case False
    then have none: "{a \<in> S. ?h a = i \<or> ?h a = i + n} = {}" using xs by (simp add: bucket_list_def)
    have "half_rep s D ?m S n (i + 1)"
      unfolding half_rep_def
    proof (intro allI impI)
      fix j assume j: "j < n"
      have P: "{a \<in> S. ?h a = j \<or> i \<le> j \<and> ?h a = j + n} = {a \<in> S. ?h a = j \<or> i + 1 \<le> j \<and> ?h a = j + n}"
        "{a \<in> S. ?h a = j + n \<and> j < i} = {a \<in> S. ?h a = j + n \<and> j < i + 1}"
        using none by (auto simp: less_Suc_eq le_eq_less_or_eq)
      from half j show "brep s S (bucket_by_idx ?m j) (\<lambda>a. ?h a = j \<or> i + 1 \<le> j \<and> ?h a = j + n)
        \<and> brep s S (bucket_by_idx ?m (j + n)) (\<lambda>a. ?h a = j + n \<and> j < i + 1)"
        unfolding brep_set [OF P(1) [symmetric]] brep_set [OF P(2) [symmetric]] half_rep_def by blast
    qed
    with False rep show ?thesis by (simp add: ptr_bucket_def)
  next
    case True
    have path: "path (s_names s) (b_head (s_bkts s ?bi)) xs" using xs True by (simp add: bucket_list_def)
    then obtain nxt where nxt: "next_nameaddr s (b_head (s_bkts s ?bi)) = Some nxt"
      using next_nameaddr_path by blast
    have dist: "distinct ([] @ xs @ [])" using bucket_list_distinct [OF xs(1)] by simp
    have bl: "bucket_list s ?bi ([] @ xs)" using xs by simp
    have prev: "None = (if [] = ([] :: nat list) then None else Some (last []))" by simp
    have idx: "\<And>x. x \<in> set xs \<Longrightarrow> ?h x \<in> {i, i + n}" using xs(2) by auto
    obtain s' where s': "resize_list_loop s i n None (b_head (s_bkts s ?bi)) nxt = Some s'"
      "rest s' = rest s" "names_rep s' D"
      "bucket_list s' ?bi (filter (\<lambda>x. ?h x = i) xs)" "b_state (s_bkts s' ?bi) \<noteq> BUCKET_NEXT"
      "bucket_list s' ?bj (rev (filter (\<lambda>x. ?h x \<noteq> i) xs))" "b_state (s_bkts s' ?bj) \<noteq> BUCKET_NEXT"
      "\<And>y. y \<notin> set xs \<Longrightarrow> s_names s' y = s_names s y"
      "\<And>b. b \<noteq> ?bi \<Longrightarrow> b \<noteq> ?bj \<Longrightarrow> s_bkts s' b = s_bkts s b"
      using resize_list_spec [OF path nxt rep bl xs(3) bj prev dist idx i cap]
      unfolding append_Nil append_Nil2 by blast
    have "half_rep s' D ?m S n (i + 1)"
      unfolding half_rep_def
    proof (intro allI impI)
      fix j assume j: "j < n"
      show "brep s' S (bucket_by_idx ?m j) (\<lambda>a. ?h a = j \<or> i + 1 \<le> j \<and> ?h a = j + n)
        \<and> brep s' S (bucket_by_idx ?m (j + n)) (\<lambda>a. ?h a = j + n \<and> j < i + 1)"
      proof (cases "j = i")
        case True
        have sets: "set (filter (\<lambda>x. ?h x = i) xs) = {a \<in> S. ?h a = i}"
          "set (rev (filter (\<lambda>x. ?h x \<noteq> i) xs)) = {a \<in> S. ?h a = i + n}"
          using xs(2) i by auto
        show ?thesis
          unfolding brep_def using True s'(4-7) sets by auto
      next
        case False
        have outside: "s_names s' a = s_names s a" if "?h a \<noteq> i" "?h a \<noteq> i + n" for a
          using that xs(2) by (intro s'(8)) auto
        have "brep s' S (bucket_by_idx ?m j) (\<lambda>a. ?h a = j \<or> i + 1 \<le> j \<and> ?h a = j + n)
           = brep s S (bucket_by_idx ?m j) (\<lambda>a. ?h a = j \<or> i + 1 \<le> j \<and> ?h a = j + n)"
          using False j i by (intro brep_cong outside s'(9)) auto
        moreover have "brep s' S (bucket_by_idx ?m (j + n)) (\<lambda>a. ?h a = j + n \<and> j < i + 1)
           = brep s S (bucket_by_idx ?m (j + n)) (\<lambda>a. ?h a = j + n \<and> j < i + 1)"
          using False j i by (intro brep_cong outside s'(9)) auto
        moreover have "(i + 1 \<le> j) = (i \<le> j)" "(j < i + 1) = (j < i)" using False by auto
        ultimately show ?thesis using half j by (simp add: half_rep_def)
      qed
    qed
    moreover have "s_bkts s' b = s_bkts s b" if "b < bucket_by_idx ?m 0 \<or> bucket_by_idx ?m (2 * n) \<le> b" for b
      using that i by (intro s'(9)) (auto simp: bucket_by_idx_def BUCKET_SIZE_def)
    moreover have "s_names s' y = s_names s y" if "y \<notin> S" for y
      using that xs(2) s'(8) by auto
    ultimately show ?thesis
      using True nxt s'(1-3) by (simp add: ptr_bucket_def)
  qed
qed

lemma resize_buckets_spec:
  assumes "half_rep s D (s_map2 s) S n i" "names_rep s D" "k + i = n" "map_cap (s_map2 s) = 2 * n"
  shows "\<exists>s'. resize_buckets_loop k i n s = Some s' \<and> rest s' = rest s \<and> names_rep s' D
    \<and> half_rep s' D (s_map2 s) S n n
    \<and> (\<forall>y. y \<notin> S \<longrightarrow> s_names s' y = s_names s y)
    \<and> (\<forall>b. b < bucket_by_idx (s_map2 s) 0 \<or> bucket_by_idx (s_map2 s) (2 * n) \<le> b \<longrightarrow> s_bkts s' b = s_bkts s b)"
  using assms
proof (induction k arbitrary: i s)
  case 0
  then show ?case by simp
next
  case (Suc k)
  let ?m = "s_map2 s"
  have i: "i < n" using Suc.prems by simp
  obtain s1 where s1: "(if b_state (ptr_bucket s (bucket_by_idx ?m i)) \<noteq> BUCKET_HEAD then Some s
        else do {
          nxt \<leftarrow> next_nameaddr s (b_head (ptr_bucket s (bucket_by_idx ?m i)));
          resize_list_loop s i n None (b_head (ptr_bucket s (bucket_by_idx ?m i))) nxt }) = Some s1"
    "rest s1 = rest s" "names_rep s1 D" "half_rep s1 D ?m S n (i + 1)"
    "\<And>y. y \<notin> S \<Longrightarrow> s_names s1 y = s_names s y"
    "\<And>b. b < bucket_by_idx ?m 0 \<or> bucket_by_idx ?m (2 * n) \<le> b \<Longrightarrow> s_bkts s1 b = s_bkts s b"
    using half_rep_step [OF Suc.prems(1,2) i Suc.prems(4)] by blast
  note geo = geometry_rest [OF s1(2)]
  have half1: "half_rep s1 D (s_map2 s1) S n (i + 1)"
    using s1(4) unfolding half_rep_def geo .
  have "k + (i + 1) = n" "map_cap (s_map2 s1) = 2 * n" using Suc.prems(3,4) geo by simp_all
  from Suc.IH [OF half1 s1(3) this] obtain s' where s':
    "resize_buckets_loop k (i + 1) n s1 = Some s'" "rest s' = rest s1" "names_rep s' D"
    "half_rep s' D (s_map2 s1) S n n" "\<And>y. y \<notin> S \<Longrightarrow> s_names s' y = s_names s1 y"
    "\<And>b. b < bucket_by_idx ?m 0 \<or> bucket_by_idx ?m (2 * n) \<le> b \<Longrightarrow> s_bkts s' b = s_bkts s1 b"
    unfolding geo by blast
  have "half_rep s' D ?m S n n" using s'(4) unfolding half_rep_def geo .
  moreover have "resize_buckets_loop (Suc k) i n s = Some s'"
    using s1(1) s'(1) by (simp add: Let_def)
  ultimately show ?case using s'(2,3,5,6) s1(2,5,6) by auto
qed

lemma half_rep_done:
  assumes "half_rep s D m S n n" "map_cap m = 2 * n"
  shows "map_rep s D m S"
  unfolding map_rep_def
proof (intro allI impI)
  fix j assume j: "j < map_cap m"
  show "brep s S (bucket_by_idx m j) (\<lambda>a. map_idx m (hash_at D a) = j)"
  proof (cases "j < n")
    case True
    then show ?thesis using assms(1) by (auto simp: half_rep_def brep_def)
  next
    case False
    then have j': "j - n < n" "j - n + n = j" using j assms(2) by auto
    have "brep s S (bucket_by_idx m (j - n + n)) (\<lambda>a. map_idx m (hash_at D a) = j - n + n \<and> j - n < n)"
      using assms(1) j'(1) by (simp add: half_rep_def)
    then show ?thesis using j' by simp
  qed
qed

text \<open>The arena behind the second map: it ends the arena, and what follows is zero.\<close>

definition arena2 :: "dnl_t \<Rightarrow> bool" where
  "arena2 s \<longleftrightarrow> s_end s mod BUCKET_ALIGN = 0 \<and> bucket_by_idx (s_map2 s) (map_cap (s_map2 s)) = s_end s
     \<and> (\<forall>b \<ge> s_end s. s_bkts s b = zero_bucket)"

lemma align_to_self: "n mod a = 0 \<Longrightarrow> align_to n a = n"
  by (simp add: align_to_def)

lemma alloc_bucket_eq:
  "s_end s mod BUCKET_ALIGN = 0 \<Longrightarrow>
     \<exists>c. alloc_bucket k s = (s_end s, s\<lparr>s_end := s_end s + BUCKET_SIZE * k, s_cap := c\<rparr>)"
proof -
  assume al: "s_end s mod BUCKET_ALIGN = 0"
  show ?thesis
  proof (cases "s_cap s < s_end s + BUCKET_SIZE * k")
    case True
    then show ?thesis
      using align_to_self [OF al] by (auto simp: alloc_bucket_def alloc_def Let_def)
  next
    case False
    then show ?thesis
      using align_to_self [OF al]
      by (intro exI [of _ "s_cap s"]; cases s) (simp add: alloc_bucket_def alloc_def Let_def)
  qed
qed

text \<open>What an operation on the second map keeps of the rest of the state.\<close>

definition core :: "dnl_t \<Rightarrow> map_t \<times> u8 \<times> nat \<times> nat \<times> nat \<times> nat \<times> bool" where
  "core s = (s_map1 s, s_level_interest s, s_level_max s, s_pagesz s,
     m_buckets (s_map2 s), m_shift (s_map2 s), m_notnull (s_map2 s))"

lemma core_rest: "rest s' = rest s \<Longrightarrow> core s' = core s"
proof -
  assume r: "rest s' = rest s"
  have "f (rest s') = f (rest s)" for f :: "dnl_t \<Rightarrow> u8 \<times> nat \<times> nat" using r by simp
  from this [of "\<lambda>s. (s_level_interest s, s_level_max s, s_pagesz s)"]
  show ?thesis using restD [OF r] by (simp add: core_def rest_def)
qed

lemma mod_double:
  fixes x n j :: nat
  assumes "j < n"
  shows "(x mod (2 * n) = j \<or> x mod (2 * n) = j + n) \<longleftrightarrow> x mod n = j"
proof -
  have lt: "x mod (2 * n) < 2 * n" using assms by simp
  have m: "x mod n = x mod (2 * n) mod n" by (simp add: mod_mod_cancel)
  show ?thesis
  proof (cases "x mod (2 * n) < n")
    case True
    then show ?thesis using assms by (auto simp: m)
  next
    case False
    then have "x mod (2 * n) mod n = x mod (2 * n) - n"
      using lt by (simp add: mod_if [of "x mod (2 * n)" n] le_mod_geq)
    then show ?thesis using assms False lt by (auto simp: m)
  qed
qed

lemma map_rep_geo:
  assumes "m_lcap m' = m_lcap m" "m_buckets m' = m_buckets m" "m_shift m' = m_shift m"
  shows "map_rep s D m' S = map_rep s D m S"
  unfolding map_rep_def geometry_cong [OF assms] ..

definition inv2 :: "dnl_t \<Rightarrow> name_data \<Rightarrow> nat set \<Rightarrow> bool" where
  "inv2 s D S \<longleftrightarrow> m_notnull (s_map2 s) \<and> arena2 s \<and> names_rep s D \<and> map_rep s D (s_map2 s) S
     \<and> inj_on (name_at D) S \<and> S \<subseteq> dom D"

lemma resize_map2_spec:
  assumes inv: "inv2 s D S"
  shows "\<exists>r s'. resize_map2 s = Some (r, s') \<and> inv2 s' D S \<and> core s' = core s
    \<and> (\<forall>y. y \<notin> S \<longrightarrow> s_names s' y = s_names s y)
    \<and> (\<forall>b < m_buckets (s_map2 s). s_bkts s' b = s_bkts s b)
    \<and> (\<not> r \<longrightarrow> s' = s)
    \<and> (r \<longrightarrow> m_lcap (s_map2 s') = m_lcap (s_map2 s) + 1 \<and> m_nitems (s_map2 s') = m_nitems (s_map2 s)
        \<and> map_maxload (s_map2 s) \<le> unat (m_nitems (s_map2 s)))"
proof (cases "unat (m_nitems (s_map2 s)) < map_maxload (s_map2 s)")
  case True
  then show ?thesis using inv by (auto simp: resize_map2_def)
next
  case False
  let ?m = "s_map2 s"
  let ?n = "map_cap ?m"
  note i = inv [unfolded inv2_def]
  have end_m: "m_buckets ?m + BUCKET_SIZE * ?n = s_end s"
    using i by (simp add: arena2_def bucket_by_idx_def)
  have al_end: "s_end s mod BUCKET_ALIGN = 0" using i by (simp add: arena2_def)
  obtain c where al: "alloc_bucket ?n s = (s_end s, s\<lparr>s_end := s_end s + BUCKET_SIZE * ?n, s_cap := c\<rparr>)"
    using alloc_bucket_eq [OF al_end, of ?n] ..
  define m' where "m' = ?m\<lparr>m_lcap := m_lcap ?m + 1\<rparr>"
  define s2 where "s2 = s\<lparr>s_end := s_end s + BUCKET_SIZE * ?n, s_cap := c, s_map2 := m'\<rparr>"
  have m2: "s_map2 s2 = m'" by (simp add: s2_def)
  have cap: "map_cap m' = 2 * ?n" by (simp add: m'_def map_cap_def)
  have addr: "bucket_by_idx m' j = bucket_by_idx ?m j" for j by (simp add: m'_def bucket_by_idx_def)
  have idx: "map_idx m' h = map_hashv ?m h mod (2 * ?n)" for h
    using cap by (simp add: map_idx_def m'_def map_hashv_def)
  have idx0: "map_idx ?m h = map_hashv ?m h mod ?n" for h by (simp add: map_idx_def)
  have "half_rep s2 D m' S ?n 0"
    unfolding half_rep_def
  proof (intro allI impI conjI)
    fix j assume j: "j < ?n"
    have "{a \<in> S. map_idx m' (hash_at D a) = j \<or> 0 \<le> j \<and> map_idx m' (hash_at D a) = j + ?n}
        = {a \<in> S. map_idx ?m (hash_at D a) = j}"
      by (simp only: idx idx0 le0 simp_thms mod_double [OF j])
    from brep_set [OF this] show "brep s2 S (bucket_by_idx m' j)
        (\<lambda>a. map_idx m' (hash_at D a) = j \<or> 0 \<le> j \<and> map_idx m' (hash_at D a) = j + ?n)"
    proof (rule iffD2)
      have "brep s S (bucket_by_idx ?m j) (\<lambda>a. map_idx ?m (hash_at D a) = j)"
        using i j by (simp add: map_rep_def)
      then show "brep s2 S (bucket_by_idx m' j) (\<lambda>a. map_idx ?m (hash_at D a) = j)"
        by (subst brep_cong [of S _ s2 s]) (simp_all add: addr s2_def)
    qed
    have "s_end s \<le> bucket_by_idx ?m (j + ?n)"
      using end_m by (simp add: bucket_by_idx_def distrib_left)
    then have "s_bkts s2 (bucket_by_idx m' (j + ?n)) = zero_bucket"
      using i by (simp add: arena2_def s2_def addr)
    then show "brep s2 S (bucket_by_idx m' (j + ?n)) (\<lambda>a. map_idx m' (hash_at D a) = j + ?n \<and> j < 0)"
      by (auto simp: brep_def bucket_list_def zero_bucket_def)
  qed
  then have half: "half_rep s2 D (s_map2 s2) S ?n 0" by (simp add: m2)
  have rep2: "names_rep s2 D" using i by (simp add: names_rep_def s2_def)
  obtain s' where s': "resize_buckets_loop ?n 0 ?n s2 = Some s'" "rest s' = rest s2" "names_rep s' D"
    "half_rep s' D (s_map2 s2) S ?n ?n" "\<And>y. y \<notin> S \<Longrightarrow> s_names s' y = s_names s2 y"
    "\<And>b. b < bucket_by_idx m' 0 \<or> bucket_by_idx m' (2 * ?n) \<le> b \<Longrightarrow> s_bkts s' b = s_bkts s2 b"
    using resize_buckets_spec [OF half rep2, of ?n] cap unfolding m2 by auto
  note r = restD [OF s'(2)] geometry_rest [OF s'(2)]
  have end': "s_end s' = bucket_by_idx m' (2 * ?n)"
  proof -
    have "s_end s' = s_end s + BUCKET_SIZE * ?n" using r by (simp add: s2_def)
    moreover have "bucket_by_idx m' (2 * ?n) = m_buckets ?m + BUCKET_SIZE * (2 * ?n)"
      by (simp add: m'_def bucket_by_idx_def)
    ultimately show ?thesis by (simp add: end_m [symmetric])
  qed
  have al': "s_end s' mod BUCKET_ALIGN = 0"
    using r al_end by (simp add: s2_def BUCKET_ALIGN_def BUCKET_SIZE_def mod_add_eq [symmetric])
  have zero: "s_bkts s' b = zero_bucket" if "s_end s' \<le> b" for b
  proof -
    have "s_end s \<le> b" using that r by (simp add: s2_def)
    then show ?thesis using s'(6) [of b] that i end' by (simp add: s2_def arena2_def)
  qed
  have "arena2 s'"
    unfolding arena2_def using al' zero end' r cap by (simp add: m2)
  moreover have "map_rep s' D (s_map2 s') S"
  proof -
    have "map_rep s' D m' S" using half_rep_done s'(4) cap by (simp add: m2)
    then show ?thesis using map_rep_geo [of "s_map2 s'" m'] r by (simp add: m2)
  qed
  ultimately have "inv2 s' D S" using i s'(3) r by (simp add: inv2_def m2 m'_def)
  moreover have "core s' = core s" using core_rest [OF s'(2)] by (simp add: core_def s2_def m'_def)
  moreover have "s_bkts s' b = s_bkts s b" if "b < m_buckets ?m" for b
    using s'(6) [of b] that by (simp add: m'_def bucket_by_idx_def s2_def)
  moreover have "resize_map2 s = Some (True, s')"
    using False al s'(1) i cap by (simp add: resize_map2_def arena2_def s2_def m'_def)
  moreover have "m_lcap (s_map2 s') = m_lcap ?m + 1" "m_nitems (s_map2 s') = m_nitems ?m"
    using r by (simp_all add: m2 m'_def)
  ultimately show ?thesis
    using False s'(5) by (intro exI [of _ True] exI [of _ s']) (simp add: s2_def)
qed

section \<open>Adding to the second map\<close>

lemma return_if_exists_loop_spec:
  assumes "path (s_names s) cur xs" "next_nameaddr s cur = Some nxt" "names_rep s D" "a \<in> dom D"
  shows "return_if_exists_loop s cur nxt a n =
    Some (if \<exists>x \<in> set xs. name_at D x = name_at D a then None else Some (n + length xs))"
  using assms
proof (induction xs arbitrary: cur nxt n)
  case Nil
  then show ?case by (subst return_if_exists_loop.simps) simp
next
  case (Cons x xs)
  obtain p where p: "cur = x" "x < NAMEADDR_END" "s_names s x = Some p" "path (s_names s) (n_next p) xs"
    using Cons.prems(1) by auto
  have nxt: "nxt = n_next p" using Cons.prems(2) p by (simp add: next_nameaddr_def ptr_name_def)
  obtain nxt' where nxt': "next_nameaddr s nxt = Some nxt'" using next_nameaddr_path p(4) nxt by blast
  have path: "path (s_names s) nxt xs" using p(4) nxt by simp
  have "D x \<noteq> None" using names_rep_Some [OF Cons.prems(3) p(3)] by simp
  then have eq: "name_eq s cur a = Some (name_at D x = name_at D a)"
    using name_eq_iff [OF Cons.prems(3)] Cons.prems(4) p(1) by auto
  have "cur \<noteq> NAMEADDR_END" using p by simp
  then show ?case
    using Cons.IH [OF path nxt' Cons.prems(3,4), of "n + 1"] eq nxt'
    by (subst return_if_exists_loop.simps) auto
qed

lemma return_if_exists_spec:
  assumes "bucket_list s b xs" "b_state (s_bkts s b) = BUCKET_HEAD" "names_rep s D" "a \<in> dom D"
  shows "return_if_exists s b a =
    Some (if \<exists>x \<in> set xs. name_at D x = name_at D a then None else Some (length xs))"
proof -
  have path: "path (s_names s) (b_head (s_bkts s b)) xs" using assms(1,2) by (simp add: bucket_list_def)
  then obtain nxt where "next_nameaddr s (b_head (s_bkts s b)) = Some nxt"
    using next_nameaddr_path by blast
  then show ?thesis
    using return_if_exists_loop_spec [OF path _ assms(3,4), of nxt 0]
    by (simp add: return_if_exists_def ptr_bucket_def)
qed

text \<open>A name already there is not added again.\<close>

definition add_set :: "name_data \<Rightarrow> nat set \<Rightarrow> nat \<Rightarrow> nat set" where
  "add_set D S a = (if \<exists>b \<in> S. name_at D b = name_at D a then S else insert a S)"

lemma map_rep_push:
  assumes rep: "map_rep s D m S" and b: "b = bucket_by_hashv m (hash_at D a)"
    and a: "a \<notin> S" "a < NAMEADDR_END"
  shows "map_rep (push_name b a p s) D m (insert a S)"
  unfolding map_rep_def
proof (intro allI impI)
  fix j assume j: "j < map_cap m"
  from rep j obtain xs where xs: "bucket_list s (bucket_by_idx m j) xs"
    "set xs = {a \<in> S. map_idx m (hash_at D a) = j}" "b_state (s_bkts s (bucket_by_idx m j)) \<noteq> BUCKET_NEXT"
    by (auto simp: map_rep_def brep_def)
  have notin: "a \<notin> set xs" using xs(2) a(1) by simp
  show "brep (push_name b a p s) (insert a S) (bucket_by_idx m j) (\<lambda>a. map_idx m (hash_at D a) = j)"
  proof (cases "bucket_by_idx m j = b")
    case True
    then have idx: "map_idx m (hash_at D a) = j" using b by (simp add: bucket_by_hashv_def)
    have "bucket_list (push_name b a p s) b (a # xs)"
      using bucket_list_push [OF _ notin a(2)] xs(1) True by simp
    then show ?thesis
      unfolding brep_def True using xs(2) idx by (intro exI [of _ "a # xs"]) (auto simp: push_name_def)
  next
    case False
    then have "{x \<in> insert a S. map_idx m (hash_at D x) = j} = set xs"
      using b xs(2) by (auto simp: bucket_by_hashv_def)
    moreover have "bucket_list (push_name b a p s) (bucket_by_idx m j) xs"
      using bucket_list_push_other [OF notin False] xs(1) by simp
    ultimately show ?thesis
      unfolding brep_def using xs(3) False by (intro exI [of _ xs]) (auto simp: push_name_def)
  qed
qed

lemma map_idx_less: "map_idx m h < map_cap m"
  by (simp add: map_idx_def map_cap_def)

lemma inv2_counters:
  "inv2 (s\<lparr>s_map2 := (s_map2 s)\<lparr>m_nitems := x\<rparr>\<rparr>) D S = inv2 s D S"
  "inv2 (s\<lparr>s_map2 := (s_map2 s)\<lparr>m_nlists := y\<rparr>\<rparr>) D S = inv2 s D S"
  "inv2 (s\<lparr>s_map2 := (s_map2 s)\<lparr>m_nitems := x, m_nlists := y\<rparr>\<rparr>) D S = inv2 s D S"
  by (simp_all add: inv2_def arena2_def names_rep_def map_rep_def brep_def bucket_list_def
      bucket_by_idx_def map_cap_def map_idx_def map_hashv_def)

lemma inv2_push:
  assumes inv: "inv2 s D S" and b: "b = bucket_by_hashv (s_map2 s) (hash_at D a)"
    and a: "a \<notin> S" "s_names s a = Some p" and new: "\<not> (\<exists>x \<in> S. name_at D x = name_at D a)"
  shows "inv2 (push_name b a p s) D (insert a S)"
proof -
  note i = inv [unfolded inv2_def]
  have rep: "names_rep s D" using i by blast
  have lt: "a < NAMEADDR_END" using rep a by (simp add: names_rep_def)
  have "D a \<noteq> None" using names_rep_Some [OF rep a(2)] by simp
  moreover have "b < s_end s"
  proof -
    have "b < bucket_by_idx (s_map2 s) (map_cap (s_map2 s))"
      using map_idx_less [of "s_map2 s" "hash_at D a"]
      by (simp add: b bucket_by_hashv_def bucket_by_idx_def BUCKET_SIZE_def)
    then show ?thesis using i by (simp add: arena2_def)
  qed
  ultimately show ?thesis
    using i map_rep_push [OF _ b a(1) lt, of s p] names_rep_push [OF rep a(2), of b] new
    by (auto simp: inv2_def arena2_def inj_on_insert, auto simp: push_name_def)
qed

lemma maxload_half: "map_maxload m \<le> n \<Longrightarrow> 2 ^ m_lcap m < 2 * (n + 2)"
  by (simp add: map_maxload_def map_cap_def LOAD_FACTOR_X_def LOAD_FACTOR_Y_def)

lemma add_to_map2_redo_spec:
  assumes "inv2 s D S" "a \<in> dom D" "a \<notin> S"
  shows "\<exists>s'. add_to_map2_redo a s = Some s' \<and> inv2 s' D (add_set D S a) \<and> core s' = core s
    \<and> (\<forall>y. y \<notin> insert a S \<longrightarrow> s_names s' y = s_names s y)
    \<and> (\<forall>b < m_buckets (s_map2 s). s_bkts s' b = s_bkts s b)"
  using assms
proof (induction "2 * (unat (m_nitems (s_map2 s)) + 2) - 2 ^ m_lcap (s_map2 s)" arbitrary: s rule: less_induct)
  case less
  note i = less.prems(1) [unfolded inv2_def]
  have rep: "names_rep s D" using i by blast
  obtain p where p: "s_names s a = Some p" "n_hashv p = hash_at D a" "a < NAMEADDR_END"
    using names_repD [OF rep] less.prems(2) by fastforce
  let ?b = "bucket_by_hashv (s_map2 s) (hash_at D a)"
  have hv: "get_hashv s a = Some (hash_at D a)" using p by (simp add: get_hashv_def ptr_name_def)
  have "brep s S ?b (\<lambda>x. map_idx (s_map2 s) (hash_at D x) = map_idx (s_map2 s) (hash_at D a))"
    using i map_idx_less [of "s_map2 s" "hash_at D a"] unfolding map_rep_def bucket_by_hashv_def by blast
  then obtain xs where xs: "bucket_list s ?b xs"
    "set xs = {x \<in> S. map_idx (s_map2 s) (hash_at D x) = map_idx (s_map2 s) (hash_at D a)}"
    "b_state (s_bkts s ?b) \<noteq> BUCKET_NEXT"
    unfolding brep_def by blast
  have same: "(\<exists>x \<in> set xs. name_at D x = name_at D a) = (\<exists>x \<in> S. name_at D x = name_at D a)"
    unfolding xs(2) by (auto simp: hash_at_def)
  obtain r s1 where r: "resize_map2 s = Some (r, s1)" "inv2 s1 D S" "core s1 = core s"
    "\<And>y. y \<notin> S \<Longrightarrow> s_names s1 y = s_names s y"
    "\<And>b. b < m_buckets (s_map2 s) \<Longrightarrow> s_bkts s1 b = s_bkts s b" "\<not> r \<Longrightarrow> s1 = s"
    "r \<Longrightarrow> m_lcap (s_map2 s1) = m_lcap (s_map2 s) + 1 \<and> m_nitems (s_map2 s1) = m_nitems (s_map2 s)
        \<and> map_maxload (s_map2 s) \<le> unat (m_nitems (s_map2 s))"
    using resize_map2_spec [OF less.prems(1)] by blast
  have again: ?case if "r" "add_to_map2_redo a s = add_to_map2_redo a s1"
  proof -
    have "2 * (unat (m_nitems (s_map2 s1)) + 2) - 2 ^ m_lcap (s_map2 s1)
        < 2 * (unat (m_nitems (s_map2 s)) + 2) - 2 ^ m_lcap (s_map2 s)"
      using r(7) [OF that(1)] maxload_half [of "s_map2 s" "unat (m_nitems (s_map2 s))"]
      by (simp, intro diff_less_mono2) simp_all
    from less.hyps [OF this r(2) less.prems(2,3)] obtain s' where
      "add_to_map2_redo a s1 = Some s'" "inv2 s' D (add_set D S a)" "core s' = core s1"
      "\<And>y. y \<notin> insert a S \<Longrightarrow> s_names s' y = s_names s1 y"
      "\<And>b. b < m_buckets (s_map2 s1) \<Longrightarrow> s_bkts s' b = s_bkts s1 b" by blast
    moreover have "m_buckets (s_map2 s1) = m_buckets (s_map2 s)" using r(3) by (simp add: core_def)
    ultimately show ?case using that r(3-5) by (intro exI [of _ s']) simp
  qed
  have stored: ?case if "\<not> (\<exists>x \<in> S. name_at D x = name_at D a)" "add_to_map2_redo a s = Some s'"
    "s' = (push_name ?b a p s)\<lparr>s_map2 := (s_map2 s)\<lparr>m_nitems := u\<rparr>\<rparr>
     \<or> s' = (push_name ?b a p s)\<lparr>s_map2 := (s_map2 s)\<lparr>m_nitems := u, m_nlists := v\<rparr>\<rparr>" for s' u v
  proof -
    have "inv2 (push_name ?b a p s) D (insert a S)"
      using inv2_push [OF less.prems(1) refl less.prems(3) p(1) that(1)] .
    moreover have "s_map2 (push_name ?b a p s) = s_map2 s" by (simp add: push_name_def)
    ultimately have "inv2 s' D (insert a S)"
      using that(3) inv2_counters [where s = "push_name ?b a p s"] by auto
    moreover have "core s' = core s" using that(3) by (auto simp: core_def push_name_def)
    moreover have "m_buckets (s_map2 s) \<le> ?b" by (simp add: bucket_by_hashv_def bucket_by_idx_def)
    then have "\<forall>b < m_buckets (s_map2 s). s_bkts s' b = s_bkts s b"
      using that(3) by (auto simp: push_name_def)
    moreover have "\<forall>y. y \<notin> insert a S \<longrightarrow> s_names s' y = s_names s y"
      using that(3) by (auto simp: push_name_def)
    ultimately show ?case using that(1,2) by (simp add: add_set_def)
  qed
  note step = add_to_map2_redo.simps [of a s]
  show ?case
  proof (cases "b_state (s_bkts s ?b) = BUCKET_FREE")
    case True
    then have none: "\<not> (\<exists>x \<in> S. name_at D x = name_at D a)" using xs(1) same by (simp add: bucket_list_def)
    show ?thesis
    proof (cases r)
      case True
      then show ?thesis using again \<open>b_state _ = BUCKET_FREE\<close> hv r(1) by (simp add: step ptr_bucket_def Let_def)
    next
      case False
      then have "add_to_map2_redo a s = Some ((push_name ?b a p s)\<lparr>s_map2 := (s_map2 s)
          \<lparr>m_nitems := m_nitems (s_map2 s) + 1, m_nlists := m_nlists (s_map2 s) + 1\<rparr>\<rparr>)"
        using \<open>b_state _ = BUCKET_FREE\<close> hv r(1,6) store_as_head_eq [OF True p(1,3)]
        by (simp add: step ptr_bucket_def Let_def push_name_def)
      from stored [OF none this] show ?thesis by blast
    qed
  next
    case False
    then have head: "b_state (s_bkts s ?b) = BUCKET_HEAD" using xs(3) by (cases "b_state (s_bkts s ?b)") auto
    note ret = return_if_exists_spec [OF xs(1) head rep less.prems(2), unfolded same]
    show ?thesis
    proof (cases "\<exists>x \<in> S. name_at D x = name_at D a")
      case True
      then show ?thesis
        using head hv ret less.prems(1) by (simp add: step ptr_bucket_def Let_def add_set_def)
    next
      case none: False
      show ?thesis
      proof (cases r)
        case True
        then show ?thesis using again head hv r(1) ret none by (simp add: step ptr_bucket_def Let_def)
      next
        case False
        then have "add_to_map2_redo a s = Some ((push_name ?b a p s)\<lparr>s_map2 := (s_map2 s)
            \<lparr>m_nitems := m_nitems (s_map2 s) + 1\<rparr>\<rparr>)"
          using head hv r(1,6) ret none store_as_body_eq [OF head xs(1) p(1,3)]
          by (simp add: step ptr_bucket_def Let_def push_name_def)
        from stored [OF none this] show ?thesis by blast
      qed
    qed
  qed
qed

text \<open>The second map before and after it exists, and where its buckets start or will start.\<close>

definition base2 :: "dnl_t \<Rightarrow> nat" where
  "base2 s = (if m_notnull (s_map2 s) then m_buckets (s_map2 s) else s_end s)"

definition inv2' :: "dnl_t \<Rightarrow> name_data \<Rightarrow> nat set \<Rightarrow> bool" where
  "inv2' s D S \<longleftrightarrow> (if m_notnull (s_map2 s) then inv2 s D S
     else S = {} \<and> names_rep s D \<and> s_end s mod BUCKET_ALIGN = 0 \<and> (\<forall>b \<ge> s_end s. s_bkts s b = zero_bucket))"

text \<open>The parts of the state that adding names does not touch.\<close>

definition core1 :: "dnl_t \<Rightarrow> bool \<times> nat \<times> nat \<times> nat \<times> u8 \<times> nat \<times> nat" where
  "core1 s = (m_notnull (s_map1 s), m_buckets (s_map1 s), m_lcap (s_map1 s), m_shift (s_map1 s),
     s_level_interest s, s_level_max s, s_pagesz s)"

lemma core_core1: "core s' = core s \<Longrightarrow> core1 s' = core1 s"
  by (simp add: core_def core1_def)

lemma add_to_map2_spec:
  assumes inv: "inv2' s D S" and a: "a \<in> dom D" "a \<notin> S"
  shows "\<exists>s'. add_to_map2 a s = Some s' \<and> inv2 s' D (add_set D S a) \<and> core1 s' = core1 s
    \<and> s_map1 s' = s_map1 s \<and> base2 s' = base2 s
    \<and> (\<forall>y. y \<notin> insert a S \<longrightarrow> s_names s' y = s_names s y)
    \<and> (\<forall>b < base2 s. s_bkts s' b = s_bkts s b)"
proof (cases "m_notnull (s_map2 s)")
  case True
  then have "inv2 s D S" using inv by (simp add: inv2'_def)
  from add_to_map2_redo_spec [OF this a] obtain s' where s':
    "add_to_map2_redo a s = Some s'" "inv2 s' D (add_set D S a)" "core s' = core s"
    "\<And>y. y \<notin> insert a S \<Longrightarrow> s_names s' y = s_names s y"
    "\<And>b. b < m_buckets (s_map2 s) \<Longrightarrow> s_bkts s' b = s_bkts s b" by blast
  moreover have "s_map1 s' = s_map1 s" "base2 s' = base2 s" "base2 s = m_buckets (s_map2 s)"
    using s'(3) True by (auto simp: core_def base2_def)
  ultimately show ?thesis
    using True core_core1 [OF s'(3)] by (intro exI [of _ s']) (simp add: add_to_map2_def)
next
  case False
  then have S: "S = {}" and rep: "names_rep s D" and al: "s_end s mod BUCKET_ALIGN = 0"
    and zero: "\<And>b. s_end s \<le> b \<Longrightarrow> s_bkts s b = zero_bucket"
    using inv by (auto simp: inv2'_def)
  define m where "m = (s_map2 s)\<lparr>m_notnull := True, m_lcap := DEFAULT_LCAP, m_buckets := s_end s,
    m_shift := m_lcap (s_map1 s)\<rparr>"
  obtain c where c: "alloc_bucket (map_cap m) s
      = (s_end s, s\<lparr>s_end := s_end s + BUCKET_SIZE * map_cap m, s_cap := c\<rparr>)"
    using alloc_bucket_eq [OF al] by blast
  define s1 where "s1 = s\<lparr>s_end := s_end s + BUCKET_SIZE * map_cap m, s_cap := c, s_map2 := m\<rparr>"
  have cap: "map_cap ((s_map2 s)\<lparr>m_notnull := True, m_lcap := DEFAULT_LCAP\<rparr>) = map_cap m"
    by (simp add: m_def map_cap_def)
  have start: "add_to_map2 a s = add_to_map2_redo a s1"
    using False c by (simp add: add_to_map2_def map_set_notnull_def cap s1_def m_def Let_def)
  have "map_rep s1 D m {}"
    using zero by (auto simp: map_rep_def brep_def bucket_list_def zero_bucket_def s1_def m_def bucket_by_idx_def)
  moreover have "arena2 s1"
    using al zero by (auto simp: arena2_def s1_def m_def bucket_by_idx_def map_cap_def BUCKET_ALIGN_def BUCKET_SIZE_def)
  moreover have "names_rep s1 D" using rep by (simp add: names_rep_def s1_def)
  ultimately have "inv2 s1 D S" by (simp add: inv2_def s1_def m_def S)
  from add_to_map2_redo_spec [OF this a] obtain s' where s':
    "add_to_map2_redo a s1 = Some s'" "inv2 s' D (add_set D S a)" "core s' = core s1"
    "\<And>y. y \<notin> insert a S \<Longrightarrow> s_names s' y = s_names s1 y"
    "\<And>b. b < m_buckets (s_map2 s1) \<Longrightarrow> s_bkts s' b = s_bkts s1 b" by blast
  have "core1 s1 = core1 s" "s_map1 s1 = s_map1 s" by (simp_all add: core1_def s1_def)
  moreover have "s_map1 s' = s_map1 s1" "base2 s' = base2 s"
    using s'(3) False by (auto simp: core_def base2_def s1_def m_def)
  moreover have "s_bkts s' b = s_bkts s b" if "b < base2 s" for b
    using that s'(5) [of b] False by (simp add: base2_def s1_def m_def)
  ultimately show ?thesis
    using s' start core_core1 [OF s'(3)] by (intro exI [of _ s']) (simp add: s1_def)
qed

lemma inv2'_frame:
  assumes "inv2' s D S" "\<And>y. y \<in> S \<Longrightarrow> s_names s' y = s_names s y" "names_rep s' D"
    "\<And>b. base2 s \<le> b \<Longrightarrow> s_bkts s' b = s_bkts s b" "s_end s' = s_end s" "s_map2 s' = s_map2 s"
  shows "inv2' s' D S"
proof (cases "m_notnull (s_map2 s)")
  case True
  let ?m = "s_map2 s"
  have inv: "inv2 s D S" using assms(1) True by (simp add: inv2'_def)
  have bk: "s_bkts s' b = s_bkts s b" if "m_buckets ?m \<le> b" for b
    using assms(4) that True by (simp add: base2_def)
  have "map_rep s' D ?m S"
    unfolding map_rep_def
  proof (intro allI impI)
    fix j assume "j < map_cap ?m"
    then have "brep s S (bucket_by_idx ?m j) (\<lambda>a. map_idx ?m (hash_at D a) = j)"
      using inv by (simp add: inv2_def map_rep_def)
    then show "brep s' S (bucket_by_idx ?m j) (\<lambda>a. map_idx ?m (hash_at D a) = j)"
      by (subst brep_cong [of S _ s' s]) (simp_all add: assms(2) bk bucket_by_idx_def)
  qed
  moreover have "m_buckets ?m \<le> s_end s" using inv by (simp add: inv2_def arena2_def bucket_by_idx_def)
  then have "arena2 s'"
    using inv bk assms(5,6) by (auto simp: inv2_def arena2_def)
  ultimately have "inv2 s' D S" using inv assms(3,6) by (simp add: inv2_def)
  then show ?thesis using True assms(6) by (simp add: inv2'_def)
next
  case False
  then show ?thesis using assms by (simp add: inv2'_def base2_def)
qed

lemma spill_loop_spec:
  assumes "path (s_names s) cur zs" "next_nameaddr s cur = Some nxt" "inv2' s D S"
    and "set zs \<subseteq> dom D" "set zs \<inter> S = {}" "inj_on (name_at D) (S \<union> set zs)"
  shows "\<exists>s'. spill_loop cur nxt s = Some s' \<and> inv2' s' D (S \<union> set zs) \<and> core1 s' = core1 s
    \<and> base2 s' = base2 s
    \<and> (\<forall>y. y \<notin> S \<union> set zs \<longrightarrow> s_names s' y = s_names s y)
    \<and> (\<forall>b < base2 s. s_bkts s' b = s_bkts s b)"
  using assms
proof (induction zs arbitrary: s cur nxt S)
  case Nil
  then show ?case by (subst spill_loop.simps) simp
next
  case (Cons x zs)
  obtain p where p: "cur = x" "x < NAMEADDR_END" "s_names s x = Some p" "path (s_names s) (n_next p) zs"
    using Cons.prems(1) by auto
  have nxt: "nxt = n_next p" using Cons.prems(2) p by (simp add: next_nameaddr_def ptr_name_def)
  define s0 where "s0 = s\<lparr>s_map1 := (s_map1 s)\<lparr>m_nitems := m_nitems (s_map1 s) - 1\<rparr>\<rparr>"
  have rep: "names_rep s D" using Cons.prems(3) by (auto simp: inv2'_def inv2_def split: if_splits)
  have "inv2' s0 D S"
    using rep by (intro inv2'_frame [OF Cons.prems(3)]) (simp_all add: s0_def names_rep_def)
  moreover have "x \<in> dom D" "x \<notin> S" using Cons.prems(4,5) by auto
  ultimately obtain s1 where s1: "add_to_map2 x s0 = Some s1" "inv2 s1 D (add_set D S x)" "core1 s1 = core1 s0"
    "base2 s1 = base2 s0" "\<And>y. y \<notin> insert x S \<Longrightarrow> s_names s1 y = s_names s0 y"
    "\<And>b. b < base2 s0 \<Longrightarrow> s_bkts s1 b = s_bkts s0 b"
    using add_to_map2_spec by blast
  have c0: "core1 s0 = core1 s" "base2 s0 = base2 s" "s_names s0 = s_names s" "s_bkts s0 = s_bkts s"
    by (simp_all add: s0_def core1_def base2_def)
  have new: "add_set D S x = insert x S"
    using Cons.prems(5,6) by (auto simp: add_set_def inj_on_def)
  have inv1: "inv2' s1 D (insert x S)" using s1(2) new by (simp add: inv2'_def inv2_def)
  have "distinct (x # zs)" using path_distinct [OF Cons.prems(1)] .
  moreover have same: "s_names s1 y = s_names s y" if "y \<notin> insert x S" for y
    using s1(5) [OF that] c0 by simp
  ultimately have "path (s_names s1) (n_next p) zs = path (s_names s) (n_next p) zs"
    using Cons.prems(5) by (intro path_cong same) auto
  then have path1: "path (s_names s1) nxt zs" using p(4) nxt by simp
  then obtain nxt' where nxt': "next_nameaddr s1 nxt = Some nxt'" using next_nameaddr_path by blast
  have dom: "set zs \<subseteq> dom D" using Cons.prems(4) by simp
  have dis: "set zs \<inter> insert x S = {}" using Cons.prems(5) path_distinct [OF Cons.prems(1)] by auto
  have inj: "inj_on (name_at D) (insert x S \<union> set zs)" using Cons.prems(6) by simp
  from Cons.IH [OF path1 nxt' inv1 dom dis inj] obtain s' where s': "spill_loop nxt nxt' s1 = Some s'"
    "inv2' s' D (insert x S \<union> set zs)" "core1 s' = core1 s1" "base2 s' = base2 s1"
    "\<And>y. y \<notin> insert x S \<union> set zs \<Longrightarrow> s_names s' y = s_names s1 y"
    "\<And>b. b < base2 s1 \<Longrightarrow> s_bkts s' b = s_bkts s1 b" by blast
  have "spill_loop cur nxt s = Some s'"
    using p(1,2) s1(1) nxt' s'(1) by (subst spill_loop.simps) (simp add: s0_def Let_def)
  then show ?case
    using s' s1 c0 by (intro exI [of _ s']) auto
qed

end
