(* ===== verification/Dnl_Index.thy ===== *)
theory Dnl_Index
  imports Dnl_Map
begin

text \<open>
  The domain list of \<^verbatim>\<open>src/dnl.c\<close> as an index of names: the invariant of the two maps, that
  \<open>add_to_dnl\<close> keeps it and adds a name unless one with the same text is there, and that
  \<open>exists_in_dnl\<close> finds exactly the names added. The locale \<open>name_index\<close> is the interface the
  rest of the file relies on; it is interpreted on the two-level map.
\<close>

section \<open>The invariant\<close>

definition bucket1 :: "dnl_t \<Rightarrow> name_data \<Rightarrow> nat \<Rightarrow> nat" where
  "bucket1 s D a = bucket_by_hashv (s_map1 s) (hash_at D a)"

text \<open>The names of \<open>S\<close> that are in the second map.\<close>

definition in_map2 :: "dnl_t \<Rightarrow> name_data \<Rightarrow> nat set \<Rightarrow> nat set" where
  "in_map2 s D S = {a \<in> S. b_state (s_bkts s (bucket1 s D a)) = BUCKET_NEXT}"

definition rep1 :: "dnl_t \<Rightarrow> name_data \<Rightarrow> nat set \<Rightarrow> nat \<Rightarrow> bool" where
  "rep1 s D S b \<longleftrightarrow> b_state (s_bkts s b) = BUCKET_NEXT
     \<or> (\<exists>xs. bucket_list s b xs \<and> set xs = {a \<in> S. bucket1 s D a = b})"

definition dnl_inv :: "dnl_t \<Rightarrow> name_data \<Rightarrow> nat set \<Rightarrow> bool" where
  "dnl_inv s D S \<longleftrightarrow> m_notnull (s_map1 s) \<and> names_rep s D \<and> inj_on (name_at D) S \<and> S \<subseteq> dom D
     \<and> (\<forall>i < map_cap (s_map1 s). rep1 s D S (bucket_by_idx (s_map1 s) i))
     \<and> bucket_by_idx (s_map1 s) (map_cap (s_map1 s)) \<le> base2 s
     \<and> inv2' s D (in_map2 s D S)
     \<and> (\<forall>i < map_cap (s_map1 s). b_state (s_bkts s (bucket_by_idx (s_map1 s) i)) = BUCKET_NEXT
           \<longrightarrow> m_notnull (s_map2 s))"

lemma bucket1_idx: "\<exists>i < map_cap (s_map1 s). bucket1 s D a = bucket_by_idx (s_map1 s) i"
  using map_idx_less [of "s_map1 s" "hash_at D a"] by (auto simp: bucket1_def bucket_by_hashv_def)

lemma bucket1_below:
  assumes "dnl_inv s D S"
  shows "bucket1 s D a < base2 s"
proof -
  obtain i where "i < map_cap (s_map1 s)" "bucket1 s D a = bucket_by_idx (s_map1 s) i"
    using bucket1_idx by blast
  then have "bucket1 s D a < bucket_by_idx (s_map1 s) (map_cap (s_map1 s))"
    by (simp add: bucket_by_idx_def BUCKET_SIZE_def)
  then show ?thesis using assms by (simp add: dnl_inv_def)
qed

lemma core1_geo:
  assumes "core1 s' = core1 s"
  shows "map_cap (s_map1 s') = map_cap (s_map1 s)" "bucket_by_idx (s_map1 s') i = bucket_by_idx (s_map1 s) i"
    "bucket1 s' D a = bucket1 s D a" "m_notnull (s_map1 s') = m_notnull (s_map1 s)"
    "bucket_by_hashv (s_map1 s') h = bucket_by_hashv (s_map1 s) h"
  using geometry_cong [of "s_map1 s'" "s_map1 s"] assms by (simp_all add: core1_def bucket1_def)

lemma base2_le_end: "inv2' s D S \<Longrightarrow> base2 s \<le> s_end s"
  by (auto simp: inv2'_def base2_def inv2_def arena2_def bucket_by_idx_def split: if_splits)

text \<open>Putting a name at the front of a bucket of the first map.\<close>

lemma dnl_inv_push:
  assumes inv: "dnl_inv s D S" and a: "a \<notin> S" "s_names s a = Some p"
    and st: "b_state (s_bkts s (bucket1 s D a)) \<noteq> BUCKET_NEXT"
    and new: "\<not> (\<exists>x \<in> S. name_at D x = name_at D a)"
    and s': "s_names s' = s_names (push_name (bucket1 s D a) a p s)"
      "s_bkts s' = s_bkts (push_name (bucket1 s D a) a p s)"
      "s_end s' = s_end s" "s_map2 s' = s_map2 s" "core1 s' = core1 s"
  shows "dnl_inv s' D (insert a S)"
proof -
  let ?b = "bucket1 s D a"
  note i = inv [unfolded dnl_inv_def]
  have rep: "names_rep s D" using i by blast
  have lt: "a < NAMEADDR_END" using rep a by (simp add: names_rep_def)
  have dom: "a \<in> dom D" using names_rep_Some [OF rep a(2)] by auto
  note geo = core1_geo [OF s'(5)]
  have rep': "names_rep s' D"
    using names_rep_push [OF rep a(2), of ?b] s'(1) by (simp add: names_rep_def)
  have bk: "s_bkts s' c = s_bkts s c" if "c \<noteq> ?b" for c using that s'(2) by (simp add: push_name_def)
  have st': "b_state (s_bkts s' ?b) = BUCKET_HEAD" using s'(2) by (simp add: push_name_def)
  have nx: "(b_state (s_bkts s' c) = BUCKET_NEXT) = (b_state (s_bkts s c) = BUCKET_NEXT)" for c
    using st st' bk by (cases "c = ?b") auto
  have map2: "in_map2 s' D (insert a S) = in_map2 s D S"
    using st by (auto simp: in_map2_def geo nx)
  have base: "base2 s' = base2 s" using s'(3,4) by (simp add: base2_def)
  have "inv2' s' D (in_map2 s D S)"
  proof (rule inv2'_frame)
    show "inv2' s D (in_map2 s D S)" using i by blast
    show "s_names s' y = s_names s y" if "y \<in> in_map2 s D S" for y
      using that a(1) s'(1) by (auto simp: in_map2_def push_name_def)
    show "s_bkts s' c = s_bkts s c" if "base2 s \<le> c" for c
      using that bucket1_below [OF inv, of a] by (intro bk) auto
  qed (use rep' s' in auto)
  moreover have "rep1 s' D (insert a S) (bucket_by_idx (s_map1 s) j)" if j: "j < map_cap (s_map1 s)" for j
  proof -
    let ?c = "bucket_by_idx (s_map1 s) j"
    have r: "rep1 s D S ?c" using i j by blast
    show ?thesis
    proof (cases "?c = ?b")
      case True
      then obtain xs where xs: "bucket_list s ?b xs" "set xs = {x \<in> S. bucket1 s D x = ?b}"
        using r st by (auto simp: rep1_def)
      then have "bucket_list (push_name ?b a p s) ?b (a # xs)"
        using a(1) lt by (intro bucket_list_push) auto
      then have "bucket_list s' ?b (a # xs)" unfolding bucket_list_def s'(1,2) .
      moreover have "set (a # xs) = {x \<in> insert a S. bucket1 s' D x = ?b}" using xs(2) by (auto simp: geo)
      ultimately show ?thesis using True unfolding rep1_def by metis
    next
      case False
      show ?thesis
      proof (cases "b_state (s_bkts s ?c) = BUCKET_NEXT")
        case True
        then show ?thesis using bk [OF False] by (simp add: rep1_def)
      next
        case nn: False
        then obtain xs where xs: "bucket_list s ?c xs" "set xs = {x \<in> S. bucket1 s D x = ?c}"
          using r by (auto simp: rep1_def)
        have "bucket_list (push_name ?b a p s) ?c xs"
          using xs a(1) False by (subst bucket_list_push_other) auto
        then have "bucket_list s' ?c xs" unfolding bucket_list_def s'(1,2) .
        moreover have "set xs = {x \<in> insert a S. bucket1 s' D x = ?c}" using xs(2) False by (auto simp: geo)
        ultimately show ?thesis unfolding rep1_def by blast
      qed
    qed
  qed
  moreover have "m_notnull (s_map2 s')" if "j < map_cap (s_map1 s)"
    "b_state (s_bkts s' (bucket_by_idx (s_map1 s) j)) = BUCKET_NEXT" for j
    using that i s'(4) by (simp add: nx)
  ultimately show ?thesis
    using i rep' dom new base map2 by (auto simp: dnl_inv_def geo inj_on_insert)
qed

section \<open>Adding a name\<close>

lemma same_name_bucket: "name_at D x = name_at D a \<Longrightarrow> bucket1 s D x = bucket1 s D a"
  by (simp add: bucket1_def hash_at_def)

text \<open>A bucket sends its names to the second map, the others stay as they are.\<close>

lemma dnl_inv_next:
  assumes inv: "dnl_inv s D S" and a: "a \<in> dom D" and S': "S' = add_set D S a"
    and core: "core1 s' = core1 s" and base: "base2 s' = base2 s"
    and st: "b_state (s_bkts s' (bucket1 s D a)) = BUCKET_NEXT"
    and bk: "\<And>b. b < base2 s \<Longrightarrow> b \<noteq> bucket1 s D a \<Longrightarrow> s_bkts s' b = s_bkts s b"
    and inv2: "inv2 s' D (in_map2 s' D S')"
    and nm: "\<And>x. x \<in> S \<Longrightarrow> bucket1 s D x \<noteq> bucket1 s D a \<Longrightarrow>
        b_state (s_bkts s (bucket1 s D x)) \<noteq> BUCKET_NEXT \<Longrightarrow> s_names s' x = s_names s x"
  shows "dnl_inv s' D S'"
proof -
  note i = inv [unfolded dnl_inv_def] and geo = core1_geo [OF core]
  have rep': "names_rep s' D" and nn: "m_notnull (s_map2 s')" using inv2 by (simp_all add: inv2_def)
  have "rep1 s' D S' (bucket_by_idx (s_map1 s) j)" if j: "j < map_cap (s_map1 s)" for j
  proof (cases "bucket_by_idx (s_map1 s) j = bucket1 s D a")
    case True
    then show ?thesis using st by (simp add: rep1_def)
  next
    case False
    let ?c = "bucket_by_idx (s_map1 s) j"
    have "?c < bucket_by_idx (s_map1 s) (map_cap (s_map1 s))"
      using j by (simp add: bucket_by_idx_def BUCKET_SIZE_def)
    also have "\<dots> \<le> base2 s" using i by blast
    finally have eq: "s_bkts s' ?c = s_bkts s ?c" using bk False by simp
    have r: "rep1 s D S ?c" using i j by blast
    show ?thesis
    proof (cases "b_state (s_bkts s ?c) = BUCKET_NEXT")
      case True
      then show ?thesis using eq by (simp add: rep1_def)
    next
      case nn: False
      then obtain xs where xs: "bucket_list s ?c xs" "set xs = {x \<in> S. bucket1 s D x = ?c}"
        using r by (auto simp: rep1_def)
      have "bucket_list s' ?c xs = bucket_list s ?c xs"
        using xs(2) False nn by (intro bucket_list_cong nm eq) auto
      moreover have "set xs = {x \<in> S'. bucket1 s' D x = ?c}"
        using xs(2) False by (auto simp: geo S' add_set_def)
      ultimately show ?thesis using xs(1) unfolding rep1_def by blast
    qed
  qed
  moreover have "inj_on (name_at D) S'"
    using i by (auto simp: S' add_set_def inj_on_insert)
  moreover have "S' \<subseteq> dom D" using i a by (auto simp: S' add_set_def)
  moreover have "inv2' s' D (in_map2 s' D S')" using inv2 nn by (simp add: inv2'_def)
  ultimately show ?thesis
    using i rep' nn base by (simp add: dnl_inv_def geo)
qed

lemma in_map2_new:
  assumes core: "core1 s' = core1 s" and below: "\<And>x. bucket1 s D x < base2 s"
    and st: "b_state (s_bkts s' (bucket1 s D a)) = BUCKET_NEXT"
    and bk: "\<And>b. b < base2 s \<Longrightarrow> b \<noteq> bucket1 s D a \<Longrightarrow> s_bkts s' b = s_bkts s b"
  shows "in_map2 s' D S' = {x \<in> S'. bucket1 s D x = bucket1 s D a \<or> b_state (s_bkts s (bucket1 s D x)) = BUCKET_NEXT}"
proof -
  have "(b_state (s_bkts s' (bucket1 s D x)) = BUCKET_NEXT) =
      (bucket1 s D x = bucket1 s D a \<or> b_state (s_bkts s (bucket1 s D x)) = BUCKET_NEXT)" for x
    using st bk [OF below, of x] by (cases "bucket1 s D x = bucket1 s D a") auto
  then show ?thesis by (simp add: in_map2_def core1_geo [OF core])
qed

lemma add_to_dnl_spec:
  assumes inv: "dnl_inv s D S" and a: "a \<in> dom D" "a \<notin> S"
  shows "\<exists>s'. add_to_dnl a s = Some s' \<and> dnl_inv s' D (add_set D S a) \<and> core1 s' = core1 s"
proof -
  note i = inv [unfolded dnl_inv_def]
  let ?b = "bucket1 s D a"
  have rep: "names_rep s D" using i by blast
  obtain p where p: "s_names s a = Some p" "n_hashv p = hash_at D a" "a < NAMEADDR_END"
    using names_repD [OF rep] a(1) by fastforce
  have hv: "get_hashv s a = Some (hash_at D a)" using p by (simp add: get_hashv_def ptr_name_def)
  have below: "bucket1 s D x < base2 s" for x using bucket1_below [OF inv] .
  have base: "base2 s \<le> s_end s" using i base2_le_end by blast
  obtain j where j: "j < map_cap (s_map1 s)" "?b = bucket_by_idx (s_map1 s) j"
    using bucket1_idx by blast
  have r1: "rep1 s D S ?b" using i j by metis
  have step: "add_to_dnl a s = (case b_state (ptr_bucket s ?b) of
       BUCKET_FREE \<Rightarrow> do {
         s \<leftarrow> store_as_head ?b a s;
         let s = s\<lparr>s_map1 := (s_map1 s)\<lparr>m_nitems := m_nitems (s_map1 s) + 1\<rparr>\<rparr>;
         Some (s\<lparr>s_map1 := (s_map1 s)\<lparr>m_nlists := m_nlists (s_map1 s) + 1\<rparr>\<rparr>) }
     | BUCKET_HEAD \<Rightarrow> do {
         r \<leftarrow> return_if_exists s ?b a;
         case r of None \<Rightarrow> Some s
         | Some n \<Rightarrow>
             if n < MAX_COLLISION then do {
               s \<leftarrow> store_as_body ?b a s;
               Some (s\<lparr>s_map1 := (s_map1 s)\<lparr>m_nitems := m_nitems (s_map1 s) + 1\<rparr>\<rparr>) }
             else do {
               let s = s\<lparr>s_map1 := (s_map1 s)\<lparr>m_nlists := m_nlists (s_map1 s) - 1\<rparr>\<rparr>;
               let s = put_bucket ?b ((ptr_bucket s ?b)\<lparr>b_state := BUCKET_NEXT\<rparr>) s;
               let cur = b_head (ptr_bucket s ?b);
               nxt \<leftarrow> next_nameaddr s cur;
               s \<leftarrow> spill_loop cur nxt s;
               add_to_map2 a s } }
     | BUCKET_NEXT \<Rightarrow> add_to_map2 a s)"
    unfolding add_to_dnl_def hv bucket1_def Option.bind.bind_lunit Let_def by (rule refl)
  have pushed: "dnl_inv s' D (insert a S) \<and> core1 s' = core1 s"
    if "b_state (s_bkts s ?b) \<noteq> BUCKET_NEXT" "\<not> (\<exists>x \<in> S. name_at D x = name_at D a)"
      "s_names s' = s_names (push_name ?b a p s)" "s_bkts s' = s_bkts (push_name ?b a p s)"
      "s_end s' = s_end s" "s_map2 s' = s_map2 s" "core1 s' = core1 s" for s'
    by (rule conjI [OF dnl_inv_push [OF inv a(2) p(1) that] that(7)])
  show ?thesis
  proof (cases "b_state (s_bkts s ?b)")
    case BUCKET_FREE
    then have "{x \<in> S. bucket1 s D x = ?b} = {}" using r1 by (auto simp: rep1_def bucket_list_def)
    then have none: "\<not> (\<exists>x \<in> S. name_at D x = name_at D a)" using same_name_bucket by blast
    let ?s' = "(push_name ?b a p s)\<lparr>s_map1 := (s_map1 s)\<lparr>m_nitems := m_nitems (s_map1 s) + 1,
        m_nlists := m_nlists (s_map1 s) + 1\<rparr>\<rparr>"
    have "add_to_dnl a s = Some ?s'"
      using step BUCKET_FREE store_as_head_eq [OF BUCKET_FREE p(1,3)]
      by (simp add: ptr_bucket_def push_name_def Let_def)
    moreover have "dnl_inv ?s' D (insert a S) \<and> core1 ?s' = core1 s"
      using BUCKET_FREE none by (intro pushed) (simp_all add: push_name_def core1_def)
    ultimately show ?thesis using none by (simp add: add_set_def)
  next
    case BUCKET_HEAD
    then obtain xs where xs: "bucket_list s ?b xs" "set xs = {x \<in> S. bucket1 s D x = ?b}"
      using r1 by (auto simp: rep1_def)
    have same: "(\<exists>x \<in> set xs. name_at D x = name_at D a) = (\<exists>x \<in> S. name_at D x = name_at D a)"
      unfolding xs(2) using same_name_bucket by blast
    note ret = return_if_exists_spec [OF xs(1) BUCKET_HEAD rep a(1), unfolded same]
    show ?thesis
    proof (cases "\<exists>x \<in> S. name_at D x = name_at D a")
      case True
      then show ?thesis using step BUCKET_HEAD ret inv by (simp add: ptr_bucket_def add_set_def)
    next
      case none: False
      show ?thesis
      proof (cases "length xs < MAX_COLLISION")
        case True
        let ?s' = "(push_name ?b a p s)\<lparr>s_map1 := (s_map1 s)\<lparr>m_nitems := m_nitems (s_map1 s) + 1\<rparr>\<rparr>"
        have "add_to_dnl a s = Some ?s'"
          using step BUCKET_HEAD ret none True store_as_body_eq [OF BUCKET_HEAD xs(1) p(1,3)]
          by (simp add: ptr_bucket_def push_name_def Let_def)
        moreover have "dnl_inv ?s' D (insert a S) \<and> core1 ?s' = core1 s"
          using BUCKET_HEAD none by (intro pushed) (simp_all add: push_name_def core1_def)
        ultimately show ?thesis using none by (simp add: add_set_def)
      next
        case full: False
        define s1 where "s1 = s\<lparr>s_map1 := (s_map1 s)\<lparr>m_nlists := m_nlists (s_map1 s) - 1\<rparr>,
          s_bkts := (s_bkts s)(?b := (s_bkts s ?b)\<lparr>b_state := BUCKET_NEXT\<rparr>)\<rparr>"
        let ?N = "in_map2 s D S"
        have c1: "core1 s1 = core1 s" "base2 s1 = base2 s" by (simp_all add: s1_def core1_def base2_def)
        have inv1: "inv2' s1 D ?N"
        proof (rule inv2'_frame)
          show "inv2' s D ?N" using i by blast
          show "s_bkts s1 b = s_bkts s b" if "base2 s \<le> b" for b
            using that below [of a] by (auto simp: s1_def)
        qed (use rep in \<open>auto simp: s1_def names_rep_def\<close>)
        have path: "path (s_names s1) (b_head (s_bkts s ?b)) xs"
          using xs(1) BUCKET_HEAD by (simp add: bucket_list_def s1_def)
        then obtain nxt where nxt: "next_nameaddr s1 (b_head (s_bkts s ?b)) = Some nxt"
          using next_nameaddr_path by blast
        have dom: "set xs \<subseteq> dom D" using xs(2) i by auto
        have dis: "set xs \<inter> ?N = {}" using xs(2) BUCKET_HEAD by (auto simp: in_map2_def)
        have inj: "inj_on (name_at D) (?N \<union> set xs)"
          using i xs(2) by (auto simp: in_map2_def intro: inj_on_subset [of _ S])
        obtain s2 where s2: "spill_loop (b_head (s_bkts s ?b)) nxt s1 = Some s2" "inv2' s2 D (?N \<union> set xs)"
          "core1 s2 = core1 s1" "base2 s2 = base2 s1"
          "\<And>y. y \<notin> ?N \<union> set xs \<Longrightarrow> s_names s2 y = s_names s1 y"
          "\<And>b. b < base2 s1 \<Longrightarrow> s_bkts s2 b = s_bkts s1 b"
          using spill_loop_spec [OF path nxt inv1 dom dis inj] by blast
        have "a \<notin> ?N \<union> set xs" using a(2) xs(2) by (auto simp: in_map2_def)
        from add_to_map2_spec [OF s2(2) a(1) this] obtain s3 where s3: "add_to_map2 a s2 = Some s3"
          "inv2 s3 D (add_set D (?N \<union> set xs) a)" "core1 s3 = core1 s2" "base2 s3 = base2 s2"
          "\<And>y. y \<notin> insert a (?N \<union> set xs) \<Longrightarrow> s_names s3 y = s_names s2 y"
          "\<And>b. b < base2 s2 \<Longrightarrow> s_bkts s3 b = s_bkts s2 b" by blast
        have core: "core1 s3 = core1 s" and base3: "base2 s3 = base2 s" using s2 s3 c1 by simp_all
        have bk3: "s_bkts s3 b = s_bkts s1 b" if "b < base2 s" for b
          using that s2(4,6) s3(6) c1 by simp
        have st: "b_state (s_bkts s3 ?b) = BUCKET_NEXT" using bk3 [OF below] by (simp add: s1_def)
        have bk: "s_bkts s3 b = s_bkts s b" if "b < base2 s" "b \<noteq> ?b" for b
          using bk3 [OF that(1)] that(2) by (simp add: s1_def)
        have S': "add_set D S a = insert a S" using none by (simp add: add_set_def)
        have "in_map2 s3 D (insert a S) = insert a (?N \<union> set xs)"
          using in_map2_new [OF core below st bk] xs(2) by (auto simp: in_map2_def)
        moreover have "add_set D (?N \<union> set xs) a = insert a (?N \<union> set xs)"
          using none xs(2) by (auto simp: add_set_def in_map2_def)
        ultimately have inv3: "inv2 s3 D (in_map2 s3 D (add_set D S a))" using s3(2) S' by simp
        have nm: "s_names s3 x = s_names s x" if "x \<in> S" "bucket1 s D x \<noteq> ?b"
          "b_state (s_bkts s (bucket1 s D x)) \<noteq> BUCKET_NEXT" for x
        proof -
          have "x \<notin> insert a (?N \<union> set xs)" using that a(2) xs(2) by (auto simp: in_map2_def)
          then show ?thesis using s3(5) [of x] s2(5) [of x] by (simp add: s1_def)
        qed
        have "dnl_inv s3 D (add_set D S a)"
          by (rule dnl_inv_next [OF inv a(1) refl core base3 st bk inv3 nm])
        moreover have "add_to_dnl a s = Some s3"
          using step BUCKET_HEAD ret none full nxt s2(1) s3(1)
          by (simp add: ptr_bucket_def put_bucket_def s1_def Let_def)
        ultimately show ?thesis using core by blast
      qed
    qed
  next
    case BUCKET_NEXT
    let ?N = "in_map2 s D S"
    have "inv2' s D ?N" using i by blast
    moreover have "a \<notin> ?N" using a(2) by (simp add: in_map2_def)
    ultimately obtain s3 where s3: "add_to_map2 a s = Some s3"
      "inv2 s3 D (add_set D ?N a)" "core1 s3 = core1 s" "base2 s3 = base2 s"
      "\<And>y. y \<notin> insert a ?N \<Longrightarrow> s_names s3 y = s_names s y"
      "\<And>b. b < base2 s \<Longrightarrow> s_bkts s3 b = s_bkts s b"
      using add_to_map2_spec a(1) by blast
    have st: "b_state (s_bkts s3 ?b) = BUCKET_NEXT" using s3(6) [OF below] BUCKET_NEXT by simp
    have same: "(\<exists>x \<in> ?N. name_at D x = name_at D a) = (\<exists>x \<in> S. name_at D x = name_at D a)"
    proof
      assume "\<exists>x \<in> S. name_at D x = name_at D a"
      then obtain x where "x \<in> S" "name_at D x = name_at D a" by blast
      moreover from this have "b_state (s_bkts s (bucket1 s D x)) = BUCKET_NEXT"
        using same_name_bucket BUCKET_NEXT by metis
      ultimately show "\<exists>x \<in> ?N. name_at D x = name_at D a" by (auto simp: in_map2_def)
    qed (auto simp: in_map2_def)
    have "in_map2 s3 D (add_set D S a) = add_set D ?N a"
      using in_map2_new [OF s3(3) below st s3(6), of "add_set D S a"] BUCKET_NEXT same
      by (auto simp: add_set_def in_map2_def)
    then have inv3: "inv2 s3 D (in_map2 s3 D (add_set D S a))" using s3(2) by simp
    have nm: "s_names s3 x = s_names s x" if "x \<in> S" "bucket1 s D x \<noteq> ?b"
      "b_state (s_bkts s (bucket1 s D x)) \<noteq> BUCKET_NEXT" for x
      using that a(2) by (intro s3(5)) (auto simp: in_map2_def)
    have "dnl_inv s3 D (add_set D S a)"
      by (rule dnl_inv_next [OF inv a(1) refl s3(3,4) st s3(6) inv3 nm])
    moreover have "add_to_dnl a s = Some s3" using step BUCKET_NEXT s3(1) by (simp add: ptr_bucket_def)
    ultimately show ?thesis using s3(3) by blast
  qed
qed

section \<open>Looking a name up\<close>

lemma name_eq_r_iff:
  assumes "names_rep s D" "D x = Some u" "length key < 256" "take (length key) name = key"
  shows "name_eq_r s x (calc_hashv key) (word_of_nat (length key)) name = Some (name_at D x = key)"
proof -
  obtain p where p: "s_names s x = Some p" "n_name p = name_at D x" "wf_name p"
    using names_repD [OF assms(1), of x "fst u" "snd u"] assms(2) by auto
  have len: "unat (word_of_nat (length key) :: u8) = length key" using assms(3) by (simp add: unat_of_nat)
  have "n_namelen p = word_of_nat (length key) \<longleftrightarrow> length (n_name p) = length key"
    using p(3) assms(3) by (auto simp: wf_name_def word_of_nat_eq_iff take_bit_nat_eq_self)
  then have "(n_hashv p = calc_hashv key \<and> n_namelen p = word_of_nat (length key)
      \<and> take (length key) (n_name p) = key) \<longleftrightarrow> n_name p = key"
    using p(3) by (auto simp: wf_name_def)
  then show ?thesis
    using p len assms(4) by (simp add: name_eq_r_def ptr_name_def)
qed

lemma exists_in_list_loop_spec:
  assumes "path (s_names s) cur xs" "next_nameaddr s cur = Some nxt" "names_rep s D"
    and key: "length key < 256" "take (length key) name = key"
  shows "\<exists>r. exists_in_list_loop s cur nxt (calc_hashv key) (word_of_nat (length key)) name = Some r
    \<and> (case r of None \<Rightarrow> \<forall>x \<in> set xs. name_at D x \<noteq> key | Some t \<Rightarrow> \<exists>x \<in> set xs. D x = Some (key, t))"
  using assms(1,2)
proof (induction xs arbitrary: cur nxt)
  case Nil
  then show ?case by (subst exists_in_list_loop.simps) simp
next
  case (Cons x xs)
  obtain p where p: "cur = x" "x < NAMEADDR_END" "s_names s x = Some p" "path (s_names s) (n_next p) xs"
    using Cons.prems(1) by auto
  have nxt: "nxt = n_next p" using Cons.prems(2) p by (simp add: next_nameaddr_def ptr_name_def)
  obtain nxt' where nxt': "next_nameaddr s nxt = Some nxt'" using next_nameaddr_path p(4) nxt by blast
  have path: "path (s_names s) nxt xs" using p(4) nxt by simp
  note data = names_rep_Some [OF assms(3) p(3)]
  have eq: "name_eq_r s cur (calc_hashv key) (word_of_nat (length key)) name = Some (name_at D x = key)"
    using name_eq_r_iff [OF assms(3) data key] p(1) by simp
  show ?case
  proof (cases "name_at D x = key")
    case True
    then show ?thesis
      using p eq data by (subst exists_in_list_loop.simps) (auto simp: ptr_name_def name_at_def)
  next
    case False
    obtain r where "exists_in_list_loop s nxt nxt' (calc_hashv key) (word_of_nat (length key)) name = Some r"
      "case r of None \<Rightarrow> \<forall>x \<in> set xs. name_at D x \<noteq> key | Some t \<Rightarrow> \<exists>x \<in> set xs. D x = Some (key, t)"
      using Cons.IH [OF path nxt'] by blast
    then show ?thesis
      using p eq nxt' False by (subst exists_in_list_loop.simps) (auto split: option.splits)
  qed
qed

lemma exists_in_list_spec:
  assumes "bucket_list s b xs" "b_state (s_bkts s b) = BUCKET_HEAD" "names_rep s D"
    and "length key < 256" "take (length key) name = key"
  shows "\<exists>r. exists_in_list s (s_bkts s b) (calc_hashv key) (word_of_nat (length key)) name = Some r
    \<and> (case r of None \<Rightarrow> \<forall>x \<in> set xs. name_at D x \<noteq> key | Some t \<Rightarrow> \<exists>x \<in> set xs. D x = Some (key, t))"
proof -
  have path: "path (s_names s) (b_head (s_bkts s b)) xs" using assms(1,2) by (simp add: bucket_list_def)
  then obtain nxt where nxt: "next_nameaddr s (b_head (s_bkts s b)) = Some nxt"
    using next_nameaddr_path by blast
  show ?thesis
    using exists_in_list_loop_spec [OF path nxt assms(3-5)] nxt by (simp add: exists_in_list_def)
qed

lemma exists_in_dnl_spec:
  assumes inv: "dnl_inv s D S" and key: "length key < 256" "take (length key) name = key"
  shows "\<exists>r. exists_in_dnl s name (word_of_nat (length key)) = Some r
    \<and> (case r of None \<Rightarrow> \<forall>x \<in> S. name_at D x \<noteq> key | Some t \<Rightarrow> \<exists>x \<in> S. D x = Some (key, t))"
proof -
  note i = inv [unfolded dnl_inv_def]
  have rep: "names_rep s D" using i by blast
  have len: "unat (word_of_nat (length key) :: u8) = length key" using key(1) by (simp add: unat_of_nat)
  let ?h = "calc_hashv key"
  let ?b = "bucket_by_hashv (s_map1 s) ?h"
  have hash: "hash_at D x = ?h" if "name_at D x = key" for x using that by (simp add: hash_at_def)
  have b: "\<exists>j < map_cap (s_map1 s). ?b = bucket_by_idx (s_map1 s) j"
    using map_idx_less by (auto simp: bucket_by_hashv_def)
  show ?thesis
  proof (cases "b_state (s_bkts s ?b)")
    case BUCKET_FREE
    have "rep1 s D S ?b" using i b by metis
    then have "{a \<in> S. bucket1 s D a = ?b} = {}" using BUCKET_FREE by (auto simp: rep1_def bucket_list_def)
    then have "\<forall>x \<in> S. name_at D x \<noteq> key" using hash by (auto simp: bucket1_def)
    then show ?thesis using BUCKET_FREE by (simp add: exists_in_dnl_def len key(2) ptr_bucket_def)
  next
    case BUCKET_HEAD
    have "rep1 s D S ?b" using i b by metis
    then obtain xs where xs: "bucket_list s ?b xs" "set xs = {a \<in> S. bucket1 s D a = ?b}"
      using BUCKET_HEAD by (auto simp: rep1_def)
    obtain r where r: "exists_in_list s (s_bkts s ?b) ?h (word_of_nat (length key)) name = Some r"
      "case r of None \<Rightarrow> \<forall>x \<in> set xs. name_at D x \<noteq> key | Some t \<Rightarrow> \<exists>x \<in> set xs. D x = Some (key, t)"
      using exists_in_list_spec [OF xs(1) BUCKET_HEAD rep key] by blast
    have "case r of None \<Rightarrow> \<forall>x \<in> S. name_at D x \<noteq> key | Some t \<Rightarrow> \<exists>x \<in> S. D x = Some (key, t)"
      using r(2) hash by (auto simp: xs(2) bucket1_def split: option.splits)
    then show ?thesis using BUCKET_HEAD r(1) by (simp add: exists_in_dnl_def len key(2) ptr_bucket_def)
  next
    case BUCKET_NEXT
    let ?m = "s_map2 s" and ?N = "in_map2 s D S"
    let ?c = "bucket_by_hashv ?m ?h"
    have "m_notnull ?m" using i b BUCKET_NEXT by metis
    then have "inv2 s D ?N" using i by (simp add: inv2'_def)
    then have "brep s ?N ?c (\<lambda>a. map_idx ?m (hash_at D a) = map_idx ?m ?h)"
      using map_idx_less [of ?m ?h] unfolding inv2_def map_rep_def bucket_by_hashv_def by blast
    then obtain xs where xs: "bucket_list s ?c xs" "set xs = {a \<in> ?N. map_idx ?m (hash_at D a) = map_idx ?m ?h}"
      "b_state (s_bkts s ?c) \<noteq> BUCKET_NEXT"
      unfolding brep_def by blast
    have mem: "x \<in> set xs" if "x \<in> S" "name_at D x = key" for x
      using that hash BUCKET_NEXT by (simp add: xs(2) in_map2_def bucket1_def)
    have sub: "set xs \<subseteq> S" using xs(2) by (auto simp: in_map2_def)
    show ?thesis
    proof (cases "b_state (s_bkts s ?c) = BUCKET_HEAD")
      case True
      obtain r where r: "exists_in_list s (s_bkts s ?c) ?h (word_of_nat (length key)) name = Some r"
        "case r of None \<Rightarrow> \<forall>x \<in> set xs. name_at D x \<noteq> key | Some t \<Rightarrow> \<exists>x \<in> set xs. D x = Some (key, t)"
        using exists_in_list_spec [OF xs(1) True rep key] by blast
      have "case r of None \<Rightarrow> \<forall>x \<in> S. name_at D x \<noteq> key | Some t \<Rightarrow> \<exists>x \<in> S. D x = Some (key, t)"
      proof (cases r)
        case None
        then show ?thesis using r(2) mem by auto
      next
        case (Some t)
        then show ?thesis using r(2) sub by auto
      qed
      then show ?thesis
        using BUCKET_NEXT True r(1) by (simp add: exists_in_dnl_def len key(2) ptr_bucket_def)
    next
      case False
      then have "set xs = {}" using xs(1) by (simp add: bucket_list_def)
      then have "\<forall>x \<in> S. name_at D x \<noteq> key" using mem by auto
      then show ?thesis
        using BUCKET_NEXT False by (simp add: exists_in_dnl_def len key(2) ptr_bucket_def)
    qed
  qed
qed

section \<open>The index as an interface\<close>

text \<open>
  What the rest of \<^verbatim>\<open>src/dnl.c\<close> relies on: a fresh address can be added, which stores its
  name unless the text is already there, and a lookup finds the stored names. \<open>D\<close> gives the
  text and the tag of an address, \<open>S\<close> is the set of stored addresses.
\<close>

fun add_seq :: "(nat \<Rightarrow> 's \<Rightarrow> 's option) \<Rightarrow> nat list \<Rightarrow> 's \<Rightarrow> 's option" where
  "add_seq add [] s = Some s"
| "add_seq add (a # as) s = do { s \<leftarrow> add a s; add_seq add as s }"

fun add_sets :: "name_data \<Rightarrow> nat set \<Rightarrow> nat list \<Rightarrow> nat set" where
  "add_sets D S [] = S"
| "add_sets D S (a # as) = add_sets D (add_set D S a) as"

lemma add_set_cases: "S \<subseteq> add_set D S a \<and> add_set D S a \<subseteq> insert a S"
  by (auto simp: add_set_def)

lemma add_sets_keep: "S \<subseteq> add_sets D S as"
proof (induction as arbitrary: S)
  case (Cons a as)
  from add_set_cases [of S D a] Cons.IH [of "add_set D S a"] show ?case by auto
qed simp

lemma add_sets_sub: "add_sets D S as \<subseteq> S \<union> set as"
proof (induction as arbitrary: S)
  case (Cons a as)
  from add_set_cases [of S D a] Cons.IH [of "add_set D S a"] show ?case by auto
qed simp

lemma add_sets_name:
  "(\<exists>a \<in> add_sets D S as. name_at D a = k) \<longleftrightarrow> (\<exists>a \<in> S \<union> set as. name_at D a = k)"
  by (induction as arbitrary: S) (auto simp: add_set_def)

text \<open>Which address answers for a name: one already stored, else the first one of the list.\<close>

lemma add_sets_first:
  assumes "\<not> (\<exists>a \<in> S. name_at D a = k)"
  shows "{a \<in> add_sets D S as. name_at D a = k}
    = (case find (\<lambda>a. name_at D a = k) as of None \<Rightarrow> {} | Some a \<Rightarrow> {a})"
  using assms
proof (induction as arbitrary: S)
  case (Cons a as)
  show ?case
  proof (cases "name_at D a = k")
    case True
    have only: "\<forall>b \<in> add_sets D T bs. name_at D b = k \<longrightarrow> b = a" if "a \<in> T" "\<forall>b \<in> T. name_at D b = k \<longrightarrow> b = a" for T bs
      using that
    proof (induction bs arbitrary: T)
      case (Cons b bs)
      have in': "a \<in> add_set D T b" using Cons.prems(1) add_set_cases by blast
      have only': "\<forall>c \<in> add_set D T b. name_at D c = k \<longrightarrow> c = a"
      proof (cases "\<exists>c \<in> T. name_at D c = name_at D b")
        case False
        then have "name_at D b \<noteq> k" using Cons.prems(1) True by metis
        then show ?thesis using False Cons.prems(2) by (simp add: add_set_def)
      qed (use Cons.prems(2) in \<open>simp add: add_set_def\<close>)
      show ?case using Cons.IH [OF in' only'] by simp
    qed simp
    have new: "add_set D S a = insert a S" using Cons.prems True by (simp add: add_set_def)
    have "a \<in> add_sets D (insert a S) as" using add_sets_keep by blast
    moreover have "\<forall>b \<in> insert a S. name_at D b = k \<longrightarrow> b = a" using Cons.prems by blast
    from only [OF _ this, of as] have "\<forall>b \<in> add_sets D (insert a S) as. name_at D b = k \<longrightarrow> b = a" by simp
    ultimately have "{b \<in> add_sets D (insert a S) as. name_at D b = k} = {a}" using True by blast
    then show ?thesis by (simp add: new True)
  next
    case False
    then have "\<not> (\<exists>b \<in> add_set D S a. name_at D b = k)" using Cons.prems by (auto simp: add_set_def)
    from Cons.IH [OF this] False show ?thesis by simp
  qed
qed auto

locale name_index =
  fixes rep :: "'s \<Rightarrow> name_data \<Rightarrow> nat set \<Rightarrow> bool"
    and add :: "nat \<Rightarrow> 's \<Rightarrow> 's option"
    and lookup :: "'s \<Rightarrow> bytes \<Rightarrow> u8 option option"
  assumes add_new: "rep s D S \<Longrightarrow> a \<in> dom D \<Longrightarrow> a \<notin> S \<Longrightarrow> \<exists>s'. add a s = Some s' \<and> rep s' D (add_set D S a)"
    and lookup_rep: "rep s D S \<Longrightarrow> length key < 256 \<Longrightarrow> \<exists>r. lookup s key = Some r
      \<and> (case r of None \<Rightarrow> \<forall>x \<in> S. name_at D x \<noteq> key | Some t \<Rightarrow> \<exists>x \<in> S. D x = Some (key, t))"
begin

lemma add_seq_rep:
  "rep s D S \<Longrightarrow> distinct as \<Longrightarrow> set as \<subseteq> dom D \<Longrightarrow> set as \<inter> S = {} \<Longrightarrow>
     \<exists>s'. add_seq add as s = Some s' \<and> rep s' D (add_sets D S as)"
proof (induction as arbitrary: s S)
  case (Cons a as)
  obtain s1 where s1: "add a s = Some s1" "rep s1 D (add_set D S a)"
    using add_new [OF Cons.prems(1), of a] Cons.prems by auto
  moreover have "set as \<inter> add_set D S a = {}" using add_set_cases [of S D a] Cons.prems by auto
  ultimately show ?case using Cons.IH [OF s1(2)] Cons.prems by simp
qed simp

text \<open>From an empty index, a lookup gives the tag of the first address added with that text.\<close>

lemma lookup_first:
  assumes "rep s D {}" "distinct as" "set as \<subseteq> dom D" "length key < 256"
  shows "\<exists>s'. add_seq add as s = Some s' \<and> rep s' D (add_sets D {} as)
    \<and> lookup s' key = Some (map_option (\<lambda>a. snd (the (D a))) (find (\<lambda>a. name_at D a = key) as))"
proof -
  obtain s' where s': "add_seq add as s = Some s'" "rep s' D (add_sets D {} as)"
    using add_seq_rep [OF assms(1-3)] by auto
  obtain r where r: "lookup s' key = Some r" "case r of None \<Rightarrow> \<forall>x \<in> add_sets D {} as. name_at D x \<noteq> key
      | Some t \<Rightarrow> \<exists>x \<in> add_sets D {} as. D x = Some (key, t)"
    using lookup_rep [OF s'(2) assms(4)] by blast
  note first = add_sets_first [of "{}" D key as, simplified]
  have "r = map_option (\<lambda>a. snd (the (D a))) (find (\<lambda>a. name_at D a = key) as)"
  proof (cases r)
    case None
    then have "{a \<in> add_sets D {} as. name_at D a = key} = {}" using r(2) by auto
    then show ?thesis using first None by (auto split: option.splits)
  next
    case (Some t)
    then obtain x where x: "x \<in> add_sets D {} as" "D x = Some (key, t)" using r(2) by auto
    then have "x \<in> {a \<in> add_sets D {} as. name_at D a = key}" by (simp add: name_at_def)
    then have "find (\<lambda>a. name_at D a = key) as = Some x" using first by (auto split: option.splits)
    then show ?thesis using Some x(2) by simp
  qed
  then show ?thesis using s' r(1) by blast
qed

end

text \<open>
  The two-level map provides it, and keeps everything outside the maps. A key is looked up as the
  first bytes of a longer string, which goes on with the bytes \<open>junk\<close>.
\<close>

interpretation dnl: name_index "\<lambda>s D S. dnl_inv s D S \<and> core1 s = c" add_to_dnl
  "\<lambda>s key. exists_in_dnl s (key @ junk) (word_of_nat (length key))" for c junk
proof unfold_locales
  fix s D S a
  assume "dnl_inv s D S \<and> core1 s = c" "a \<in> dom D" "a \<notin> S"
  then show "\<exists>s'. add_to_dnl a s = Some s' \<and> dnl_inv s' D (add_set D S a) \<and> core1 s' = c"
    using add_to_dnl_spec [of s D S a] by auto
next
  fix s D S and key :: bytes
  assume "dnl_inv s D S \<and> core1 s = c" "length key < 256"
  then show "\<exists>r. exists_in_dnl s (key @ junk) (word_of_nat (length key)) = Some r
      \<and> (case r of None \<Rightarrow> \<forall>x \<in> S. name_at D x \<noteq> key | Some t \<Rightarrow> \<exists>x \<in> S. D x = Some (key, t))"
    using exists_in_dnl_spec [of s D S key "key @ junk"] by simp
qed

end
