(* ===== verification/Dnl_Name.thy ===== *)
theory Dnl_Name
  imports Dnl_Arena Dns_Name
begin

text \<open>
  The names that \<^verbatim>\<open>src/dnl.c\<close> keeps and looks up: \<open>check_name\<close> rejects a malformed name,
  cuts a long one to its last \<open>MAX_NAME_LEVEL\<close> labels and records the number of labels in
  \<^verbatim>\<open>s_level_interest\<close> and \<^verbatim>\<open>s_level_max\<close>; \<open>get_suffix\<close> lists the suffixes of a queried
  name at the recorded levels. A C string is the list of its bytes before the terminator.
\<close>

section \<open>Definitions\<close>

definition MAX_NAME_LEVEL :: nat where "MAX_NAME_LEVEL = 8"

definition HASH_SIGN :: u8 where "HASH_SIGN = 35"

text \<open>
  The loop of \<open>check_name\<close> with \<open>i + 1\<close> as its second argument; \<open>None\<close> is
  \<^verbatim>\<open>return NULL\<close>, otherwise the final \<^verbatim>\<open>level\<close> and how far \<^verbatim>\<open>name\<close> is moved.
\<close>

fun check_name_loop :: "bytes \<Rightarrow> nat \<Rightarrow> nat \<Rightarrow> nat \<Rightarrow> (nat \<times> nat) option" where
  "check_name_loop name 0 label_len level = Some (level, 0)"
| "check_name_loop name (Suc i) label_len level =
     (if name ! i = DOT then
        if label_len < 1 then None
        else if level + 1 > MAX_NAME_LEVEL then Some (level, i + 1)
        else check_name_loop name i 0 (level + 1)
      else if label_len + 1 > DNS_NAME_LABEL_MAXLEN then None
      else check_name_loop name i (label_len + 1) level)"

definition check_name :: "bytes \<Rightarrow> dnl_t \<Rightarrow> bytes option \<times> dnl_t" where
  "check_name name s =
     (let namelen = length name
      in if namelen < 1 \<or> name ! 0 = DOT \<or> name ! 0 = HASH_SIGN \<or> name ! (namelen - 1) = DOT then (None, s)
         else (case check_name_loop name namelen 0 1 of
                 None \<Rightarrow> (None, s)
               | Some (level, off) \<Rightarrow>
                   let s = s\<lparr>s_level_interest := or (s_level_interest s) (push_bit (level - 1) 1)\<rparr>;
                       s = (if level > s_level_max s then s\<lparr>s_level_max := level\<rparr> else s)
                   in (Some (drop off name), s)))"

definition dnl_check_name :: "bytes \<Rightarrow> dnl_t \<Rightarrow> bytes option \<times> dnl_t" where
  "dnl_check_name name s = check_name name s"

text \<open>\<^verbatim>\<open>memrchr(m, c, n)\<close>: the last offset below \<open>n\<close> that holds \<open>c\<close>.\<close>

fun memrchr :: "bytes \<Rightarrow> u8 \<Rightarrow> nat \<Rightarrow> nat option option" where
  "memrchr m c 0 = Some None"
| "memrchr m c (Suc n) = do { b \<leftarrow> rd8 m n; if b = c then Some (Some n) else memrchr m c n }"

text \<open>
  The two arrays that \<open>get_suffix\<close> fills are one list of offsets and lengths, here in the order
  of the stores; a store beyond their \<open>MAX_NAME_LEVEL\<close> elements is \<open>None\<close>.
\<close>

definition put_suffix :: "(nat \<times> nat) list \<Rightarrow> nat \<times> nat \<Rightarrow> (nat \<times> nat) list option" where
  "put_suffix arr x = (if length arr < MAX_NAME_LEVEL then Some (arr @ [x]) else None)"

text \<open>\<^verbatim>\<open>s_level_interest & (1 << (level - 1))\<close>.\<close>

definition level_interesting :: "dnl_t \<Rightarrow> nat \<Rightarrow> bool" where
  "level_interesting s level = bit (s_level_interest s) (level - 1)"

function get_suffix_loop :: "dnl_t \<Rightarrow> bytes \<Rightarrow> nat \<Rightarrow> nat \<Rightarrow> nat \<Rightarrow> (nat \<times> nat) list
    \<Rightarrow> (nat \<times> (nat \<times> nat) list) option" where
  "get_suffix_loop s name namelen dot level arr =
     (if level \<le> s_level_max s then do {
        r \<leftarrow> memrchr name DOT dot;
        case r of
          None \<Rightarrow> Some (level, arr)
        | Some dot \<Rightarrow> do {
            arr \<leftarrow> (if level_interesting s level then put_suffix arr (dot + 1, namelen - (dot + 1)) else Some arr);
            get_suffix_loop s name namelen dot (level + 1) arr } }
      else Some (level, arr))"
  by pat_completeness auto
termination by (relation "measure (\<lambda>(s, name, namelen, dot, level, arr). Suc (s_level_max s) - level)") auto

declare get_suffix_loop.simps [simp del]

definition get_suffix :: "dnl_t \<Rightarrow> bytes \<Rightarrow> nat \<Rightarrow> (nat \<times> nat) list option" where
  "get_suffix s name namelen = do {
     (level, arr) \<leftarrow> get_suffix_loop s name namelen namelen 1 [];
     if level_interesting s level then put_suffix arr (0, namelen) else Some arr }"

section \<open>check_name\<close>

text \<open>The labels that are kept of a name: the last \<open>MAX_NAME_LEVEL\<close>, or all of them.\<close>

definition last_labels :: "bytes \<Rightarrow> bytes list" where
  "last_labels name = (let ls = split_dots name in drop (length ls - MAX_NAME_LEVEL) ls)"

lemma split_dots_append:
  "split_dots (a @ b) = butlast (split_dots a) @ (last (split_dots a) @ hd (split_dots b)) # tl (split_dots b)"
proof (induction a)
  case Nil
  then show ?case using split_dots_nonempty [of b] by simp
next
  case (Cons c a)
  then show ?case using split_dots_nonempty [of a] by (auto split: list.splits)
qed

lemma split_dots_append_dot: "split_dots (a @ DOT # b) = split_dots a @ split_dots b"
  using split_dots_append [of a "DOT # b"] split_dots_nonempty [of a] by simp

lemma set_drop_last:
  "x \<in> set bs \<Longrightarrow> length bs \<le> n \<Longrightarrow> x \<in> set (drop (length (as @ bs) - n) (as @ bs))"
  by simp

lemma check_name_loop_eq:
  assumes "i \<le> length name" "split_dots (drop i name) = ls" "label_len = length (hd ls)"
    "length ls \<le> MAX_NAME_LEVEL" "label_len \<le> DNS_NAME_LABEL_MAXLEN" "list_all label_ok (tl ls)"
    "name \<noteq> []" "name ! 0 \<noteq> DOT"
  shows "check_name_loop name i label_len (length ls) = (if list_all label_ok (last_labels name)
    then Some (length (last_labels name), length name - length (dotted (last_labels name))) else None)"
  using assms
proof (induction i arbitrary: ls label_len)
  case 0
  then have L: "split_dots name = ls" and ne: "ls \<noteq> []" using split_dots_nonempty by auto
  obtain c cs where "name = c # cs" "c \<noteq> DOT" using 0 by (cases name) auto
  then have "hd ls \<noteq> []" using L by (auto split: list.splits)
  then have "label_ok (hd ls)" using 0 by (cases "hd ls") (simp_all add: label_ok_def DNS_NAME_LABEL_MAXLEN_def)
  then have "list_all label_ok ls" using 0 ne by (cases ls) auto
  moreover have "last_labels name = ls" using L 0 by (simp add: last_labels_def)
  ultimately show ?case using L dotted_split_dots [of name] by simp
next
  case (Suc i)
  let ?c = "name ! i"
  have drop: "drop i name = ?c # drop (Suc i) name" using Suc.prems(1) by (simp add: Cons_nth_drop_Suc)
  have ne: "ls \<noteq> []" using Suc.prems(2) split_dots_nonempty by metis
  have name: "name = take i name @ ?c # drop (Suc i) name"
    using Suc.prems(1) by (simp add: id_take_nth_drop [symmetric])
  show ?case
  proof (cases "?c = DOT")
    case True
    have L: "split_dots name = split_dots (take i name) @ ls"
      by (subst name, subst True, subst split_dots_append_dot) (simp add: Suc.prems(2))
    show ?thesis
    proof (cases "label_len < 1")
      case short: True
      have "hd ls \<in> set (last_labels name)"
        unfolding last_labels_def L Let_def using ne Suc.prems(4) by (intro set_drop_last) auto
      then have "\<not> list_all label_ok (last_labels name)"
        using short Suc.prems(3) by (auto simp: list_all_iff label_ok_def intro!: bexI [of _ "[]"])
      then show ?thesis using True short by simp
    next
      case False
      have "label_ok (hd ls)"
        using False Suc.prems(3,5) by (simp add: label_ok_def DNS_NAME_LABEL_MAXLEN_def Suc_le_eq)
      then have ok: "list_all label_ok ls" using Suc.prems(6) ne by (cases ls) auto
      show ?thesis
      proof (cases "length ls + 1 > MAX_NAME_LEVEL")
        case full: True
        then have "last_labels name = ls" using L Suc.prems(4) by (simp add: last_labels_def)
        moreover have "dotted ls = drop (Suc i) name" using dotted_split_dots Suc.prems(2) by metis
        ultimately show ?thesis using True False full ok Suc.prems(1) by simp
      next
        case room: False
        have "check_name_loop name i 0 (length ([] # ls)) = (if list_all label_ok (last_labels name)
          then Some (length (last_labels name), length name - length (dotted (last_labels name))) else None)"
          using Suc.prems room ok True drop by (intro Suc.IH) auto
        then show ?thesis using True False room by simp
      qed
    qed
  next
    case False
    have ls': "split_dots (drop i name) = (?c # hd ls) # tl ls"
      using drop False Suc.prems(2) ne by (simp split: list.splits)
    show ?thesis
    proof (cases "label_len + 1 > DNS_NAME_LABEL_MAXLEN")
      case True
      have L: "split_dots name = butlast (split_dots (take i name))
          @ (last (split_dots (take i name)) @ ?c # hd ls) # tl ls"
        using split_dots_append [of "take i name" "drop i name"] ls' by simp
      have "last (split_dots (take i name)) @ ?c # hd ls \<in> set (last_labels name)"
        unfolding last_labels_def L Let_def using ne Suc.prems(4) by (intro set_drop_last) auto
      moreover have "\<not> label_ok (last (split_dots (take i name)) @ ?c # hd ls)"
        using True Suc.prems(3) by (simp add: label_ok_def DNS_NAME_LABEL_MAXLEN_def)
      ultimately have "\<not> list_all label_ok (last_labels name)" by (auto simp: list_all_iff)
      then show ?thesis using True False by simp
    next
      case room: False
      have "check_name_loop name i (label_len + 1) (length ((?c # hd ls) # tl ls)) = (if list_all label_ok (last_labels name)
          then Some (length (last_labels name), length name - length (dotted (last_labels name))) else None)"
        using Suc.prems room False ls' ne by (intro Suc.IH) auto
      moreover have "length ((?c # hd ls) # tl ls) = length ls" using ne by simp
      ultimately show ?thesis using False room by simp
    qed
  qed
qed

lemma dotted_append:
  "bs \<noteq> [] \<Longrightarrow> dotted (as @ bs) = (if as = [] then dotted bs else dotted as @ DOT # dotted bs)"
  by (cases as; cases bs) auto

lemma drop_dotted:
  assumes "bs \<noteq> []"
  shows "drop (length (dotted (as @ bs)) - length (dotted bs)) (dotted (as @ bs)) = dotted bs"
  using assms by (simp add: dotted_append)

lemma last_labels_suffix: "last_labels name \<noteq> []"
    "drop (length name - length (dotted (last_labels name))) name = dotted (last_labels name)"
proof -
  define n where "n = length (split_dots name) - MAX_NAME_LEVEL"
  have split: "split_dots name = take n (split_dots name) @ last_labels name"
    by (simp add: last_labels_def Let_def n_def)
  show ne: "last_labels name \<noteq> []"
    using split_dots_nonempty [of name]
    by (cases "split_dots name") (auto simp: last_labels_def Let_def MAX_NAME_LEVEL_def)
  show "drop (length name - length (dotted (last_labels name))) name = dotted (last_labels name)"
    using drop_dotted [OF ne, of "take n (split_dots name)"] dotted_split_dots [of name] split by simp
qed

lemma split_dots_last_dot: "name \<noteq> [] \<Longrightarrow> name ! (length name - 1) = DOT \<Longrightarrow> \<not> list_all label_ok (last_labels name)"
proof -
  assume "name \<noteq> []" "name ! (length name - 1) = DOT"
  then have "name = butlast name @ DOT # []" by (metis append_butlast_last_id last_conv_nth)
  then have "split_dots name = split_dots (butlast name) @ [[]]"
    using split_dots_append_dot [of "butlast name" "[]"] by (metis split_dots.simps(1))
  then have "[] \<in> set (last_labels name)" by (simp add: last_labels_def MAX_NAME_LEVEL_def)
  then show ?thesis by (auto simp: list_all_iff label_ok_def intro!: bexI [of _ "[]"])
qed

lemma check_name_eq:
  "check_name name s =
    (if name = [] \<or> name ! 0 = DOT \<or> name ! 0 = HASH_SIGN \<or> \<not> list_all label_ok (last_labels name) then (None, s)
     else (Some (dotted (last_labels name)), s\<lparr>
       s_level_interest := or (s_level_interest s) (push_bit (length (last_labels name) - 1) 1),
       s_level_max := max (s_level_max s) (length (last_labels name))\<rparr>))"
proof (cases "name = [] \<or> name ! 0 = DOT \<or> name ! 0 = HASH_SIGN \<or> name ! (length name - 1) = DOT")
  case True
  then show ?thesis using split_dots_last_dot [of name] by (auto simp: check_name_def Let_def)
next
  case False
  have "check_name_loop name (length name) 0 (length [[] :: bytes]) = (if list_all label_ok (last_labels name)
      then Some (length (last_labels name), length name - length (dotted (last_labels name))) else None)"
    using False by (intro check_name_loop_eq) (simp_all add: MAX_NAME_LEVEL_def)
  then show ?thesis
    using False last_labels_suffix [of name]
    by (cases s) (auto simp: check_name_def Let_def max_def)
qed

text \<open>
  C36: \<open>check_name\<close> accepts a name exactly when it is not empty, does not start with a dot or a
  \<^verbatim>\<open>#\<close> and its last eight labels (all of them where there are fewer) have 1 to 63 bytes; it
  returns the name made of these labels and records their number in the interest mask and in the
  maximal level. A rejected name leaves the state as it is.
\<close>

theorem check_name_correct:
  "check_name name s =
    (if name = [] \<or> name ! 0 = DOT \<or> name ! 0 = HASH_SIGN \<or> \<not> list_all label_ok (last_labels name) then (None, s)
     else (Some (dotted (last_labels name)), s\<lparr>
       s_level_interest := or (s_level_interest s) (push_bit (length (last_labels name) - 1) 1),
       s_level_max := max (s_level_max s) (length (last_labels name))\<rparr>))"
  by (rule check_name_eq)

theorem check_name_correct_witness:
  "check_name [97, DOT, 98] (dnl_initial 4096) = (Some [97, DOT, 98],
     (dnl_initial 4096)\<lparr>s_level_interest := 2, s_level_max := 2\<rparr>)"
  unfolding check_name_correct
  by (simp add: last_labels_def MAX_NAME_LEVEL_def DOT_def HASH_SIGN_def label_ok_def dnl_initial_def)

section \<open>get_suffix\<close>

text \<open>What \<open>check_name\<close> maintains of the two level variables.\<close>

definition level_inv :: "dnl_t \<Rightarrow> bool" where
  "level_inv s \<longleftrightarrow> s_level_max s \<le> MAX_NAME_LEVEL \<and> (\<forall>k. bit (s_level_interest s) k \<longrightarrow> k < s_level_max s)"

lemma length_last_labels: "1 \<le> length (last_labels name)" "length (last_labels name) \<le> MAX_NAME_LEVEL"
  using last_labels_suffix(1) [of name] by (simp_all add: Suc_le_eq) (simp add: last_labels_def Let_def)

lemma level_inv_initial: "level_inv (dnl_initial pagesz)"
  by (simp add: level_inv_def dnl_initial_def)

lemma level_inv_check_name: "level_inv s \<Longrightarrow> level_inv (snd (check_name name s))"
  using length_last_labels [of name]
  by (auto simp: check_name_eq level_inv_def bit_simps)

lemma split_dots_labels: "l \<in> set (split_dots name) \<Longrightarrow> DOT \<notin> set l"
  by (induction name arbitrary: l) (auto split: if_splits list.splits)

lemma memrchr_none: "c \<notin> set l \<Longrightarrow> memrchr (l @ r) c (length l) = Some None"
proof (induction l arbitrary: r rule: rev_induct)
  case (snoc x xs)
  then show ?case using snoc.IH [of "x # r"] by (auto simp: rd8_def nth_append)
qed simp

lemma memrchr_found: "c \<notin> set l \<Longrightarrow> memrchr (a @ c # l @ r) c (length a + 1 + length l) = Some (Some (length a))"
proof (induction l arbitrary: r rule: rev_induct)
  case Nil
  then show ?case by (simp add: rd8_def nth_append)
next
  case (snoc x xs)
  then show ?case using snoc.IH [of "x # r"] by (auto simp: rd8_def nth_append)
qed

text \<open>The suffix of \<open>k\<close> labels: its text and its offset.\<close>

definition suffix_text :: "bytes \<Rightarrow> nat \<Rightarrow> bytes" where
  "suffix_text name k = (let ls = split_dots name in dotted (drop (length ls - k) ls))"

definition suffix_off :: "bytes \<Rightarrow> nat \<Rightarrow> nat" where
  "suffix_off name k = length name - length (suffix_text name k)"

lemma suffix_text_split:
  assumes "k < length (split_dots name)" "0 < k"
  shows "name = dotted (take (length (split_dots name) - k) (split_dots name)) @ DOT # suffix_text name k"
proof -
  let ?ls = "split_dots name" and ?n = "length (split_dots name) - k"
  have "drop ?n ?ls \<noteq> []" "take ?n ?ls \<noteq> []" using assms by auto
  then have "dotted (take ?n ?ls @ drop ?n ?ls) = dotted (take ?n ?ls) @ DOT # dotted (drop ?n ?ls)"
    using dotted_append [of "drop ?n ?ls" "take ?n ?ls"] by simp
  then show ?thesis by (simp add: dotted_split_dots suffix_text_def Let_def)
qed

lemma suffix_text_full: "length (split_dots name) \<le> k \<Longrightarrow> suffix_text name k = name"
  by (simp add: suffix_text_def dotted_split_dots)

lemma suffix_at:
  assumes "0 < k"
  shows "take (length name - suffix_off name k) (drop (suffix_off name k) (name @ junk)) = suffix_text name k"
    "suffix_off name k \<le> length name" "length name - suffix_off name k = length (suffix_text name k)"
proof -
  have "\<exists>pre. name = pre @ suffix_text name k"
    using suffix_text_split [of k name] suffix_text_full [of name k] assms
    by (metis append_Nil append_Cons append_assoc append_self_conv2 not_less)
  then obtain pre where pre: "name = pre @ suffix_text name k" by blast
  then have len: "length name = length pre + length (suffix_text name k)" by (metis length_append)
  then have off: "suffix_off name k = length pre" by (simp add: suffix_off_def)
  show "suffix_off name k \<le> length name" "length name - suffix_off name k = length (suffix_text name k)"
    using len off by simp_all
  have "drop (length pre) (name @ junk) = suffix_text name k @ junk"
    by (subst (1) pre) simp
  then show "take (length name - suffix_off name k) (drop (suffix_off name k) (name @ junk)) = suffix_text name k"
    using len off by simp
qed

lemma put_suffix_eq: "length arr < MAX_NAME_LEVEL \<Longrightarrow> put_suffix arr x = Some (arr @ [x])"
  by (simp add: put_suffix_def)

lemma get_suffix_loop_eq:
  assumes "level_inv s" "1 \<le> lv" "lv \<le> length (split_dots name)" "length arr < lv"
  shows "\<exists>lv'. get_suffix_loop s (name @ junk) (length name)
        (length (dotted (take (length (split_dots name) + 1 - lv) (split_dots name)))) lv arr
      = Some (lv', arr @ map (\<lambda>k. (suffix_off name k, length name - suffix_off name k))
          (filter (level_interesting s) [lv ..< lv']))
    \<and> lv \<le> lv' \<and> lv' \<le> length (split_dots name) \<and> (lv' = length (split_dots name) \<or> s_level_max s < lv')"
  using assms(2-)
proof (induction "length (split_dots name) - lv" arbitrary: lv arr)
  case 0
  then have n: "length (split_dots name) = lv" by simp
  obtain l ls where split: "split_dots name = l # ls" using split_dots_nonempty by (cases "split_dots name") auto
  have "DOT \<notin> set l" using split_dots_labels [of l name] split by simp
  moreover have "name = l @ concat (map (\<lambda>x. DOT # x) ls)"
    using dotted_split_dots [of name] split by (metis dotted.simps(2))
  ultimately have "memrchr (name @ junk) DOT (length l) = Some None"
    using memrchr_none [of DOT l] by (metis append_assoc)
  then show ?case
    using n by (subst get_suffix_loop.simps) (auto simp: split)
next
  case (Suc m)
  let ?L = "split_dots name" and ?f = "\<lambda>k. (suffix_off name k, length name - suffix_off name k)"
  have lv: "lv < length ?L" "length ?L - Suc lv = m" using Suc.hyps(2) by simp_all
  show ?case
  proof (cases "lv \<le> s_level_max s")
    case False
    then show ?thesis using lv by (subst get_suffix_loop.simps) simp
  next
    case True
    define n where "n = length ?L - lv"
    have n: "0 < n" "n < length ?L" "length ?L + 1 - lv = Suc n" "length ?L + 1 - (lv + 1) = n"
      using lv(1) Suc.prems by (auto simp: n_def)
    let ?a = "dotted (take n ?L)"
    have take: "take (Suc n) ?L = take n ?L @ [?L ! n]" using n by (simp add: take_Suc_conv_app_nth)
    have dot: "dotted (take (Suc n) ?L) = ?a @ DOT # ?L ! n"
      unfolding take using n by (subst dotted_append) auto
    have "name = dotted (take (Suc n) ?L @ drop (Suc n) ?L)" by (simp add: dotted_split_dots)
    then obtain r where r: "name = (?a @ DOT # ?L ! n) @ r"
      unfolding dot [symmetric] using dotted_append [of "drop (Suc n) ?L" "take (Suc n) ?L"]
      by (cases "drop (Suc n) ?L = []") (auto split: if_splits)
    have "DOT \<notin> set (?L ! n)" using split_dots_labels [of "?L ! n" name] n by simp
    then have found: "memrchr (name @ junk) DOT (length (dotted (take (Suc n) ?L))) = Some (Some (length ?a))"
      using memrchr_found [of DOT "?L ! n" ?a "r @ junk"] by (subst (1) r) (simp add: dot)
    have "length name = length ?a + 1 + length (suffix_text name lv)"
      using arg_cong [OF suffix_text_split [OF lv(1)], of length] Suc.prems(1) by (simp add: n_def)
    then have off: "suffix_off name lv = length ?a + 1" by (simp add: suffix_off_def)
    define arr' where "arr' = (if level_interesting s lv then arr @ [?f lv] else arr)"
    have "length arr < MAX_NAME_LEVEL" using True assms(1) Suc.prems(3) by (simp add: level_inv_def)
    then have "get_suffix_loop s (name @ junk) (length name) (length (dotted (take (Suc n) ?L))) lv arr
      = get_suffix_loop s (name @ junk) (length name) (length ?a) (lv + 1) arr'"
      using True found by (subst get_suffix_loop.simps) (simp add: arr'_def off put_suffix_eq)
    moreover have "m = length ?L - (lv + 1)" "1 \<le> lv + 1" "lv + 1 \<le> length ?L" "length arr' < lv + 1"
      using lv Suc.prems by (auto simp: arr'_def)
    from Suc.hyps(1) [OF this] obtain lv' where lv':
      "get_suffix_loop s (name @ junk) (length name) (length ?a) (lv + 1) arr'
        = Some (lv', arr' @ map ?f (filter (level_interesting s) [lv + 1 ..< lv']))"
      "lv + 1 \<le> lv'" "lv' \<le> length ?L" "lv' = length ?L \<or> s_level_max s < lv'"
      unfolding n(4) by blast
    moreover have "arr' @ map ?f (filter (level_interesting s) [lv + 1 ..< lv'])
        = arr @ map ?f (filter (level_interesting s) [lv ..< lv'])"
      using lv'(2) by (simp add: arr'_def upt_conv_Cons)
    ultimately show ?thesis unfolding n(3) by (intro exI [of _ lv']) simp
  qed
qed

lemma get_suffix_eq:
  assumes "level_inv s"
  shows "get_suffix s (name @ junk) (length name) = Some (map (\<lambda>k. (suffix_off name k, length name - suffix_off name k))
      (filter (level_interesting s) [1 ..< length (split_dots name) + 1]))"
proof -
  let ?L = "split_dots name" and ?f = "\<lambda>k. (suffix_off name k, length name - suffix_off name k)"
  have "1 \<le> length ?L" using split_dots_nonempty [of name] by (cases ?L) auto
  from get_suffix_loop_eq [OF assms order_refl this, of "[]" junk] obtain lv where lv:
    "get_suffix_loop s (name @ junk) (length name) (length name) 1 []
      = Some (lv, map ?f (filter (level_interesting s) [1 ..< lv]))"
    "1 \<le> lv" "lv \<le> length ?L" "lv = length ?L \<or> s_level_max s < lv"
    by (auto simp: dotted_split_dots)
  have above: "\<not> level_interesting s k" if "s_level_max s < k" for k
    using that assms by (auto simp: level_inv_def level_interesting_def)
  show ?thesis
  proof (cases "level_interesting s lv")
    case True
    then have eq: "lv = length ?L" "lv \<le> s_level_max s" using lv(4) above by (auto simp: not_less [symmetric])
    have "length (filter (level_interesting s) [1 ..< lv]) \<le> lv - 1"
      using length_filter_le [of "level_interesting s" "[1 ..< lv]"] by simp
    then have "length (map ?f (filter (level_interesting s) [1 ..< lv])) < MAX_NAME_LEVEL"
      using eq(2) lv(2) assms unfolding level_inv_def length_map by linarith
    moreover have "?f lv = (0, length name)"
      using suffix_text_full [of name lv] eq(1) by (simp add: suffix_off_def)
    ultimately show ?thesis
      using lv True eq by (simp add: get_suffix_def put_suffix_eq)
  next
    case False
    have "filter (level_interesting s) [lv ..< length ?L + 1] = []"
    proof (cases "s_level_max s < lv")
      case True
      then show ?thesis using above by (auto simp: filter_empty_conv)
    next
      case nl: False
      then show ?thesis using lv(4) False by simp
    qed
    moreover have "[1 ..< length ?L + 1] = [1 ..< lv] @ [lv ..< length ?L + 1]"
      using lv(2,3) upt_add_eq_append [of 1 lv "length ?L + 1 - lv"] by simp
    ultimately show ?thesis using lv(1) False by (simp add: get_suffix_def)
  qed
qed

text \<open>
  C37: for any name, also one followed by other bytes, \<open>get_suffix\<close> stays inside its two arrays
  of \<open>MAX_NAME_LEVEL\<close> elements and gives exactly the suffixes of the name whose number of labels
  is a level of interest, from the shortest to the longest.
\<close>

theorem get_suffix_correct:
  assumes "level_inv s"
  shows "\<exists>arr. get_suffix s (name @ junk) (length name) = Some arr \<and> length arr \<le> MAX_NAME_LEVEL
    \<and> map (\<lambda>(off, len). take len (drop off (name @ junk))) arr
      = map (\<lambda>k. dotted (drop (length (split_dots name) - k) (split_dots name)))
          (filter (\<lambda>k. bit (s_level_interest s) (k - 1)) [1 ..< length (split_dots name) + 1])"
proof -
  let ?ks = "filter (level_interesting s) [1 ..< length (split_dots name) + 1]"
  have "set ?ks \<subseteq> {1 .. MAX_NAME_LEVEL}"
    using assms by (fastforce simp: level_inv_def level_interesting_def)
  moreover have "distinct ?ks" by simp
  ultimately have "length ?ks \<le> MAX_NAME_LEVEL"
    using card_mono [of "{1 .. MAX_NAME_LEVEL}" "set ?ks"] by (simp add: distinct_card del: set_filter)
  moreover have "map ((\<lambda>(off, len). take len (drop off (name @ junk))) \<circ>
      (\<lambda>k. (suffix_off name k, length name - suffix_off name k))) ?ks
    = map (\<lambda>k. dotted (drop (length (split_dots name) - k) (split_dots name))) ?ks"
  proof (rule map_cong [OF refl])
    fix k
    assume "k \<in> set ?ks"
    then have "0 < k" by auto
    then show "((\<lambda>(off, len). take len (drop off (name @ junk))) \<circ>
        (\<lambda>k. (suffix_off name k, length name - suffix_off name k))) k
      = dotted (drop (length (split_dots name) - k) (split_dots name))"
      using suffix_at(1) [of k name junk] by (simp add: suffix_text_def Let_def del: drop_append take_append)
  qed
  moreover have "level_interesting s = (\<lambda>k. bit (s_level_interest s) (k - 1))"
    by (rule ext) (simp only: level_interesting_def)
  ultimately show ?thesis
    using get_suffix_eq [OF assms, of name junk] by (auto simp only: length_map map_map option.inject ex_simps)
qed

theorem get_suffix_correct_witness:
  "\<exists>arr. get_suffix ((dnl_initial 4096)\<lparr>s_level_interest := 2, s_level_max := 2\<rparr>) ([1, DOT, 2, DOT, 3] @ [0, 9]) 5 = Some arr
    \<and> map (\<lambda>(off, len). take len (drop off ([1, DOT, 2, DOT, 3] @ [0, 9]))) arr = [[2, DOT, 3]]"
proof -
  have "bit (2 :: u8) k \<longleftrightarrow> k = 1" for k using bit_exp_iff [of 1 k, where ?'a = u8] by auto
  then have "level_inv ((dnl_initial 4096)\<lparr>s_level_interest := 2, s_level_max := 2\<rparr>)"
    by (simp add: level_inv_def MAX_NAME_LEVEL_def)
  note ex = this [THEN get_suffix_correct, of "[1, DOT, 2, DOT, 3]" "[0, 9]"]
  have eqs: "split_dots [1, DOT, 2, DOT, 3] = [[1], [2], [3]]" "length [1, DOT, 2, DOT, 3 :: u8] = 5"
    by (simp_all add: DOT_def)
  have upt: "[1 ..< length [[1], [2], [3 :: u8]] + 1] = [1, 2, 3]" by (simp add: upt_rec)
  have texts: "map (\<lambda>k. dotted (drop (length [[1], [2], [3 :: u8]] - k) [[1], [2], [3]]))
      (filter (\<lambda>k. bit (2 :: u8) (k - 1)) [1, 2, 3]) = [[2, DOT, 3]]"
    by (simp add: \<open>\<And>k. bit (2 :: u8) k \<longleftrightarrow> k = 1\<close>)
  have interest: "s_level_interest ((dnl_initial 4096)\<lparr>s_level_interest := 2, s_level_max := 2\<rparr>) = 2" by simp
  from ex show ?thesis unfolding eqs upt interest texts by (elim exE conjE, intro exI conjI)
qed

end
