(* ===== verification/Dnl_Load.thy ===== *)
theory Dnl_Load
  imports Dnl_Name Tag
begin

text \<open>
  Loading the files of a tag (\<^verbatim>\<open>load_list\<close> of \<^verbatim>\<open>src/dnl.c\<close>, \<^verbatim>\<open>dnl_load_list_gz\<close> of
  \<^verbatim>\<open>src/dnl.zig\<close>): every token of a file that \<open>check_name\<close> accepts is appended to the arena
  as a name. The file system is a record of functions: \<open>f_open\<close> is the content of a file, if it
  can be opened, and \<open>f_gunzip\<close> stands for the gzip stream of the Zig standard library, what can
  be read of it and whether reading ends in an error. Log messages are not part of the model. The
  section \<^emph>\<open>The names of a file\<close> says which names a file has, the rest proves that
  exactly these are in the arena, one after the other.
\<close>

section \<open>Definitions\<close>

record files_t =
  f_open :: "string \<Rightarrow> bytes option"
  f_gunzip :: "bytes \<Rightarrow> (bytes \<times> bool) option"

definition is_space :: "u8 \<Rightarrow> bool" where
  "is_space b \<longleftrightarrow> b = 32 \<or> (9 \<le> b \<and> b \<le> 13)"

text \<open>\<^verbatim>\<open>fscanf(fp, "%<width>s", buf)\<close>: the characters stored and the rest of the file.\<close>

definition fscanf_s :: "nat \<Rightarrow> bytes \<Rightarrow> (bytes \<times> bytes) option" where
  "fscanf_s width inp =
     (let inp = dropWhile is_space inp;
          tok = take width (takeWhile (\<lambda>b. \<not> is_space b) inp)
      in if inp = [] then None else Some (tok, drop (length tok) inp))"

text \<open>The C string at the start of a buffer that holds \<open>buf\<close> and a terminator.\<close>

definition c_str :: "bytes \<Rightarrow> bytes" where
  "c_str buf = takeWhile (\<lambda>b. b \<noteq> 0) buf"

text \<open>
  One round of either loader: the name in \<open>buf\<close> is checked and added. \<open>addr0\<close> and \<open>count\<close> are
  the local variables of the loop.
\<close>

definition load_token :: "u8 \<Rightarrow> bytes \<Rightarrow> nat \<times> nat \<times> dnl_t \<Rightarrow> nat \<times> nat \<times> dnl_t" where
  "load_token tag buf = (\<lambda>(addr0, count, s).
     (case check_name (c_str buf) s of
        (None, s) \<Rightarrow> (addr0, count, s)
      | (Some name, s) \<Rightarrow>
          let (nameaddr, s) = dnl_add_name name tag s
          in (if count = 0 then nameaddr else addr0, count + 1, s)))"

lemma fscanf_s_shorter:
  "0 < width \<Longrightarrow> fscanf_s width inp = Some (tok, rest) \<Longrightarrow> length rest < length inp"
proof -
  assume w: "0 < width" and r: "fscanf_s width inp = Some (tok, rest)"
  define u where "u = dropWhile is_space inp"
  have u: "u \<noteq> []" "tok = take width (takeWhile (\<lambda>b. \<not> is_space b) u)" "rest = drop (length tok) u"
    using r by (auto simp: fscanf_s_def u_def Let_def split: if_splits)
  then have "\<not> is_space (hd u)" using hd_dropWhile u_def by metis
  then have "takeWhile (\<lambda>b. \<not> is_space b) u \<noteq> []" using u(1) by (cases u) auto
  then have "tok \<noteq> []" using w u(2) by simp
  moreover have "length u \<le> length inp" unfolding u_def by (rule length_dropWhile_le)
  moreover have "length rest = length u - length tok" by (simp only: u(3) length_drop)
  moreover have "0 < length u" "0 < length tok" using u(1) \<open>tok \<noteq> []\<close> by blast+
  ultimately show ?thesis by linarith
qed

text \<open>The loop over a text file.\<close>

function load_text :: "u8 \<Rightarrow> bytes \<Rightarrow> nat \<times> nat \<times> dnl_t \<Rightarrow> nat \<times> nat \<times> dnl_t" where
  "load_text tag inp st =
     (case fscanf_s DNS_NAME_MAXLEN inp of
        None \<Rightarrow> st
      | Some (buf, inp) \<Rightarrow> load_text tag inp (load_token tag buf st))"
  by pat_completeness auto
termination
  by (relation "measure (\<lambda>(tag, inp, st). length inp)") (auto intro: fscanf_s_shorter [of DNS_NAME_MAXLEN] simp: DNS_NAME_MAXLEN_def)

declare load_text.simps [simp del]

text \<open>
  \<open>readToken\<close> on a stream with the bytes \<open>inp\<close> left: \<open>None\<close> where it returns null or an
  error (the caller stops in both cases), otherwise the token, empty where it did not fit into the
  buffer of \<open>len\<close> bytes.
\<close>

definition readToken :: "nat \<Rightarrow> bytes \<Rightarrow> bool \<Rightarrow> (bytes \<times> bytes) option" where
  "readToken len inp err =
     (let inp = dropWhile is_space inp;
          tok = takeWhile (\<lambda>b. \<not> is_space b) inp;
          rest = drop (length tok) inp
      in if inp = [] \<or> (rest = [] \<and> err) then None
         else Some (if length tok + 1 \<le> len then tok else [], drop 1 rest))"

lemma readToken_shorter: "readToken len inp err = Some (tok, rest) \<Longrightarrow> length rest < length inp"
proof -
  assume r: "readToken len inp err = Some (tok, rest)"
  define u where "u = dropWhile is_space inp"
  define t where "t = takeWhile (\<lambda>b. \<not> is_space b) u"
  have u: "u \<noteq> []" "rest = drop 1 (drop (length t) u)"
    using r by (auto simp: readToken_def u_def t_def Let_def split: if_splits)
  moreover have "length u \<le> length inp" unfolding u_def by (rule length_dropWhile_le)
  ultimately show ?thesis by (cases u) auto
qed

function load_gz :: "u8 \<Rightarrow> bytes \<Rightarrow> bool \<Rightarrow> nat \<times> nat \<times> dnl_t \<Rightarrow> nat \<times> nat \<times> dnl_t" where
  "load_gz tag inp err st =
     (case readToken (DNS_NAME_MAXLEN + 1) inp err of
        None \<Rightarrow> st
      | Some (tok, inp) \<Rightarrow> load_gz tag inp err (if tok = [] then st else load_token tag tok st))"
  by pat_completeness auto
termination
  by (relation "measure (\<lambda>(tag, inp, err, st). length inp)") (auto intro: readToken_shorter)

declare load_gz.simps [simp del]

text \<open>\<open>None\<close> is \<^verbatim>\<open>false\<close>; otherwise the address and the count stored through the pointers.\<close>

definition dnl_load_list_gz :: "files_t \<Rightarrow> u8 \<Rightarrow> string \<Rightarrow> dnl_t \<Rightarrow> (nat \<times> nat \<times> dnl_t) option" where
  "dnl_load_list_gz fs tag fname s = do {
     content \<leftarrow> f_open fs fname;
     (data, err) \<leftarrow> f_gunzip fs content;
     Some (load_gz tag data err (0, 0, s)) }"

definition has_gz_suffix :: "string \<Rightarrow> bool" where
  "has_gz_suffix fname = (let n = length fname in n \<ge> 3 \<and> drop (n - 3) fname = ''.gz'')"

text \<open>
  The loop of \<open>load_list\<close>; \<open>inp\<close> is what can be read from \<^verbatim>\<open>stdin\<close>, which is reopened on
  \<^verbatim>\<open>/dev/null\<close> after use.
\<close>

fun load_files :: "files_t \<Rightarrow> u8 \<Rightarrow> string list \<Rightarrow> bytes \<Rightarrow> nat \<times> nat \<times> dnl_t
    \<Rightarrow> bytes \<times> nat \<times> nat \<times> dnl_t" where
  "load_files fs tag [] inp st = (inp, st)"
| "load_files fs tag (fname # filenames) inp (addr0, count, s) =
     (if fname = ''-'' then load_files fs tag filenames [] (load_text tag inp (addr0, count, s))
      else if has_gz_suffix fname then
        (case dnl_load_list_gz fs tag fname s of
           None \<Rightarrow> load_files fs tag filenames inp (addr0, count, s)
         | Some (gz_addr0, gz_count, s) \<Rightarrow>
             load_files fs tag filenames inp
               (if gz_count > 0 then (if count = 0 then gz_addr0 else addr0, count + gz_count, s)
                else (addr0, count, s)))
      else
        (case f_open fs fname of
           None \<Rightarrow> load_files fs tag filenames inp (addr0, count, s)
         | Some content \<Rightarrow> load_files fs tag filenames inp (load_text tag content (addr0, count, s))))"

text \<open>
  The values stored through \<open>p_addr0\<close>, \<open>p_count\<close> and \<open>p_cost\<close>, if it returns \<^verbatim>\<open>true\<close>. They are
  \<^verbatim>\<open>u32\<close> in the code; the size bound of the property on \<open>load_list\<close> keeps them in range.
\<close>

definition load_list :: "files_t \<Rightarrow> u8 \<Rightarrow> string list \<Rightarrow> bytes \<Rightarrow> dnl_t
    \<Rightarrow> (nat \<times> nat \<times> nat) option \<times> bytes \<times> dnl_t" where
  "load_list fs tag filenames inp s =
     (let (inp, addr0, count, s) = load_files fs tag filenames inp (0, 0, s)
      in (if count > 0 then Some (addr0, count, s_end s - addr0) else None, inp, s))"

section \<open>The names of a file\<close>

text \<open>The words of a text, and a word cut into pieces of \<open>n\<close> bytes.\<close>

function words :: "bytes \<Rightarrow> bytes list" where
  "words inp = (let u = dropWhile is_space inp in
     if u = [] then [] else takeWhile (\<lambda>b. \<not> is_space b) u # words (dropWhile (\<lambda>b. \<not> is_space b) u))"
  by pat_completeness auto
termination
proof (relation "measure length")
  fix inp u
  assume u: "u = dropWhile is_space inp" "u \<noteq> []"
  have "\<not> is_space (hd u)" using u hd_dropWhile by metis
  then have "length (dropWhile (\<lambda>b. \<not> is_space b) u) < length u"
    using u(2) length_dropWhile_le [of "\<lambda>b. \<not> is_space b" "tl u"] by (cases u) auto
  also have "\<dots> \<le> length inp" unfolding u(1) by (rule length_dropWhile_le)
  finally show "(dropWhile (\<lambda>b. \<not> is_space b) u, inp) \<in> measure length" by simp
qed simp

declare words.simps [simp del]

function pieces :: "nat \<Rightarrow> bytes \<Rightarrow> bytes list" where
  "pieces n w = (if w = [] then [] else if n = 0 then [w] else take n w # pieces n (drop n w))"
  by pat_completeness auto
termination by (relation "measure (\<lambda>(n, w). length w)") auto

declare pieces.simps [simp del]

text \<open>The tokens of a text file, and of a gzip file: there a word that is too long is dropped, and
  so is a word cut off by an error of the stream.\<close>

definition text_tokens :: "bytes \<Rightarrow> bytes list" where
  "text_tokens inp = concat (map (pieces DNS_NAME_MAXLEN) (words inp))"

definition gz_tokens :: "bytes \<Rightarrow> bool \<Rightarrow> bytes list" where
  "gz_tokens inp err = filter (\<lambda>w. length w \<le> DNS_NAME_MAXLEN)
     (words (if err then rev (dropWhile (\<lambda>b. \<not> is_space b) (rev inp)) else inp))"

text \<open>The name kept of a token.\<close>

definition name_of :: "bytes \<Rightarrow> bytes option" where
  "name_of tok = (let n = c_str tok
     in if n = [] \<or> n ! 0 = DOT \<or> n ! 0 = HASH_SIGN \<or> \<not> list_all label_ok (last_labels n) then None
        else Some (dotted (last_labels n)))"

definition file_tokens :: "files_t \<Rightarrow> string \<Rightarrow> bytes \<Rightarrow> bytes list" where
  "file_tokens fs fname inp =
     (if fname = ''-'' then text_tokens inp
      else if has_gz_suffix fname then
        (case Option.bind (f_open fs fname) (f_gunzip fs) of None \<Rightarrow> [] | Some (data, err) \<Rightarrow> gz_tokens data err)
      else (case f_open fs fname of None \<Rightarrow> [] | Some content \<Rightarrow> text_tokens content))"

fun list_names :: "files_t \<Rightarrow> string list \<Rightarrow> bytes \<Rightarrow> bytes list" where
  "list_names fs [] inp = []"
| "list_names fs (fname # filenames) inp =
     List.map_filter name_of (file_tokens fs fname inp)
       @ list_names fs filenames (if fname = ''-'' then [] else inp)"

section \<open>The loaders read the tokens\<close>

lemma words_split:
  assumes "w \<noteq> []" "\<forall>b \<in> set w. \<not> is_space b" "r = [] \<or> is_space (hd r)"
  shows "words (w @ r) = w # words r"
proof -
  have 1: "dropWhile is_space (w @ r) = w @ r" using assms(1,2) by (cases w) auto
  have 2: "takeWhile (\<lambda>b. \<not> is_space b) (w @ r) = w" "dropWhile (\<lambda>b. \<not> is_space b) (w @ r) = r"
    using assms(2,3) by (cases r; simp add: takeWhile_append2 dropWhile_append2)+
  show ?thesis by (subst words.simps) (simp add: 1 2 assms(1))
qed

lemma words_space: "words (dropWhile is_space inp) = words inp"
proof -
  have "dropWhile is_space (dropWhile is_space inp) = dropWhile is_space inp"
    by (metis (full_types) dropWhile_eq_self_iff hd_dropWhile)
  then show ?thesis by (subst (1 2) words.simps) simp
qed

text \<open>Splitting a non-empty rest of a file into its first word and what follows.\<close>

lemma word_cases:
  assumes "dropWhile is_space inp \<noteq> []"
  obtains w r where "dropWhile is_space inp = w @ r" "w \<noteq> []" "\<forall>b \<in> set w. \<not> is_space b"
    "r = [] \<or> is_space (hd r)" "takeWhile (\<lambda>b. \<not> is_space b) (dropWhile is_space inp) = w" "words inp = w # words r"
proof
  let ?u = "dropWhile is_space inp"
  let ?w = "takeWhile (\<lambda>b. \<not> is_space b) ?u" and ?r = "dropWhile (\<lambda>b. \<not> is_space b) ?u"
  show u: "?u = ?w @ ?r" by simp
  have "\<not> is_space (hd ?u)" using hd_dropWhile assms by blast
  then show w: "?w \<noteq> []" using assms by (cases ?u) auto
  show ns: "\<forall>b \<in> set ?w. \<not> is_space b" by (auto dest: set_takeWhileD)
  show r: "?r = [] \<or> is_space (hd ?r)" by (metis hd_dropWhile)
  show "?w = ?w" by (rule refl)
  show "words inp = ?w # words ?r" using words_split [OF w ns r] u words_space [of inp] by simp
qed

lemma text_tokens_empty: "dropWhile is_space inp = [] \<Longrightarrow> text_tokens inp = []"
  by (simp add: text_tokens_def words.simps)

lemma text_tokens_step:
  assumes "fscanf_s DNS_NAME_MAXLEN inp = Some (tok, rest)"
  shows "text_tokens inp = tok # text_tokens rest"
proof -
  let ?n = DNS_NAME_MAXLEN
  have ne: "dropWhile is_space inp \<noteq> []" using assms by (auto simp: fscanf_s_def Let_def split: if_splits)
  obtain w r where w: "dropWhile is_space inp = w @ r" "w \<noteq> []" "\<forall>b \<in> set w. \<not> is_space b"
    "r = [] \<or> is_space (hd r)" "takeWhile (\<lambda>b. \<not> is_space b) (dropWhile is_space inp) = w" "words inp = w # words r"
    using word_cases [OF ne] by blast
  have tok: "tok = take ?n w" and "rest = drop (length tok) (w @ r)"
    using assms ne w(1,5) by (auto simp: fscanf_s_def Let_def)
  then have rest: "rest = drop ?n w @ r" by (cases "length w \<le> ?n") auto
  have n: "?n \<noteq> 0" by (simp add: DNS_NAME_MAXLEN_def)
  have p: "pieces ?n w = take ?n w # pieces ?n (drop ?n w)" using w(2) n by (subst pieces.simps) simp
  have "concat (map (pieces ?n) (words rest)) = pieces ?n (drop ?n w) @ concat (map (pieces ?n) (words r))"
  proof (cases "drop ?n w = []")
    case True
    then show ?thesis using rest by (simp add: pieces.simps)
  next
    case False
    have "\<forall>b \<in> set (drop ?n w). \<not> is_space b" using w(3) by (auto dest: in_set_dropD)
    from words_split [OF False this w(4)] show ?thesis using rest by simp
  qed
  then show ?thesis unfolding text_tokens_def w(6) tok by (simp add: p)
qed

lemma load_text_tokens: "load_text tag inp st = fold (load_token tag) (text_tokens inp) st"
proof (induction tag inp st rule: load_text.induct)
  case (1 tag inp st)
  show ?case
  proof (cases "fscanf_s DNS_NAME_MAXLEN inp")
    case None
    then show ?thesis
      by (subst load_text.simps) (simp add: text_tokens_empty fscanf_s_def Let_def split: if_splits)
  next
    case (Some p)
    obtain tok rest where p: "p = (tok, rest)" by (cases p)
    show ?thesis
      using Some p "1.IH" [OF Some p [symmetric]] text_tokens_step [of inp tok rest] by (subst load_text.simps) simp
  qed
qed

lemma words_Cons_space: "is_space c \<Longrightarrow> words (c # x) = words x"
  using words_space [of "c # x"] words_space [of x] by simp

lemma words_spaces: "\<forall>b \<in> set sp. is_space b \<Longrightarrow> words (sp @ x) = words x"
  by (induction sp) (simp_all add: words_Cons_space)

text \<open>What is left of a stream that ends in an error once the last, incomplete word is dropped.\<close>

definition complete :: "bytes \<Rightarrow> bool \<Rightarrow> bytes" where
  "complete inp err = (if err then rev (dropWhile (\<lambda>b. \<not> is_space b) (rev inp)) else inp)"

lemma complete_append: "is_space c \<Longrightarrow> complete (x @ c # y) err = x @ c # complete y err"
  by (simp add: complete_def dropWhile_append)

lemma complete_spaces: "\<forall>b \<in> set sp. is_space b \<Longrightarrow> complete sp err = sp"
  by (cases sp rule: rev_cases) (auto simp: complete_def)

lemma complete_word: "\<forall>b \<in> set sp. is_space b \<Longrightarrow> \<forall>b \<in> set w. \<not> is_space b \<Longrightarrow> complete (sp @ w) True = sp"
  using complete_spaces [of sp True] dropWhile_append2 [of "rev w" "\<lambda>b. \<not> is_space b" "rev sp"]
  by (simp add: complete_def)

lemma split_spaces: "\<exists>sp. inp = sp @ dropWhile is_space inp \<and> (\<forall>b \<in> set sp. is_space b)"
  by (rule exI [of _ "takeWhile is_space inp"]) (auto dest: set_takeWhileD)

lemma readToken_None:
  assumes "readToken n inp err = None"
  shows "words (complete inp err) = []"
proof -
  obtain sp where sp: "inp = sp @ dropWhile is_space inp" "\<forall>b \<in> set sp. is_space b"
    using split_spaces by blast
  have sp0: "words sp = []" using words_spaces [OF sp(2), of "[]"] by (simp add: words.simps)
  show ?thesis
  proof (cases "dropWhile is_space inp = []")
    case True
    then have "inp = sp" using sp(1) by (metis append_Nil2)
    then show ?thesis using complete_spaces [OF sp(2)] sp0 by simp
  next
    case False
    obtain w r where w: "dropWhile is_space inp = w @ r" "\<forall>b \<in> set w. \<not> is_space b"
      "takeWhile (\<lambda>b. \<not> is_space b) (dropWhile is_space inp) = w"
      using word_cases [OF False] by blast
    then have r: "r = []" "err" using assms False by (auto simp: readToken_def Let_def split: if_splits)
    then have "inp = sp @ w" using sp(1) w(1) by (metis append_Nil2)
    then show ?thesis using complete_word [OF sp(2) w(2)] sp0 r by simp
  qed
qed

lemma readToken_Some:
  assumes "readToken n inp err = Some (tok, rest)"
  shows "\<exists>w. w \<noteq> [] \<and> tok = (if length w + 1 \<le> n then w else []) \<and> words (complete inp err) = w # words (complete rest err)"
proof -
  obtain sp where sp: "inp = sp @ dropWhile is_space inp" "\<forall>b \<in> set sp. is_space b"
    using split_spaces by blast
  have ne: "dropWhile is_space inp \<noteq> []" using assms by (auto simp: readToken_def Let_def split: if_splits)
  obtain w r where w: "dropWhile is_space inp = w @ r" "w \<noteq> []" "\<forall>b \<in> set w. \<not> is_space b"
    "r = [] \<or> is_space (hd r)" "takeWhile (\<lambda>b. \<not> is_space b) (dropWhile is_space inp) = w" "words inp = w # words r"
    by (rule word_cases [OF ne])
  have r: "tok = (if length w + 1 \<le> n then w else [])" "rest = drop 1 r" "r = [] \<longrightarrow> \<not> err"
  proof -
    have d: "drop (length w) (w @ r) = r" by simp
    have "(if w @ r = [] \<or> (r = [] \<and> err) then None else Some (if length w + 1 \<le> n then w else [], drop 1 r))
        = Some (tok, rest)"
      using assms unfolding readToken_def Let_def w(5) unfolding w(1) d .
    then show "tok = (if length w + 1 \<le> n then w else [])" "rest = drop 1 r" "r = [] \<longrightarrow> \<not> err"
      by (simp_all split: if_splits)
  qed
  have inp: "inp = sp @ w @ r" using sp(1) w(1) by metis
  have "words (complete inp err) = w # words (complete rest err)"
  proof (cases r)
    case Nil
    then show ?thesis
      using inp r words_spaces [OF sp(2), of w] words_split [OF w(2,3), of "[]"]
      by (simp add: complete_def)
  next
    case (Cons c r')
    then have c: "is_space c" "rest = r'" using w(4) r(2) by auto
    have "complete inp err = sp @ w @ c # complete rest err"
      using complete_append [OF c(1), of "sp @ w" r' err] inp Cons c(2) by simp
    then show ?thesis
      using words_spaces [OF sp(2)] words_split [OF w(2,3), of "c # complete rest err"] c(1)
      by (simp add: words_Cons_space)
  qed
  then show ?thesis using r(1) w(2) by blast
qed

lemma load_gz_tokens: "load_gz tag inp err st = fold (load_token tag) (gz_tokens inp err) st"
proof (induction tag inp err st rule: load_gz.induct)
  case (1 tag inp err st)
  let ?n = "DNS_NAME_MAXLEN + 1"
  have tokens: "gz_tokens x err = filter (\<lambda>w. length w + 1 \<le> ?n) (words (complete x err))" for x
    by (simp add: gz_tokens_def complete_def)
  show ?case
  proof (cases "readToken ?n inp err")
    case None
    then show ?thesis
      using readToken_None [OF None] by (subst load_gz.simps) (simp add: tokens)
  next
    case (Some p)
    obtain tok rest where p: "p = (tok, rest)" by (cases p)
    obtain w where w: "w \<noteq> []" "tok = (if length w + 1 \<le> ?n then w else [])"
      "words (complete inp err) = w # words (complete rest err)"
      using readToken_Some Some p by blast
    have "load_gz tag inp err st = fold (load_token tag) (gz_tokens rest err) (if tok = [] then st else load_token tag tok st)"
      using Some p "1.IH" [OF Some p [symmetric]] by (subst load_gz.simps) simp
    also have "\<dots> = fold (load_token tag) (gz_tokens inp err) st"
      unfolding tokens w(3) using w(1,2) by simp
    finally show ?thesis .
  qed
qed

section \<open>Names in the arena\<close>

text \<open>The names \<open>ns\<close>, with their tags, laid out from address \<open>a\<close> on.\<close>

type_synonym names = "(bytes \<times> u8) list"

fun addrs :: "nat \<Rightarrow> names \<Rightarrow> nat list" where
  "addrs a [] = []"
| "addrs a ((n, t) # ns) = a # addrs (a + (NAME_SIZE + length n)) ns"

definition arena_size :: "names \<Rightarrow> nat" where
  "arena_size ns = (\<Sum>(n, t) \<leftarrow> ns. NAME_SIZE + length n)"

definition data_of :: "names \<Rightarrow> name_data" where
  "data_of ns = map_of (zip (addrs 0 ns) ns)"

definition fresh_name :: "bytes \<times> u8 \<Rightarrow> name_t" where
  "fresh_name = (\<lambda>(n, t). \<lparr>n_next = NAMEADDR_END, n_tag = t, n_hashv = calc_hashv n,
     n_namelen = word_of_nat (length n), n_name = n\<rparr>)"

lemma arena_size_simps [simp]:
  "arena_size [] = 0" "arena_size (x # ns) = NAME_SIZE + length (fst x) + arena_size ns"
  "arena_size (ms @ ns) = arena_size ms + arena_size ns"
  by (simp_all add: arena_size_def split_beta)

lemma length_addrs [simp]: "length (addrs a ns) = length ns"
  by (induction a ns rule: addrs.induct) auto

lemma addrs_append: "addrs a (ms @ ns) = addrs a ms @ addrs (a + arena_size ms) ns"
  by (induction a ms rule: addrs.induct) (auto simp: add.assoc)

lemma addrs_bounds: "x \<in> set (addrs a ns) \<Longrightarrow> a \<le> x \<and> x < a + arena_size ns"
  by (induction a ns rule: addrs.induct) (auto simp: NAME_SIZE_def)

lemma distinct_addrs: "distinct (addrs a ns)"
  by (induction a ns rule: addrs.induct) (auto simp: NAME_SIZE_def dest: addrs_bounds)

lemma data_of_Nil [simp]: "data_of [] = Map.empty"
  by (simp add: data_of_def)

lemma data_of_snoc: "data_of (ns @ [x]) = (data_of ns)(arena_size ns \<mapsto> x)"
proof -
  have "arena_size ns \<notin> set (addrs 0 ns)" using addrs_bounds [of "arena_size ns" 0 ns] by auto
  moreover have "addrs 0 (ns @ [x]) = addrs 0 ns @ [arena_size ns]" by (cases x) (simp add: addrs_append)
  ultimately have "data_of (ns @ [x]) = [arena_size ns \<mapsto> x] ++ data_of ns" "data_of ns (arena_size ns) = None"
    by (simp_all add: data_of_def map_of_append map_of_zip_is_None)
  then show ?thesis by (auto simp: map_add_def fun_eq_iff split: option.splits)
qed

text \<open>The state after loading the names \<open>ns\<close> and before any of them is in a map.\<close>

definition load_inv :: "dnl_t \<Rightarrow> names \<Rightarrow> bool" where
  "load_inv s ns \<longleftrightarrow> s_names s = (\<lambda>a. map_option fresh_name (data_of ns a)) \<and> s_end s = arena_size ns
     \<and> s_bkts s = (\<lambda>_. zero_bucket) \<and> s_map1 s = zero_map \<and> s_map2 s = zero_map \<and> level_inv s
     \<and> (\<forall>(n, t) \<in> set ns. length n < 256 \<and> t < 8 \<and> bit (s_level_interest s) (length (split_dots n) - 1))"

lemma load_inv_initial: "load_inv (dnl_initial pagesz) []"
  using level_inv_initial by (simp add: load_inv_def) (simp add: dnl_initial_def)

lemma split_dots_last_labels: "split_dots (dotted (last_labels n)) = last_labels n"
proof (rule split_dots_dotted)
  show "last_labels n \<noteq> []" by (rule last_labels_suffix)
  show "DOT \<notin> set l" if "l \<in> set (last_labels n)" for l
    using that split_dots_labels [of l n] by (auto simp: last_labels_def Let_def dest: in_set_dropD)
qed

lemma name_of_check_name:
  "check_name (c_str tok) s = (case name_of tok of None \<Rightarrow> (None, s) | Some n \<Rightarrow> (Some n, s\<lparr>
     s_level_interest := or (s_level_interest s) (push_bit (length (split_dots n) - 1) 1),
     s_level_max := max (s_level_max s) (length (split_dots n))\<rparr>))"
  unfolding name_of_def Let_def check_name_eq
  by (simp add: split_dots_last_labels)

lemma alloc_name_eq: "\<exists>c. alloc_name k s = (s_end s, s\<lparr>s_end := s_end s + (NAME_SIZE + k), s_cap := c\<rparr>)"
proof (cases "s_cap s < s_end s + (NAME_SIZE + k)")
  case True
  then show ?thesis by (auto simp: alloc_name_def alloc_def align_to_def Let_def)
next
  case False
  then show ?thesis
    by (intro exI [of _ "s_cap s"]; cases s) (simp add: alloc_name_def alloc_def align_to_def Let_def)
qed

lemma load_inv_add:
  assumes "load_inv s ns" "name_of tok = Some n" "length tok < 256" "unat tag < 8"
  shows "\<exists>s'. (\<forall>addr0 count. load_token tag tok (addr0, count, s) = (if count = 0 then s_end s else addr0, count + 1, s'))
    \<and> load_inv s' (ns @ [(n, tag)])"
proof -
  note i = assms(1) [unfolded load_inv_def]
  have "length (c_str tok) \<le> length tok" by (simp add: c_str_def length_takeWhile_le)
  moreover have "length n \<le> length (c_str tok)"
    using assms(2) arg_cong [OF last_labels_suffix(2) [of "c_str tok"], of length]
    by (auto simp: name_of_def Let_def split: if_splits)
  ultimately have len: "length n < 256" using assms(3) by linarith
  let ?k = "length (split_dots n)"
  define s1 where "s1 = s\<lparr>s_level_interest := or (s_level_interest s) (push_bit (?k - 1) 1),
     s_level_max := max (s_level_max s) ?k\<rparr>"
  have check: "check_name (c_str tok) s = (Some n, s1)"
    unfolding name_of_check_name by (simp add: assms(2) s1_def)
  have "level_inv s1" using level_inv_check_name [of s "c_str tok"] i check by simp
  have tag: "tag_field tag = tag"
    using assms(4) by (simp add: tag_field_def NAMEADDR_BIT_def word_unat_eq_iff unsigned_take_bit_eq take_bit_nat_eq_self)
  obtain c where alloc: "alloc_name (length n) s1 = (s_end s, s1\<lparr>s_end := s_end s + (NAME_SIZE + length n), s_cap := c\<rparr>)"
    using alloc_name_eq [of "length n" s1] by (auto simp: s1_def)
  define s2 where "s2 = s1\<lparr>s_end := s_end s + (NAME_SIZE + length n), s_cap := c\<rparr>"
  note c = s2_def
  define s3 where "s3 = s2\<lparr>s_names := (s_names s2)(s_end s \<mapsto> fresh_name (n, tag))\<rparr>"
  have "unat (word_of_nat (length n) :: u8) = length n" using len by (simp add: unat_of_nat)
  then have add: "dnl_add_name n tag s1 = (s_end s, s3)"
    by (simp add: dnl_add_name_def add_name_def Let_def alloc tag s3_def s2_def fresh_name_def)
  have k: "1 \<le> ?k" "?k \<le> 8"
    using assms(2) length_last_labels [of "c_str tok"]
    by (auto simp: name_of_def Let_def split_dots_last_labels MAX_NAME_LEVEL_def split: if_splits)
  have "load_inv s3 (ns @ [(n, tag)])"
  proof -
    have "s_names s3 = (\<lambda>a. map_option fresh_name (data_of (ns @ [(n, tag)]) a))"
      using i by (auto simp: s3_def c s1_def data_of_snoc)
    moreover have "level_inv s3" using \<open>level_inv s1\<close> by (simp add: level_inv_def s3_def c)
    moreover have "tag < 8" using assms(4) by (simp add: word_less_nat_alt)
    moreover have "bit (s_level_interest s3) (?k - 1)"
    proof -
      have "?k - 1 < 8" using k by linarith
      then show ?thesis by (simp add: s3_def c s1_def bit_simps)
    qed
    moreover have "bit (s_level_interest s3) j" if "bit (s_level_interest s) j" for j
      using that by (simp add: s3_def c s1_def bit_simps)
    ultimately show ?thesis
      using i len by (auto simp: load_inv_def) (auto simp: s3_def c s1_def)
  qed
  then show ?thesis using check add by (auto simp: load_token_def)
qed

lemma load_tokens:
  assumes "load_inv s ns" "\<forall>t \<in> set toks. length t < 256" "unat tag < 8"
  shows "\<exists>s'. (\<forall>addr0 count. fold (load_token tag) toks (addr0, count, s)
      = (if count = 0 \<and> List.map_filter name_of toks \<noteq> [] then s_end s else addr0,
         count + length (List.map_filter name_of toks), s'))
    \<and> load_inv s' (ns @ map (\<lambda>n. (n, tag)) (List.map_filter name_of toks))"
  using assms(1,2)
proof (induction toks arbitrary: s ns)
  case Nil
  then show ?case by (auto simp: List.map_filter_simps)
next
  case (Cons tok toks)
  show ?case
  proof (cases "name_of tok")
    case None
    then have "load_token tag tok (addr0, count, s) = (addr0, count, s)" for addr0 count
      by (simp add: load_token_def name_of_check_name)
    then show ?thesis using Cons None by (simp add: List.map_filter_simps)
  next
    case (Some n)
    obtain s1 where s1: "\<And>addr0 count. load_token tag tok (addr0, count, s) = (if count = 0 then s_end s else addr0, count + 1, s1)"
      "load_inv s1 (ns @ [(n, tag)])"
      using load_inv_add [OF Cons.prems(1) Some _ assms(3)] Cons.prems(2) by auto
    from Cons.IH [OF s1(2)] Cons.prems(2) obtain s2 where
      "\<And>addr0 count. fold (load_token tag) toks (addr0, count, s1)
        = (if count = 0 \<and> List.map_filter name_of toks \<noteq> [] then s_end s1 else addr0,
           count + length (List.map_filter name_of toks), s2)"
      "load_inv s2 ((ns @ [(n, tag)]) @ map (\<lambda>n. (n, tag)) (List.map_filter name_of toks))"
      by auto
    then show ?thesis by (intro exI [of _ s2]) (simp add: s1(1) Some List.map_filter_simps)
  qed
qed

lemma pieces_le: "0 < n \<Longrightarrow> t \<in> set (pieces n w) \<Longrightarrow> length t \<le> n"
proof (induction n w rule: pieces.induct)
  case (1 n w)
  then show ?case by (subst (asm) (2) pieces.simps) (auto split: if_splits)
qed

lemma file_tokens_le: "t \<in> set (file_tokens fs fname inp) \<Longrightarrow> length t < 256"
proof -
  assume "t \<in> set (file_tokens fs fname inp)"
  then have "(\<exists>x. t \<in> set (text_tokens x)) \<or> (\<exists>x e. t \<in> set (gz_tokens x e))"
    by (auto simp: file_tokens_def split: if_splits option.splits)
  then have "length t \<le> DNS_NAME_MAXLEN"
    using pieces_le [of DNS_NAME_MAXLEN t]
    by (auto simp: text_tokens_def gz_tokens_def DNS_NAME_MAXLEN_def)
  then show ?thesis by (simp add: DNS_NAME_MAXLEN_def)
qed

lemma load_files_names:
  assumes "load_inv s ns" "unat tag < 8"
  shows "\<exists>inp' s'. load_files fs tag filenames inp (addr0, count, s)
      = (inp', if count = 0 \<and> list_names fs filenames inp \<noteq> [] then s_end s else addr0,
         count + length (list_names fs filenames inp), s')
    \<and> load_inv s' (ns @ map (\<lambda>n. (n, tag)) (list_names fs filenames inp))
    \<and> inp' = (if ''-'' \<in> set filenames then [] else inp)"
  using assms(1)
proof (induction filenames arbitrary: inp addr0 count s ns)
  case Nil
  then show ?case by auto
next
  case (Cons fname filenames)
  let ?toks = "file_tokens fs fname inp" and ?inp = "if fname = ''-'' then [] else inp"
  let ?new = "List.map_filter name_of ?toks"
  have "\<forall>t \<in> set ?toks. length t < 256" using file_tokens_le by blast
  from load_tokens [OF Cons.prems this assms(2)] obtain s1 where s1:
    "\<And>addr0 count. fold (load_token tag) ?toks (addr0, count, s)
      = (if count = 0 \<and> ?new \<noteq> [] then s_end s else addr0, count + length ?new, s1)"
    "load_inv s1 (ns @ map (\<lambda>n. (n, tag)) ?new)" by blast
  have step: "load_files fs tag (fname # filenames) inp (addr0, count, s)
    = load_files fs tag filenames ?inp
        (if count = 0 \<and> ?new \<noteq> [] then s_end s else addr0, count + length ?new, s1)"
  proof (cases "fname = ''-''")
    case True
    then show ?thesis using s1(1) [of addr0 count] by (simp add: load_text_tokens file_tokens_def)
  next
    case False
    have none: "s1 = s" "?new = []" if "?toks = []"
      using that s1(1) [of 0 0] by (auto simp: List.map_filter_simps)
    show ?thesis
    proof (cases "has_gz_suffix fname")
      case True
      show ?thesis
      proof (cases "dnl_load_list_gz fs tag fname s")
        case None
        then have "?toks = []"
          using True False by (auto simp: file_tokens_def dnl_load_list_gz_def split: option.splits bind_splits)
        then show ?thesis using None True False none by simp
      next
        case (Some r)
        then obtain content data err where gz: "f_open fs fname = Some content" "f_gunzip fs content = Some (data, err)"
          "r = load_gz tag data err (0, 0, s)"
          by (auto simp: dnl_load_list_gz_def split: bind_splits)
        then have toks: "?toks = gz_tokens data err" using True False by (simp add: file_tokens_def)
        then have "r = (if ?new \<noteq> [] then s_end s else 0, length ?new, s1)"
          using gz(3) s1(1) [of 0 0] by (simp add: load_gz_tokens)
        then show ?thesis using Some True False by simp
      qed
    next
      case nogz: False
      show ?thesis
      proof (cases "f_open fs fname")
        case None
        then have "?toks = []" using nogz False by (simp add: file_tokens_def)
        then show ?thesis using None nogz False none by simp
      next
        case (Some content)
        then have toks: "?toks = text_tokens content" using nogz False by (simp add: file_tokens_def)
        then show ?thesis using Some nogz False s1(1) [of addr0 count] by (simp add: load_text_tokens)
      qed
    qed
  qed
  obtain inp' s' where s': "load_files fs tag filenames ?inp (if count = 0 \<and> ?new \<noteq> [] then s_end s else addr0, count + length ?new, s1)
      = (inp', if count + length ?new = 0 \<and> list_names fs filenames ?inp \<noteq> [] then s_end s1
           else if count = 0 \<and> ?new \<noteq> [] then s_end s else addr0,
         count + length ?new + length (list_names fs filenames ?inp), s')"
    "load_inv s' ((ns @ map (\<lambda>n. (n, tag)) ?new) @ map (\<lambda>n. (n, tag)) (list_names fs filenames ?inp))"
    "inp' = (if ''-'' \<in> set filenames then [] else ?inp)"
    using Cons.IH [OF s1(2), of ?inp "if count = 0 \<and> ?new \<noteq> [] then s_end s else addr0" "count + length ?new"] by blast
  have "s_end s1 = s_end s" if "?new = []"
    using that s1(2) Cons.prems by (simp add: load_inv_def)
  then show ?case
    using s' unfolding step by (intro exI [of _ inp'] exI [of _ s']) auto
qed

lemma arena_size_tagged: "arena_size (map (\<lambda>n. (n, tag)) ms) = (\<Sum>n \<leftarrow> ms. 9 + length n)"
  by (induction ms) (simp_all add: NAME_SIZE_def)

lemma data_of_lt: "data_of ns a = Some x \<Longrightarrow> a < arena_size ns"
  using addrs_bounds [of a 0 ns] by (auto simp: data_of_def dest: map_of_SomeD set_zip_leftD)

text \<open>What the loader gives, in the numbers of the model.\<close>

lemma load_list_eq:
  assumes "load_inv s ns" "unat tag < 8"
  shows "\<exists>s'. load_list fs tag filenames inp s
      = (if list_names fs filenames inp = [] then None
         else Some (s_end s, length (list_names fs filenames inp),
           \<Sum>n \<leftarrow> list_names fs filenames inp. 9 + length n),
         if ''-'' \<in> set filenames then [] else inp, s')
    \<and> load_inv s' (ns @ map (\<lambda>n. (n, tag)) (list_names fs filenames inp))"
proof -
  obtain inp' s' where s': "load_files fs tag filenames inp (0, 0, s)
      = (inp', if list_names fs filenames inp \<noteq> [] then s_end s else 0, length (list_names fs filenames inp), s')"
    "load_inv s' (ns @ map (\<lambda>n. (n, tag)) (list_names fs filenames inp))"
    "inp' = (if ''-'' \<in> set filenames then [] else inp)"
    using load_files_names [OF assms, of fs filenames inp 0 0] by auto
  have "s_end s' - s_end s = (\<Sum>n \<leftarrow> list_names fs filenames inp. 9 + length n)"
    using s'(2) assms(1) by (simp add: load_inv_def arena_size_tagged)
  then show ?thesis using s' by (auto simp: load_list_def)
qed

text \<open>
  C26: Loading the files of a tag after the names \<open>ns\<close> appends exactly the names of its files to
  the arena, in order and without a gap: each token that is a valid name, cut to its last eight
  labels, where a plain file is read in words of at most 253 bytes, a gzip file loses its longer
  words, a file that cannot be read counts as empty and the standard input is read once. The
  call returns true exactly if there is a name; then it stores the address of the first, their
  number and the bytes they take. This holds where the arena stays below \<open>2 ^ 29\<close> bytes, the
  addresses a \<^verbatim>\<open>nameaddr\<close> field can hold; the end of the arena, the addresses and the number
  of names then all fit a \<^verbatim>\<open>u32\<close>, so none of the additions of the code wraps around.
\<close>

theorem load_list_correct:
  assumes "load_inv s ns" "unat tag < 8"
    and "s_end s + (\<Sum>n \<leftarrow> list_names fs filenames inp. 9 + length n) < 2 ^ 29"
  shows "\<exists>s'. load_list fs tag filenames inp s
      = (if list_names fs filenames inp = [] then None
         else Some (s_end s, length (list_names fs filenames inp),
           \<Sum>n \<leftarrow> list_names fs filenames inp. 9 + length n),
         if ''-'' \<in> set filenames then [] else inp, s')
    \<and> load_inv s' (ns @ map (\<lambda>n. (n, tag)) (list_names fs filenames inp))
    \<and> s_end s' = s_end s + (\<Sum>n \<leftarrow> list_names fs filenames inp. 9 + length n)
    \<and> (\<forall>a. s_names s' a \<noteq> None \<longrightarrow> a < 2 ^ 29)
    \<and> 9 * length (list_names fs filenames inp) < 2 ^ 29"
proof -
  let ?ms = "list_names fs filenames inp"
  obtain s' where s': "load_list fs tag filenames inp s
      = (if ?ms = [] then None else Some (s_end s, length ?ms, \<Sum>n \<leftarrow> ?ms. 9 + length n),
         if ''-'' \<in> set filenames then [] else inp, s')"
    "load_inv s' (ns @ map (\<lambda>n. (n, tag)) ?ms)"
    using load_list_eq [OF assms(1,2)] by blast
  have e: "s_end s' = s_end s + (\<Sum>n \<leftarrow> ?ms. 9 + length n)"
    using s'(2) assms(1) by (simp add: load_inv_def arena_size_tagged)
  have "a < s_end s'" if "s_names s' a \<noteq> None" for a
  proof -
    have "data_of (ns @ map (\<lambda>n. (n, tag)) ?ms) a \<noteq> None" using that s'(2) by (simp add: load_inv_def)
    then have "a < arena_size (ns @ map (\<lambda>n. (n, tag)) ?ms)" using data_of_lt [of _ a] by blast
    then show ?thesis using s'(2) by (simp add: load_inv_def)
  qed
  moreover have "9 * length ms \<le> (\<Sum>n \<leftarrow> ms. 9 + length n)" for ms :: "bytes list"
    by (induction ms) auto
  then have "9 * length ?ms \<le> (\<Sum>n \<leftarrow> ?ms. 9 + length n)" .
  then have "9 * length ?ms < 2 ^ 29" using assms(3) by linarith
  moreover have "s_end s' < 2 ^ 29" using e assms(3) by simp
  ultimately show ?thesis
    using s' e by (intro exI [of _ s'] conjI) (auto intro: less_trans)
qed

definition sample_files :: files_t where
  "sample_files = \<lparr>f_open = (\<lambda>fname. if fname = ''a.txt'' then Some [97, DOT, 98, 10, 35, 120, 32, 99]
      else if fname = ''b.gz'' then Some [1] else None),
     f_gunzip = (\<lambda>content. if content = [1] then Some ([100, 10, 101], True) else None)\<rparr>"

lemma sample_names: "list_names sample_files [''a.txt'', ''b.gz'', ''c.txt''] [] = [[97, DOT, 98], [99], [100]]"
  by code_simp

theorem load_list_correct_witness:
  "\<exists>s'. load_list sample_files 2 [''a.txt'', ''b.gz'', ''c.txt''] [] (dnl_initial 4096) = (Some (0, 3, 32), [], s')
    \<and> load_inv s' [([97, DOT, 98], 2), ([99], 2), ([100], 2)] \<and> s_end s' = 32"
  using load_list_correct [OF load_inv_initial [of 4096], of 2 sample_files "[''a.txt'', ''b.gz'', ''c.txt'']" "[]"]
  unfolding sample_names by (simp add: dnl_initial_def numeral_3_eq_3) blast

end
