(* ===== verification/Dnl_List.thy ===== *)
theory Dnl_List
  imports Dnl_Index Dnl_Load
begin

text \<open>
  The public operations of \<^verbatim>\<open>src/dnl.c\<close>: \<open>dnl_init\<close> loads the files of every tag and then
  adds the names tag by tag, those of higher priority first; \<open>dnl_get_tag\<close> gives the tag of the
  longest listed suffix of a name. A failed assertion, an access to an address without a name
  and a loop that does not end are the value \<open>None\<close>.
\<close>

section \<open>Definitions\<close>

definition dnl_nitems :: "dnl_t \<Rightarrow> u32" where
  "dnl_nitems s = m_nitems (s_map1 s) + m_nitems (s_map2 s)"

fun add_list_loop :: "nat \<Rightarrow> nat \<Rightarrow> dnl_t \<Rightarrow> dnl_t option" where
  "add_list_loop 0 nameaddr s = Some s"
| "add_list_loop (Suc k) nameaddr s = do {
     s \<leftarrow> add_to_dnl nameaddr s;
     sz \<leftarrow> get_namesz s nameaddr;
     add_list_loop k (nameaddr + sz) s }"

definition add_list :: "nat \<Rightarrow> nat \<Rightarrow> dnl_t \<Rightarrow> (u32 \<times> dnl_t) option" where
  "add_list addr0 count s = do {
     let old_nitems = dnl_nitems s;
     s \<leftarrow> add_list_loop count addr0 s;
     Some (dnl_nitems s - old_nitems, s) }"

text \<open>The first loop of \<open>dnl_init\<close>; the arrays \<^verbatim>\<open>tag_to_addr0\<close> and \<^verbatim>\<open>tag_to_count\<close> are lists.\<close>

fun load_tags :: "files_t \<Rightarrow> (nat \<Rightarrow> string list option) \<Rightarrow> nat list \<Rightarrow> bytes
    \<Rightarrow> nat list \<times> nat list \<times> nat \<times> dnl_t \<Rightarrow> nat list \<times> nat list \<times> nat \<times> dnl_t" where
  "load_tags fs tag_to_filenames [] inp st = st"
| "load_tags fs tag_to_filenames (tag # tags) inp (tag_to_addr0, tag_to_count, total_count, s) =
     (case tag_to_filenames tag of
        None \<Rightarrow> load_tags fs tag_to_filenames tags inp (tag_to_addr0, tag_to_count, total_count, s)
      | Some filenames \<Rightarrow>
          let (r, inp, s) = load_list fs (word_of_nat tag) filenames inp s
          in load_tags fs tag_to_filenames tags inp
               (case r of
                  None \<Rightarrow> (tag_to_addr0, tag_to_count, total_count, s)
                | Some (addr0, count, cost) \<Rightarrow>
                    (tag_to_addr0[tag := addr0], tag_to_count[tag := count], total_count + count, s)))"

definition ordered_tags :: "bool \<Rightarrow> nat list" where
  "ordered_tags gfwlist_first = rev [TAG__USER ..< TAG__MAX + 1]
     @ (if gfwlist_first then [TAG_GFW, TAG_CHN] else [TAG_CHN, TAG_GFW])"

text \<open>The second loop.\<close>

fun add_tags :: "nat list \<Rightarrow> nat list \<Rightarrow> nat list \<Rightarrow> u32 \<Rightarrow> dnl_t \<Rightarrow> (u32 \<times> dnl_t) option" where
  "add_tags tag_to_addr0 tag_to_count [] total_added s = Some (total_added, s)"
| "add_tags tag_to_addr0 tag_to_count (tag # tags) total_added s =
     (if tag_to_count ! tag > 0 then do {
        (added, s) \<leftarrow> add_list (tag_to_addr0 ! tag) (tag_to_count ! tag) s;
        add_tags tag_to_addr0 tag_to_count tags (total_added + added) s }
      else add_tags tag_to_addr0 tag_to_count tags total_added s)"

definition dnl_init :: "files_t \<Rightarrow> (nat \<Rightarrow> string list option) \<Rightarrow> bytes \<Rightarrow> bool \<Rightarrow> dnl_t \<Rightarrow> dnl_t option" where
  "dnl_init fs tag_to_filenames inp gfwlist_first s = do {
     let zero = replicate (TAG__MAX + 1) 0;
     let (tag_to_addr0, tag_to_count, total_count, s) =
       load_tags fs tag_to_filenames [0 ..< TAG__MAX + 1] inp (zero, zero, 0, s);
     if total_count = 0 then Some s
     else do {
       let (m, s) = map_set_notnull (calc_lcap total_count) 0 (s_map1 s) s;
       let s = s\<lparr>s_map1 := m\<rparr>;
       (total_added, s) \<leftarrow> add_tags tag_to_addr0 tag_to_count (ordered_tags gfwlist_first) 0 s;
       _ \<leftarrow> c_assert (dnl_nitems s = total_added);
       Some s } }"

definition dnl_is_empty :: "dnl_t \<Rightarrow> bool" where
  "dnl_is_empty s \<longleftrightarrow> \<not> m_notnull (s_map1 s)"

text \<open>\<^verbatim>\<open>while (--n >= 0)\<close> over the array of suffixes.\<close>

fun get_tag_loop :: "dnl_t \<Rightarrow> bytes \<Rightarrow> (nat \<times> nat) list \<Rightarrow> nat \<Rightarrow> u8 \<Rightarrow> u8 option" where
  "get_tag_loop s name arr 0 default_tag = Some default_tag"
| "get_tag_loop s name arr (Suc n) default_tag = do {
     r \<leftarrow> exists_in_dnl s (drop (fst (arr ! n)) name) (word_of_nat (snd (arr ! n)));
     case r of
       Some tag \<Rightarrow> Some tag
     | None \<Rightarrow> get_tag_loop s name arr n default_tag }"

definition dnl_get_tag :: "dnl_t \<Rightarrow> bytes \<Rightarrow> int \<Rightarrow> u8 \<Rightarrow> u8 option" where
  "dnl_get_tag s name namelen default_tag = do {
     _ \<leftarrow> c_assert (\<not> dnl_is_empty s);
     _ \<leftarrow> c_assert (namelen > 0);
     _ \<leftarrow> c_assert (uint (word_of_int namelen :: u8) = namelen);
     arr \<leftarrow> get_suffix s name (nat namelen);
     get_tag_loop s name arr (length arr) default_tag }"

section \<open>The first map\<close>

lemma calc_lcap_loop_least:
  assumes "cap = 2 ^ lcap" "\<forall>k < lcap. 2 ^ k < n"
  shows "n \<le> 2 ^ calc_lcap_loop n cap lcap \<and> (\<forall>k < calc_lcap_loop n cap lcap. 2 ^ k < n)"
  using assms
proof (induction n cap lcap rule: calc_lcap_loop.induct)
  case (1 n cap lcap)
  show ?case
  proof (cases "cap < n")
    case True
    have cap: "0 < cap" using "1.prems" by simp
    have "cap * 2 = 2 ^ (lcap + 1)" using "1.prems" by simp
    moreover have "\<forall>k < lcap + 1. 2 ^ k < n" using "1.prems" True by (auto simp: less_Suc_eq)
    moreover have "calc_lcap_loop n cap lcap = calc_lcap_loop n (cap * 2) (lcap + 1)"
      using True cap by (subst calc_lcap_loop.simps) simp
    ultimately show ?thesis using "1.IH" [OF conjI [OF cap True]] by metis
  next
    case False
    then have "calc_lcap_loop n cap lcap = lcap" by (subst calc_lcap_loop.simps) simp
    then show ?thesis using "1.prems" False by simp
  qed
qed

text \<open>
  \<open>calc_lcap\<close> returns the smallest exponent whose power of two is at least the number of
  names, so the first map has at least as many buckets as there are names, and less than twice
  as many.
\<close>

lemma calc_lcap_least:
  "n \<le> 2 ^ calc_lcap n \<and> calc_lcap n = (LEAST k. n \<le> 2 ^ k)"
proof -
  have c: "n \<le> 2 ^ calc_lcap n \<and> (\<forall>k < calc_lcap n. 2 ^ k < n)"
    unfolding calc_lcap_def by (rule calc_lcap_loop_least) simp_all
  then have "(LEAST k. n \<le> 2 ^ k) = calc_lcap n"
    by (intro Least_equality) (auto simp: not_less [symmetric])
  then show ?thesis using c by simp
qed

lemma alloc_bucket_any:
  "\<exists>c. alloc_bucket k s = (align_to (s_end s) BUCKET_ALIGN,
     s\<lparr>s_end := align_to (s_end s) BUCKET_ALIGN + BUCKET_SIZE * k, s_cap := c\<rparr>)"
proof (cases "s_cap s < align_to (s_end s) BUCKET_ALIGN + BUCKET_SIZE * k")
  case True
  then show ?thesis by (auto simp: alloc_bucket_def alloc_def Let_def)
next
  case False
  then show ?thesis
    by (intro exI [of _ "s_cap s"]; cases s) (simp add: alloc_bucket_def alloc_def Let_def)
qed

lemma align_to_mod: "0 < a \<Longrightarrow> align_to n a mod a = 0"
proof -
  assume a: "0 < a"
  show ?thesis
  proof (cases "n mod a = 0")
    case False
    have "n + (a - n mod a) = a * (n div a) + a"
      using mult_div_mod_eq [of a n] mod_less_divisor [OF a, of n] by linarith
    then have "(n + (a - n mod a)) mod a = 0" by simp
    then show ?thesis using False by (simp add: align_to_def)
  qed (simp add: align_to_def)
qed

lemma data_of_in:
  assumes "data_of ns a = Some p"
  shows "p \<in> set ns" "a < arena_size ns"
proof -
  have "(a, p) \<in> set (zip (addrs 0 ns) ns)" using assms by (auto simp: data_of_def dest: map_of_SomeD)
  then show "p \<in> set ns" "a < arena_size ns"
    using addrs_bounds [of a 0 ns] by (auto dest: set_zip_leftD set_zip_rightD)
qed

lemma load_inv_names:
  assumes "load_inv s ns" "arena_size ns \<le> NAMEADDR_END"
  shows "names_rep s (data_of ns)"
  unfolding names_rep_def
proof (intro conjI allI impI)
  show "map_option (\<lambda>p. (n_name p, n_tag p)) (s_names s a) = data_of ns a" for a
    using assms(1) by (cases "data_of ns a") (auto simp: load_inv_def fresh_name_def)
  show "a < NAMEADDR_END" "wf_name p" if h: "s_names s a = Some p" for a p
  proof -
    obtain n t where d: "data_of ns a = Some (n, t)" "p = fresh_name (n, t)"
      using h assms(1) by (cases "data_of ns a") (auto simp: load_inv_def)
    note in' = data_of_in [OF d(1)]
    show "a < NAMEADDR_END" using in' assms(2) by simp
    show "wf_name p" using in' assms(1) d(2) by (auto simp: load_inv_def wf_name_def fresh_name_def)
  qed
qed

lemma set_notnull_inv:
  assumes "load_inv s ns" "arena_size ns \<le> NAMEADDR_END" "map_set_notnull lcap 0 (s_map1 s) s = (m, s1)"
  shows "dnl_inv (s1\<lparr>s_map1 := m\<rparr>) (data_of ns) {}" "s_level_interest s1 = s_level_interest s"
    "s_level_max s1 = s_level_max s" "m_notnull m" "m_nitems m = 0" "s_map2 s1 = zero_map"
proof -
  note l = assms(1) [unfolded load_inv_def]
  define e where "e = align_to (s_end s) BUCKET_ALIGN"
  define m0 where "m0 = zero_map\<lparr>m_notnull := True, m_lcap := lcap\<rparr>"
  obtain c where c: "alloc_bucket (map_cap m0) s = (e, s\<lparr>s_end := e + BUCKET_SIZE * map_cap m0, s_cap := c\<rparr>)"
    using alloc_bucket_any unfolding e_def by blast
  have r: "m = m0\<lparr>m_buckets := e, m_shift := 0\<rparr>" "s1 = s\<lparr>s_end := e + BUCKET_SIZE * map_cap m0, s_cap := c\<rparr>"
    using assms(3) c l by (auto simp: map_set_notnull_def Let_def m0_def)
  show "s_level_interest s1 = s_level_interest s" "s_level_max s1 = s_level_max s" "m_notnull m"
    "m_nitems m = 0" "s_map2 s1 = zero_map"
    using l by (simp_all add: r m0_def zero_map_def)
  have cap: "map_cap m = map_cap m0" by (simp add: r map_cap_def)
  have "names_rep s1 (data_of ns)" using load_inv_names [OF assms(1,2)] by (simp add: r names_rep_def)
  moreover have "e mod BUCKET_ALIGN = 0" unfolding e_def by (rule align_to_mod) (simp add: BUCKET_ALIGN_def)
  then have "(e + BUCKET_SIZE * map_cap m0) mod BUCKET_ALIGN = 0"
    by (simp add: BUCKET_SIZE_def BUCKET_ALIGN_def mod_add_left_eq [symmetric])
  ultimately show "dnl_inv (s1\<lparr>s_map1 := m\<rparr>) (data_of ns) {}"
    using l cap by (auto simp: dnl_inv_def names_rep_def rep1_def bucket_list_def zero_bucket_def base2_def
        inv2'_def in_map2_def bucket_by_idx_def r m0_def zero_map_def)
qed

section \<open>Adding the names of the tags\<close>

lemma add_to_dnl_keeps:
  assumes "dnl_inv s D S" "D a = Some (n, t)" "a \<notin> S" "length n < 256"
  obtains s' where "add_to_dnl a s = Some s'" "dnl_inv s' D (add_set D S a)"
    "get_namesz s' a = Some (NAME_SIZE + length n)"
proof -
  obtain s' where s': "add_to_dnl a s = Some s'" "dnl_inv s' D (add_set D S a)"
    using add_to_dnl_spec [OF assms(1), of a] assms(2,3) by auto
  then have "names_rep s' D" by (simp add: dnl_inv_def)
  from names_repD [OF this assms(2)] obtain p where
    "s_names s' a = Some p" "n_name p = n" "n_namelen p = word_of_nat (length n)"
    by (auto simp: wf_name_def)
  then have "get_namesz s' a = Some (NAME_SIZE + length n)"
    using assms(4) by (simp add: get_namesz_def ptr_name_def unat_of_nat)
  with s' that show ?thesis by blast
qed

text \<open>Names laid out from \<open>a\<close> on are walked address by address.\<close>

lemma add_list_loop_seq:
  assumes "dnl_inv s D S" "\<forall>(x, p) \<in> set (zip (addrs a ns) ns). D x = Some p"
    "set (addrs a ns) \<inter> S = {}" "\<forall>(n, t) \<in> set ns. length n < 256"
  shows "add_list_loop (length ns) a s = add_seq add_to_dnl (addrs a ns) s"
  using assms
proof (induction ns arbitrary: a s S)
  case (Cons x ns)
  obtain n t where x: "x = (n, t)" by (cases x)
  have "D a = Some (n, t)" "a \<notin> S" "length n < 256" using Cons.prems x by auto
  from add_to_dnl_keeps [OF Cons.prems(1) this] obtain s' where s':
    "add_to_dnl a s = Some s'" "dnl_inv s' D (add_set D S a)" "get_namesz s' a = Some (NAME_SIZE + length n)" .
  have "set (addrs (a + (NAME_SIZE + length n)) ns) \<inter> add_set D S a = {}"
    using Cons.prems(3) x add_set_cases [of S D a] distinct_addrs [of a "(n, t) # ns"] by auto
  from Cons.IH [OF s'(2) _ this] have
    "add_list_loop (length ns) (a + (NAME_SIZE + length n)) s' = add_seq add_to_dnl (addrs (a + (NAME_SIZE + length n)) ns) s'"
    using Cons.prems x by auto
  then show ?case using s' x by simp
qed simp

lemma add_seq_append: "add_seq f (as @ bs) s = Option.bind (add_seq f as s) (add_seq f bs)"
  by (induction as arbitrary: s) (auto split: bind_splits)

text \<open>
  \<open>add_tags\<close> adds the addresses of the tags in the given order, and its result is the number
  of new items. \<open>off t\<close> and \<open>nm t\<close> are the address and the names of tag \<open>t\<close>.
\<close>

lemma add_tags_seq:
  assumes "dnl_inv s D S"
    and arrays: "\<forall>t \<in> set tags. cnt ! t = length (nm t) \<and> (nm t \<noteq> [] \<longrightarrow> adr ! t = off t)"
    and data: "\<forall>t \<in> set tags. (\<forall>(x, p) \<in> set (zip (addrs (off t) (nm t)) (nm t)). D x = Some p)
      \<and> (\<forall>(n, u) \<in> set (nm t). length n < 256)"
    and fresh: "distinct (concat (map (\<lambda>t. addrs (off t) (nm t)) tags))"
      "set (concat (map (\<lambda>t. addrs (off t) (nm t)) tags)) \<inter> S = {}"
  shows "\<exists>s'. add_seq add_to_dnl (concat (map (\<lambda>t. addrs (off t) (nm t)) tags)) s = Some s'
    \<and> add_tags adr cnt tags tot s = Some (tot + (dnl_nitems s' - dnl_nitems s), s')"
  using assms
proof (induction tags arbitrary: s S tot)
  case (Cons t tags)
  let ?as = "addrs (off t) (nm t)"
  have sub: "set ?as \<subseteq> dom D"
  proof
    fix x assume "x \<in> set ?as"
    then obtain p where "(x, p) \<in> set (zip ?as (nm t))" by (metis in_set_impl_in_set_zip1 length_addrs)
    then show "x \<in> dom D" using Cons.prems(3) by fastforce
  qed
  have "distinct ?as" "set ?as \<inter> S = {}" using Cons.prems by auto
  from dnl.add_seq_rep [of s D S "core1 s", OF _ this(1) sub this(2)] Cons.prems(1) obtain s1 where s1:
    "add_seq add_to_dnl ?as s = Some s1" "dnl_inv s1 D (add_sets D S ?as)" by blast
  have loop: "add_list_loop (length (nm t)) (off t) s = Some s1"
    using add_list_loop_seq [OF Cons.prems(1), of "off t" "nm t"] Cons.prems(3) \<open>set ?as \<inter> S = {}\<close> s1(1)
    by simp
  have "set (concat (map (\<lambda>t. addrs (off t) (nm t)) tags)) \<inter> add_sets D S ?as = {}"
    using add_sets_sub [of D S ?as] Cons.prems(4,5) by auto
  from Cons.IH [OF s1(2) _ _ _ this, of "tot + (dnl_nitems s1 - dnl_nitems s)"] Cons.prems obtain s' where s':
    "add_seq add_to_dnl (concat (map (\<lambda>t. addrs (off t) (nm t)) tags)) s1 = Some s'"
    "add_tags adr cnt tags (tot + (dnl_nitems s1 - dnl_nitems s)) s1
      = Some (tot + (dnl_nitems s1 - dnl_nitems s) + (dnl_nitems s' - dnl_nitems s1), s')" by auto
  have "add_seq add_to_dnl (concat (map (\<lambda>t. addrs (off t) (nm t)) (t # tags))) s = Some s'"
    using s1(1) s'(1) by (simp add: add_seq_append)
  moreover have "add_tags adr cnt (t # tags) tot s = Some (tot + (dnl_nitems s' - dnl_nitems s), s')"
  proof (cases "nm t = []")
    case True
    then have "s1 = s" using s1(1) by simp
    then show ?thesis using s'(2) True Cons.prems(2) by simp
  next
    case False
    then show ?thesis using s'(2) loop Cons.prems(2) by (simp add: add_list_def Let_def algebra_simps)
  qed
  ultimately show ?case by blast
qed auto

section \<open>Loading the tags\<close>

text \<open>The names of tag \<open>t\<close>: those of its files, where the standard input is empty once it was read.\<close>

definition stdin_at :: "(nat \<Rightarrow> string list option) \<Rightarrow> bytes \<Rightarrow> nat \<Rightarrow> bytes" where
  "stdin_at files inp t = (if list_ex (\<lambda>u. case files u of None \<Rightarrow> False | Some fn \<Rightarrow> ''-'' \<in> set fn) [0 ..< t]
     then [] else inp)"

definition tag_names :: "files_t \<Rightarrow> (nat \<Rightarrow> string list option) \<Rightarrow> bytes \<Rightarrow> nat \<Rightarrow> bytes list" where
  "tag_names fs files inp t =
     (case files t of None \<Rightarrow> [] | Some fn \<Rightarrow> list_names fs fn (stdin_at files inp t))"

text \<open>With their tag, and those of the tags below \<open>k\<close>.\<close>

definition tagged :: "files_t \<Rightarrow> (nat \<Rightarrow> string list option) \<Rightarrow> bytes \<Rightarrow> nat \<Rightarrow> names" where
  "tagged fs files inp t = map (\<lambda>n. (n, word_of_nat t)) (tag_names fs files inp t)"

definition all_names :: "files_t \<Rightarrow> (nat \<Rightarrow> string list option) \<Rightarrow> bytes \<Rightarrow> nat \<Rightarrow> names" where
  "all_names fs files inp k = concat (map (tagged fs files inp) [0 ..< k])"

definition load_tags_inv :: "files_t \<Rightarrow> (nat \<Rightarrow> string list option) \<Rightarrow> bytes \<Rightarrow> nat
    \<Rightarrow> nat list \<times> nat list \<times> nat \<times> dnl_t \<Rightarrow> bool" where
  "load_tags_inv fs files inp k = (\<lambda>(adr, cnt, tot, s).
     length adr = 8 \<and> length cnt = 8 \<and> load_inv s (all_names fs files inp k)
     \<and> tot = length (all_names fs files inp k)
     \<and> (\<forall>t < 8. cnt ! t = (if t < k then length (tagged fs files inp t) else 0))
     \<and> (\<forall>t < k. tagged fs files inp t \<noteq> [] \<longrightarrow> adr ! t = arena_size (all_names fs files inp t)))"

lemma all_names_Suc: "all_names fs files inp (Suc k) = all_names fs files inp k @ tagged fs files inp k"
  by (simp add: all_names_def)

lemma stdin_at_Suc:
  "stdin_at files inp (Suc k) = (case files k of None \<Rightarrow> stdin_at files inp k
     | Some fn \<Rightarrow> if ''-'' \<in> set fn then [] else stdin_at files inp k)"
  by (auto simp: stdin_at_def split: option.splits)

lemma load_tags_step:
  assumes "load_tags_inv fs files inp k (adr, cnt, tot, s)" "k < 8"
  shows "\<exists>st. load_tags_inv fs files inp (Suc k) st
    \<and> load_tags fs files (k # tags) (stdin_at files inp k) (adr, cnt, tot, s)
      = load_tags fs files tags (stdin_at files inp (Suc k)) st"
proof (cases "files k")
  case None
  then have "tagged fs files inp k = []" by (simp add: tagged_def tag_names_def)
  then have "load_tags_inv fs files inp (Suc k) (adr, cnt, tot, s)"
    using assms by (auto simp: load_tags_inv_def all_names_Suc less_Suc_eq)
  then show ?thesis using None by (auto simp: stdin_at_Suc)
next
  case (Some fn)
  note i = assms(1) [unfolded load_tags_inv_def, simplified]
  let ?new = "list_names fs fn (stdin_at files inp k)" and ?all = "all_names fs files inp k"
  have names: "tag_names fs files inp k = ?new" "tagged fs files inp k = map (\<lambda>n. (n, word_of_nat k)) ?new"
    using Some by (simp_all add: tag_names_def tagged_def)
  have "unat (word_of_nat k :: u8) < 8" using assms(2) by (simp add: unat_of_nat)
  from load_list_eq [OF _ this, of s ?all fs fn "stdin_at files inp k"] i obtain s' where s':
    "load_list fs (word_of_nat k) fn (stdin_at files inp k) s
      = (if ?new = [] then None else Some (s_end s, length ?new, \<Sum>n \<leftarrow> ?new. 9 + length n),
         if ''-'' \<in> set fn then [] else stdin_at files inp k, s')"
    "load_inv s' (?all @ map (\<lambda>n. (n, word_of_nat k)) ?new)" by blast
  have e: "s_end s = arena_size ?all" using i by (simp add: load_inv_def)
  let ?st = "if ?new = [] then (adr, cnt, tot, s') else (adr[k := s_end s], cnt[k := length ?new], tot + length ?new, s')"
  have "load_tags_inv fs files inp (Suc k) ?st"
    using i s'(2) e assms(2) names
    by (auto simp: load_tags_inv_def all_names_Suc less_Suc_eq nth_list_update)
  moreover have "load_tags fs files (k # tags) (stdin_at files inp k) (adr, cnt, tot, s)
      = load_tags fs files tags (stdin_at files inp (Suc k)) ?st"
    using Some s'(1) by (simp add: stdin_at_Suc)
  ultimately show ?thesis by blast
qed

lemma load_tags_spec:
  assumes "load_tags_inv fs files inp k st" "k \<le> 8"
  shows "load_tags_inv fs files inp 8 (load_tags fs files [k ..< 8] (stdin_at files inp k) st)"
  using assms
proof (induction "8 - k" arbitrary: k st)
  case 0
  then show ?case by simp
next
  case (Suc m)
  then have k: "k < 8" "m = 8 - Suc k" by simp_all
  obtain adr cnt tot s where st: "st = (adr, cnt, tot, s)" by (cases st)
  obtain st' where "load_tags_inv fs files inp (Suc k) st'"
    "load_tags fs files (k # [Suc k ..< 8]) (stdin_at files inp k) st
      = load_tags fs files [Suc k ..< 8] (stdin_at files inp (Suc k)) st'"
    using load_tags_step [OF Suc.prems(1) [unfolded st] k(1)] st by blast
  then show ?case using Suc.hyps(1) [OF k(2)] k(1) by (simp add: upt_conv_Cons)
qed

section \<open>The index after dnl_init\<close>

lemma ordered_tags_eq: "ordered_tags g = [7, 6, 5, 4, 3, 2] @ (if g then [1, 0] else [0, 1])"
  by (simp add: ordered_tags_def tag_consts upt_rec)

lemma ordered_tags_set: "set (ordered_tags g) = {..< 8}" "distinct (ordered_tags g)"
  by (auto simp: ordered_tags_eq)

lemma all_names_split: "t < k \<Longrightarrow> \<exists>r. all_names fs files inp k = all_names fs files inp t @ tagged fs files inp t @ r"
proof (induction k)
  case (Suc k)
  show ?case
  proof (cases "t = k")
    case False
    then obtain r where "all_names fs files inp k = all_names fs files inp t @ tagged fs files inp t @ r"
      using Suc by auto
    then show ?thesis by (simp add: all_names_Suc)
  qed (auto simp: all_names_Suc)
qed simp

text \<open>The addresses of the names of tag \<open>t\<close>.\<close>

definition tag_addrs :: "files_t \<Rightarrow> (nat \<Rightarrow> string list option) \<Rightarrow> bytes \<Rightarrow> nat \<Rightarrow> nat list" where
  "tag_addrs fs files inp t = addrs (arena_size (all_names fs files inp t)) (tagged fs files inp t)"

lemma zip_data_of: "(x, p) \<in> set (zip (addrs 0 ns) ns) \<Longrightarrow> data_of ns x = Some p"
  by (simp add: data_of_def distinct_addrs)

lemma tag_addrs_data:
  assumes "t < 8" "(x, p) \<in> set (zip (tag_addrs fs files inp t) (tagged fs files inp t))"
  shows "data_of (all_names fs files inp 8) x = Some p"
proof -
  obtain r where "all_names fs files inp 8 = all_names fs files inp t @ tagged fs files inp t @ r"
    using all_names_split [OF assms(1)] by blast
  then show ?thesis
    using assms(2) by (intro zip_data_of) (simp add: addrs_append tag_addrs_def)
qed

lemma tag_addrs_disjoint:
  assumes "t < 8" "u < 8" "t \<noteq> u"
  shows "set (tag_addrs fs files inp t) \<inter> set (tag_addrs fs files inp u) = {}"
proof -
  have below: "set (tag_addrs fs files inp a) \<inter> set (tag_addrs fs files inp b) = {}" if ab: "a < b" for a b
  proof -
    obtain r where "all_names fs files inp b = all_names fs files inp a @ tagged fs files inp a @ r"
      using all_names_split [OF ab] by blast
    then have "arena_size (all_names fs files inp a) + arena_size (tagged fs files inp a)
        \<le> arena_size (all_names fs files inp b)" by simp
    then show ?thesis by (fastforce simp: tag_addrs_def dest: addrs_bounds)
  qed
  show ?thesis using below [of t u] below [of u t] assms(3) by (cases "t < u") auto
qed

lemma distinct_concat_map:
  "distinct ts \<Longrightarrow> (\<And>t. t \<in> set ts \<Longrightarrow> distinct (f t)) \<Longrightarrow>
    (\<And>t u. t \<in> set ts \<Longrightarrow> u \<in> set ts \<Longrightarrow> t \<noteq> u \<Longrightarrow> set (f t) \<inter> set (f u) = {}) \<Longrightarrow> distinct (concat (map f ts))"
proof (induction ts)
  case (Cons t ts)
  then have "set (f t) \<inter> set (f u) = {}" if "u \<in> set ts" for u using that by (metis distinct.simps(2) list.set_intros)
  then show ?case using Cons by (auto simp del: disjoint_iff)
qed simp

lemma find_append: "find P (xs @ ys) = (case find P xs of None \<Rightarrow> find P ys | Some x \<Rightarrow> Some x)"
  by (induction xs) auto

text \<open>The tag that answers for a listed name: the first one, in the order of priority, that lists it.\<close>

definition listed_tag :: "files_t \<Rightarrow> (nat \<Rightarrow> string list option) \<Rightarrow> bytes \<Rightarrow> bool \<Rightarrow> bytes \<Rightarrow> nat option" where
  "listed_tag fs files inp g key = find (\<lambda>t. key \<in> set (tag_names fs files inp t)) (ordered_tags g)"

lemma find_tag_addrs:
  fixes fs :: files_t and files :: "nat \<Rightarrow> string list option" and inp :: bytes
  assumes "set ts \<subseteq> {..< 8}"
  defines "D \<equiv> data_of (all_names fs files inp 8)"
  shows "map_option (\<lambda>a. snd (the (D a))) (find (\<lambda>a. name_at D a = key) (concat (map (tag_addrs fs files inp) ts)))
    = map_option word_of_nat (find (\<lambda>t. key \<in> set (tag_names fs files inp t)) ts)"
  using assms(1)
proof (induction ts)
  case (Cons t ts)
  let ?as = "tag_addrs fs files inp t" and ?ns = "tagged fs files inp t"
  have t: "t < 8" using Cons.prems by simp
  have len: "length ?as = length ?ns" by (simp add: tag_addrs_def)
  have at: "D (?as ! i) = Some (tag_names fs files inp t ! i, word_of_nat t)" if i: "i < length ?as" for i
  proof -
    have "(?as ! i, ?ns ! i) \<in> set (zip ?as ?ns)" using i len by (auto simp: set_zip)
    then have "D (?as ! i) = Some (?ns ! i)" using tag_addrs_data [OF t] D_def by blast
    then show ?thesis using i len by (simp add: tagged_def)
  qed
  have len2: "length (tag_names fs files inp t) = length ?as" using len by (simp add: tagged_def)
  show ?case
  proof (cases "key \<in> set (tag_names fs files inp t)")
    case True
    then obtain i where i: "i < length ?as" "tag_names fs files inp t ! i = key"
      using len2 by (metis in_set_conv_nth)
    then have "name_at D (?as ! i) = key" using at by (simp add: name_at_def)
    then have "find (\<lambda>a. name_at D a = key) ?as \<noteq> None"
      using nth_mem [OF i(1)] unfolding find_None_iff by blast
    then obtain a where a: "find (\<lambda>a. name_at D a = key) ?as = Some a" by blast
    then have "a \<in> set ?as" by (auto simp: find_Some_iff)
    then have "snd (the (D a)) = word_of_nat t" using at by (auto simp: in_set_conv_nth)
    then show ?thesis using a True by (simp add: find_append)
  next
    case False
    have "name_at D a \<noteq> key" if "a \<in> set ?as" for a
      using that at False len2 by (auto simp: in_set_conv_nth name_at_def)
    then have "find (\<lambda>a. name_at D a = key) ?as = None" by (auto simp: find_None_iff)
    then show ?thesis using Cons False by (simp add: find_append)
  qed
qed simp

lemma load_tags_inv_initial:
  "load_tags_inv fs files inp 0 (replicate 8 0, replicate 8 0, 0, dnl_initial pagesz)"
  using load_inv_initial [of pagesz] by (simp add: load_tags_inv_def all_names_def)

text \<open>
  After \<open>dnl_init\<close> the index holds the names of all tags, and the level variables cover their
  numbers of labels.
\<close>

definition dnl_ready :: "files_t \<Rightarrow> (nat \<Rightarrow> string list option) \<Rightarrow> bytes \<Rightarrow> bool \<Rightarrow> dnl_t \<Rightarrow> bool" where
  "dnl_ready fs files inp g s \<longleftrightarrow> \<not> dnl_is_empty s \<and> level_inv s
     \<and> (\<forall>t < 8. \<forall>n \<in> set (tag_names fs files inp t). level_interesting s (length (split_dots n)))
     \<and> (\<forall>key junk. length key < 256 \<longrightarrow> exists_in_dnl s (key @ junk) (word_of_nat (length key))
          = Some (map_option word_of_nat (listed_tag fs files inp g key)))"

lemma dnl_init_spec:
  assumes small: "arena_size (all_names fs files inp 8) \<le> NAMEADDR_END"
  shows "\<exists>s. dnl_init fs files inp g (dnl_initial pagesz) = Some s
    \<and> (if all_names fs files inp 8 = [] then dnl_is_empty s else dnl_ready fs files inp g s)"
proof -
  let ?all = "all_names fs files inp 8" and ?D = "data_of (all_names fs files inp 8)"
  have maxtag: "TAG__MAX + 1 = 8" by (simp add: tag_consts)
  have "stdin_at files inp 0 = inp" by (simp add: stdin_at_def)
  then have "load_tags_inv fs files inp 8
      (load_tags fs files [0 ..< 8] inp (replicate 8 0, replicate 8 0, 0, dnl_initial pagesz))"
    using load_tags_spec [OF load_tags_inv_initial, of fs files inp pagesz] by simp
  then obtain adr cnt s where load: "load_tags fs files [0 ..< 8] inp
      (replicate 8 0, replicate 8 0, 0, dnl_initial pagesz) = (adr, cnt, length ?all, s)"
    and linv: "load_inv s ?all"
    and arr: "\<And>t. t < 8 \<Longrightarrow> cnt ! t = length (tagged fs files inp t)"
      "\<And>t. t < 8 \<Longrightarrow> tagged fs files inp t \<noteq> [] \<Longrightarrow> adr ! t = arena_size (all_names fs files inp t)"
    by (auto simp: load_tags_inv_def split: prod.splits)
  note l = linv [unfolded load_inv_def]
  show ?thesis
  proof (cases "?all = []")
    case True
    then have "dnl_init fs files inp g (dnl_initial pagesz) = Some s"
      unfolding dnl_init_def maxtag Let_def load by simp
    moreover have "dnl_is_empty s" using l by (simp add: dnl_is_empty_def zero_map_def)
    ultimately show ?thesis using True by simp
  next
    case False
    obtain m s1 where set: "map_set_notnull (calc_lcap (length ?all)) 0 (s_map1 s) s = (m, s1)"
      by (cases "map_set_notnull (calc_lcap (length ?all)) 0 (s_map1 s) s")
    note ready = set_notnull_inv [OF linv small set]
    define s2 where "s2 = s1\<lparr>s_map1 := m\<rparr>"
    have inv: "dnl_inv s2 ?D {}" using ready(1) by (simp add: s2_def)
    let ?as = "concat (map (tag_addrs fs files inp) (ordered_tags g))"
    have init: "dnl_init fs files inp g (dnl_initial pagesz)
        = Option.bind (add_tags adr cnt (ordered_tags g) 0 s2)
            (\<lambda>(added, s). Option.bind (c_assert (dnl_nitems s = added)) (\<lambda>_. Some s))"
      unfolding dnl_init_def maxtag Let_def load using False by (simp add: set s2_def)
    have dist: "distinct ?as"
    proof (rule distinct_concat_map)
      show "distinct (ordered_tags g)" by (rule ordered_tags_set)
      show "distinct (tag_addrs fs files inp t)" for t by (simp add: tag_addrs_def distinct_addrs)
      show "set (tag_addrs fs files inp t) \<inter> set (tag_addrs fs files inp u) = {}"
        if "t \<in> set (ordered_tags g)" "u \<in> set (ordered_tags g)" "t \<noteq> u" for t u
        using that ordered_tags_set [of g] by (intro tag_addrs_disjoint) auto
    qed
    have "\<exists>s'. add_seq add_to_dnl ?as s2 = Some s'
        \<and> add_tags adr cnt (ordered_tags g) 0 s2 = Some (0 + (dnl_nitems s' - dnl_nitems s2), s')"
      unfolding tag_addrs_def [abs_def]
    proof (rule add_tags_seq [OF inv])
      show "\<forall>t \<in> set (ordered_tags g). cnt ! t = length (tagged fs files inp t)
          \<and> (tagged fs files inp t \<noteq> [] \<longrightarrow> adr ! t = arena_size (all_names fs files inp t))"
        using arr by (simp add: ordered_tags_set)
      show "\<forall>t \<in> set (ordered_tags g). (\<forall>(x, p) \<in> set (zip (addrs (arena_size (all_names fs files inp t))
            (tagged fs files inp t)) (tagged fs files inp t)). ?D x = Some p)
          \<and> (\<forall>(n, u) \<in> set (tagged fs files inp t). length n < 256)"
      proof
        fix t
        assume "t \<in> set (ordered_tags g)"
        then have t: "t < 8" by (simp add: ordered_tags_set)
        then obtain r where "?all = all_names fs files inp t @ tagged fs files inp t @ r"
          using all_names_split by blast
        then have "\<forall>(n, u) \<in> set (tagged fs files inp t). length n < 256" using l by auto
        then show "(\<forall>(x, p) \<in> set (zip (addrs (arena_size (all_names fs files inp t))
              (tagged fs files inp t)) (tagged fs files inp t)). ?D x = Some p)
            \<and> (\<forall>(n, u) \<in> set (tagged fs files inp t). length n < 256)"
          using tag_addrs_data [OF t] unfolding tag_addrs_def by blast
      qed
    qed (use dist in \<open>simp_all add: tag_addrs_def [abs_def]\<close>)
    then obtain s' where s': "add_seq add_to_dnl ?as s2 = Some s'"
      "add_tags adr cnt (ordered_tags g) 0 s2 = Some (dnl_nitems s' - dnl_nitems s2, s')" by auto
    have zero: "dnl_nitems s2 = 0" using ready(5,6) by (simp add: dnl_nitems_def s2_def zero_map_def)
    have dom: "set ?as \<subseteq> dom ?D"
    proof
      fix x
      assume "x \<in> set ?as"
      then obtain t where t: "t < 8" "x \<in> set (tag_addrs fs files inp t)" by (auto simp: ordered_tags_set)
      then obtain p where "(x, p) \<in> set (zip (tag_addrs fs files inp t) (tagged fs files inp t))"
        by (metis in_set_impl_in_set_zip1 length_addrs tag_addrs_def)
      then show "x \<in> dom ?D" using tag_addrs_data [OF t(1)] by blast
    qed
    have found: "exists_in_dnl s' (key @ junk) (word_of_nat (length key))
        = Some (map_option word_of_nat (listed_tag fs files inp g key))" if "length key < 256" for key junk
      using dnl.lookup_first [of s2 ?D "core1 s2", OF _ dist dom that, of junk] inv s'(1)
        find_tag_addrs [of "ordered_tags g" fs files inp key]
      by (auto simp: ordered_tags_set listed_tag_def)
    have core: "core1 s' = core1 s2"
      using dnl.lookup_first [of s2 ?D "core1 s2", OF _ dist dom, of "[]"] inv s'(1) by auto
    have lev: "s_level_interest s' = s_level_interest s" "s_level_max s' = s_level_max s" "m_notnull (s_map1 s')"
      using core ready(2-4) by (simp_all add: core1_def s2_def)
    have "level_interesting s' (length (split_dots n))" if "t < 8" "n \<in> set (tag_names fs files inp t)" for t n
    proof -
      have "(n, word_of_nat t) \<in> set ?all"
        using that by (auto simp: all_names_def tagged_def intro!: bexI [of _ t])
      then show ?thesis using l lev(1) by (auto simp: level_interesting_def)
    qed
    then have "dnl_ready fs files inp g s'"
      using lev l found by (simp add: dnl_ready_def dnl_is_empty_def level_inv_def)
    moreover have "dnl_init fs files inp g (dnl_initial pagesz) = Some s'"
      unfolding init using s'(2) zero by simp
    ultimately show ?thesis using False by auto
  qed
qed

section \<open>Looking a name up\<close>

text \<open>The suffixes of a name at its dots, the name itself first.\<close>

definition suffixes :: "bytes \<Rightarrow> bytes list" where
  "suffixes name = map (\<lambda>i. dotted (drop i (split_dots name))) [0 ..< length (split_dots name)]"

lemma suffixes_rev: "suffixes name = map (suffix_text name) (rev [1 ..< length (split_dots name) + 1])"
proof (rule nth_equalityI)
  fix i
  assume "i < length (suffixes name)"
  then have i: "i < length (split_dots name)" by (simp add: suffixes_def)
  then have "rev [1 ..< length (split_dots name) + 1] ! i = length (split_dots name) - i"
    by (simp add: rev_nth del: upt_Suc)
  then show "suffixes name ! i = map (suffix_text name) (rev [1 ..< length (split_dots name) + 1]) ! i"
    using i by (simp add: suffixes_def suffix_text_def Let_def del: upt_Suc)
qed (simp add: suffixes_def del: upt_Suc)

lemma split_dots_suffix: "0 < k \<Longrightarrow> k \<le> length (split_dots name) \<Longrightarrow> length (split_dots (suffix_text name k)) = k"
proof -
  assume k: "0 < k" "k \<le> length (split_dots name)"
  let ?ls = "drop (length (split_dots name) - k) (split_dots name)"
  have "?ls \<noteq> []" using k by simp
  then have "split_dots (dotted ?ls) = ?ls"
    using split_dots_labels [of _ name] by (intro split_dots_dotted) (auto dest: in_set_dropD)
  then show ?thesis using k by (simp add: suffix_text_def Let_def)
qed

lemma get_tag_loop_eq:
  assumes "\<forall>k \<in> set ks. exists_in_dnl s (drop (fst (f k)) name) (word_of_nat (snd (f k))) = Some (look k)"
  shows "get_tag_loop s name (map f ks) (length ks) d
    = Some (case List.map_filter look (rev ks) of [] \<Rightarrow> d | t # _ \<Rightarrow> t)"
proof -
  have "get_tag_loop s name (map f ks) n d
      = Some (case List.map_filter look (rev (take n ks)) of [] \<Rightarrow> d | t # _ \<Rightarrow> t)" if "n \<le> length ks" for n
    using that
  proof (induction n)
    case 0
    then show ?case by (simp add: List.map_filter_simps)
  next
    case (Suc n)
    then have "exists_in_dnl s (drop (fst (f (ks ! n))) name) (word_of_nat (snd (f (ks ! n)))) = Some (look (ks ! n))"
      using assms by simp
    then show ?case using Suc by (simp add: take_Suc_conv_app_nth List.map_filter_simps split: option.splits)
  qed
  then show ?thesis by simp
qed

lemma map_filter_filter: "(\<And>k. k \<in> set ks \<Longrightarrow> \<not> P k \<Longrightarrow> f k = None) \<Longrightarrow>
    List.map_filter f (filter P ks) = List.map_filter f ks"
  by (induction ks) (auto simp: List.map_filter_simps split: option.splits)

lemma map_filter_map: "List.map_filter (\<lambda>k. map_option g (h (e k))) ks = map g (List.map_filter h (map e ks))"
  by (induction ks) (auto simp: List.map_filter_simps split: option.splits)

lemma dnl_get_tag_spec:
  assumes ready: "dnl_ready fs files inp g s" and name: "0 < length name" "length name < 256"
  shows "dnl_get_tag s (name @ junk) (int (length name)) d
    = Some (case List.map_filter (listed_tag fs files inp g) (suffixes name) of [] \<Rightarrow> d | t # _ \<Rightarrow> word_of_nat t)"
proof -
  note r = ready [unfolded dnl_ready_def]
  let ?n = "length (split_dots name)"
  let ?f = "\<lambda>k. (suffix_off name k, length name - suffix_off name k)"
  let ?ks = "filter (level_interesting s) [1 ..< ?n + 1]"
  let ?look = "\<lambda>k. map_option word_of_nat (listed_tag fs files inp g (suffix_text name k)) :: u8 option"
  have "exists_in_dnl s (drop (fst (?f k)) (name @ junk)) (word_of_nat (snd (?f k))) = Some (?look k)"
    if "k \<in> set ?ks" for k
  proof -
    have k: "0 < k" using that by auto
    note at = suffix_at [OF k, of name]
    have "drop (suffix_off name k) (name @ junk) = suffix_text name k @ junk"
      using at(1) [of "[]"] at(2) by simp
    moreover have "length (suffix_text name k) < 256" using at(2,3) name(2) by linarith
    ultimately show ?thesis using r at(3) by simp
  qed
  then have loop: "get_tag_loop s (name @ junk) (map ?f ?ks) (length ?ks) d
      = Some (case List.map_filter ?look (rev ?ks) of [] \<Rightarrow> d | t # _ \<Rightarrow> t)"
    by (intro get_tag_loop_eq) blast
  have skip: "?look k = None" if "k \<in> set (rev [1 ..< ?n + 1])" "\<not> level_interesting s k" for k
  proof -
    have k: "length (split_dots (suffix_text name k)) = k" using that(1) by (intro split_dots_suffix) auto
    have "suffix_text name k \<notin> set (tag_names fs files inp t)" if "t < 8" for t
      using r k \<open>\<not> level_interesting s k\<close> \<open>t < 8\<close> by metis
    then show ?thesis by (auto simp: listed_tag_def find_None_iff ordered_tags_set)
  qed
  have "rev ?ks = filter (level_interesting s) (rev [1 ..< ?n + 1])" by (simp only: rev_filter)
  then have "List.map_filter ?look (rev ?ks) = List.map_filter ?look (rev [1 ..< ?n + 1])"
    using map_filter_filter [of "rev [1 ..< ?n + 1]" "level_interesting s" ?look] skip by simp
  also have "\<dots> = map word_of_nat (List.map_filter (listed_tag fs files inp g) (suffixes name))"
    unfolding suffixes_rev by (rule map_filter_map)
  finally have "List.map_filter ?look (rev ?ks) = map word_of_nat (List.map_filter (listed_tag fs files inp g) (suffixes name))" .
  then have "get_tag_loop s (name @ junk) (map ?f ?ks) (length ?ks) d
      = Some (case List.map_filter (listed_tag fs files inp g) (suffixes name) of [] \<Rightarrow> d | t # _ \<Rightarrow> word_of_nat t)"
    unfolding loop by (simp split: list.splits)
  moreover have "get_suffix s (name @ junk) (length name) = Some (map ?f ?ks)"
    using get_suffix_eq r by blast
  moreover have "uint (word_of_int (int (length name)) :: u8) = int (length name)"
    using name(2) by (simp add: unsigned_of_nat take_bit_nat_eq_self)
  ultimately show ?thesis using r name(1) by (simp add: dnl_get_tag_def)
qed

section \<open>The properties of the list\<close>

text \<open>The bytes the names of all tags take in the arena.\<close>

definition names_size :: "files_t \<Rightarrow> (nat \<Rightarrow> string list option) \<Rightarrow> bytes \<Rightarrow> nat" where
  "names_size fs files inp = (\<Sum>t < 8. \<Sum>n \<leftarrow> tag_names fs files inp t. 9 + length n)"

lemma arena_size_all_names: "arena_size (all_names fs files inp k) = (\<Sum>t < k. \<Sum>n \<leftarrow> tag_names fs files inp t. 9 + length n)"
proof (induction k)
  case 0
  then show ?case by (simp add: all_names_def)
next
  case (Suc k)
  have "arena_size (map (\<lambda>n. (n, u)) ms) = (\<Sum>n \<leftarrow> ms. 9 + length n)" for u :: u8 and ms
    by (induction ms) (simp_all add: NAME_SIZE_def)
  then show ?case using Suc by (simp add: all_names_Suc tagged_def)
qed

lemma dnl_init_cases:
  assumes "names_size fs files inp < 2 ^ 29"
  shows "\<exists>s. dnl_init fs files inp g (dnl_initial pagesz) = Some s
    \<and> dnl_is_empty s = (\<forall>t < 8. tag_names fs files inp t = [])
    \<and> (dnl_is_empty s \<or> dnl_ready fs files inp g s)"
proof -
  have "arena_size (all_names fs files inp 8) \<le> NAMEADDR_END"
    using assms by (simp add: arena_size_all_names names_size_def NAMEADDR_END_def NAMEADDR_BIT_def)
  from dnl_init_spec [OF this, of g pagesz] obtain s where
    "dnl_init fs files inp g (dnl_initial pagesz) = Some s"
    "if all_names fs files inp 8 = [] then dnl_is_empty s else dnl_ready fs files inp g s" by blast
  moreover have "all_names fs files inp 8 = [] \<longleftrightarrow> (\<forall>t < 8. tag_names fs files inp t = [])"
    by (auto simp: all_names_def tagged_def)
  ultimately show ?thesis by (auto simp: dnl_ready_def split: if_splits)
qed

text \<open>
  C15: For any files, \<open>dnl_init\<close> returns: no list walk and no loop of the map runs forever, no
  assertion fails (those of the bucket states, of the doubling of the second map and of the
  number of added items) and no address without a name is read, as long as the names fit below
  the end marker of the 29-bit addresses. The list is empty exactly if no file has a valid name.
\<close>

theorem dnl_init_returns:
  assumes "names_size fs files inp < 2 ^ 29"
  shows "\<exists>s. dnl_init fs files inp g (dnl_initial pagesz) = Some s
    \<and> (dnl_is_empty s \<longleftrightarrow> (\<forall>t < 8. tag_names fs files inp t = []))"
  using dnl_init_cases [OF assms, of g pagesz] by blast

definition sample_tags :: "nat \<Rightarrow> string list option" where
  "sample_tags t = (if t = 0 then Some [''a.txt'', ''c.txt''] else if t = 5 then Some [''b.gz'', ''-''] else None)"

lemma sample_tags_names:
  "names_size sample_files sample_tags [97, DOT, 98] < 2 ^ 29"
  "\<exists>t < 8. tag_names sample_files sample_tags [97, DOT, 98] t \<noteq> []"
proof -
  have upt: "{..< 8 :: nat} = set [0 ..< 8]" by auto
  have "(\<Sum>t \<leftarrow> [0 ..< 8]. \<Sum>n \<leftarrow> tag_names sample_files sample_tags [97, DOT, 98] t. 9 + length n) < 2 ^ 29"
    by code_simp
  then show "names_size sample_files sample_tags [97, DOT, 98] < 2 ^ 29"
    unfolding names_size_def upt by (simp only: sum_set_upt_conv_sum_list_nat)
  have "tag_names sample_files sample_tags [97, DOT, 98] 0 \<noteq> []" by code_simp
  then show "\<exists>t < 8. tag_names sample_files sample_tags [97, DOT, 98] t \<noteq> []"
    by (intro exI [of _ 0]) simp
qed

theorem dnl_init_returns_witness:
  "\<exists>s. dnl_init sample_files sample_tags [97, DOT, 98] True (dnl_initial 4096) = Some s \<and> \<not> dnl_is_empty s"
  using dnl_init_returns [OF sample_tags_names(1), of True 4096] sample_tags_names(2) by blast

text \<open>
  C1: After \<open>dnl_init\<close>, \<open>dnl_get_tag\<close> on any name of 1 to 255 bytes gives the tag of its longest
  listed suffix: the first of the suffixes at the dots, the whole name first, that some tag
  lists. If several tags list it, the user-defined tags win, the higher ones first, then the
  two predefined tags in the configured order; if no suffix is listed, the result is the default
  tag.
\<close>

theorem dnl_get_tag_longest_suffix:
  assumes "names_size fs files inp < 2 ^ 29" "dnl_init fs files inp g (dnl_initial pagesz) = Some s"
    "\<not> dnl_is_empty s" "0 < length name" "length name < 256"
  shows "dnl_get_tag s (name @ junk) (int (length name)) default_tag
    = Some (case List.map_filter
          (\<lambda>suffix. find (\<lambda>t. suffix \<in> set (tag_names fs files inp t))
             ([7, 6, 5, 4, 3, 2] @ (if g then [TAG_GFW, TAG_CHN] else [TAG_CHN, TAG_GFW])))
          (suffixes name)
        of [] \<Rightarrow> default_tag | t # _ \<Rightarrow> word_of_nat t)"
proof -
  have "dnl_ready fs files inp g s" using dnl_init_cases [OF assms(1), of g pagesz] assms(2,3) by auto
  moreover have "[7, 6, 5, 4, 3, 2] @ (if g then [TAG_GFW, TAG_CHN] else [TAG_CHN, TAG_GFW]) = ordered_tags g"
    by (simp add: ordered_tags_eq tag_consts)
  ultimately show ?thesis using dnl_get_tag_spec [OF _ assms(4,5)] by (simp add: listed_tag_def [abs_def])
qed

theorem dnl_get_tag_longest_suffix_witness:
  "\<exists>s. dnl_init sample_files sample_tags [97, DOT, 98] True (dnl_initial 4096) = Some s
    \<and> dnl_get_tag s ([120, DOT, 97, DOT, 98] @ [0, 1]) (int (length [120, DOT, 97, DOT, 98 :: u8])) 8 = Some 5
    \<and> dnl_get_tag s ([99] @ []) (int (length [99 :: u8])) 8 = Some 0
    \<and> dnl_get_tag s ([98] @ []) (int (length [98 :: u8])) 8 = Some 8"
proof -
  obtain s where s: "dnl_init sample_files sample_tags [97, DOT, 98] True (dnl_initial 4096) = Some s"
    "\<not> dnl_is_empty s"
    using dnl_init_cases [OF sample_tags_names(1), of True 4096] sample_tags_names(2) by blast
  note look = dnl_get_tag_longest_suffix [OF sample_tags_names(1) s]
  let ?look = "\<lambda>name d. (case List.map_filter
          (\<lambda>suffix. find (\<lambda>t. suffix \<in> set (tag_names sample_files sample_tags [97, DOT, 98] t))
             ([7, 6, 5, 4, 3, 2] @ (if True then [TAG_GFW, TAG_CHN] else [TAG_CHN, TAG_GFW])))
          (suffixes name) of [] \<Rightarrow> d | t # _ \<Rightarrow> word_of_nat t) :: u8"
  have "?look [120, DOT, 97, DOT, 98] 8 = 5" "?look [99] 8 = 0" "?look [98] 8 = 8" by code_simp+
  moreover have "dnl_get_tag s ([120, DOT, 97, DOT, 98] @ [0, 1]) (int (length [120, DOT, 97, DOT, 98 :: u8])) 8
      = Some (?look [120, DOT, 97, DOT, 98] 8)"
    "dnl_get_tag s ([99] @ []) (int (length [99 :: u8])) 8 = Some (?look [99] 8)"
    "dnl_get_tag s ([98] @ []) (int (length [98 :: u8])) 8 = Some (?look [98] 8)"
    by (rule look; simp)+
  ultimately show ?thesis using s(1) by (intro exI [of _ s] conjI) (simp_all only:)
qed

text \<open>
  C19: The two-level map refines a set of names: adding the name at an address that is not stored
  yet always succeeds and takes a state that represents the stored addresses \<open>S\<close> to one that
  represents \<open>S\<close> with the new address, or \<open>S\<close> itself if a stored name has the same text; the
  text and the tag at every address, the first map's place and size and the level variables
  stay.
\<close>

theorem add_to_dnl_refines:
  assumes "dnl_inv s D S" "a \<in> dom D" "a \<notin> S"
  shows "\<exists>s'. add_to_dnl a s = Some s'
    \<and> dnl_inv s' D (if \<exists>x \<in> S. name_at D x = name_at D a then S else insert a S) \<and> core1 s' = core1 s"
  using add_to_dnl_spec [OF assms] by (simp add: add_set_def)

lemma sample_dnl_inv: "\<exists>s. dnl_inv s (data_of [([97], 2), ([98], 2)]) {}"
proof -
  have "list_names \<lparr>f_open = (\<lambda>_. Some [97, 32, 98]), f_gunzip = (\<lambda>_. None)\<rparr> [''a''] [] = [[97], [98]]"
    by code_simp
  then obtain s where s: "load_inv s [([97], 2), ([98], 2)]"
    using load_list_eq [OF load_inv_initial [of 4096], of 2 "\<lparr>f_open = (\<lambda>_. Some [97, 32, 98]), f_gunzip = (\<lambda>_. None)\<rparr>"
        "[''a'']" "[]"] by auto
  obtain m s1 where "map_set_notnull 1 0 (s_map1 s) s = (m, s1)"
    by (cases "map_set_notnull 1 0 (s_map1 s) s")
  from set_notnull_inv(1) [OF s _ this] show ?thesis
    by (auto simp: NAME_SIZE_def NAMEADDR_END_def NAMEADDR_BIT_def)
qed

theorem add_to_dnl_refines_witness:
  "\<exists>s s'. add_to_dnl 0 s = Some s' \<and> dnl_inv s' (data_of [([97], 2), ([98], 2)]) {0}"
proof -
  obtain s where s: "dnl_inv s (data_of [([97], 2), ([98], 2)]) {}" using sample_dnl_inv by blast
  have "0 \<in> dom (data_of [([97], 2), ([98], 2 :: u8)])" by (simp add: data_of_def)
  from add_to_dnl_refines [OF s this] show ?thesis by auto
qed

text \<open>
  C18: \<open>resize_map2\<close> doubles the second map exactly when the number of its items has reached
  three quarters of its buckets, and moving names between the lists of the lower and the upper
  half keeps the represented set: every name is in the list of its new bucket, exactly once, and
  no assertion of the move fails.
\<close>

theorem resize_map2_keeps_names:
  assumes "inv2 s D S"
  shows "\<exists>redo s'. resize_map2 s = Some (redo, s') \<and> inv2 s' D S
    \<and> redo = (3 * 2 ^ m_lcap (s_map2 s) div 4 \<le> unat (m_nitems (s_map2 s)))
    \<and> map_cap (s_map2 s') = (if redo then 2 * map_cap (s_map2 s) else map_cap (s_map2 s))"
proof -
  from resize_map2_spec [OF assms] obtain r s' where r: "resize_map2 s = Some (r, s')" "inv2 s' D S"
    "\<not> r \<longrightarrow> s' = s" "r \<longrightarrow> m_lcap (s_map2 s') = m_lcap (s_map2 s) + 1 \<and> map_maxload (s_map2 s) \<le> unat (m_nitems (s_map2 s))"
    by blast
  have "unat (m_nitems (s_map2 s)) < map_maxload (s_map2 s)" if "\<not> r"
    using that r(1) by (auto simp: resize_map2_def Let_def split: if_splits bind_splits prod.splits)
  then have "r = (3 * 2 ^ m_lcap (s_map2 s) div 4 \<le> unat (m_nitems (s_map2 s)))"
    using r(4) by (cases r) (auto simp: map_maxload_def map_cap_def LOAD_FACTOR_X_def LOAD_FACTOR_Y_def mult.commute)
  then show ?thesis using r by (intro exI [of _ r] exI [of _ s']) (auto simp: map_cap_def)
qed

theorem resize_map2_keeps_names_witness:
  "\<exists>s redo s'. resize_map2 s = Some (redo, s') \<and> inv2 s' (data_of [([97], 2), ([98], 2)]) {0}"
proof -
  let ?D = "data_of [([97], 2), ([98], 2 :: u8)]"
  obtain s where s: "dnl_inv s ?D {}" using sample_dnl_inv by blast
  then have inv: "inv2' s ?D {}" by (simp add: dnl_inv_def in_map2_def)
  have "0 \<in> dom ?D" by (simp add: data_of_def)
  from add_to_map2_spec [OF inv this] obtain s1 where "inv2 s1 ?D {0}" by (auto simp: add_set_def)
  from resize_map2_keeps_names [OF this] show ?thesis by blast
qed

end
