(* ===== verification/Netlink.thy ===== *)
theory Netlink
  imports Prelude
begin

text \<open>
  Netlink messages (\<^verbatim>\<open>src/nl.h\<close>): a message is the buffer that starts at its
  \<^verbatim>\<open>struct nlmsghdr\<close>, its header fields and attribute headers in the byte order of the host
  (\<open>be\<close> says whether that is big-endian). A load or store outside the buffer is \<open>None\<close>. The
  second half gives the view of such a buffer as header, attributes and free space, on which all
  message builders are verified, and the parser by which a receiver reads attributes.
\<close>

section \<open>Host byte order\<close>

definition host16 :: "bool \<Rightarrow> u16 \<Rightarrow> bytes" where
  "host16 be w = (if be then be16_bytes w else rev (be16_bytes w))"

definition host32 :: "bool \<Rightarrow> u32 \<Rightarrow> bytes" where
  "host32 be w = (if be then be32_bytes w else rev (be32_bytes w))"

definition unhost16 :: "bool \<Rightarrow> bytes \<Rightarrow> u16" where
  "unhost16 be bs = (let bs = (if be then bs else rev bs) in be16 (bs ! 0) (bs ! 1))"

definition unhost32 :: "bool \<Rightarrow> bytes \<Rightarrow> u32" where
  "unhost32 be bs = (let bs = (if be then bs else rev bs) in be32 (bs ! 0) (bs ! 1) (bs ! 2) (bs ! 3))"

definition rdh16 :: "bool \<Rightarrow> bytes \<Rightarrow> nat \<Rightarrow> u16 option" where
  "rdh16 be m i = map_option (unhost16 be) (slice_at m i 2)"

definition rdh32 :: "bool \<Rightarrow> bytes \<Rightarrow> nat \<Rightarrow> u32 option" where
  "rdh32 be m i = map_option (unhost32 be) (slice_at m i 4)"

definition wrh16 :: "bool \<Rightarrow> bytes \<Rightarrow> nat \<Rightarrow> u16 \<Rightarrow> bytes option" where
  "wrh16 be m i w = put m i (host16 be w)"

definition wrh32 :: "bool \<Rightarrow> bytes \<Rightarrow> nat \<Rightarrow> u32 \<Rightarrow> bytes option" where
  "wrh32 be m i w = put m i (host32 be w)"

section \<open>nl.h\<close>

definition NLMSG_HDRLEN :: nat where "NLMSG_HDRLEN = 16"
definition NLA_HDRLEN :: nat where "NLA_HDRLEN = 4"
definition NLA_F_NESTED :: u16 where "NLA_F_NESTED = 0x8000"
definition NLA_F_NET_BYTEORDER :: u16 where "NLA_F_NET_BYTEORDER = 0x4000"
definition NLMSG_ERROR :: u16 where "NLMSG_ERROR = 2"

text \<open>\<^verbatim>\<open>NLMSG_ALIGN\<close> and \<^verbatim>\<open>NLA_ALIGN\<close>, of sizes that are far below the range of \<^verbatim>\<open>size_t\<close>.\<close>

definition align4 :: "nat \<Rightarrow> nat" where
  "align4 n = (n + 3) div 4 * 4"

definition nlmsg_len :: "bool \<Rightarrow> bytes \<Rightarrow> u32 option" where
  "nlmsg_len be m = rdh32 be m 0"

definition nlmsg_type :: "bool \<Rightarrow> bytes \<Rightarrow> u16 option" where
  "nlmsg_type be m = rdh16 be m 4"

text \<open>Offsets stand for the addresses; \<open>nlmsg_data\<close> is the offset of the data.\<close>

definition nlmsg_data :: nat where
  "nlmsg_data = NLMSG_HDRLEN"

definition nlmsg_dataend :: "bool \<Rightarrow> bytes \<Rightarrow> nat option" where
  "nlmsg_dataend be m = map_option unat (nlmsg_len be m)"

text \<open>\<open>data\<close> is \<open>None\<close> for \<^verbatim>\<open>NULL\<close>. The result is the offset of the new data and the buffer.\<close>

definition nlmsg_add_data :: "bool \<Rightarrow> bytes \<Rightarrow> bytes option \<Rightarrow> nat \<Rightarrow> (nat \<times> bytes) option" where
  "nlmsg_add_data be m data datalen = do {
     p \<leftarrow> nlmsg_dataend be m;
     len \<leftarrow> nlmsg_len be m;
     m \<leftarrow> wrh32 be m 0 (len + word_of_nat (align4 datalen));
     m \<leftarrow> (case data of None \<Rightarrow> Some m | Some d \<Rightarrow> put m p d);
     Some (p, m) }"

definition nla_len_calc :: "nat \<Rightarrow> nat" where
  "nla_len_calc datalen = NLA_HDRLEN + datalen"

definition nla_size_calc :: "nat \<Rightarrow> nat" where
  "nla_size_calc datalen = NLA_HDRLEN + align4 datalen"

definition nla_data :: "nat \<Rightarrow> nat" where
  "nla_data nla = nla + NLA_HDRLEN"

definition nlmsg_add_nla :: "bool \<Rightarrow> bytes \<Rightarrow> u16 \<Rightarrow> bytes option \<Rightarrow> nat \<Rightarrow> (nat \<times> bytes) option" where
  "nlmsg_add_nla be m attrtype data datalen = do {
     (nla, m) \<leftarrow> nlmsg_add_data be m None (nla_size_calc datalen);
     m \<leftarrow> wrh16 be m nla (word_of_nat (nla_len_calc datalen));
     m \<leftarrow> wrh16 be m (nla + 2) attrtype;
     m \<leftarrow> (case data of None \<Rightarrow> Some m | Some d \<Rightarrow> put m (nla_data nla) d);
     Some (nla, m) }"

definition nlmsg_add_nest_nla :: "bool \<Rightarrow> bytes \<Rightarrow> u16 \<Rightarrow> (nat \<times> bytes) option" where
  "nlmsg_add_nest_nla be m attrtype = nlmsg_add_nla be m (or attrtype NLA_F_NESTED) None 0"

definition nlmsg_end_nest_nla :: "bool \<Rightarrow> bytes \<Rightarrow> nat \<Rightarrow> bytes option" where
  "nlmsg_end_nest_nla be m nest_nla = do {
     p \<leftarrow> nlmsg_dataend be m;
     wrh16 be m nest_nla (word_of_nat (p - nest_nla)) }"

definition nlmsg_errcode :: "bool \<Rightarrow> bytes \<Rightarrow> int option" where
  "nlmsg_errcode be m = do {
     t \<leftarrow> nlmsg_type be m;
     _ \<leftarrow> c_assert (t = NLMSG_ERROR);
     e \<leftarrow> rdh32 be m nlmsg_data;
     Some (- sint e) }"

section \<open>Lemmas on host byte order\<close>

lemma host_lengths [simp]: "length (host16 be w) = 2" "length (host32 be v) = 4"
  by (simp_all add: host16_def host32_def)

lemma be16_bytes_nths: "be16_bytes w = [be16_bytes w ! 0, be16_bytes w ! 1]"
  by (simp add: be16_bytes_def)

lemma unhost16_host16 [simp]: "unhost16 be (host16 be w) = w"
  by (simp add: unhost16_def host16_def Let_def del: One_nat_def)

lemma unhost32_host32 [simp]: "unhost32 be (host32 be w) = w"
  by (simp add: unhost32_def host32_def Let_def del: One_nat_def)

lemma rdh16_append [simp]: "rdh16 be (pre @ host16 be w @ post) (length pre) = Some w"
  by (simp add: rdh16_def slice_at_def)

lemma rdh32_append [simp]: "rdh32 be (pre @ host32 be w @ post) (length pre) = Some w"
  by (simp add: rdh32_def slice_at_def)

lemma put_at: "i = length pre \<Longrightarrow> length old = length s \<Longrightarrow> put (pre @ old @ post) i s = Some (pre @ s @ post)"
  by (simp add: put_def)

lemma wrh16_append: "i = length pre \<Longrightarrow> length old = 2 \<Longrightarrow>
    wrh16 be (pre @ old @ post) i w = Some (pre @ host16 be w @ post)"
  by (simp add: wrh16_def put_at)

lemma align4_props: "n \<le> align4 n" "align4 n < n + 4" "align4 n mod 4 = 0" "n mod 4 = 0 \<Longrightarrow> align4 n = n"
proof -
  show "n \<le> align4 n" "align4 n < n + 4" "align4 n mod 4 = 0"
    unfolding align4_def by presburger+
  show "align4 n = n" if "n mod 4 = 0" using that unfolding align4_def by presburger
qed

section \<open>The view of a message\<close>

text \<open>
  \<open>nlview be m h pl fr\<close>: the buffer is a header with the right length (\<open>h\<close> is what follows
  the length field, the extra header of netfilter included), the attributes \<open>pl\<close>, and the
  free space \<open>fr\<close>.
\<close>

definition nlview :: "bool \<Rightarrow> bytes \<Rightarrow> bytes \<Rightarrow> bytes \<Rightarrow> bytes \<Rightarrow> bool" where
  "nlview be m h pl fr \<longleftrightarrow> m = host32 be (word_of_nat (20 + length pl)) @ h @ pl @ fr \<and> length h = 16
     \<and> 20 + length pl + length fr < 65536"

lemma nlview_len:
  assumes "nlview be m h pl fr"
  shows "nlmsg_len be m = Some (word_of_nat (20 + length pl))" "nlmsg_dataend be m = Some (20 + length pl)"
    "length m = 20 + length pl + length fr"
proof -
  show *: "nlmsg_len be m = Some (word_of_nat (20 + length pl))"
    using assms rdh32_append [of be "[]"] by (simp add: nlview_def nlmsg_len_def)
  have "unat (word_of_nat (20 + length pl) :: u32) = 20 + length pl"
    using assms by (simp only: unat_of_nat nlview_def) (simp add: take_bit_nat_eq_self)
  then show "nlmsg_dataend be m = Some (20 + length pl)" using * by (simp add: nlmsg_dataend_def)
  show "length m = 20 + length pl + length fr" using assms by (simp add: nlview_def)
qed

text \<open>An attribute with the padding \<open>pad\<close> after it.\<close>

definition nla :: "bool \<Rightarrow> u16 \<Rightarrow> bytes \<Rightarrow> bytes \<Rightarrow> bytes" where
  "nla be t d pad = host16 be (word_of_nat (4 + length d)) @ host16 be t @ d @ pad"

lemma length_nla [simp]: "length (nla be t d pad) = 4 + length d + length pad"
  by (simp add: nla_def)

lemma nlmsg_add_nla_view:
  assumes v: "nlview be m h pl fr" and n: "4 + align4 n \<le> length fr"
    and d: "case data of None \<Rightarrow> d = take n (drop 4 fr) | Some x \<Rightarrow> d = x \<and> length x = n"
  shows "\<exists>m'. nlmsg_add_nla be m t data n = Some (20 + length pl, m')
    \<and> nlview be m' h (pl @ nla be t d (take (align4 n - n) (drop (4 + n) fr))) (drop (4 + align4 n) fr)"
proof -
  define pad where "pad = take (align4 n - n) (drop (4 + n) fr)"
  define rest where "rest = drop (4 + align4 n) fr"
  have al: "n \<le> align4 n" by (rule align4_props)
  have len: "length d = n" using d n al by (cases data) auto
  have padlen: "length pad = align4 n - n" using n al by (simp add: pad_def)
  define x0 where "x0 = take n (drop 4 fr)"
  have fr: "fr = take 2 fr @ take 2 (drop 2 fr) @ x0 @ pad @ rest"
  proof -
    have "drop (4 + n) fr = pad @ rest"
      using al append_take_drop_id [of "align4 n - n" "drop (4 + n) fr"] by (simp add: pad_def rest_def add.commute)
    moreover have "drop 4 fr = x0 @ drop (4 + n) fr"
      using append_take_drop_id [of n "drop 4 fr"] by (simp add: x0_def add.commute)
    moreover have "drop 2 fr = take 2 (drop 2 fr) @ drop 4 fr"
      using append_take_drop_id [of 2 "drop 2 fr"] by simp
    ultimately show ?thesis using append_take_drop_id [of 2 fr] by metis
  qed
  have lens: "length (take 2 fr) = 2" "length (take 2 (drop 2 fr)) = 2" "length x0 = n" using n al by (auto simp: x0_def)
  let ?pl' = "pl @ nla be t d pad"
  let ?L = "host32 be (word_of_nat (20 + length ?pl'))"
  let ?pre = "?L @ h @ pl"
  note vl = nlview_len [OF v]
  have m: "m = host32 be (word_of_nat (20 + length pl)) @ h @ pl @ fr" and h: "length h = 16"
    and small: "20 + length pl + length fr < 65536" using v by (auto simp: nlview_def)
  have pl': "length ?pl' = length pl + (4 + align4 n)" using len padlen al by simp
  have sum: "word_of_nat (20 + length pl) + word_of_nat (align4 (4 + align4 n)) = (word_of_nat (20 + length ?pl') :: u32)"
  proof -
    have "align4 (4 + align4 n) = 4 + align4 n" using align4_props(3) [of n] by (intro align4_props(4)) presburger
    then show ?thesis unfolding pl' by (simp only: of_nat_add [symmetric] add.assoc)
  qed
  have s1: "wrh32 be m 0 (word_of_nat (20 + length pl) + word_of_nat (align4 (4 + align4 n))) = Some (?pre @ fr)"
    unfolding sum m wrh32_def by (subst put_at [of _ "[]", simplified]) auto
  have prelen: "length ?pre = 20 + length pl" using h by simp
  have s2: "wrh16 be (?pre @ fr) (20 + length pl) (word_of_nat (4 + n))
      = Some (?pre @ host16 be (word_of_nat (4 + n)) @ take 2 (drop 2 fr) @ x0 @ pad @ rest)"
    by (subst fr, rule wrh16_append) (use prelen lens in auto)
  have s3: "wrh16 be (?pre @ host16 be (word_of_nat (4 + n)) @ take 2 (drop 2 fr) @ x0 @ pad @ rest) (20 + length pl + 2) t
      = Some ((?pre @ host16 be (word_of_nat (4 + n))) @ host16 be t @ x0 @ pad @ rest)"
    using wrh16_append [of "20 + length pl + 2" "?pre @ host16 be (word_of_nat (4 + n))" "take 2 (drop 2 fr)" be "x0 @ pad @ rest" t]
      prelen lens by simp
  let ?m' = "?pre @ host16 be (word_of_nat (4 + n)) @ host16 be t @ d @ pad @ rest"
  have s4: "(case data of None \<Rightarrow> Some ((?pre @ host16 be (word_of_nat (4 + n))) @ host16 be t @ x0 @ pad @ rest)
      | Some x \<Rightarrow> put ((?pre @ host16 be (word_of_nat (4 + n))) @ host16 be t @ x0 @ pad @ rest) (20 + length pl + 4) x)
      = Some ?m'"
  proof (cases data)
    case None
    then show ?thesis using d by (simp add: x0_def)
  next
    case (Some x)
    then show ?thesis
      using d lens prelen put_at [of "20 + length pl + 4" "?pre @ host16 be (word_of_nat (4 + n)) @ host16 be t" x0 x "pad @ rest"]
      by simp
  qed
  have "nlmsg_add_nla be m t data n = Some (20 + length pl, ?m')"
    unfolding nlmsg_add_nla_def nlmsg_add_data_def nla_size_calc_def nla_len_calc_def nla_data_def NLA_HDRLEN_def
    using vl s1 s2 s3 s4 by (simp only: Option.bind.bind_lunit option.case prod.case)
  moreover have "nlview be ?m' h ?pl' rest"
    unfolding nlview_def using h small n pl' len by (simp add: nla_def rest_def)
  ultimately show ?thesis unfolding pad_def rest_def by blast
qed

text \<open>Closing a nested attribute: its length covers everything up to the end.\<close>

lemma nlmsg_end_nest_view:
  assumes v: "nlview be m h (pl @ host16 be x @ r) fr"
  shows "\<exists>m'. nlmsg_end_nest_nla be m (20 + length pl) = Some m'
    \<and> nlview be m' h (pl @ host16 be (word_of_nat (2 + length r)) @ r) fr"
proof -
  have m: "m = (host32 be (word_of_nat (20 + length (pl @ host16 be x @ r))) @ h @ pl) @ host16 be x @ r @ fr"
    and h: "length h = 16" "20 + length (pl @ host16 be x @ r) + length fr < 65536"
    using v by (auto simp: nlview_def)
  have e: "20 + length (pl @ host16 be x @ r) - (20 + length pl) = 2 + length r" by simp
  let ?m' = "(host32 be (word_of_nat (20 + length (pl @ host16 be x @ r))) @ h @ pl)
      @ host16 be (word_of_nat (2 + length r)) @ r @ fr"
  have "nlmsg_end_nest_nla be m (20 + length pl) = Some ?m'"
    unfolding nlmsg_end_nest_nla_def using nlview_len(2) [OF v] h(1)
    by (simp only: Option.bind.bind_lunit e) (subst m, rule wrh16_append, simp_all)
  moreover have "nlview be ?m' h (pl @ host16 be (word_of_nat (2 + length r)) @ r) fr"
    using h by (simp add: nlview_def)
  ultimately show ?thesis by blast
qed

end
