(* ===== verification/Ipset_Msg.thy ===== *)
theory Ipset_Msg
  imports Netlink
begin

text \<open>
  The request messages of \<^verbatim>\<open>src/ipset.c\<close>: their sizes, the elements, the test and add
  messages of both backends, and the names they are made from. \<^verbatim>\<open>exit(1)\<close> is the value
  \<open>Exit\<close>; \<open>None\<close> stays an access outside an object. Names are C strings, lists of
  non-zero bytes.
\<close>

section \<open>Constants\<close>

definition NFPROTO_INET :: u8 where "NFPROTO_INET = 1"
definition NFPROTO_IPV4 :: u8 where "NFPROTO_IPV4 = 2"
definition NFPROTO_ARP :: u8 where "NFPROTO_ARP = 3"
definition NFPROTO_NETDEV :: u8 where "NFPROTO_NETDEV = 5"
definition NFPROTO_BRIDGE :: u8 where "NFPROTO_BRIDGE = 7"
definition NFPROTO_IPV6 :: u8 where "NFPROTO_IPV6 = 10"

definition NFNETLINK_V0 :: u8 where "NFNETLINK_V0 = 0"

definition AF_UNSPEC :: u8 where "AF_UNSPEC = 0"
definition AF_INET :: u8 where "AF_INET = 2"
definition AF_INET6 :: u8 where "AF_INET6 = 10"

definition NLM_F_REQUEST :: u16 where "NLM_F_REQUEST = 1"
definition NLM_F_ACK :: u16 where "NLM_F_ACK = 4"

definition IPSET_MAXNAMELEN :: nat where "IPSET_MAXNAMELEN = 32"
definition NFT_NAME_MAXLEN :: nat where "NFT_NAME_MAXLEN = 256"
definition NFT_FAMILY_MAXLEN :: nat where "NFT_FAMILY_MAXLEN = 7"
definition NAME_MAXLEN :: nat where "NAME_MAXLEN = NFT_FAMILY_MAXLEN + NFT_NAME_MAXLEN + NFT_NAME_MAXLEN"

definition NFNL_MSG_BATCH_BEGIN :: u16 where "NFNL_MSG_BATCH_BEGIN = 16"
definition NFNL_MSG_BATCH_END :: u16 where "NFNL_MSG_BATCH_END = 17"
definition NFNL_SUBSYS_IPSET :: u16 where "NFNL_SUBSYS_IPSET = 6"
definition IPSET_CMD_TEST :: u16 where "IPSET_CMD_TEST = 11"
definition IPSET_CMD_ADD :: u16 where "IPSET_CMD_ADD = 9"
definition NFNL_SUBSYS_NFTABLES :: u16 where "NFNL_SUBSYS_NFTABLES = 10"
definition NFT_MSG_GETSETELEM :: u16 where "NFT_MSG_GETSETELEM = 13"
definition NFT_MSG_NEWSETELEM :: u16 where "NFT_MSG_NEWSETELEM = 12"

definition IPSET_ATTR_PROTOCOL :: u16 where "IPSET_ATTR_PROTOCOL = 1"
definition IPSET_ATTR_SETNAME :: u16 where "IPSET_ATTR_SETNAME = 2"
definition IPSET_ATTR_LINENO :: u16 where "IPSET_ATTR_LINENO = 9"
definition IPSET_ATTR_ADT :: u16 where "IPSET_ATTR_ADT = 8"
definition IPSET_ATTR_DATA :: u16 where "IPSET_ATTR_DATA = 7"
definition IPSET_ATTR_IP :: u16 where "IPSET_ATTR_IP = 1"
definition IPSET_ATTR_IPADDR_IPV4 :: u16 where "IPSET_ATTR_IPADDR_IPV4 = 1"
definition IPSET_ATTR_IPADDR_IPV6 :: u16 where "IPSET_ATTR_IPADDR_IPV6 = 2"
definition NFTA_SET_ELEM_LIST_TABLE :: u16 where "NFTA_SET_ELEM_LIST_TABLE = 1"
definition NFTA_SET_ELEM_LIST_SET :: u16 where "NFTA_SET_ELEM_LIST_SET = 2"
definition NFTA_SET_ELEM_LIST_ELEMENTS :: u16 where "NFTA_SET_ELEM_LIST_ELEMENTS = 3"
definition NFTA_LIST_ELEM :: u16 where "NFTA_LIST_ELEM = 1"
definition NFTA_SET_ELEM_KEY :: u16 where "NFTA_SET_ELEM_KEY = 1"
definition NFTA_SET_ELEM_FLAGS :: u16 where "NFTA_SET_ELEM_FLAGS = 3"
definition NFTA_DATA_VALUE :: u16 where "NFTA_DATA_VALUE = 1"
definition IPSET_PROTOCOL :: u8 where "IPSET_PROTOCOL = 6"
definition NFT_SET_ELEM_INTERVAL_END :: u32 where "NFT_SET_ELEM_INTERVAL_END = 1"
definition IPSET_ERR_EXIST :: int where "IPSET_ERR_EXIST = 4103"

definition IP_N :: nat where "IP_N = 10"
definition IOV_N :: nat where "IOV_N = max (IP_N * 2) (2 + IP_N + 1) * 2"
definition MSG_N :: nat where "MSG_N = IP_N * 2"

definition HEADER_SIZE :: nat where "HEADER_SIZE = 20"

definition iplen :: "bool \<Rightarrow> nat" where
  "iplen v4 = (if v4 then IPV4_LEN else IPV6_LEN)"

definition BUFSZ_TEST_IPSET :: "bool \<Rightarrow> nat" where
  "BUFSZ_TEST_IPSET v4 = HEADER_SIZE + nla_size_calc 1 + nla_size_calc IPSET_MAXNAMELEN
     + NLA_HDRLEN + NLA_HDRLEN + nla_size_calc (iplen v4)"

definition BUFSZ_ADD_IPSET :: "bool \<Rightarrow> nat" where
  "BUFSZ_ADD_IPSET v4 = HEADER_SIZE + nla_size_calc 1 + nla_size_calc IPSET_MAXNAMELEN + nla_size_calc 4
     + NLA_HDRLEN + IP_N * (NLA_HDRLEN + NLA_HDRLEN + nla_size_calc (iplen v4))"

definition BUFSZ_TEST_NFTSET :: "bool \<Rightarrow> nat" where
  "BUFSZ_TEST_NFTSET v4 = HEADER_SIZE + nla_size_calc NFT_NAME_MAXLEN + nla_size_calc NFT_NAME_MAXLEN
     + NLA_HDRLEN + NLA_HDRLEN + NLA_HDRLEN + nla_size_calc (iplen v4)"

definition BUFSZ_ADD_NFTSET :: "bool \<Rightarrow> nat" where
  "BUFSZ_ADD_NFTSET v4 = HEADER_SIZE + nla_size_calc NFT_NAME_MAXLEN + nla_size_calc NFT_NAME_MAXLEN + NLA_HDRLEN
     + IP_N * (NLA_HDRLEN + NLA_HDRLEN + nla_size_calc (iplen v4)
         + NLA_HDRLEN + nla_size_calc 4 + NLA_HDRLEN + nla_size_calc (iplen v4))"

definition BUFSZ_TEST :: "bool \<Rightarrow> bool \<Rightarrow> nat" where
  "BUFSZ_TEST is_ipset v4 = (if is_ipset then BUFSZ_TEST_IPSET v4 else BUFSZ_TEST_NFTSET v4)"

definition BUFSZ_ADD :: "bool \<Rightarrow> bool \<Rightarrow> nat" where
  "BUFSZ_ADD is_ipset v4 = (if is_ipset then BUFSZ_ADD_IPSET v4 else BUFSZ_ADD_NFTSET v4)"

text \<open>\<^verbatim>\<open>NLMSG_SPACE(sizeof(struct nlmsgerr))\<close>: an error number and the header it answers.\<close>

definition NLMSGERR_SPACE :: nat where "NLMSGERR_SPACE = align4 (NLMSG_HDRLEN + (4 + 16))"

definition BUFSZ_RES :: nat where "BUFSZ_RES = NLMSGERR_SPACE * IP_N * 2"

section \<open>Header and elements\<close>

definition init_header :: "bool \<Rightarrow> u32 \<Rightarrow> bytes \<Rightarrow> u16 \<Rightarrow> u16 \<Rightarrow> u8 \<Rightarrow> u16 \<Rightarrow> bytes option" where
  "init_header be s_portid m type flags family resid = do {
     m \<leftarrow> wrh32 be m 0 (word_of_nat HEADER_SIZE);
     m \<leftarrow> wrh16 be m 4 type;
     m \<leftarrow> wrh16 be m 6 flags;
     m \<leftarrow> wrh32 be m 8 0;
     m \<leftarrow> wrh32 be m 12 s_portid;
     m \<leftarrow> wr8 m 16 family;
     m \<leftarrow> wr8 m 17 NFNETLINK_V0;
     wr16 m 18 resid }"

definition add_elem_ipset :: "bool \<Rightarrow> bytes \<Rightarrow> bytes option \<Rightarrow> bool \<Rightarrow> (nat \<times> bytes) option" where
  "add_elem_ipset be m ip v4 = do {
     let attrtype = or (if v4 then IPSET_ATTR_IPADDR_IPV4 else IPSET_ATTR_IPADDR_IPV6) NLA_F_NET_BYTEORDER;
     (data_nla, m) \<leftarrow> nlmsg_add_nest_nla be m IPSET_ATTR_DATA;
     (ip_nla, m) \<leftarrow> nlmsg_add_nest_nla be m IPSET_ATTR_IP;
     (addr_nla, m) \<leftarrow> nlmsg_add_nla be m attrtype ip (iplen v4);
     m \<leftarrow> nlmsg_end_nest_nla be m ip_nla;
     m \<leftarrow> nlmsg_end_nest_nla be m data_nla;
     Some (addr_nla, m) }"

definition add_elem_nftset :: "bool \<Rightarrow> bytes \<Rightarrow> bytes option \<Rightarrow> bool \<Rightarrow> u32 \<Rightarrow> (nat \<times> bytes) option" where
  "add_elem_nftset be m ip v4 flags = do {
     (elem_nla, m) \<leftarrow> nlmsg_add_nest_nla be m NFTA_LIST_ELEM;
     m \<leftarrow> (if flags \<noteq> 0 then map_option snd (nlmsg_add_nla be m NFTA_SET_ELEM_FLAGS (Some (be32_bytes flags)) 4) else Some m);
     (key_nla, m) \<leftarrow> nlmsg_add_nest_nla be m NFTA_SET_ELEM_KEY;
     (data_nla, m) \<leftarrow> nlmsg_add_nla be m (or NFTA_DATA_VALUE NLA_F_NET_BYTEORDER) ip (iplen v4);
     m \<leftarrow> nlmsg_end_nest_nla be m key_nla;
     m \<leftarrow> nlmsg_end_nest_nla be m elem_nla;
     Some (data_nla, m) }"

section \<open>Messages of the ipset backend\<close>

definition get_namelen_ipset :: "bytes \<Rightarrow> nat run" where
  "get_namelen_ipset name =
     (let namelen = length name
      in if namelen < 1 \<or> namelen > IPSET_MAXNAMELEN - 1 then Exit else Run namelen)"

definition init_testmsg_ipset :: "bool \<Rightarrow> u32 \<Rightarrow> bytes \<Rightarrow> bytes \<Rightarrow> bool \<Rightarrow> bool \<Rightarrow> bytes run option" where
  "init_testmsg_ipset be s_portid m name v4 ack = do {
     let type = or (push_bit 8 NFNL_SUBSYS_IPSET) IPSET_CMD_TEST;
     let flags = or NLM_F_REQUEST (if ack then NLM_F_ACK else 0);
     m \<leftarrow> init_header be s_portid m type flags (if v4 then AF_INET else AF_INET6) 0;
     (_, m) \<leftarrow> nlmsg_add_nla be m IPSET_ATTR_PROTOCOL (Some [IPSET_PROTOCOL]) 1;
     case get_namelen_ipset name of
       Exit \<Rightarrow> Some Exit
     | Run namelen \<Rightarrow> do {
         (_, m) \<leftarrow> nlmsg_add_nla be m IPSET_ATTR_SETNAME (Some (name @ [0])) (namelen + 1);
         (_, m) \<leftarrow> add_elem_ipset be m None v4;
         Some (Run m) } }"

definition init_addmsg_ipset :: "bool \<Rightarrow> u32 \<Rightarrow> bytes \<Rightarrow> bytes \<Rightarrow> bool \<Rightarrow> bytes run option" where
  "init_addmsg_ipset be s_portid m name v4 = do {
     let type = or (push_bit 8 NFNL_SUBSYS_IPSET) IPSET_CMD_ADD;
     let flags = NLM_F_REQUEST;
     m \<leftarrow> init_header be s_portid m type flags (if v4 then AF_INET else AF_INET6) 0;
     (_, m) \<leftarrow> nlmsg_add_nla be m IPSET_ATTR_PROTOCOL (Some [IPSET_PROTOCOL]) 1;
     case get_namelen_ipset name of
       Exit \<Rightarrow> Some Exit
     | Run namelen \<Rightarrow> do {
         (_, m) \<leftarrow> nlmsg_add_nla be m IPSET_ATTR_SETNAME (Some (name @ [0])) (namelen + 1);
         (_, m) \<leftarrow> nlmsg_add_nla be m IPSET_ATTR_LINENO (Some (host32 be 0)) 4;
         (_, m) \<leftarrow> nlmsg_add_nest_nla be m IPSET_ATTR_ADT;
         Some (Run m) } }"

section \<open>Names\<close>

definition AT_SIGN :: u8 where "AT_SIGN = 64"
definition COMMA :: u8 where "COMMA = 44"
definition NULL_NAME :: bytes where "NULL_NAME = [110, 117, 108, 108]"

text \<open>\<^verbatim>\<open>memcpy(p, start, len); p[len] = 0\<close> on an array of \<open>cap\<close> bytes; the string stored.\<close>

definition copy_str :: "nat \<Rightarrow> bytes \<Rightarrow> bytes option" where
  "copy_str cap s = (if length s + 1 \<le> cap then Some s else None)"

text \<open>The comparisons of the family name.\<close>

definition nft_family :: "bytes \<Rightarrow> u8 option" where
  "nft_family s =
     (if s = [105, 112] then Some NFPROTO_IPV4
      else if s = [105, 112, 54] then Some NFPROTO_IPV6
      else if s = [105, 110, 101, 116] then Some NFPROTO_INET
      else if s = [97, 114, 112] then Some NFPROTO_ARP
      else if s = [98, 114, 105, 100, 103, 101] then Some NFPROTO_BRIDGE
      else if s = [110, 101, 116, 100, 101, 118] then Some NFPROTO_NETDEV
      else None)"

text \<open>
  The loop of \<open>parse_name_nftset\<close>; \<open>out\<close> is what \<^verbatim>\<open>*p_family\<close>, \<open>table_name\<close> and
  \<open>set_name\<close> hold.
\<close>

partial_function (option) parse_name_nftset_loop :: "bytes \<Rightarrow> nat \<Rightarrow> nat \<Rightarrow> u8 \<times> bytes \<times> bytes
    \<Rightarrow> (u8 \<times> bytes \<times> bytes) run option" where
  "parse_name_nftset_loop name start n out =
     (if start < length name then do {
        r \<leftarrow> memchr name start (length name - start) AT_SIGN;
        let end = (case r of None \<Rightarrow> length name | Some p \<Rightarrow> p);
        let n = n + 1;
        let part = take (end - start) (drop start name);
        let len = end - start;
        let next = (if end < length name then end + 1 else length name);
        if n = 1 then
          if len > NFT_FAMILY_MAXLEN - 1 then Some Exit
          else do {
            family \<leftarrow> copy_str NFT_FAMILY_MAXLEN part;
            case nft_family family of
              None \<Rightarrow> Some Exit
            | Some f \<Rightarrow> parse_name_nftset_loop name next n (f, snd out) }
        else if n \<le> 3 then
          if len < 1 \<or> len > NFT_NAME_MAXLEN - 1 then Some Exit
          else do {
            p \<leftarrow> copy_str NFT_NAME_MAXLEN part;
            parse_name_nftset_loop name next n
              (if n = 2 then (fst out, p, snd (snd out)) else (fst out, fst (snd out), p)) }
        else Some Exit }
      else if n \<noteq> 3 then Some Exit
      else Some (Run out))"

definition parse_name_nftset :: "bytes \<Rightarrow> (u8 \<times> bytes \<times> bytes) run option" where
  "parse_name_nftset name = parse_name_nftset_loop name 0 0 (0, [], [])"

definition parse_name46 :: "bytes \<Rightarrow> (bytes \<times> bytes) run option" where
  "parse_name46 input = do {
     let input_len = length input;
     r \<leftarrow> memchr input 0 input_len COMMA;
     let sep = (case r of None \<Rightarrow> input_len | Some p \<Rightarrow> p);
     let start = take sep input;
     let len = sep;
     name4 \<leftarrow> (if len = 4 \<and> start = NULL_NAME then Some (Run [])
       else if len < 1 \<or> len > NAME_MAXLEN - 1 then Some Exit
       else map_option Run (copy_str NAME_MAXLEN start));
     case name4 of
       Exit \<Rightarrow> Some Exit
     | Run name4 \<Rightarrow> do {
         let start = drop (sep + 1) input;
         let len = input_len - (sep + 1);
         name6 \<leftarrow> (if sep = input_len \<or> (len = 4 \<and> start = NULL_NAME) then Some (Run [])
           else if len < 1 \<or> len > NAME_MAXLEN - 1 then Some Exit
           else map_option Run (copy_str NAME_MAXLEN start));
         case name6 of
           Exit \<Rightarrow> Some Exit
         | Run name6 \<Rightarrow> if name4 \<noteq> [] \<or> name6 \<noteq> [] then Some (Run (name4, name6)) else Some Exit } }"

section \<open>Messages of the nftset backend\<close>

definition init_testmsg_nftset :: "bool \<Rightarrow> u32 \<Rightarrow> bytes \<Rightarrow> bytes \<Rightarrow> bool \<Rightarrow> bytes run option" where
  "init_testmsg_nftset be s_portid m name v4 = do {
     r \<leftarrow> parse_name_nftset name;
     case r of
       Exit \<Rightarrow> Some Exit
     | Run (family, table_name, set_name) \<Rightarrow> do {
         let type = or (push_bit 8 NFNL_SUBSYS_NFTABLES) NFT_MSG_GETSETELEM;
         let flags = NLM_F_REQUEST;
         m \<leftarrow> init_header be s_portid m type flags family 0;
         (_, m) \<leftarrow> nlmsg_add_nla be m NFTA_SET_ELEM_LIST_TABLE (Some (table_name @ [0])) (length table_name + 1);
         (_, m) \<leftarrow> nlmsg_add_nla be m NFTA_SET_ELEM_LIST_SET (Some (set_name @ [0])) (length set_name + 1);
         (elems_nla, m) \<leftarrow> nlmsg_add_nest_nla be m NFTA_SET_ELEM_LIST_ELEMENTS;
         (_, m) \<leftarrow> add_elem_nftset be m None v4 0;
         m \<leftarrow> nlmsg_end_nest_nla be m elems_nla;
         Some (Run m) } }"

definition init_addmsg_nftset :: "bool \<Rightarrow> u32 \<Rightarrow> bytes \<Rightarrow> bytes \<Rightarrow> bool \<Rightarrow> bytes run option" where
  "init_addmsg_nftset be s_portid m name v4 = do {
     r \<leftarrow> parse_name_nftset name;
     case r of
       Exit \<Rightarrow> Some Exit
     | Run (family, table_name, set_name) \<Rightarrow> do {
         let type = or (push_bit 8 NFNL_SUBSYS_NFTABLES) NFT_MSG_NEWSETELEM;
         let flags = NLM_F_REQUEST;
         m \<leftarrow> init_header be s_portid m type flags family 0;
         (_, m) \<leftarrow> nlmsg_add_nla be m NFTA_SET_ELEM_LIST_TABLE (Some (table_name @ [0])) (length table_name + 1);
         (_, m) \<leftarrow> nlmsg_add_nla be m NFTA_SET_ELEM_LIST_SET (Some (set_name @ [0])) (length set_name + 1);
         (_, m) \<leftarrow> nlmsg_add_nest_nla be m NFTA_SET_ELEM_LIST_ELEMENTS;
         Some (Run m) } }"

end
