(* ===== verification/Ipset_Err.thy ===== *)
theory Ipset_Err
  imports Ipset_Msg
begin

text \<open>
  The error codes of the ipset subsystem of the kernel and their names in log messages
  (\<^verbatim>\<open>ipset_strerror\<close> in \<^verbatim>\<open>src/ipset.c\<close>). The names of all other codes are those of the
  library function \<^verbatim>\<open>strerror\<close>, an argument.
\<close>

definition IPSET_ERRORS :: "(int \<times> string) list" where
  "IPSET_ERRORS =
    [(4097, ''IPSET_ERR_PROTOCOL''),
     (4098, ''IPSET_ERR_FIND_TYPE''),
     (4099, ''IPSET_ERR_MAX_SETS''),
     (4100, ''IPSET_ERR_BUSY''),
     (4101, ''IPSET_ERR_EXIST_SETNAME2''),
     (4102, ''IPSET_ERR_TYPE_MISMATCH''),
     (4103, ''IPSET_ERR_EXIST''),
     (4104, ''IPSET_ERR_INVALID_CIDR''),
     (4105, ''IPSET_ERR_INVALID_NETMASK''),
     (4106, ''IPSET_ERR_INVALID_FAMILY''),
     (4107, ''IPSET_ERR_TIMEOUT''),
     (4108, ''IPSET_ERR_REFERENCED''),
     (4109, ''IPSET_ERR_IPADDR_IPV4''),
     (4110, ''IPSET_ERR_IPADDR_IPV6''),
     (4111, ''IPSET_ERR_COUNTER''),
     (4112, ''IPSET_ERR_COMMENT''),
     (4113, ''IPSET_ERR_INVALID_MARKMASK''),
     (4114, ''IPSET_ERR_SKBINFO''),
     (4115, ''IPSET_ERR_BITMASK_NETMASK_EXCL''),
     (4352, ''IPSET_ERR_HASH_FULL''),
     (4353, ''IPSET_ERR_HASH_ELEM''),
     (4354, ''IPSET_ERR_INVALID_PROTO''),
     (4355, ''IPSET_ERR_MISSING_PROTO''),
     (4356, ''IPSET_ERR_HASH_RANGE_UNSUPPORTED''),
     (4357, ''IPSET_ERR_HASH_RANGE'')]"

definition ipset_strerror :: "(int \<Rightarrow> string) \<Rightarrow> int \<Rightarrow> string" where
  "ipset_strerror strerror errcode =
     (case map_of IPSET_ERRORS errcode of Some name \<Rightarrow> name | None \<Rightarrow> strerror errcode)"

text \<open>No two cases of the switch have the same code, and no two codes have the same name.\<close>

lemma IPSET_ERRORS_distinct: "distinct (map fst IPSET_ERRORS)" "distinct (map snd IPSET_ERRORS)"
  by code_simp+

lemma ipset_strerror_named: "(errcode, name) \<in> set IPSET_ERRORS \<Longrightarrow> ipset_strerror strerror errcode = name"
  using IPSET_ERRORS_distinct(1) by (simp add: ipset_strerror_def)

text \<open>The codes of the system (errno), below 4096, keep the names of the library.\<close>

lemma ipset_strerror_errno:
  assumes "errcode < 4096"
  shows "ipset_strerror strerror errcode = strerror errcode"
proof -
  have "list_all (\<lambda>e. 4096 \<le> fst e) IPSET_ERRORS" by code_simp
  then have "map_of IPSET_ERRORS errcode = None"
    using assms by (auto simp: map_of_eq_None_iff list_all_iff)
  then show ?thesis by (simp add: ipset_strerror_def)
qed

text \<open>The one code that is an answer and not an error when an address is looked up.\<close>

lemma ipset_strerror_exist: "ipset_strerror strerror IPSET_ERR_EXIST = ''IPSET_ERR_EXIST''"
  by (rule ipset_strerror_named) (simp add: IPSET_ERR_EXIST_def IPSET_ERRORS_def)

end
