(* ===== verification/Ipset_Name.thy ===== *)
theory Ipset_Name
  imports Ipset_Msg
begin

text \<open>
  What the set names of \<^verbatim>\<open>src/ipset.c\<close> mean: \<open>parse_name46\<close> splits the option value into
  the IPv4 and the IPv6 set, \<open>parse_name_nftset\<close> splits an nft set name into family, table and
  set. Both are shown to compute the parts between the separators, to stay inside their arrays
  and to stop the program on every other input.
\<close>

section \<open>parse_name_nftset\<close>

text \<open>The parts of a name between the \<^verbatim>\<open>@\<close> signs; one at the very end closes the last part.\<close>

function at_parts :: "bytes \<Rightarrow> bytes list" where
  "at_parts s = (if s = [] then [] else takeWhile (\<lambda>b. b \<noteq> AT_SIGN) s # at_parts (drop 1 (dropWhile (\<lambda>b. b \<noteq> AT_SIGN) s)))"
  by pat_completeness auto
termination
proof (relation "measure length")
  fix s :: bytes
  assume "s \<noteq> []"
  then have "0 < length s" "length (dropWhile (\<lambda>b. b \<noteq> AT_SIGN) s) \<le> length s"
    using length_dropWhile_le by auto
  then show "(drop 1 (dropWhile (\<lambda>b. b \<noteq> AT_SIGN) s), s) \<in> measure length"
    by (simp only: in_measure length_drop)
qed simp

declare at_parts.simps [simp del]

lemma memchr_first:
  assumes "start \<le> length m"
  shows "memchr m start (length m - start) c
    = Some (if c \<in> set (drop start m) then Some (start + length (takeWhile (\<lambda>b. b \<noteq> c) (drop start m))) else None)"
proof (cases "c \<in> set (drop start m)")
  case False
  then have "memchr m start (length m - start) c = Some None"
    using assms by (subst memchr_None) auto
  then show ?thesis using False by simp
next
  case True
  let ?w = "takeWhile (\<lambda>b. b \<noteq> c) (drop start m)" and ?r = "dropWhile (\<lambda>b. b \<noteq> c) (drop start m)"
  have ne: "?r \<noteq> []" using True by (auto simp: dropWhile_eq_Nil_conv)
  have "hd ?r = c" using hd_dropWhile [OF ne] by simp
  then obtain post where post: "?r = c # post" using ne by (cases ?r) auto
  have split: "m = take start m @ ?w @ c # post"
    using post append_take_drop_id [of start m] takeWhile_dropWhile_id [of "\<lambda>b. b \<noteq> c" "drop start m"] by metis
  have "length m = start + length ?w + Suc (length post)"
    using arg_cong [OF split, of length] assms by simp
  moreover have "c \<notin> set ?w" by (auto dest: set_takeWhileD)
  ultimately have "memchr (take start m @ ?w @ c # post) (length (take start m)) (length m - start) c
      = Some (Some (length (take start m) + length ?w))"
    by (intro memchr_append) auto
  then have "memchr m start (length m - start) c = Some (Some (start + length ?w))"
    using assms by (simp only: split [symmetric]) simp
  then show ?thesis using True by simp
qed

text \<open>What the loop does with the parts that are left, \<open>n\<close> of them being done.\<close>

fun nft_parts :: "nat \<Rightarrow> u8 \<times> bytes \<times> bytes \<Rightarrow> bytes list \<Rightarrow> (u8 \<times> bytes \<times> bytes) run" where
  "nft_parts n out [] = (if n = 3 then Run out else Exit)"
| "nft_parts n (f, t, s) (p # ps) =
     (if n = 0 then (case nft_family p of None \<Rightarrow> Exit | Some f \<Rightarrow> nft_parts 1 (f, t, s) ps)
      else if n < 3 \<and> 1 \<le> length p \<and> length p \<le> 255
      then nft_parts (n + 1) (if n = 1 then (f, p, s) else (f, t, p)) ps
      else Exit)"

lemma nft_family_length: "nft_family p = Some f \<Longrightarrow> length p \<le> 6"
  by (auto simp: nft_family_def split: if_splits)

lemma parse_name_nftset_loop_eq:
  assumes "start \<le> length name"
  shows "parse_name_nftset_loop name start n (f, t, s) = Some (nft_parts n (f, t, s) (at_parts (drop start name)))"
  using assms
proof (induction "length name - start" arbitrary: start n f t s rule: less_induct)
  case less
  show ?case
  proof (cases "start < length name")
    case False
    then show ?thesis
      using less.prems by (subst parse_name_nftset_loop.simps) (simp add: at_parts.simps)
  next
    case True
    define p where "p = takeWhile (\<lambda>b. b \<noteq> AT_SIGN) (drop start name)"
    define e where "e = (if AT_SIGN \<in> set (drop start name) then start + length p else length name)"
    define next' where "next' = (if e < length name then e + 1 else length name)"
    have mem: "memchr name start (length name - start) AT_SIGN
        = Some (if AT_SIGN \<in> set (drop start name) then Some (start + length p) else None)"
      unfolding p_def using less.prems by (rule memchr_first)
    have e': "(case if AT_SIGN \<in> set (drop start name) then Some (start + length p) else None of
        None \<Rightarrow> length name | Some x \<Rightarrow> x) = e" by (simp add: e_def)
    have est: "e = start + length p"
    proof (cases "AT_SIGN \<in> set (drop start name)")
      case False
      then have "p = drop start name" unfolding p_def by (subst takeWhile_eq_all_conv) auto
      then show ?thesis using False less.prems by (simp add: e_def)
    qed (simp add: e_def)
    then have plen: "e - start = length p" by simp
    have part: "take (e - start) (drop start name) = p"
      unfolding plen unfolding p_def by (rule takeWhile_eq_take [symmetric])
    have le: "e \<le> length name"
      using length_takeWhile_le [of "\<lambda>b. b \<noteq> AT_SIGN" "drop start name"] less.prems by (auto simp: e_def p_def)
    have rest: "drop next' name = drop 1 (dropWhile (\<lambda>b. b \<noteq> AT_SIGN) (drop start name))"
    proof -
      have d: "dropWhile (\<lambda>b. b \<noteq> AT_SIGN) (drop start name) = drop e name"
        unfolding est by (simp only: dropWhile_eq_drop p_def [symmetric] drop_drop add.commute)
      show ?thesis unfolding d using le by (simp add: next'_def)
    qed
    have next': "start < next'" "next' \<le> length name"
      using True le by (auto simp: next'_def e_def)
    have parts: "at_parts (drop start name) = p # at_parts (drop next' name)"
      using True by (subst at_parts.simps) (simp add: p_def rest)
    have IH: "parse_name_nftset_loop name next' n (f, t, s) = Some (nft_parts n (f, t, s) (at_parts (drop next' name)))" for n f t s
      using next' True by (intro less.hyps) auto
    have step: "parse_name_nftset_loop name start n (f, t, s) =
      (if n + 1 = 1 then
         if length p > NFT_FAMILY_MAXLEN - 1 then Some Exit
         else do {
           family \<leftarrow> copy_str NFT_FAMILY_MAXLEN p;
           case nft_family family of
             None \<Rightarrow> Some Exit
           | Some f \<Rightarrow> parse_name_nftset_loop name next' (n + 1) (f, t, s) }
       else if n + 1 \<le> 3 then
         if length p < 1 \<or> length p > NFT_NAME_MAXLEN - 1 then Some Exit
         else do {
           p \<leftarrow> copy_str NFT_NAME_MAXLEN p;
           parse_name_nftset_loop name next' (n + 1) (if n + 1 = 2 then (f, p, s) else (f, t, p)) }
       else Some Exit)"
      using True
      by (subst parse_name_nftset_loop.simps)
        (simp only: if_True mem Option.bind.bind_lunit Let_def e' plen part [unfolded plen] next'_def [symmetric] fst_conv snd_conv)
    consider "n = 0" | "n = 1" | "n = 2" | "3 \<le> n" by linarith
    then show ?thesis
    proof cases
      case 1
      show ?thesis
      proof (cases "nft_family p")
        case None
        then show ?thesis unfolding step parts using 1 by (simp add: copy_str_def NFT_FAMILY_MAXLEN_def)
      next
        case (Some g)
        then have "length p \<le> 6" by (rule nft_family_length)
        then show ?thesis unfolding step parts using 1 Some by (simp add: copy_str_def NFT_FAMILY_MAXLEN_def IH)
      qed
    next
      case 2
      then show ?thesis unfolding step parts by (simp add: copy_str_def NFT_NAME_MAXLEN_def IH Suc_le_eq numeral_2_eq_2)
    next
      case 3
      then show ?thesis unfolding step parts by (simp add: copy_str_def NFT_NAME_MAXLEN_def IH Suc_le_eq)
    next
      case 4
      then show ?thesis unfolding step parts by simp
    qed
  qed
qed

lemma parse_name_nftset_eq:
  "parse_name_nftset name = Some (case at_parts name of
      [family, table, sname] \<Rightarrow>
        (case nft_family family of
           None \<Rightarrow> Exit
         | Some f \<Rightarrow> if length table \<in> {1 .. 255} \<and> length sname \<in> {1 .. 255} then Run (f, table, sname) else Exit)
    | _ \<Rightarrow> Exit)"
  unfolding parse_name_nftset_def
  by (subst parse_name_nftset_loop_eq) (auto split: list.splits option.splits simp: numeral_2_eq_2 numeral_3_eq_3)

text \<open>
  C34: \<open>parse_name_nftset\<close> accepts a name exactly when it has the three parts family, table and
  set, the family being one of nft's six and the two names having 1 to 255 bytes, and stores
  exactly these parts; every other name ends the program. It never reads behind the name or
  writes behind its three arrays, and its loop ends. (A single \<^verbatim>\<open>@\<close> after the third part is
  accepted too: it closes the part.)
\<close>

theorem parse_name_nftset_correct:
  "parse_name_nftset name = Some (case at_parts name of
      [family, table, sname] \<Rightarrow>
        (case nft_family family of
           None \<Rightarrow> Exit
         | Some f \<Rightarrow> if length table \<in> {1 .. 255} \<and> length sname \<in> {1 .. 255} then Run (f, table, sname) else Exit)
    | _ \<Rightarrow> Exit)"
  by (rule parse_name_nftset_eq)

section \<open>parse_name46\<close>

lemma parse_name46_eq:
  "parse_name46 input =
    (let part4 = takeWhile (\<lambda>b. b \<noteq> COMMA) input; part6 = drop (length part4 + 1) input;
         ok = (\<lambda>p. 1 \<le> length p \<and> length p \<le> 518);
         name = (\<lambda>p. if p = NULL_NAME then [] else p);
         name6 = (if COMMA \<in> set input then name part6 else [])
     in Some (if ok part4 \<and> (COMMA \<in> set input \<longrightarrow> ok part6) \<and> (name part4 \<noteq> [] \<or> name6 \<noteq> [])
              then Run (name part4, name6) else Exit))"
proof -
  define part4 where "part4 = takeWhile (\<lambda>b. b \<noteq> COMMA) input"
  define part6 where "part6 = drop (length part4 + 1) input"
  have mem: "memchr input 0 (length input) COMMA = Some (if COMMA \<in> set input then Some (length part4) else None)"
    using memchr_first [of 0 input COMMA] by (simp add: part4_def)
  have t4: "take (length part4) input = part4" unfolding part4_def by (rule takeWhile_eq_take [symmetric])
  have all: "length part4 = length input \<longleftrightarrow> COMMA \<notin> set input"
  proof
    assume "length part4 = length input"
    then have "part4 = input" using t4 by simp
    then show "COMMA \<notin> set input" unfolding part4_def takeWhile_eq_all_conv by blast
  next
    assume "COMMA \<notin> set input"
    then have "part4 = input" unfolding part4_def takeWhile_eq_all_conv by blast
    then show "length part4 = length input" by simp
  qed
  have sep: "(case if COMMA \<in> set input then Some (length part4) else None of None \<Rightarrow> length input | Some p \<Rightarrow> p) = length part4"
    using all by auto
  have len6: "length input - (length part4 + 1) = length part6" by (simp add: part6_def)
  have null: "p = NULL_NAME \<longleftrightarrow> length p = 4 \<and> p = NULL_NAME" for p by (auto simp: NULL_NAME_def)
  have ne: "NULL_NAME \<noteq> []" by (simp add: NULL_NAME_def)
  have "parse_name46 input =
    (case (if part4 = NULL_NAME then Run [] else if length part4 < 1 \<or> length part4 > 518 then Exit else Run part4) of
       Exit \<Rightarrow> Some Exit
     | Run name4 \<Rightarrow>
         (case (if COMMA \<notin> set input \<or> part6 = NULL_NAME then Run []
                else if length part6 < 1 \<or> length part6 > 518 then Exit else Run part6) of
            Exit \<Rightarrow> Some Exit
          | Run name6 \<Rightarrow> if name4 \<noteq> [] \<or> name6 \<noteq> [] then Some (Run (name4, name6)) else Some Exit))"
    unfolding parse_name46_def Let_def mem Option.bind.bind_lunit sep t4 all part6_def [symmetric] len6
    using null [of part4] null [of part6]
    by (simp add: copy_str_def NAME_MAXLEN_def NFT_FAMILY_MAXLEN_def NFT_NAME_MAXLEN_def)
  also have "\<dots> = (let ok = (\<lambda>p. 1 \<le> length p \<and> length p \<le> 518);
         name = (\<lambda>p. if p = NULL_NAME then [] else p);
         name6 = (if COMMA \<in> set input then name part6 else [])
     in Some (if ok part4 \<and> (COMMA \<in> set input \<longrightarrow> ok part6) \<and> (name part4 \<noteq> [] \<or> name6 \<noteq> [])
              then Run (name part4, name6) else Exit))"
    by (auto simp: NULL_NAME_def Let_def Suc_le_eq split: if_splits)
  finally show ?thesis by (simp only: Let_def part4_def part6_def)
qed

text \<open>
  \<open>parse_name46\<close> splits at the first comma into the name of the IPv4 and the name of the
  IPv6 set, the second being absent without a comma; \<^verbatim>\<open>null\<close> stands for no set. It accepts
  exactly the values whose parts fit the name buffers and are not empty, and that name at least
  one set; otherwise the program ends.
\<close>

lemma parse_name46_correct:
  "parse_name46 input =
    (let part4 = takeWhile (\<lambda>b. b \<noteq> COMMA) input; part6 = drop (length part4 + 1) input;
         ok = (\<lambda>p. 1 \<le> length p \<and> length p \<le> 518);
         name = (\<lambda>p. if p = NULL_NAME then [] else p);
         name6 = (if COMMA \<in> set input then name part6 else [])
     in Some (if ok part4 \<and> (COMMA \<in> set input \<longrightarrow> ok part6) \<and> (name part4 \<noteq> [] \<or> name6 \<noteq> [])
              then Run (name part4, name6) else Exit))"
  by (rule parse_name46_eq)

lemma parse_name46_correct_witness:
  "parse_name46 [97, COMMA, 110, 117, 108, 108] = Some (Run ([97], []))"
  unfolding parse_name46_correct by (simp add: COMMA_def NULL_NAME_def)

end
