(* ===== verification/Ipset_Build.thy ===== *)
theory Ipset_Build
  imports Ipset_Name
begin

text \<open>
  What the builders of \<^verbatim>\<open>src/ipset.c\<close> put into a message, on the view \<open>nlview\<close>: the
  header, the elements with their nested attributes, and the test and add messages, which fit
  into their buffers.
\<close>

section \<open>Header and nested attributes\<close>

definition header_tail :: "bool \<Rightarrow> u32 \<Rightarrow> u16 \<Rightarrow> u16 \<Rightarrow> u8 \<Rightarrow> u16 \<Rightarrow> bytes" where
  "header_tail be portid type flags family resid =
     host16 be type @ host16 be flags @ host32 be 0 @ host32 be portid @ [family, NFNETLINK_V0] @ be16_bytes resid"

lemma length_header_tail [simp]: "length (header_tail be p t f a r) = 16"
  by (simp add: header_tail_def)

lemma put_split:
  assumes "i + n \<le> length m" "length s = n"
  shows "put m i s = Some (take i m @ s @ drop (i + n) m)"
  using assms by (simp add: put_def)

lemma init_header_view:
  assumes "20 \<le> length m" "length m < 65536"
  shows "\<exists>m'. init_header be portid m type flags family resid = Some m'
    \<and> nlview be m' (header_tail be portid type flags family resid) [] (drop 20 m)"
proof -
  have step: "put (pre @ m) i s = Some ((pre @ s) @ drop (length s) m)"
    if "i = length pre" "length s \<le> length m" for pre m s :: bytes and i
    using that by (simp add: put_def)
  have w8: "wr8 m i b = put m i [b]" for m i b
    by (cases "i < length m") (auto simp: wr8_def put_def upd_conv_take_nth_drop)
  let ?p1 = "host32 be (word_of_nat 20)"
  let ?p2 = "?p1 @ host16 be type" let ?p3 = "?p2 @ host16 be flags"
  let ?p4 = "?p3 @ host32 be 0" let ?p5 = "?p4 @ host32 be portid"
  let ?p6 = "?p5 @ [family]" let ?p7 = "?p6 @ [NFNETLINK_V0]" let ?p8 = "?p7 @ be16_bytes resid"
  have 1: "put m 0 ?p1 = Some (?p1 @ drop 4 m)" using assms by (simp add: put_def)
  have 2: "put (?p1 @ drop 4 m) 4 (host16 be type) = Some (?p2 @ drop 6 m)"
    using step [of 4 ?p1 "host16 be type" "drop 4 m"] assms by simp
  have 3: "put (?p2 @ drop 6 m) 6 (host16 be flags) = Some (?p3 @ drop 8 m)"
    using step [of 6 ?p2 "host16 be flags" "drop 6 m"] assms by simp
  have 4: "put (?p3 @ drop 8 m) 8 (host32 be 0) = Some (?p4 @ drop 12 m)"
    using step [of 8 ?p3 "host32 be 0" "drop 8 m"] assms by simp
  have 5: "put (?p4 @ drop 12 m) 12 (host32 be portid) = Some (?p5 @ drop 16 m)"
    using step [of 12 ?p4 "host32 be portid" "drop 12 m"] assms by simp
  have 6: "put (?p5 @ drop 16 m) 16 [family] = Some (?p6 @ drop 17 m)"
    using step [of 16 ?p5 "[family]" "drop 16 m"] assms by simp
  have 7: "put (?p6 @ drop 17 m) 17 [NFNETLINK_V0] = Some (?p7 @ drop 18 m)"
    using step [of 17 ?p6 "[NFNETLINK_V0]" "drop 17 m"] assms by simp
  have 8: "put (?p7 @ drop 18 m) 18 (be16_bytes resid) = Some (?p8 @ drop 20 m)"
    using step [of 18 ?p7 "be16_bytes resid" "drop 18 m"] assms by simp
  have "init_header be portid m type flags family resid = Some (?p8 @ drop 20 m)"
    unfolding init_header_def wrh32_def wrh16_def wr16_def w8 HEADER_SIZE_def
    by (simp only: 1 2 3 4 5 6 7 8 Option.bind.bind_lunit)
  moreover have "?p8 @ drop 20 m = host32 be 20 @ header_tail be portid type flags family resid @ drop 20 m"
    by (simp add: header_tail_def)
  ultimately show ?thesis using assms by (simp add: nlview_def)
qed

definition nest :: "bool \<Rightarrow> u16 \<Rightarrow> bytes \<Rightarrow> bytes" where
  "nest be t r = nla be (or t NLA_F_NESTED) r []"

lemma length_nest [simp]: "length (nest be t r) = 4 + length r"
  by (simp add: nest_def)

lemma add_nest_view:
  assumes "nlview be m h pl fr" "4 \<le> length fr"
  shows "\<exists>m'. nlmsg_add_nest_nla be m t = Some (20 + length pl, m')
    \<and> nlview be m' h (pl @ nest be t []) (drop 4 fr)"
  using nlmsg_add_nla_view [OF assms(1), where n = 0 and data = None and d = "[]" and t = "or t NLA_F_NESTED"] assms(2)
  by (simp add: nlmsg_add_nest_nla_def nest_def align4_def)

lemma end_nest_view:
  assumes "nlview be m h (pl @ nest be t x @ r) fr"
  shows "\<exists>m'. nlmsg_end_nest_nla be m (20 + length pl) = Some m' \<and> nlview be m' h (pl @ nest be t (x @ r)) fr"
  using nlmsg_end_nest_view [of be m h pl _ "host16 be (or t NLA_F_NESTED) @ x @ r" fr] assms
  by (simp add: nest_def nla_def add.assoc)

section \<open>Elements\<close>

definition addr_type :: "bool \<Rightarrow> u16" where
  "addr_type v4 = or (if v4 then IPSET_ATTR_IPADDR_IPV4 else IPSET_ATTR_IPADDR_IPV6) NLA_F_NET_BYTEORDER"

definition elem_ipset :: "bool \<Rightarrow> bool \<Rightarrow> bytes \<Rightarrow> bytes" where
  "elem_ipset be v4 ip = nest be IPSET_ATTR_DATA (nest be IPSET_ATTR_IP (nla be (addr_type v4) ip []))"

definition elem_nft :: "bool \<Rightarrow> u32 \<Rightarrow> bytes \<Rightarrow> bytes" where
  "elem_nft be flags ip = nest be NFTA_LIST_ELEM
     ((if flags \<noteq> 0 then nla be NFTA_SET_ELEM_FLAGS (be32_bytes flags) [] else [])
      @ nest be NFTA_SET_ELEM_KEY (nla be (or NFTA_DATA_VALUE NLA_F_NET_BYTEORDER) ip []))"

lemma iplen_aligned [simp]: "align4 (iplen v4) = iplen v4"
  by (simp add: iplen_def IPV4_LEN_def IPV6_LEN_def align4_def)

lemma iplen_bounds: "4 \<le> iplen v4" "iplen v4 \<le> 16"
  by (simp_all add: iplen_def IPV4_LEN_def IPV6_LEN_def)

lemma length_elem_ipset: "length ip = iplen v4 \<Longrightarrow> length (elem_ipset be v4 ip) = 12 + iplen v4"
  by (simp add: elem_ipset_def)

lemma length_elem_nft: "length ip = iplen v4 \<Longrightarrow> length (elem_nft be flags ip) = (if flags = 0 then 12 else 20) + iplen v4"
  by (simp add: elem_nft_def)

text \<open>An address given as \<^verbatim>\<open>NULL\<close> leaves what is in its place.\<close>

definition ip_or :: "bytes option \<Rightarrow> bool \<Rightarrow> bytes \<Rightarrow> bytes" where
  "ip_or ip v4 fr = (case ip of None \<Rightarrow> take (iplen v4) fr | Some x \<Rightarrow> x)"

lemma add_elem_ipset_view:
  assumes v: "nlview be m h pl fr" and len: "12 + iplen v4 \<le> length fr"
    and ip: "case ip of None \<Rightarrow> True | Some x \<Rightarrow> length x = iplen v4"
  shows "\<exists>m'. add_elem_ipset be m ip v4 = Some (20 + length pl + 8, m')
    \<and> nlview be m' h (pl @ elem_ipset be v4 (ip_or ip v4 (drop 12 fr))) (drop (12 + iplen v4) fr)"
proof -
  let ?d = "ip_or ip v4 (drop 12 fr)" and ?a = "addr_type v4"
  let ?D = IPSET_ATTR_DATA and ?I = IPSET_ATTR_IP
  obtain m1 where m1: "nlmsg_add_nest_nla be m ?D = Some (20 + length pl, m1)"
    "nlview be m1 h (pl @ nest be ?D []) (drop 4 fr)"
    using add_nest_view [OF v] len by auto
  obtain m2 where m2: "nlmsg_add_nest_nla be m1 ?I = Some (20 + length pl + 4, m2)"
    "nlview be m2 h ((pl @ nest be ?D []) @ nest be ?I []) (drop 8 fr)"
  proof -
    have "4 \<le> length (drop 4 fr)" using len by simp
    then show ?thesis using that add_nest_view [OF m1(2), of ?I] by auto
  qed
  have d: "case ip of None \<Rightarrow> ?d = take (iplen v4) (drop 4 (drop 8 fr)) | Some x \<Rightarrow> ?d = x \<and> length x = iplen v4"
    using ip by (cases ip) (simp_all add: ip_or_def)
  obtain m3 where m3: "nlmsg_add_nla be m2 ?a ip (iplen v4) = Some (20 + length pl + 8, m3)"
    "nlview be m3 h (((pl @ nest be ?D []) @ nest be ?I []) @ nla be ?a ?d []) (drop (12 + iplen v4) fr)"
  proof -
    have "4 + align4 (iplen v4) \<le> length (drop 8 fr)" using len by simp
    from nlmsg_add_nla_view [OF m2(2) this d, where t = ?a] show ?thesis using that by (auto simp: add.commute add.left_commute)
  qed
  obtain m4 where m4: "nlmsg_end_nest_nla be m3 (20 + length pl + 4) = Some m4"
    "nlview be m4 h ((pl @ nest be ?D []) @ nest be ?I (nla be ?a ?d [])) (drop (12 + iplen v4) fr)"
    using end_nest_view [of be m3 h "pl @ nest be ?D []" ?I "[]" "nla be ?a ?d []"] m3(2) by (auto simp: add.assoc)
  obtain m5 where m5: "nlmsg_end_nest_nla be m4 (20 + length pl) = Some m5"
    "nlview be m5 h (pl @ nest be ?D (nest be ?I (nla be ?a ?d []))) (drop (12 + iplen v4) fr)"
    using end_nest_view [of be m4 h pl ?D "[]"] m4(2) by auto
  show ?thesis
    using m1(1) m2(1) m3(1) m4(1) m5
    by (simp add: add_elem_ipset_def elem_ipset_def addr_type_def [symmetric] Let_def)
qed

lemma add_elem_nft_view:
  assumes v: "nlview be m h pl fr" and len: "(if flags = 0 then 12 else 20) + iplen v4 \<le> length fr"
    and ip: "case ip of None \<Rightarrow> True | Some x \<Rightarrow> length x = iplen v4"
  shows "\<exists>m'. add_elem_nftset be m ip v4 flags = Some (20 + length pl + (if flags = 0 then 8 else 16), m')
    \<and> nlview be m' h (pl @ elem_nft be flags (ip_or ip v4 (drop (if flags = 0 then 12 else 20) fr)))
        (drop ((if flags = 0 then 12 else 20) + iplen v4) fr)"
proof -
  define f where "f = (if flags = 0 then 0 else 8 :: nat)"
  define F where "F = (if flags \<noteq> 0 then nla be NFTA_SET_ELEM_FLAGS (be32_bytes flags) [] else [])"
  let ?a = "or NFTA_DATA_VALUE NLA_F_NET_BYTEORDER"
  let ?d = "ip_or ip v4 (drop (12 + f) fr)"
  let ?E = NFTA_LIST_ELEM and ?K = NFTA_SET_ELEM_KEY
  have f: "(if flags = 0 then 12 else 20) = 12 + f" "(if flags = 0 then 8 else 16) = 8 + f" "length F = f"
    by (auto simp: f_def F_def)
  have len': "12 + f + iplen v4 \<le> length fr" using len f(1) by simp
  obtain m1 where m1: "nlmsg_add_nest_nla be m ?E = Some (20 + length pl, m1)"
    "nlview be m1 h (pl @ nest be ?E []) (drop 4 fr)"
    using add_nest_view [OF v] len' by auto
  obtain m2 where m2: "(if flags \<noteq> 0 then map_option snd (nlmsg_add_nla be m1 NFTA_SET_ELEM_FLAGS (Some (be32_bytes flags)) 4)
      else Some m1) = Some m2" "nlview be m2 h ((pl @ nest be ?E []) @ F) (drop (4 + f) fr)"
  proof (cases "flags = 0")
    case True
    then show ?thesis using that m1(2) by (simp add: F_def f_def)
  next
    case False
    have "4 + align4 4 \<le> length (drop 4 fr)" using len' False by (simp add: align4_def f_def)
    from nlmsg_add_nla_view [OF m1(2) this, where data = "Some (be32_bytes flags)" and d = "be32_bytes flags" and t = NFTA_SET_ELEM_FLAGS]
    obtain m' where "nlmsg_add_nla be m1 NFTA_SET_ELEM_FLAGS (Some (be32_bytes flags)) 4 = Some (20 + length pl + 4, m')"
      "nlview be m' h ((pl @ nest be ?E []) @ nla be NFTA_SET_ELEM_FLAGS (be32_bytes flags) []) (drop 12 fr)"
      by (auto simp: align4_def)
    then show ?thesis using that False by (simp add: F_def f_def)
  qed
  obtain m3 where m3: "nlmsg_add_nest_nla be m2 ?K = Some (20 + length pl + 4 + f, m3)"
    "nlview be m3 h (((pl @ nest be ?E []) @ F) @ nest be ?K []) (drop (8 + f) fr)"
  proof -
    have "4 \<le> length (drop (4 + f) fr)" using len' by simp
    then show ?thesis using that add_nest_view [OF m2(2), of ?K] f(3) by (auto simp: add.commute add.left_commute)
  qed
  have d: "case ip of None \<Rightarrow> ?d = take (iplen v4) (drop 4 (drop (8 + f) fr)) | Some x \<Rightarrow> ?d = x \<and> length x = iplen v4"
    using ip by (cases ip) (simp_all add: ip_or_def)
  obtain m4 where m4: "nlmsg_add_nla be m3 ?a ip (iplen v4) = Some (20 + length pl + 8 + f, m4)"
    "nlview be m4 h ((((pl @ nest be ?E []) @ F) @ nest be ?K []) @ nla be ?a ?d []) (drop (12 + f + iplen v4) fr)"
  proof -
    have "4 + align4 (iplen v4) \<le> length (drop (8 + f) fr)" using len' by simp
    from nlmsg_add_nla_view [OF m3(2) this d, where t = ?a] show ?thesis using that f(3) by (auto simp: add.commute add.left_commute)
  qed
  obtain m5 where m5: "nlmsg_end_nest_nla be m4 (20 + length pl + 4 + f) = Some m5"
    "nlview be m5 h (((pl @ nest be ?E []) @ F) @ nest be ?K (nla be ?a ?d [])) (drop (12 + f + iplen v4) fr)"
    using end_nest_view [of be m4 h "(pl @ nest be ?E []) @ F" ?K "[]" "nla be ?a ?d []"] m4(2) f(3)
    by (auto simp: add.assoc)
  obtain m6 where m6: "nlmsg_end_nest_nla be m5 (20 + length pl) = Some m6"
    "nlview be m6 h (pl @ nest be ?E (F @ nest be ?K (nla be ?a ?d []))) (drop (12 + f + iplen v4) fr)"
    using end_nest_view [of be m5 h pl ?E "[]"] m5(2) by auto
  show ?thesis
    unfolding f add_elem_nftset_def elem_nft_def F_def [symmetric]
    using m1(1) m2(1) m3(1) m4(1) m5(1) m6 by (simp add: add.assoc)
qed

section \<open>The set a message is for\<close>

text \<open>What a name stands for in each backend, and the attributes that name it in a message.\<close>

datatype target = Set_ipset bytes | Set_nft u8 bytes bytes

definition target_of :: "bool \<Rightarrow> bytes \<Rightarrow> target option" where
  "target_of is_ipset name =
     (if is_ipset then if length name \<in> {1 .. 31} then Some (Set_ipset name) else None
      else (case parse_name_nftset name of Some (Run (f, t, s)) \<Rightarrow> Some (Set_nft f t s) | _ \<Rightarrow> None))"

definition padlen :: "nat \<Rightarrow> nat" where "padlen n = align4 n - n"

fun is_ipset_target :: "target \<Rightarrow> bool" where
  "is_ipset_target (Set_ipset _) = True"
| "is_ipset_target (Set_nft _ _ _) = False"

fun target_ok :: "target \<Rightarrow> bool" where
  "target_ok (Set_ipset name) \<longleftrightarrow> length name \<le> 31"
| "target_ok (Set_nft f t s) \<longleftrightarrow> length t \<le> 255 \<and> length s \<le> 255"

fun pads_ok :: "target \<Rightarrow> bytes \<Rightarrow> bytes \<Rightarrow> bool" where
  "pads_ok (Set_ipset name) p1 p2 \<longleftrightarrow> length p1 = padlen 1 \<and> length p2 = padlen (length name + 1)"
| "pads_ok (Set_nft f t s) p1 p2 \<longleftrightarrow> length p1 = padlen (length t + 1) \<and> length p2 = padlen (length s + 1)"

fun set_attrs :: "bool \<Rightarrow> target \<Rightarrow> bytes \<Rightarrow> bytes \<Rightarrow> bytes" where
  "set_attrs be (Set_ipset name) p1 p2 =
     nla be IPSET_ATTR_PROTOCOL [IPSET_PROTOCOL] p1 @ nla be IPSET_ATTR_SETNAME (name @ [0]) p2"
| "set_attrs be (Set_nft f t s) p1 p2 =
     nla be NFTA_SET_ELEM_LIST_TABLE (t @ [0]) p1 @ nla be NFTA_SET_ELEM_LIST_SET (s @ [0]) p2"

fun target_family :: "target \<Rightarrow> bool \<Rightarrow> u8" where
  "target_family (Set_ipset name) v4 = (if v4 then AF_INET else AF_INET6)"
| "target_family (Set_nft f t s) v4 = f"

fun test_type :: "target \<Rightarrow> u16" where
  "test_type (Set_ipset _) = or (push_bit 8 NFNL_SUBSYS_IPSET) IPSET_CMD_TEST"
| "test_type (Set_nft _ _ _) = or (push_bit 8 NFNL_SUBSYS_NFTABLES) NFT_MSG_GETSETELEM"

fun add_type :: "target \<Rightarrow> u16" where
  "add_type (Set_ipset _) = or (push_bit 8 NFNL_SUBSYS_IPSET) IPSET_CMD_ADD"
| "add_type (Set_nft _ _ _) = or (push_bit 8 NFNL_SUBSYS_NFTABLES) NFT_MSG_NEWSETELEM"

definition test_head :: "bool \<Rightarrow> u32 \<Rightarrow> target \<Rightarrow> bool \<Rightarrow> bool \<Rightarrow> bytes" where
  "test_head be portid tg v4 ack = header_tail be portid (test_type tg)
     (if is_ipset_target tg \<and> ack then or NLM_F_REQUEST NLM_F_ACK else NLM_F_REQUEST) (target_family tg v4) 0"

definition add_head :: "bool \<Rightarrow> u32 \<Rightarrow> target \<Rightarrow> bool \<Rightarrow> bytes" where
  "add_head be portid tg v4 = header_tail be portid (add_type tg) NLM_F_REQUEST (target_family tg v4) 0"

fun test_attrs :: "bool \<Rightarrow> target \<Rightarrow> bool \<Rightarrow> bytes \<Rightarrow> bytes \<Rightarrow> bytes \<Rightarrow> bytes" where
  "test_attrs be (Set_ipset name) v4 p1 p2 ip = set_attrs be (Set_ipset name) p1 p2 @ elem_ipset be v4 ip"
| "test_attrs be (Set_nft f t s) v4 p1 p2 ip = set_attrs be (Set_nft f t s) p1 p2
     @ nest be NFTA_SET_ELEM_LIST_ELEMENTS (elem_nft be 0 ip)"

text \<open>The attributes of an add message before the list of elements, and the type of that list.\<close>

fun add_attrs :: "bool \<Rightarrow> target \<Rightarrow> bytes \<Rightarrow> bytes \<Rightarrow> bytes" where
  "add_attrs be (Set_ipset name) p1 p2 = set_attrs be (Set_ipset name) p1 p2 @ nla be IPSET_ATTR_LINENO (host32 be 0) []"
| "add_attrs be (Set_nft f t s) p1 p2 = set_attrs be (Set_nft f t s) p1 p2"

fun list_attr :: "target \<Rightarrow> u16" where
  "list_attr (Set_ipset _) = IPSET_ATTR_ADT"
| "list_attr (Set_nft _ _ _) = NFTA_SET_ELEM_LIST_ELEMENTS"

lemma target_of_ok: "target_of is_ipset name = Some tg \<Longrightarrow> target_ok tg \<and> is_ipset_target tg = is_ipset"
  by (auto simp: target_of_def parse_name_nftset_eq split: if_splits list.splits option.splits)

lemma add_nla_view:
  assumes "nlview be m h pl fr" "4 + align4 n \<le> length fr" "n = length d"
  shows "\<exists>m' pad fr'. nlmsg_add_nla be m t (Some d) n = Some (20 + length pl, m') \<and> length pad = padlen n
    \<and> nlview be m' h (pl @ nla be t d pad) fr' \<and> length fr' + 4 + align4 n = length fr"
proof -
  let ?pad = "take (align4 n - n) (drop (4 + n) fr)"
  from nlmsg_add_nla_view [OF assms(1,2), where data = "Some d" and d = d and t = t] assms(3)
  obtain m' where "nlmsg_add_nla be m t (Some d) n = Some (20 + length pl, m')"
    "nlview be m' h (pl @ nla be t d ?pad) (drop (4 + align4 n) fr)" by auto
  moreover have "length ?pad = padlen n" using assms(2) align4_props(1) [of n] by (simp add: padlen_def)
  ultimately show ?thesis
    using assms(2) by (intro exI [of _ m'] exI [of _ ?pad] exI [of _ "drop (4 + align4 n) fr"]) simp
qed

section \<open>Test and add messages\<close>

lemma align4_le: "n \<le> m \<Longrightarrow> m mod 4 = 0 \<Longrightarrow> align4 n \<le> m"
  unfolding align4_def by presburger

lemma bufsz_eq:
  "BUFSZ_TEST_IPSET v4 = 76 + iplen v4" "BUFSZ_ADD_IPSET v4 = 76 + 10 * (12 + iplen v4)"
  "BUFSZ_TEST_NFTSET v4 = 556 + iplen v4" "BUFSZ_ADD_NFTSET v4 = 544 + 10 * (32 + 2 * iplen v4)"
  by (simp_all add: BUFSZ_TEST_IPSET_def BUFSZ_ADD_IPSET_def BUFSZ_TEST_NFTSET_def BUFSZ_ADD_NFTSET_def
      HEADER_SIZE_def nla_size_calc_def NLA_HDRLEN_def IPSET_MAXNAMELEN_def NFT_NAME_MAXLEN_def IP_N_def)
    (simp_all add: align4_def)

definition init_testmsg :: "bool \<Rightarrow> bool \<Rightarrow> u32 \<Rightarrow> bytes \<Rightarrow> bytes \<Rightarrow> bool \<Rightarrow> bool \<Rightarrow> bytes run option" where
  "init_testmsg is_ipset be portid m name v4 ack =
     (if is_ipset then init_testmsg_ipset be portid m name v4 ack else init_testmsg_nftset be portid m name v4)"

definition init_addmsg :: "bool \<Rightarrow> bool \<Rightarrow> u32 \<Rightarrow> bytes \<Rightarrow> bytes \<Rightarrow> bool \<Rightarrow> bytes run option" where
  "init_addmsg is_ipset be portid m name v4 =
     (if is_ipset then init_addmsg_ipset be portid m name v4 else init_addmsg_nftset be portid m name v4)"

text \<open>
  The part the messages of a backend have in common, up to the attributes that name the set,
  with whatever follows as the continuation \<open>k\<close>.
\<close>

lemma ipset_prefix:
  assumes len: "length m = 64 + r" "64 + r < 65536"
  shows "\<exists>m' p1 p2 fr. pads_ok (Set_ipset name) p1 p2 \<and> r \<le> length fr
    \<and> (length name \<in> {1 .. 31} \<longrightarrow>
         nlview be m' (header_tail be portid type flags family 0) (set_attrs be (Set_ipset name) p1 p2) fr)
    \<and> (\<forall>k. do {
          m \<leftarrow> init_header be portid m type flags family 0;
          (_, m) \<leftarrow> nlmsg_add_nla be m IPSET_ATTR_PROTOCOL (Some [IPSET_PROTOCOL]) 1;
          case get_namelen_ipset name of
            Exit \<Rightarrow> Some Exit
          | Run namelen \<Rightarrow> do {
              (_, m) \<leftarrow> nlmsg_add_nla be m IPSET_ATTR_SETNAME (Some (name @ [0])) (namelen + 1);
              k m } }
        = (if length name \<in> {1 .. 31} then k m' else Some Exit))"
proof -
  let ?h = "header_tail be portid type flags family 0"
  have "20 \<le> length m" "length m < 65536" using len by simp_all
  from init_header_view [OF this, where be = be and portid = portid and resid = 0 and type = type and flags = flags and family = family]
  obtain m1 where m1: "init_header be portid m type flags family 0 = Some m1" "nlview be m1 ?h [] (drop 20 m)"
    by auto
  have "4 + align4 1 \<le> length (drop 20 m)" using len by (simp add: align4_def)
  from add_nla_view [OF m1(2) this, where d = "[IPSET_PROTOCOL]" and t = IPSET_ATTR_PROTOCOL]
  obtain m2 p1 f2 where m2: "nlmsg_add_nla be m1 IPSET_ATTR_PROTOCOL (Some [IPSET_PROTOCOL]) 1 = Some (20, m2)"
    "length p1 = padlen 1" "nlview be m2 ?h (nla be IPSET_ATTR_PROTOCOL [IPSET_PROTOCOL] p1) f2"
    "length f2 = 36 + r"
    using len by (auto simp: align4_def)
  show ?thesis
  proof (cases "length name \<in> {1 .. 31}")
    case False
    then have "get_namelen_ipset name = Exit" by (auto simp: get_namelen_ipset_def Let_def IPSET_MAXNAMELEN_def Suc_le_eq)
    then show ?thesis
      using m1 m2 False
      by (intro exI [of _ m2] exI [of _ p1] exI [of _ "replicate (padlen (length name + 1)) 0"] exI [of _ f2])
        (auto simp: Suc_le_eq)
  next
    case True
    then have run: "get_namelen_ipset name = Run (length name)"
      by (auto simp: get_namelen_ipset_def Let_def IPSET_MAXNAMELEN_def)
    have al: "align4 (length name + 1) \<le> 32" using True by (intro align4_le) auto
    then have "4 + align4 (length name + 1) \<le> length f2" using m2(4) by simp
    from add_nla_view [OF m2(3) this, where d = "name @ [0]" and t = IPSET_ATTR_SETNAME]
    obtain m3 p2 f3 where m3: "nlmsg_add_nla be m2 IPSET_ATTR_SETNAME (Some (name @ [0])) (length name + 1)
        = Some (20 + length (nla be IPSET_ATTR_PROTOCOL [IPSET_PROTOCOL] p1), m3)"
      "length p2 = padlen (length name + 1)"
      "nlview be m3 ?h (set_attrs be (Set_ipset name) p1 p2) f3"
      "length f3 + 4 + align4 (length name + 1) = length f2" by auto
    have "r \<le> length f3" using m3(4) m2(4) al by simp
    then show ?thesis
      using m1(1) m2(1,2) m3 True run
      by (intro exI [of _ m3] exI [of _ p1] exI [of _ p2] exI [of _ f3]) simp
  qed
qed

lemma nft_prefix:
  assumes len: "length m = 540 + r" "540 + r < 65536" and ok: "length t \<le> 255" "length s \<le> 255"
  shows "\<exists>m' p1 p2 fr. pads_ok (Set_nft f t s) p1 p2 \<and> r \<le> length fr
    \<and> nlview be m' (header_tail be portid type flags f 0) (set_attrs be (Set_nft f t s) p1 p2) fr
    \<and> (\<forall>k. do {
          m \<leftarrow> init_header be portid m type flags f 0;
          (_, m) \<leftarrow> nlmsg_add_nla be m NFTA_SET_ELEM_LIST_TABLE (Some (t @ [0])) (length t + 1);
          (_, m) \<leftarrow> nlmsg_add_nla be m NFTA_SET_ELEM_LIST_SET (Some (s @ [0])) (length s + 1);
          k m } = k m')"
proof -
  let ?h = "header_tail be portid type flags f 0"
  have "20 \<le> length m" "length m < 65536" using len by simp_all
  from init_header_view [OF this, where be = be and portid = portid and resid = 0 and type = type and flags = flags and family = f]
  obtain m1 where m1: "init_header be portid m type flags f 0 = Some m1" "nlview be m1 ?h [] (drop 20 m)"
    by auto
  have al: "align4 (length t + 1) \<le> 256" "align4 (length s + 1) \<le> 256" using ok by (auto intro: align4_le)
  have "4 + align4 (length t + 1) \<le> length (drop 20 m)" using len al by simp
  from add_nla_view [OF m1(2) this, where d = "t @ [0]" and t = NFTA_SET_ELEM_LIST_TABLE]
  obtain m2 p1 f2 where m2: "nlmsg_add_nla be m1 NFTA_SET_ELEM_LIST_TABLE (Some (t @ [0])) (length t + 1) = Some (20, m2)"
    "length p1 = padlen (length t + 1)" "nlview be m2 ?h (nla be NFTA_SET_ELEM_LIST_TABLE (t @ [0]) p1) f2"
    "length f2 + 4 + align4 (length t + 1) = 520 + r"
    using len by auto
  then have "4 + align4 (length s + 1) \<le> length f2" using al by simp
  from add_nla_view [OF m2(3) this, where d = "s @ [0]" and t = NFTA_SET_ELEM_LIST_SET]
  obtain m3 p2 f3 where m3: "nlmsg_add_nla be m2 NFTA_SET_ELEM_LIST_SET (Some (s @ [0])) (length s + 1)
      = Some (20 + length (nla be NFTA_SET_ELEM_LIST_TABLE (t @ [0]) p1), m3)"
    "length p2 = padlen (length s + 1)" "nlview be m3 ?h (set_attrs be (Set_nft f t s) p1 p2) f3"
    "length f3 + 4 + align4 (length s + 1) = length f2" by auto
  have "r \<le> length f3" using m3(4) m2(4) al by simp
  then show ?thesis
    using m1(1) m2(1,2) m3 by (intro exI [of _ m3] exI [of _ p1] exI [of _ p2] exI [of _ f3]) simp
qed

text \<open>The messages of both backends, in buffers of the size they are given.\<close>

lemma init_testmsg_view:
  assumes len: "length m = BUFSZ_TEST is_ipset v4"
  shows "case target_of is_ipset name of
      None \<Rightarrow> init_testmsg is_ipset be portid m name v4 ack = Some Exit
    | Some tg \<Rightarrow> \<exists>m' p1 p2 ip fr. init_testmsg is_ipset be portid m name v4 ack = Some (Run m')
        \<and> pads_ok tg p1 p2 \<and> length ip = iplen v4
        \<and> nlview be m' (test_head be portid tg v4 ack) (test_attrs be tg v4 p1 p2 ip) fr"
proof (cases is_ipset)
  case True
  let ?t = "or (push_bit 8 NFNL_SUBSYS_IPSET) IPSET_CMD_TEST" and ?fam = "if v4 then AF_INET else AF_INET6"
  let ?fl = "or NLM_F_REQUEST (if ack then NLM_F_ACK else 0)"
  have h: "header_tail be portid ?t ?fl ?fam 0 = test_head be portid (Set_ipset name) v4 ack"
    by (simp add: test_head_def)
  have "length m = 64 + (12 + iplen v4)" "64 + (12 + iplen v4) < 65536"
    using len True iplen_bounds [of v4] by (simp_all add: BUFSZ_TEST_def bufsz_eq)
  from ipset_prefix [OF this, of name be portid ?t ?fl ?fam]
  obtain m1 p1 p2 fr where m1: "pads_ok (Set_ipset name) p1 p2" "12 + iplen v4 \<le> length fr"
    "length name \<in> {1 .. 31} \<longrightarrow> nlview be m1 (test_head be portid (Set_ipset name) v4 ack) (set_attrs be (Set_ipset name) p1 p2) fr"
    and run: "init_testmsg_ipset be portid m name v4 ack = (if length name \<in> {1 .. 31} then do {
         (_, m) \<leftarrow> add_elem_ipset be m1 None v4;
         Some (Run m) } else Some Exit)"
    unfolding h init_testmsg_ipset_def Let_def by blast
  show ?thesis
  proof (cases "length name \<in> {1 .. 31}")
    case False
    then show ?thesis using run True by (simp only: target_of_def init_testmsg_def) simp
  next
    case ok: True
    let ?ip = "take (iplen v4) (drop 12 fr)"
    from m1(3) ok have v: "nlview be m1 (test_head be portid (Set_ipset name) v4 ack) (set_attrs be (Set_ipset name) p1 p2) fr"
      by blast
    from add_elem_ipset_view [OF v m1(2), where ip = None]
    obtain m2 p where "add_elem_ipset be m1 None v4 = Some (p, m2)"
      "nlview be m2 (test_head be portid (Set_ipset name) v4 ack) (test_attrs be (Set_ipset name) v4 p1 p2 ?ip) (drop (12 + iplen v4) fr)"
      by (auto simp: ip_or_def)
    moreover from this have "init_testmsg_ipset be portid m name v4 ack = Some (Run m2)" using run ok by simp
    moreover have "length ?ip = iplen v4" using m1(2) by simp
    ultimately show ?thesis using ok True m1(1)
      by (simp only: target_of_def init_testmsg_def if_True option.case) blast
  qed
next
  case False
  show ?thesis
  proof (cases "target_of False name")
    case None
    then have "parse_name_nftset name = Some Exit"
      unfolding target_of_def by (auto simp: parse_name_nftset_eq split: list.splits option.splits if_splits)
    then show ?thesis using False None by (simp add: init_testmsg_def init_testmsg_nftset_def)
  next
    case (Some tg)
    then obtain f t s where tg: "tg = Set_nft f t s" and parse: "parse_name_nftset name = Some (Run (f, t, s))"
      by (auto simp: target_of_def split: option.splits run.splits)
    have ok: "length t \<le> 255" "length s \<le> 255" using target_of_ok [OF Some] tg by auto
    have h: "header_tail be portid (or (push_bit 8 NFNL_SUBSYS_NFTABLES) NFT_MSG_GETSETELEM) NLM_F_REQUEST f 0
        = test_head be portid tg v4 ack"
      by (simp add: test_head_def tg)
    have "length m = 540 + (16 + iplen v4)" "540 + (16 + iplen v4) < 65536"
      using len False iplen_bounds [of v4] by (simp_all add: BUFSZ_TEST_def bufsz_eq)
    from nft_prefix [OF this ok, of f be portid "or (push_bit 8 NFNL_SUBSYS_NFTABLES) NFT_MSG_GETSETELEM" NLM_F_REQUEST]
    obtain m1 p1 p2 fr where m1: "pads_ok tg p1 p2" "16 + iplen v4 \<le> length fr"
      "nlview be m1 (test_head be portid tg v4 ack) (set_attrs be tg p1 p2) fr"
      and run: "init_testmsg_nftset be portid m name v4 = do {
           (elems_nla, m) \<leftarrow> nlmsg_add_nest_nla be m1 NFTA_SET_ELEM_LIST_ELEMENTS;
           (_, m) \<leftarrow> add_elem_nftset be m None v4 0;
           m \<leftarrow> nlmsg_end_nest_nla be m elems_nla;
           Some (Run m) }"
      unfolding h tg init_testmsg_nftset_def parse Let_def Option.bind.bind_lunit run.case prod.case by blast
    let ?A = "set_attrs be tg p1 p2" and ?E = NFTA_SET_ELEM_LIST_ELEMENTS and ?h = "test_head be portid tg v4 ack"
    have "4 \<le> length fr" using m1(2) by simp
    from add_nest_view [OF m1(3) this, of ?E]
    obtain m2 where m2: "nlmsg_add_nest_nla be m1 ?E = Some (20 + length ?A, m2)"
      "nlview be m2 ?h (?A @ nest be ?E []) (drop 4 fr)" by auto
    let ?ip = "take (iplen v4) (drop 12 (drop 4 fr))"
    have "(if (0::u32) = 0 then 12 else 20) + iplen v4 \<le> length (drop 4 fr)" using m1(2) by simp
    from add_elem_nft_view [OF m2(2) this, where ip = None]
    obtain m3 p where m3: "add_elem_nftset be m2 None v4 0 = Some (p, m3)"
      "nlview be m3 ?h (?A @ nest be ?E [] @ elem_nft be 0 ?ip) (drop (12 + iplen v4) (drop 4 fr))"
      by (auto simp: ip_or_def)
    from end_nest_view [OF m3(2)]
    obtain m4 where m4: "nlmsg_end_nest_nla be m3 (20 + length ?A) = Some m4"
      "nlview be m4 ?h (?A @ nest be ?E (elem_nft be 0 ?ip)) (drop (12 + iplen v4) (drop 4 fr))" by auto
    have "init_testmsg is_ipset be portid m name v4 ack = Some (Run m4)"
      using False run m2(1) m3(1) m4(1) by (simp add: init_testmsg_def)
    moreover have "length ?ip = iplen v4" using m1(2) by simp
    moreover have t: "target_of is_ipset name = Some (Set_nft f t s)" using Some False tg by simp
    ultimately show ?thesis using m1(1) m4(2)
      unfolding tg t option.case test_attrs.simps by blast
  qed
qed

lemma init_addmsg_view:
  assumes len: "length m = BUFSZ_ADD is_ipset v4"
  shows "case target_of is_ipset name of
      None \<Rightarrow> init_addmsg is_ipset be portid m name v4 = Some Exit
    | Some tg \<Rightarrow> \<exists>m' p1 p2 fr. init_addmsg is_ipset be portid m name v4 = Some (Run m') \<and> pads_ok tg p1 p2
        \<and> 10 * (if is_ipset then 12 + iplen v4 else 32 + 2 * iplen v4) \<le> length fr
        \<and> nlview be m' (add_head be portid tg v4) (add_attrs be tg p1 p2 @ nest be (list_attr tg) []) fr"
proof (cases is_ipset)
  case True
  let ?t = "or (push_bit 8 NFNL_SUBSYS_IPSET) IPSET_CMD_ADD" and ?fam = "if v4 then AF_INET else AF_INET6"
  have h: "header_tail be portid ?t NLM_F_REQUEST ?fam 0 = add_head be portid (Set_ipset name) v4"
    by (simp add: add_head_def)
  have "length m = 64 + (12 + 10 * (12 + iplen v4))" "64 + (12 + 10 * (12 + iplen v4)) < 65536"
    using len True iplen_bounds [of v4] by (simp_all add: BUFSZ_ADD_def bufsz_eq)
  from ipset_prefix [OF this, of name be portid ?t NLM_F_REQUEST ?fam]
  obtain m1 p1 p2 fr where m1: "pads_ok (Set_ipset name) p1 p2" "12 + 10 * (12 + iplen v4) \<le> length fr"
    "length name \<in> {1 .. 31} \<longrightarrow> nlview be m1 (add_head be portid (Set_ipset name) v4) (set_attrs be (Set_ipset name) p1 p2) fr"
    and run: "init_addmsg_ipset be portid m name v4 = (if length name \<in> {1 .. 31} then do {
         (_, m) \<leftarrow> nlmsg_add_nla be m1 IPSET_ATTR_LINENO (Some (host32 be 0)) 4;
         (_, m) \<leftarrow> nlmsg_add_nest_nla be m IPSET_ATTR_ADT;
         Some (Run m) } else Some Exit)"
    unfolding h init_addmsg_ipset_def Let_def by blast
  show ?thesis
  proof (cases "length name \<in> {1 .. 31}")
    case False
    then show ?thesis using run True by (simp only: target_of_def init_addmsg_def) simp
  next
    case ok: True
    from m1(3) ok have v: "nlview be m1 (add_head be portid (Set_ipset name) v4) (set_attrs be (Set_ipset name) p1 p2) fr"
      by blast
    have "4 + align4 4 \<le> length fr" using m1(2) by (simp add: align4_def)
    from nlmsg_add_nla_view [OF v this, where data = "Some (host32 be 0)" and d = "host32 be 0" and t = IPSET_ATTR_LINENO]
    obtain m2 p where m2: "nlmsg_add_nla be m1 IPSET_ATTR_LINENO (Some (host32 be 0)) 4 = Some (p, m2)"
      "nlview be m2 (add_head be portid (Set_ipset name) v4) (add_attrs be (Set_ipset name) p1 p2) (drop 8 fr)"
      by (auto simp: align4_def)
    have "4 \<le> length (drop 8 fr)" using m1(2) by simp
    from add_nest_view [OF m2(2) this, of IPSET_ATTR_ADT]
    obtain m3 q where m3: "nlmsg_add_nest_nla be m2 IPSET_ATTR_ADT = Some (q, m3)"
      "nlview be m3 (add_head be portid (Set_ipset name) v4)
        (add_attrs be (Set_ipset name) p1 p2 @ nest be IPSET_ATTR_ADT []) (drop 4 (drop 8 fr))" by auto
    have "init_addmsg is_ipset be portid m name v4 = Some (Run m3)"
      using run ok True m2(1) m3(1) by (simp add: init_addmsg_def)
    moreover have "10 * (12 + iplen v4) \<le> length (drop 4 (drop 8 fr))" using m1(2) by simp
    ultimately show ?thesis using ok True m1(1) m3(2)
      by (simp only: target_of_def if_True option.case list_attr.simps) blast
  qed
next
  case False
  show ?thesis
  proof (cases "target_of False name")
    case None
    then have "parse_name_nftset name = Some Exit"
      unfolding target_of_def by (auto simp: parse_name_nftset_eq split: list.splits option.splits if_splits)
    then show ?thesis using False None by (simp add: init_addmsg_def init_addmsg_nftset_def)
  next
    case (Some tg)
    then obtain f t s where tg: "tg = Set_nft f t s" and parse: "parse_name_nftset name = Some (Run (f, t, s))"
      by (auto simp: target_of_def split: option.splits run.splits)
    have ok: "length t \<le> 255" "length s \<le> 255" using target_of_ok [OF Some] tg by auto
    have h: "header_tail be portid (or (push_bit 8 NFNL_SUBSYS_NFTABLES) NFT_MSG_NEWSETELEM) NLM_F_REQUEST f 0
        = add_head be portid tg v4"
      by (simp add: add_head_def tg)
    have "length m = 540 + (4 + 10 * (32 + 2 * iplen v4))" "540 + (4 + 10 * (32 + 2 * iplen v4)) < 65536"
      using len False iplen_bounds [of v4] by (simp_all add: BUFSZ_ADD_def bufsz_eq)
    from nft_prefix [OF this ok, of f be portid "or (push_bit 8 NFNL_SUBSYS_NFTABLES) NFT_MSG_NEWSETELEM" NLM_F_REQUEST]
    obtain m1 p1 p2 fr where m1: "pads_ok tg p1 p2" "4 + 10 * (32 + 2 * iplen v4) \<le> length fr"
      "nlview be m1 (add_head be portid tg v4) (set_attrs be tg p1 p2) fr"
      and run: "init_addmsg_nftset be portid m name v4 = do {
           (_, m) \<leftarrow> nlmsg_add_nest_nla be m1 NFTA_SET_ELEM_LIST_ELEMENTS;
           Some (Run m) }"
      unfolding h tg init_addmsg_nftset_def parse Let_def Option.bind.bind_lunit run.case prod.case by blast
    have "4 \<le> length fr" using m1(2) by simp
    from add_nest_view [OF m1(3) this, of NFTA_SET_ELEM_LIST_ELEMENTS]
    obtain m2 q where m2: "nlmsg_add_nest_nla be m1 NFTA_SET_ELEM_LIST_ELEMENTS = Some (q, m2)"
      "nlview be m2 (add_head be portid tg v4) (set_attrs be tg p1 p2 @ nest be NFTA_SET_ELEM_LIST_ELEMENTS []) (drop 4 fr)"
      by auto
    have "init_addmsg is_ipset be portid m name v4 = Some (Run m2)"
      using False run m2(1) by (simp add: init_addmsg_def)
    moreover have t: "target_of is_ipset name = Some (Set_nft f t s)" using Some False tg by simp
    moreover have "10 * (32 + 2 * iplen v4) \<le> length (drop 4 fr)" using m1(2) by simp
    ultimately show ?thesis using m1(1) m2(2) False
      unfolding tg t option.case add_attrs.simps list_attr.simps by (simp only: if_False) blast
  qed
qed

end
