(* ===== verification/Net.thy ===== *)
theory Net
  imports Prelude
begin

text \<open>
  Sending and receiving on a socket (\<^verbatim>\<open>src/net.c\<close>, and \<open>retry_EINTR\<close>, \<open>sendall\<close> and
  the bit vectors of \<^verbatim>\<open>src/misc.h\<close>). The kernel is a record: what was sent so far, and
  oracles that decide the outcome of every system call; an oracle is any function, so a theorem
  about all kernels holds for all interleavings of successes, errors and signals. A send either
  fails or sends, a receive fails or gives a message; a call on several messages stops at the
  first failure. What was sent decides, with the number of receives, what is received.
\<close>

unbundle bit_operations_syntax

section \<open>System calls\<close>

definition EINTR :: nat where "EINTR = 4"
definition EAGAIN :: nat where "EAGAIN = 11"
definition EINVAL :: nat where "EINVAL = 22"
definition ENOSYS :: nat where "ENOSYS = 38"

definition MSG_DONTWAIT :: u32 where "MSG_DONTWAIT = 0x40"
definition MSG_WAITFORONE :: u32 where "MSG_WAITFORONE = 0x10000"

datatype outcome = Fail nat | Sends nat

record kernel =
  k_sent :: "bytes list"
  k_send :: "nat \<Rightarrow> outcome"
  k_nsend :: nat
  k_recv :: "bytes list \<Rightarrow> nat \<Rightarrow> u32 \<Rightarrow> nat + bytes"
  k_nrecv :: nat

text \<open>Results are pairs of the returned value and \<^verbatim>\<open>errno\<close>.\<close>

definition sendmsg :: "bytes \<Rightarrow> kernel \<Rightarrow> (int \<times> nat) \<times> kernel" where
  "sendmsg m k =
     (case k_send k (k_nsend k) of
        Fail e \<Rightarrow> ((-1, e), k\<lparr>k_nsend := k_nsend k + 1\<rparr>)
      | Sends _ \<Rightarrow> ((int (length m), 0), k\<lparr>k_sent := k_sent k @ [m], k_nsend := k_nsend k + 1\<rparr>))"

definition sys_sendmmsg :: "bytes list \<Rightarrow> kernel \<Rightarrow> (int \<times> nat) \<times> kernel" where
  "sys_sendmmsg ms k =
     (case k_send k (k_nsend k) of
        Fail e \<Rightarrow> ((-1, e), k\<lparr>k_nsend := k_nsend k + 1\<rparr>)
      | Sends c \<Rightarrow>
          let n = max 1 (min c (length ms))
          in ((int n, 0), k\<lparr>k_sent := k_sent k @ take n ms, k_nsend := k_nsend k + 1\<rparr>))"

text \<open>A message for \<open>room\<close> bytes is cut off there.\<close>

definition recvmsg :: "nat \<Rightarrow> u32 \<Rightarrow> kernel \<Rightarrow> (int \<times> nat) \<times> bytes \<times> kernel" where
  "recvmsg room flags k =
     (let k' = k\<lparr>k_nrecv := k_nrecv k + 1\<rparr>
      in case k_recv k (k_sent k) (k_nrecv k) flags of
           Inl e \<Rightarrow> ((-1, e), [], k')
         | Inr m \<Rightarrow> ((int (length (take room m)), 0), take room m, k'))"

text \<open>
  The system call \<^verbatim>\<open>recvmmsg\<close> without a timeout, as documented: messages are received
  until one of them fails, after the first one without blocking if \<^verbatim>\<open>MSG_WAITFORONE\<close> is
  given, and the call fails only if the first of them does.
\<close>

fun sys_recvmmsg_all :: "nat list \<Rightarrow> u32 \<Rightarrow> kernel \<Rightarrow> nat \<times> bytes list \<times> kernel" where
  "sys_recvmmsg_all [] flags k = (0, [], k)"
| "sys_recvmmsg_all (room # rooms) flags k =
     (case recvmsg room (flags AND NOT MSG_WAITFORONE) k of ((res, e), m, k) \<Rightarrow>
        if res = -1 then (e, [], k)
        else (case sys_recvmmsg_all rooms (if flags AND MSG_WAITFORONE \<noteq> 0 then flags OR MSG_DONTWAIT else flags) k of
                (e, ms, k) \<Rightarrow> (e, m # ms, k)))"

definition sys_recvmmsg :: "nat list \<Rightarrow> u32 \<Rightarrow> kernel \<Rightarrow> (int \<times> nat) \<times> bytes list \<times> kernel" where
  "sys_recvmmsg rooms flags k =
     (case sys_recvmmsg_all rooms flags k of (e, ms, k) \<Rightarrow>
        (if ms = [] then ((-1, e), [], k) else ((int (length ms), 0), ms, k)))"

section \<open>net.c\<close>

text \<open>
  The loop of \<open>userspace_recvmmsg\<close> over the rooms of the messages; the bytes received into each
  are collected in order.
\<close>

fun userspace_recvmmsg_loop :: "nat list \<Rightarrow> u32 \<Rightarrow> bool \<Rightarrow> nat \<Rightarrow> bytes list \<Rightarrow> nat \<Rightarrow> kernel
    \<Rightarrow> nat \<times> bytes list \<times> nat \<times> kernel" where
  "userspace_recvmmsg_loop [] flags wait_for_one nrecv got errno k = (nrecv, got, errno, k)"
| "userspace_recvmmsg_loop (room # rooms) flags wait_for_one nrecv got errno k =
     (let ((res, e), m, k) = recvmsg room flags k
      in if res < 0 then (nrecv, got, e, k)
         else userspace_recvmmsg_loop rooms (if wait_for_one then flags OR MSG_DONTWAIT else flags) wait_for_one
                (nrecv + 1) (got @ [m]) errno k)"

definition userspace_recvmmsg :: "nat list \<Rightarrow> u32 \<Rightarrow> bool \<Rightarrow> kernel \<Rightarrow> (int \<times> nat) \<times> bytes list \<times> kernel" where
  "userspace_recvmmsg rooms flags timeout k =
     (if length rooms = 0 \<or> timeout then ((-1, EINVAL), [], k)
      else
        (let wait_for_one = (flags AND MSG_WAITFORONE \<noteq> 0);
             flags = flags AND NOT MSG_WAITFORONE;
             (nrecv, got, errno, k) = userspace_recvmmsg_loop rooms flags wait_for_one 0 [] 0 k
         in ((if nrecv = 0 then -1 else int nrecv, errno), got, k)))"

fun userspace_sendmmsg_loop :: "bytes list \<Rightarrow> nat \<Rightarrow> nat \<Rightarrow> kernel \<Rightarrow> nat \<times> nat \<times> kernel" where
  "userspace_sendmmsg_loop [] nsent errno k = (nsent, errno, k)"
| "userspace_sendmmsg_loop (m # ms) nsent errno k =
     (let ((res, e), k) = sendmsg m k
      in if res < 0 then (nsent, e, k) else userspace_sendmmsg_loop ms (nsent + 1) errno k)"

definition userspace_sendmmsg :: "bytes list \<Rightarrow> kernel \<Rightarrow> (int \<times> nat) \<times> kernel" where
  "userspace_sendmmsg ms k =
     (if length ms = 0 then ((-1, EINVAL), k)
      else
        (let (nsent, errno, k) = userspace_sendmmsg_loop ms 0 0 k
         in ((if nsent = 0 then -1 else int nsent, errno), k)))"

text \<open>
  \<open>net_init\<close>: which implementation \<^verbatim>\<open>RECVMMSG\<close> and \<^verbatim>\<open>SENDMMSG\<close> point to, from the
  results and the error numbers of the two probing calls.
\<close>

datatype impl = Syscall | Userspace

definition net_init :: "int \<times> nat \<Rightarrow> int \<times> nat \<Rightarrow> (impl \<times> impl) option" where
  "net_init recv_probe send_probe = do {
     _ \<leftarrow> c_assert (fst recv_probe = -1);
     let recv = (if snd recv_probe \<noteq> ENOSYS then Syscall else Userspace);
     _ \<leftarrow> c_assert (fst send_probe = -1);
     let send = (if snd send_probe \<noteq> ENOSYS then Syscall else Userspace);
     Some (recv, send) }"

definition SENDMMSG :: "impl \<Rightarrow> bytes list \<Rightarrow> kernel \<Rightarrow> (int \<times> nat) \<times> kernel" where
  "SENDMMSG i ms k = (case i of Syscall \<Rightarrow> sys_sendmmsg ms k | Userspace \<Rightarrow> userspace_sendmmsg ms k)"

definition RECVMMSG :: "impl \<Rightarrow> nat list \<Rightarrow> u32 \<Rightarrow> kernel \<Rightarrow> (int \<times> nat) \<times> bytes list \<times> kernel" where
  "RECVMMSG i rooms flags k = (case i of Syscall \<Rightarrow> sys_recvmmsg rooms flags k
     | Userspace \<Rightarrow> userspace_recvmmsg rooms flags False k)"

section \<open>retry_EINTR and sendall\<close>

partial_function (option) retry_EINTR :: "(kernel \<Rightarrow> (int \<times> nat) \<times> kernel) \<Rightarrow> kernel \<Rightarrow> ((int \<times> nat) \<times> kernel) option" where
  "retry_EINTR call k =
     (let ((ret, errno), k) = call k
      in if ret = -1 \<and> errno = EINTR then retry_EINTR call k else Some ((ret, errno), k))"

text \<open>\<open>sendall(f, fd, base, len, ...)\<close> on the messages \<open>base\<close>, where \<open>f\<close> sends the first of a list.\<close>

partial_function (option) sendall_loop ::
    "(bytes list \<Rightarrow> kernel \<Rightarrow> (int \<times> nat) \<times> kernel) \<Rightarrow> bytes list \<Rightarrow> nat \<Rightarrow> kernel \<Rightarrow> (nat \<times> kernel) option" where
  "sendall_loop f base nsent k = do {
     ((ret, errno), k) \<leftarrow> retry_EINTR (f (drop nsent base)) k;
     if ret < 0 then Some (nsent, k)
     else do {
       _ \<leftarrow> c_assert (ret \<noteq> 0);
       if nsent + nat ret < length base then sendall_loop f base (nsent + nat ret) k
       else Some (nsent + nat ret, k) } }"

definition sendall :: "(bytes list \<Rightarrow> kernel \<Rightarrow> (int \<times> nat) \<times> kernel) \<Rightarrow> bytes list \<Rightarrow> kernel \<Rightarrow> (int \<times> kernel) option" where
  "sendall f base k = do {
     _ \<leftarrow> c_assert (length base > 0);
     (nsent, k) \<leftarrow> sendall_loop f base 0 k;
     Some (if nsent = 0 then -1 else int nsent, k) }"

section \<open>Bit vectors\<close>

definition bitvec_n :: "nat \<Rightarrow> nat" where
  "bitvec_n nbits = (nbits + 8 - 1) div 8"

definition bitvec_get :: "bytes \<Rightarrow> nat \<Rightarrow> bool option" where
  "bitvec_get vec i = do { b \<leftarrow> rd8 vec (i div 8); Some (b AND push_bit (i mod 8) 1 \<noteq> 0) }"

definition bitvec_set1 :: "bytes \<Rightarrow> nat \<Rightarrow> bytes option" where
  "bitvec_set1 vec i = do { b \<leftarrow> rd8 vec (i div 8); wr8 vec (i div 8) (b OR push_bit (i mod 8) 1) }"

definition bitvec_set0 :: "bytes \<Rightarrow> nat \<Rightarrow> bytes option" where
  "bitvec_set0 vec i = do { b \<leftarrow> rd8 vec (i div 8); wr8 vec (i div 8) (b AND NOT (push_bit (i mod 8) 1)) }"

section \<open>What sendall relies on\<close>

text \<open>
  The contract of a function that sends the first of some messages: it sends at least one of
  them, or fails with the error of the outcome of its first system call, and it leaves the
  oracles and the receive side alone.
\<close>

definition same_oracles :: "kernel \<Rightarrow> kernel \<Rightarrow> bool" where
  "same_oracles k k' \<longleftrightarrow> k_send k' = k_send k \<and> k_recv k' = k_recv k \<and> k_nrecv k' = k_nrecv k"

definition sends_some :: "bytes list \<Rightarrow> kernel \<Rightarrow> int \<Rightarrow> nat \<Rightarrow> kernel \<Rightarrow> bool" where
  "sends_some ms k r e k' \<longleftrightarrow> same_oracles k k' \<and> k_nsend k < k_nsend k'
     \<and> (r = -1 \<and> k_send k (k_nsend k) = Fail e \<and> k_sent k' = k_sent k \<and> k_nsend k' = k_nsend k + 1
        \<or> 0 < r \<and> r \<le> int (length ms) \<and> k_sent k' = k_sent k @ take (nat r) ms)"

text \<open>The calls are not interrupted forever, and whether the kernel never refuses a message.\<close>

definition interrupts_end :: "kernel \<Rightarrow> bool" where
  "interrupts_end k \<longleftrightarrow> (\<forall>n. \<exists>m \<ge> n. k_send k m \<noteq> Fail EINTR)"

definition never_refuses :: "kernel \<Rightarrow> bool" where
  "never_refuses k \<longleftrightarrow> (\<forall>n e. k_send k n = Fail e \<longrightarrow> e = EINTR)"

locale mmsg_send =
  fixes send :: "bytes list \<Rightarrow> kernel \<Rightarrow> (int \<times> nat) \<times> kernel"
  assumes send_some: "ms \<noteq> [] \<Longrightarrow> send ms k = ((r, e), k') \<Longrightarrow> sends_some ms k r e k'"
begin

lemma retry_send:
  assumes "interrupts_end k" "ms \<noteq> []"
  shows "\<exists>r e k'. retry_EINTR (send ms) k = Some ((r, e), k') \<and> same_oracles k k'
    \<and> (r = -1 \<and> k_sent k' = k_sent k \<and> \<not> never_refuses k
       \<or> 0 < r \<and> r \<le> int (length ms) \<and> k_sent k' = k_sent k @ take (nat r) ms)"
proof -
  obtain m where m: "k_nsend k \<le> m" "k_send k m \<noteq> Fail EINTR" using assms(1) unfolding interrupts_end_def by blast
  then show ?thesis
  proof (induction "m - k_nsend k" arbitrary: k rule: less_induct)
    case (less k)
    obtain r e k' where k': "send ms k = ((r, e), k')" by (cases "send ms k") auto
    note step = send_some [OF assms(2) k', unfolded sends_some_def]
    show ?case
    proof (cases "r = -1 \<and> e = EINTR")
      case True
      then have int: "k_send k (k_nsend k) = Fail EINTR" "k_nsend k' = k_nsend k + 1" "k_sent k' = k_sent k"
        "same_oracles k k'" using step by auto
      then have "k_nsend k \<noteq> m" using less.prems(2) by auto
      then have "m - k_nsend k' < m - k_nsend k" "k_nsend k' \<le> m" "k_send k' m \<noteq> Fail EINTR"
        using less.prems int by (auto simp: same_oracles_def)
      from less.hyps [OF this] obtain r' e' k'' where
        "retry_EINTR (send ms) k' = Some ((r', e'), k'')" "same_oracles k' k''"
        "r' = -1 \<and> k_sent k'' = k_sent k' \<and> \<not> never_refuses k'
          \<or> 0 < r' \<and> r' \<le> int (length ms) \<and> k_sent k'' = k_sent k' @ take (nat r') ms" by blast
      then show ?thesis
        using k' True int by (subst retry_EINTR.simps) (auto simp: same_oracles_def never_refuses_def)
    next
      case False
      then have "retry_EINTR (send ms) k = Some ((r, e), k')"
        using k' by (subst retry_EINTR.simps) auto
      moreover have "\<not> never_refuses k" if "r = -1"
        using that step False by (auto simp: never_refuses_def)
      ultimately show ?thesis using step by auto
    qed
  qed
qed

lemma interrupts_end_cong: "same_oracles k k' \<Longrightarrow> interrupts_end k' = interrupts_end k"
  "same_oracles k k' \<Longrightarrow> never_refuses k' = never_refuses k"
  by (simp_all add: same_oracles_def interrupts_end_def never_refuses_def)

lemma sendall_loop_spec:
  assumes "interrupts_end k" "n < length ms"
  shows "\<exists>n' k'. sendall_loop send ms n k = Some (n', k') \<and> same_oracles k k' \<and> n \<le> n' \<and> n' \<le> length ms
    \<and> k_sent k' = k_sent k @ take (n' - n) (drop n ms) \<and> (never_refuses k \<longrightarrow> n' = length ms)"
  using assms
proof (induction "length ms - n" arbitrary: n k rule: less_induct)
  case less
  have "drop n ms \<noteq> []" using less.prems(2) by simp
  from retry_send [OF less.prems(1) this] obtain r e k1 where r: "retry_EINTR (send (drop n ms)) k = Some ((r, e), k1)"
    "same_oracles k k1" "r = -1 \<and> k_sent k1 = k_sent k \<and> \<not> never_refuses k
      \<or> 0 < r \<and> r \<le> int (length (drop n ms)) \<and> k_sent k1 = k_sent k @ take (nat r) (drop n ms)" by blast
  show ?case
  proof (cases "r = -1")
    case True
    then show ?thesis using r less.prems by (subst sendall_loop.simps) auto
  next
    case False
    then have pos: "0 < r" "r \<le> int (length (drop n ms))" "k_sent k1 = k_sent k @ take (nat r) (drop n ms)"
      using r(3) by auto
    define n1 where "n1 = n + nat r"
    have n1: "n < n1" "n1 \<le> length ms" "nat r = n1 - n" using pos less.prems by (auto simp: n1_def)
    show ?thesis
    proof (cases "n1 < length ms")
      case True
      have "length ms - n1 < length ms - n" "interrupts_end k1"
        using n1 less.prems interrupts_end_cong [OF r(2)] by auto
      from less.hyps [OF this True] obtain n' k' where n': "sendall_loop send ms n1 k1 = Some (n', k')"
        "same_oracles k1 k'" "n1 \<le> n'" "n' \<le> length ms" "k_sent k' = k_sent k1 @ take (n' - n1) (drop n1 ms)"
        "never_refuses k1 \<longrightarrow> n' = length ms" by blast
      have "take (n' - n) (drop n ms) = take (n1 - n) (drop n ms) @ take (n' - n1) (drop n1 ms)"
        using n1 n'(3) take_add [of "n1 - n" "n' - n1" "drop n ms"] by simp
      then have "k_sent k' = k_sent k @ take (n' - n) (drop n ms)" using n'(5) pos(3) n1(3) by simp
      moreover have "sendall_loop send ms n k = Some (n', k')"
        using r(1) pos True n'(1) by (subst sendall_loop.simps) (simp add: n1_def)
      moreover have "same_oracles k k'" using r(2) n'(2) by (simp add: same_oracles_def)
      ultimately show ?thesis using n' n1 interrupts_end_cong [OF r(2)] by auto
    next
      case False
      then have all: "n1 = length ms" using n1 by simp
      have "sendall_loop send ms n k = Some (n1, k1)"
        using r(1) pos False by (subst sendall_loop.simps) (simp add: n1_def)
      moreover have "k_sent k1 = k_sent k @ take (n1 - n) (drop n ms)" using pos(3) n1(3) by simp
      ultimately show ?thesis using r(2) all n1 by (intro exI [of _ n1] exI [of _ k1]) simp
    qed
  qed
qed

lemma sendall_spec:
  assumes "interrupts_end k" "ms \<noteq> []"
  shows "\<exists>r k'. sendall send ms k = Some (r, k') \<and> same_oracles k k' \<and> r \<noteq> 0 \<and> -1 \<le> r \<and> r \<le> int (length ms)
    \<and> k_sent k' = k_sent k @ take (nat r) ms \<and> (never_refuses k \<longrightarrow> r = int (length ms))"
proof -
  have "0 < length ms" using assms(2) by simp
  from sendall_loop_spec [OF assms(1) this] obtain n k' where "sendall_loop send ms 0 k = Some (n, k')"
    "same_oracles k k'" "n \<le> length ms" "k_sent k' = k_sent k @ take n ms" "never_refuses k \<longrightarrow> n = length ms"
    by auto
  then show ?thesis using assms(2) by (auto simp: sendall_def)
qed

end

section \<open>The implementations send in order\<close>

lemma userspace_sendmmsg_loop_spec:
  assumes "userspace_sendmmsg_loop ms n e k = (n', e', k')"
  shows "same_oracles k k' \<and> n \<le> n' \<and> n' \<le> n + length ms \<and> k_sent k' = k_sent k @ take (n' - n) ms
    \<and> (ms \<noteq> [] \<longrightarrow> k_nsend k < k_nsend k')
    \<and> (ms \<noteq> [] \<and> n' = n \<longrightarrow> k_send k (k_nsend k) = Fail e' \<and> k_nsend k' = k_nsend k + 1)"
  using assms
proof (induction ms arbitrary: n k)
  case (Cons m ms)
  show ?case
  proof (cases "k_send k (k_nsend k)")
    case (Fail x)
    then show ?thesis using Cons.prems by (auto simp: sendmsg_def same_oracles_def)
  next
    case (Sends c)
    let ?k1 = "k\<lparr>k_sent := k_sent k @ [m], k_nsend := k_nsend k + 1\<rparr>"
    have send: "sendmsg m k = ((int (length m), 0), ?k1)" using Sends by (simp add: sendmsg_def)
    then have rec: "userspace_sendmmsg_loop ms (n + 1) e ?k1 = (n', e', k')" using Cons.prems by simp
    have "same_oracles ?k1 k' \<and> n + 1 \<le> n' \<and> n' \<le> n + 1 + length ms
        \<and> k_sent k' = k_sent ?k1 @ take (n' - (n + 1)) ms \<and> (ms \<noteq> [] \<longrightarrow> k_nsend ?k1 < k_nsend k')"
      using Cons.IH [OF rec] by blast
    moreover have "ms = [] \<Longrightarrow> k_nsend k' = k_nsend ?k1" using rec by auto
    moreover have "take (n' - n) (m # ms) = m # take (n' - (n + 1)) ms" if "n + 1 \<le> n'"
      using that by (simp add: take_Cons')
    ultimately show ?thesis by (cases "ms = []") (auto simp: same_oracles_def)
  qed
qed (auto simp: same_oracles_def)

interpretation sys: mmsg_send sys_sendmmsg
proof
  fix ms k r e k'
  assume ms: "ms \<noteq> []" and send: "sys_sendmmsg ms k = ((r, e), k')"
  show "sends_some ms k r e k'"
  proof (cases "k_send k (k_nsend k)")
    case (Fail x)
    then show ?thesis using send by (auto simp: sys_sendmmsg_def sends_some_def same_oracles_def)
  next
    case (Sends c)
    then show ?thesis
      using send ms by (auto simp: sys_sendmmsg_def sends_some_def same_oracles_def Let_def) (auto simp: Suc_le_eq)
  qed
qed

interpretation user: mmsg_send userspace_sendmmsg
proof
  fix ms k r e k'
  assume ms: "ms \<noteq> []" and send: "userspace_sendmmsg ms k = ((r, e), k')"
  obtain n' e' k1 where loop: "userspace_sendmmsg_loop ms 0 0 k = (n', e', k1)"
    by (cases "userspace_sendmmsg_loop ms 0 0 k") auto
  then have "k1 = k'" "e' = e" "r = (if n' = 0 then -1 else int n')"
    using send ms by (auto simp: userspace_sendmmsg_def split: if_splits)
  then show "sends_some ms k r e k'"
    using userspace_sendmmsg_loop_spec [OF loop] ms by (auto simp: sends_some_def)
qed

interpretation send: mmsg_send "SENDMMSG i" for i
  by unfold_locales (cases i; simp add: SENDMMSG_def sys.send_some user.send_some)

text \<open>
  C25: However the kernel accepts, partly accepts, interrupts or refuses the calls, \<open>sendall\<close>
  over either implementation of \<^verbatim>\<open>SENDMMSG\<close> returns once the interruptions end; what it has
  sent is a prefix of the messages, in order and without a message left out or sent twice, its
  result is the length of that prefix (or -1 for none), and a kernel that never refuses gets all
  of them.
\<close>

theorem sendall_delivers:
  assumes "interrupts_end k" "ms \<noteq> []"
  shows "\<exists>r k'. sendall (SENDMMSG i) ms k = Some (r, k') \<and> k_sent k' = k_sent k @ take (nat r) ms
    \<and> (r = -1 \<or> 0 < r \<and> r \<le> int (length ms)) \<and> (never_refuses k \<longrightarrow> r = int (length ms))"
proof -
  obtain r k' where r: "sendall (SENDMMSG i) ms k = Some (r, k')" "r \<noteq> 0" "-1 \<le> r" "r \<le> int (length ms)"
    "k_sent k' = k_sent k @ take (nat r) ms" "never_refuses k \<longrightarrow> r = int (length ms)"
    using send.sendall_spec [OF assms, of i] by blast
  have "r = -1 \<or> 0 < r" using r(2,3) by linarith
  then show ?thesis using r by blast
qed

definition sample_kernel :: kernel where
  "sample_kernel = \<lparr>k_sent = [], k_send = (\<lambda>n. if n < 2 then Fail EINTR else Sends 1), k_nsend = 0,
     k_recv = (\<lambda>sent n flags. if n < length sent then Inr [word_of_nat n, 7, 8] else Inl EAGAIN), k_nrecv = 0\<rparr>"

lemma sample_kernel_live: "interrupts_end sample_kernel" "never_refuses sample_kernel"
proof -
  have "\<exists>m \<ge> n. k_send sample_kernel m \<noteq> Fail EINTR" for n
    by (rule exI [of _ "n + 2"]) (simp add: sample_kernel_def)
  then show "interrupts_end sample_kernel" by (simp add: interrupts_end_def)
  show "never_refuses sample_kernel" by (simp add: never_refuses_def sample_kernel_def)
qed

theorem sendall_delivers_witness:
  "\<exists>k'. sendall (SENDMMSG Syscall) [[1], [2, 3], [4]] sample_kernel = Some (3, k') \<and> k_sent k' = [[1], [2, 3], [4]]"
  using sendall_delivers [OF sample_kernel_live(1), of "[[1], [2, 3], [4]]" Syscall] sample_kernel_live(2)
  by (auto simp: sample_kernel_def numeral_3_eq_3)

section \<open>userspace_recvmmsg\<close>

lemma userspace_recvmmsg_loop_eq:
  assumes "w = (flags AND MSG_WAITFORONE \<noteq> 0)"
  shows "userspace_recvmmsg_loop rooms (flags AND NOT MSG_WAITFORONE) w n got 0 k
    = (case sys_recvmmsg_all rooms flags k of (e, ms, k') \<Rightarrow> (n + length ms, got @ ms, e, k'))"
  using assms
proof (induction rooms arbitrary: flags n got k w)
  case (Cons room rooms)
  obtain r e m k1 where r: "recvmsg room (flags AND NOT MSG_WAITFORONE) k = ((r, e), m, k1)"
    by (cases "recvmsg room (flags AND NOT MSG_WAITFORONE) k") auto
  have neg: "r < 0 \<longleftrightarrow> r = -1"
    using r by (auto simp: recvmsg_def Let_def split: sum.splits)
  let ?f = "if w then flags OR MSG_DONTWAIT else flags"
  have clear: "(if w then (flags AND NOT MSG_WAITFORONE) OR MSG_DONTWAIT else flags AND NOT MSG_WAITFORONE)
      = ?f AND NOT MSG_WAITFORONE"
    by (auto simp: MSG_DONTWAIT_def MSG_WAITFORONE_def bit.conj_disj_distrib2)
  have keep: "w = (?f AND MSG_WAITFORONE \<noteq> 0)"
    using Cons.prems by (auto simp: MSG_DONTWAIT_def MSG_WAITFORONE_def bit.conj_disj_distrib2)
  obtain e' ms k' where all: "sys_recvmmsg_all rooms ?f k1 = (e', ms, k')"
    by (cases "sys_recvmmsg_all rooms ?f k1")
  have IH: "userspace_recvmmsg_loop rooms (?f AND NOT MSG_WAITFORONE) w (n + 1) (got @ [m]) 0 k1
      = (n + 1 + length ms, (got @ [m]) @ ms, e', k')"
    using Cons.IH [OF keep, of "n + 1" "got @ [m]" k1] by (simp only: all prod.case)
  have "userspace_recvmmsg_loop (room # rooms) (flags AND NOT MSG_WAITFORONE) w n got 0 k
      = (if r < 0 then (n, got, e, k1) else (n + 1 + length ms, (got @ [m]) @ ms, e', k'))"
    unfolding userspace_recvmmsg_loop.simps r Let_def prod.case clear IH ..
  moreover have "sys_recvmmsg_all (room # rooms) flags k = (if r = -1 then (e, [], k1) else (e', m # ms, k'))"
    unfolding sys_recvmmsg_all.simps r prod.case Cons.prems [symmetric] all ..
  ultimately show ?case using neg by simp
qed simp

text \<open>
  C33: Without a timeout, \<open>userspace_recvmmsg\<close>, used where the kernel has no \<^verbatim>\<open>recvmmsg\<close>,
  receives the same messages, in the same calls, and returns the same number as the system call,
  also with \<^verbatim>\<open>MSG_WAITFORONE\<close>; where it returns -1 it leaves the same \<^verbatim>\<open>errno\<close>.
\<close>

theorem userspace_recvmmsg_equiv:
  assumes "rooms \<noteq> []" "userspace_recvmmsg rooms flags False k = ((r, e), ms, k')"
    "sys_recvmmsg rooms flags k = ((r', e'), ms', k'')"
  shows "r = r' \<and> ms = ms' \<and> k' = k'' \<and> (r = -1 \<longrightarrow> e = e')"
proof -
  obtain e0 ms0 k0 where all: "sys_recvmmsg_all rooms flags k = (e0, ms0, k0)"
    by (cases "sys_recvmmsg_all rooms flags k") auto
  show ?thesis
    using assms(2,3) assms(1) userspace_recvmmsg_loop_eq [OF refl, of rooms flags 0 "[]" k]
    by (auto simp: userspace_recvmmsg_def sys_recvmmsg_def all Let_def split: if_splits)
qed

theorem userspace_recvmmsg_equiv_witness:
  "\<exists>k'. userspace_recvmmsg [2, 9] MSG_DONTWAIT False (sample_kernel\<lparr>k_sent := [[1], [2], [3]]\<rparr>) = ((2, 0), [[0, 7], [1, 7, 8]], k')
    \<and> sys_recvmmsg [2, 9] MSG_DONTWAIT (sample_kernel\<lparr>k_sent := [[1], [2], [3]]\<rparr>) = ((2, 0), [[0, 7], [1, 7, 8]], k')"
proof -
  let ?k = "sample_kernel\<lparr>k_sent := [[1], [2], [3]]\<rparr>"
  obtain k1 where 1: "userspace_recvmmsg [2, 9] MSG_DONTWAIT False ?k = ((2, 0), [[0, 7], [1, 7, 8]], k1)"
    by (simp add: userspace_recvmmsg_def recvmsg_def sample_kernel_def Let_def)
  obtain k2 where 2: "sys_recvmmsg [2, 9] MSG_DONTWAIT ?k = ((2, 0), [[0, 7], [1, 7, 8]], k2)"
    by (simp add: sys_recvmmsg_def recvmsg_def sample_kernel_def Let_def)
  show ?thesis using userspace_recvmmsg_equiv [OF _ 1 2] 1 2 by auto
qed

section \<open>Lemmas on bit vectors\<close>

lemma bit_u8_test: "(b AND 2 ^ j \<noteq> 0) = bit (b :: u8) j"
  by (simp add: and_exp_eq_0_iff_not_bit)

lemma bitvec_get_eq: "i < 8 * length vec \<Longrightarrow> bitvec_get vec i = Some (bit (vec ! (i div 8)) (i mod 8))"
  by (simp add: bitvec_get_def rd8_def bit_u8_test less_mult_imp_div_less mult.commute)

lemma bitvec_set1_get:
  assumes "i < 8 * length vec"
  shows "\<exists>vec'. bitvec_set1 vec i = Some vec' \<and> length vec' = length vec
    \<and> (\<forall>j < 8 * length vec. bitvec_get vec' j = (if j = i then Some True else bitvec_get vec j))"
proof -
  have i: "i div 8 < length vec" using assms by (simp add: less_mult_imp_div_less mult.commute)
  have "j = i" if "j div 8 = i div 8" "j mod 8 = i mod 8" for j
    using that by (metis mult_div_mod_eq)
  then show ?thesis
    using i by (auto simp: bitvec_set1_def rd8_def wr8_def bitvec_get_eq nth_list_update bit_simps)
qed

lemma bitvec_zero_get: "i < 8 * n \<Longrightarrow> bitvec_get (replicate n 0) i = Some False"
  by (simp add: bitvec_get_eq less_mult_imp_div_less mult.commute)

end
