(* ===== verification/Ipset_Ops.thy ===== *)
theory Ipset_Ops
  imports Ipset_Build Net
begin

text \<open>
  The operations of \<^verbatim>\<open>src/ipset.c\<close> on its contexts and on its static variables. A message
  of a context is its buffer, \<open>None\<close> the null pointer. An \<^verbatim>\<open>iovec\<close> names the object it points
  into, with an offset and a length, and is only read when the message is sent, as the system
  call does, so that later changes of a message header are seen. Both arrays start out
  uninitialised (\<open>None\<close>). \<open>be\<close> says whether the host is big-endian. Logging is left out.
\<close>

section \<open>State\<close>

type_synonym testctx = "bool \<Rightarrow> bytes option"

record addctx =
  a_test :: testctx
  a_msg :: "bool \<Rightarrow> bytes option"
  a_baselen :: "bool \<Rightarrow> u32 option"
  a_ipcnt :: "bool \<Rightarrow> nat"

datatype area = TestMsg bool | AddMsg bool | BatchBegin | BatchEnd | ResBuf

type_synonym iovec = "area \<times> nat \<times> nat"

text \<open>
  \<open>s_backend\<close> stands for the function pointers \<open>test_res\<close>, \<open>add_ip\<close> and \<open>end_add_ip\<close>,
  which are always set together. A message header is the index of its first \<^verbatim>\<open>iovec\<close> and
  their number. \<open>RECVMMSG\<close> and \<open>SENDMMSG\<close> are what \<open>net_init\<close> found.
\<close>

record ipset_state =
  ipset_blacklist :: bool
  s_sock :: int
  s_portid :: u32
  s_backend :: "bool option"
  s_msgv :: "(nat \<times> nat) option list"
  s_iov :: "iovec option list"
  s_buf_res :: bytes
  s_batch_begin :: bytes
  s_batch_end :: bytes
  recv_impl :: impl
  send_impl :: impl
  net :: kernel

definition ipset_initial :: "impl \<Rightarrow> impl \<Rightarrow> kernel \<Rightarrow> ipset_state" where
  "ipset_initial recv send k = \<lparr>ipset_blacklist = True, s_sock = -1, s_portid = 0, s_backend = None,
     s_msgv = [], s_iov = [], s_buf_res = [], s_batch_begin = replicate HEADER_SIZE 0,
     s_batch_end = replicate HEADER_SIZE 0, recv_impl = recv, send_impl = send, net = k\<rparr>"

section \<open>Initialisation\<close>

text \<open>What the four system calls of \<open>nl_sock_create\<close> return, and the port they bind.\<close>

record sock_calls =
  r_socket :: int
  r_bind :: int
  r_getsockname :: int
  nl_pid :: u32
  r_connect :: int

definition nl_sock_create :: "sock_calls \<Rightarrow> (int \<times> u32) run" where
  "nl_sock_create c =
     (if r_socket c < 0 then Exit
      else if r_bind c \<noteq> 0 then Exit
      else if r_getsockname c \<noteq> 0 then Exit
      else if r_connect c \<noteq> 0 then Exit
      else Run (r_socket c, nl_pid c))"

text \<open>\<open>n\<close> bytes at the offset \<open>p\<close> of a \<^verbatim>\<open>malloc\<close>ed area with any content.\<close>

definition fresh :: "(nat \<Rightarrow> u8) \<Rightarrow> nat \<Rightarrow> nat \<Rightarrow> bytes" where
  "fresh garbage p n = map garbage [p ..< p + n]"

definition init :: "bool \<Rightarrow> sock_calls \<Rightarrow> (nat \<Rightarrow> u8) \<Rightarrow> bytes \<Rightarrow> ipset_state \<Rightarrow> (bool \<times> ipset_state) run option" where
  "init be c garbage name46 st =
     (let is_ipset = (AT_SIGN \<notin> set name46)
      in if s_sock st \<ge> 0 then
           let is_ipset_backend = (s_backend st = Some True)
           in if is_ipset \<noteq> is_ipset_backend then Some Exit else Some (Run (is_ipset, st))
         else (case nl_sock_create c of
           Exit \<Rightarrow> Some Exit
         | Run (sock, portid) \<Rightarrow> do {
             let st = st\<lparr>s_sock := sock, s_portid := portid, s_msgv := replicate MSG_N None,
               s_iov := replicate IOV_N None, s_buf_res := fresh garbage 0 BUFSZ_RES, s_backend := Some is_ipset\<rparr>;
             if is_ipset then Some (Run (is_ipset, st))
             else do {
               b \<leftarrow> init_header be portid (s_batch_begin st) NFNL_MSG_BATCH_BEGIN NLM_F_REQUEST AF_UNSPEC NFNL_SUBSYS_NFTABLES;
               e \<leftarrow> init_header be portid (s_batch_end st) NFNL_MSG_BATCH_END NLM_F_REQUEST AF_UNSPEC NFNL_SUBSYS_NFTABLES;
               Some (Run (is_ipset, st\<lparr>s_batch_begin := b, s_batch_end := e\<rparr>)) } }))"

definition init_testctx :: "bool \<Rightarrow> u32 \<Rightarrow> testctx \<Rightarrow> bytes \<Rightarrow> bytes \<Rightarrow> bool \<Rightarrow> bool \<Rightarrow> testctx run option" where
  "init_testctx be portid ctx name4 name6 is_ipset ack =
     (let msg = (\<lambda>v4 name ctx.
        (case ctx v4 of
           None \<Rightarrow> Some (Run ctx)
         | Some m \<Rightarrow>
             and_then (if is_ipset then init_testmsg_ipset be portid m name v4 ack else init_testmsg_nftset be portid m name v4)
               (\<lambda>m. Some (Run (ctx(v4 := Some m))))))
      in and_then (msg True name4 ctx) (msg False name6))"

definition ipset_new_testctx :: "bool \<Rightarrow> sock_calls \<Rightarrow> (nat \<Rightarrow> u8) \<Rightarrow> (nat \<Rightarrow> u8) \<Rightarrow> bytes \<Rightarrow> ipset_state
    \<Rightarrow> (testctx \<times> ipset_state) run option" where
  "ipset_new_testctx be c garbage mem name46 st =
     and_then (init be c garbage name46 st) (\<lambda>(is_ipset, st).
     and_then (parse_name46 name46) (\<lambda>(name4, name6).
       let msg4_sz = (if name4 = [] then 0 else BUFSZ_TEST is_ipset True);
           msg6_sz = (if name6 = [] then 0 else BUFSZ_TEST is_ipset False);
           ctx = (\<lambda>v4. if v4 then if msg4_sz \<noteq> 0 then Some (fresh mem 0 msg4_sz) else None
                       else if msg6_sz \<noteq> 0 then Some (fresh mem msg4_sz msg6_sz) else None)
       in and_then (init_testctx be (s_portid st) ctx name4 name6 is_ipset False) (\<lambda>ctx. Some (Run (ctx, st)))))"

definition ipset_new_addctx :: "bool \<Rightarrow> sock_calls \<Rightarrow> (nat \<Rightarrow> u8) \<Rightarrow> (nat \<Rightarrow> u8) \<Rightarrow> bytes \<Rightarrow> ipset_state
    \<Rightarrow> (addctx \<times> ipset_state) run option" where
  "ipset_new_addctx be c garbage mem name46 st =
     and_then (init be c garbage name46 st) (\<lambda>(is_ipset, st).
     and_then (parse_name46 name46) (\<lambda>(name4, name6).
       let test_msg4_sz = (if name4 = [] then 0 else BUFSZ_TEST is_ipset True);
           test_msg6_sz = (if name6 = [] then 0 else BUFSZ_TEST is_ipset False);
           add_msg4_sz = (if name4 = [] then 0 else BUFSZ_ADD is_ipset True);
           add_msg6_sz = (if name6 = [] then 0 else BUFSZ_ADD is_ipset False);
           ctx = \<lparr>a_test = (\<lambda>v4. if v4 then if test_msg4_sz \<noteq> 0 then Some (fresh mem 0 test_msg4_sz) else None
                     else if test_msg6_sz \<noteq> 0 then Some (fresh mem test_msg4_sz test_msg6_sz) else None),
                  a_msg = (\<lambda>v4. if v4 then if add_msg4_sz \<noteq> 0 then Some (fresh mem (test_msg4_sz + test_msg6_sz) add_msg4_sz) else None
                     else if add_msg6_sz \<noteq> 0 then Some (fresh mem (test_msg4_sz + test_msg6_sz + add_msg4_sz) add_msg6_sz) else None),
                  a_baselen = (\<lambda>_. None), a_ipcnt = (\<lambda>_. 0)\<rparr>;
           init_addmsg = (\<lambda>m name v4. if is_ipset then init_addmsg_ipset be (s_portid st) m name v4
                     else init_addmsg_nftset be (s_portid st) m name v4);
           add = (\<lambda>v4 name ctx.
             (case a_msg ctx v4 of
                None \<Rightarrow> Some (Run ctx)
              | Some m \<Rightarrow> and_then (init_addmsg m name v4) (\<lambda>m. do {
                  l \<leftarrow> nlmsg_len be m;
                  Some (Run (ctx\<lparr>a_msg := (a_msg ctx)(v4 := Some m), a_baselen := (a_baselen ctx)(v4 := Some l)\<rparr>)) })))
       in and_then (init_testctx be (s_portid st) (a_test ctx) name4 name6 is_ipset True) (\<lambda>t.
          and_then (add True name4 (ctx\<lparr>a_test := t\<rparr>)) (\<lambda>ctx.
          and_then (add False name6 ctx) (\<lambda>ctx. Some (Run (ctx, st)))))))"

section \<open>Scatter and gather\<close>

definition set_iov :: "nat \<Rightarrow> area \<Rightarrow> nat \<Rightarrow> nat \<Rightarrow> ipset_state \<Rightarrow> ipset_state option" where
  "set_iov i a off len st =
     (if i < length (s_iov st) then Some (st\<lparr>s_iov := (s_iov st)[i := Some (a, off, len)]\<rparr>) else None)"

definition set_MSGHDR :: "nat \<Rightarrow> nat \<Rightarrow> nat \<Rightarrow> ipset_state \<Rightarrow> ipset_state option" where
  "set_MSGHDR i iov iovlen st =
     (if i < length (s_msgv st) then Some (st\<lparr>s_msgv := (s_msgv st)[i := Some (iov, iovlen)]\<rparr>) else None)"

definition get_iov :: "ipset_state \<Rightarrow> nat \<Rightarrow> iovec option" where
  "get_iov st i = (if i < length (s_iov st) then s_iov st ! i else None)"

definition get_msg :: "ipset_state \<Rightarrow> nat \<Rightarrow> (nat \<times> nat) option" where
  "get_msg st i = (if i < length (s_msgv st) then s_msgv st ! i else None)"

text \<open>The objects of a context, and of the static variables.\<close>

type_synonym env = "area \<Rightarrow> bytes option"

definition test_env :: "testctx \<Rightarrow> env" where
  "test_env ctx a = (case a of TestMsg v4 \<Rightarrow> ctx v4 | _ \<Rightarrow> None)"

definition add_env :: "addctx \<Rightarrow> env" where
  "add_env ctx a = (case a of TestMsg v4 \<Rightarrow> a_test ctx v4 | AddMsg v4 \<Rightarrow> a_msg ctx v4 | _ \<Rightarrow> None)"

definition area_bytes :: "env \<Rightarrow> ipset_state \<Rightarrow> area \<Rightarrow> bytes option" where
  "area_bytes env st a = (case a of BatchBegin \<Rightarrow> Some (s_batch_begin st) | BatchEnd \<Rightarrow> Some (s_batch_end st)
     | ResBuf \<Rightarrow> Some (s_buf_res st) | _ \<Rightarrow> env a)"

definition iov_bytes :: "env \<Rightarrow> ipset_state \<Rightarrow> nat \<Rightarrow> bytes option" where
  "iov_bytes env st i = do { (a, off, len) \<leftarrow> get_iov st i; m \<leftarrow> area_bytes env st a; slice_at m off len }"

definition msg_bytes :: "env \<Rightarrow> ipset_state \<Rightarrow> nat \<Rightarrow> bytes option" where
  "msg_bytes env st i = do {
     (f, n) \<leftarrow> get_msg st i;
     parts \<leftarrow> those (map (iov_bytes env st) [f ..< f + n]);
     Some (concat parts) }"

text \<open>Received messages are stored in \<open>s_buf_res\<close> only; \<open>res_at\<close> is \<^verbatim>\<open>s_iov[i].iov_base\<close>.\<close>

definition msg_room :: "ipset_state \<Rightarrow> nat \<Rightarrow> nat option" where
  "msg_room st i = do {
     (f, n) \<leftarrow> get_msg st i;
     _ \<leftarrow> c_assert (n = 1);
     (a, off, len) \<leftarrow> get_iov st f;
     _ \<leftarrow> c_assert (a = ResBuf \<and> off + len \<le> length (s_buf_res st));
     Some len }"

fun store_msgs :: "nat \<Rightarrow> bytes list \<Rightarrow> ipset_state \<Rightarrow> ipset_state option" where
  "store_msgs i [] st = Some st"
| "store_msgs i (m # ms) st = do {
     (f, n) \<leftarrow> get_msg st i;
     (a, off, len) \<leftarrow> get_iov st f;
     b \<leftarrow> put (s_buf_res st) off m;
     store_msgs (i + 1) ms (st\<lparr>s_buf_res := b\<rparr>) }"

definition res_at :: "ipset_state \<Rightarrow> nat \<Rightarrow> bytes option" where
  "res_at st i = do {
     (a, off, len) \<leftarrow> get_iov st i;
     _ \<leftarrow> c_assert (a = ResBuf);
     Some (drop off (s_buf_res st)) }"

section \<open>Requests and responses\<close>

definition send_req :: "env \<Rightarrow> nat \<Rightarrow> ipset_state \<Rightarrow> (int \<times> ipset_state) option" where
  "send_req env n_msg st = do {
     _ \<leftarrow> c_assert (n_msg > 0);
     _ \<leftarrow> c_assert (n_msg \<le> MSG_N);
     ms \<leftarrow> those (map (msg_bytes env st) [0 ..< n_msg]);
     (n_sent, k) \<leftarrow> sendall (SENDMMSG (send_impl st)) ms (net st);
     _ \<leftarrow> c_assert (n_sent \<noteq> 0);
     Some (n_sent, st\<lparr>net := k\<rparr>) }"

definition recv_res :: "nat \<Rightarrow> ipset_state \<Rightarrow> (int \<times> ipset_state) option" where
  "recv_res n_msg st = do {
     _ \<leftarrow> c_assert (n_msg > 0);
     _ \<leftarrow> c_assert (n_msg \<le> MSG_N);
     rooms \<leftarrow> those (map (msg_room st) [0 ..< n_msg]);
     let ((n_recv, errno), ms, k) = RECVMMSG (recv_impl st) rooms MSG_DONTWAIT (net st);
     st \<leftarrow> store_msgs 0 ms (st\<lparr>net := k\<rparr>);
     _ \<leftarrow> c_assert (n_recv \<noteq> 0);
     Some (if n_recv < 0 \<and> errno = EAGAIN then 0 else n_recv, st) }"

definition test_res_ipset :: "bool \<Rightarrow> bytes \<Rightarrow> bool option" where
  "test_res_ipset be res = do {
     errcode \<leftarrow> nlmsg_errcode be res;
     if errcode = 0 then Some True
     else if errcode = IPSET_ERR_EXIST then Some False
     else Some False }"

definition test_res_nftset :: "bool \<Rightarrow> bytes \<Rightarrow> bool option" where
  "test_res_nftset be res = do {
     t \<leftarrow> nlmsg_type be res;
     if t = or (push_bit 8 NFNL_SUBSYS_NFTABLES) NFT_MSG_NEWSETELEM then Some True
     else do {
       errcode \<leftarrow> nlmsg_errcode be res;
       Some False } }"

definition test_res :: "bool \<Rightarrow> ipset_state \<Rightarrow> bytes \<Rightarrow> bool option" where
  "test_res be st res = do {
     is_ipset \<leftarrow> s_backend st;
     if is_ipset then test_res_ipset be res else test_res_nftset be res }"

section \<open>Testing an address\<close>

definition t_ip :: "bool \<Rightarrow> bytes \<Rightarrow> bool \<Rightarrow> nat option" where
  "t_ip be m v4 = do {
     e \<leftarrow> nlmsg_dataend be m;
     if iplen v4 \<le> e then Some (e - iplen v4) else None }"

definition ipset_test_ip :: "bool \<Rightarrow> testctx \<Rightarrow> bytes \<Rightarrow> bool \<Rightarrow> ipset_state \<Rightarrow> (bool \<times> testctx \<times> ipset_state) option" where
  "ipset_test_ip be ctx ip v4 st =
     (case ctx v4 of
        None \<Rightarrow> Some (False, ctx, st)
      | Some msg \<Rightarrow> do {
          p \<leftarrow> t_ip be msg v4;
          ip \<leftarrow> slice_at ip 0 (iplen v4);
          msg \<leftarrow> put msg p ip;
          let ctx = ctx(v4 := Some msg);
          l \<leftarrow> nlmsg_len be msg;
          st \<leftarrow> set_iov 0 (TestMsg v4) 0 (unat l) st;
          st \<leftarrow> set_MSGHDR 0 0 1 st;
          (r, st) \<leftarrow> send_req (test_env ctx) 1 st;
          if r < 0 then Some (False, ctx, st)
          else do {
            st \<leftarrow> set_iov 0 ResBuf 0 BUFSZ_RES st;
            (r, st) \<leftarrow> recv_res 1 st;
            if r = 0 then Some (True, ctx, st)
            else if r = 1 then do {
              res \<leftarrow> area_bytes (test_env ctx) st ResBuf;
              b \<leftarrow> test_res be st res;
              Some (b, ctx, st) }
            else Some (False, ctx, st) } })"

section \<open>Adding an address\<close>

text \<open>\<open>ip\<close> is the memory at the argument; \<open>slice_at ip 0 (iplen v4)\<close> are the bytes \<^verbatim>\<open>memcpy\<close> reads.\<close>

definition add_ip_ipset :: "bool \<Rightarrow> addctx \<Rightarrow> bool \<Rightarrow> bytes \<Rightarrow> addctx option" where
  "add_ip_ipset be ctx v4 ip = do {
     nlmsg \<leftarrow> a_msg ctx v4;
     ip \<leftarrow> slice_at ip 0 (iplen v4);
     (_, nlmsg) \<leftarrow> add_elem_ipset be nlmsg (Some ip) v4;
     Some (ctx\<lparr>a_msg := (a_msg ctx)(v4 := Some nlmsg)\<rparr>) }"

text \<open>The loop that increments the address at \<open>p\<close>, of which \<open>i\<close> bytes are left.\<close>

fun inc_ip :: "bytes \<Rightarrow> nat \<Rightarrow> nat \<Rightarrow> bytes option" where
  "inc_ip m p 0 = Some m"
| "inc_ip m p (Suc i) = do {
     old \<leftarrow> rd8 m (p + i);
     m \<leftarrow> wr8 m (p + i) (old + 1);
     if old + 1 > old then Some m else inc_ip m p i }"

definition add_ip_nftset :: "bool \<Rightarrow> addctx \<Rightarrow> bool \<Rightarrow> bytes \<Rightarrow> addctx option" where
  "add_ip_nftset be ctx v4 ip = do {
     nlmsg \<leftarrow> a_msg ctx v4;
     ip \<leftarrow> slice_at ip 0 (iplen v4);
     (_, nlmsg) \<leftarrow> add_elem_nftset be nlmsg (Some ip) v4 0;
     (nla, nlmsg) \<leftarrow> add_elem_nftset be nlmsg (Some ip) v4 NFT_SET_ELEM_INTERVAL_END;
     nlmsg \<leftarrow> inc_ip nlmsg (nla_data nla) (iplen v4);
     Some (ctx\<lparr>a_msg := (a_msg ctx)(v4 := Some nlmsg)\<rparr>) }"

definition in_blacklist :: "bytes \<Rightarrow> bool \<Rightarrow> bool option" where
  "in_blacklist ip v4 =
     (if v4 then do { b \<leftarrow> rd8 ip 0; Some (b = 127 \<or> b = 0) }
      else do {
        s \<leftarrow> slice_at ip 0 15;
        if s = replicate 15 0 then do { b \<leftarrow> rd8 ip 15; Some (b = 0 \<or> b = 1) } else Some False })"

section \<open>Testing the pending addresses\<close>

fun init_nlerr_msgv_loop :: "nat list \<Rightarrow> ipset_state \<Rightarrow> ipset_state option" where
  "init_nlerr_msgv_loop [] st = Some st"
| "init_nlerr_msgv_loop (i # is) st = do {
     st \<leftarrow> set_iov i ResBuf (NLMSGERR_SPACE * i) NLMSGERR_SPACE st;
     st \<leftarrow> set_MSGHDR i i 1 st;
     init_nlerr_msgv_loop is st }"

definition init_nlerr_msgv :: "nat \<Rightarrow> ipset_state \<Rightarrow> ipset_state option" where
  "init_nlerr_msgv n st = do {
     _ \<leftarrow> c_assert (n > 0);
     _ \<leftarrow> c_assert (n \<le> MSG_N);
     init_nlerr_msgv_loop [0 ..< n] st }"

text \<open>
  The inner loop of \<open>test_ips\<close> over the \<open>ipn\<close> pending addresses of a family; \<open>base1\<close> is the
  offset of the address in the add message, \<open>None\<close> before the first one.
\<close>

fun test_ips_fill :: "(bool \<Rightarrow> nat option \<Rightarrow> nat option) \<Rightarrow> bool \<Rightarrow> nat \<Rightarrow> nat \<Rightarrow> nat option \<Rightarrow> nat
    \<Rightarrow> ipset_state \<Rightarrow> (nat \<times> ipset_state) option" where
  "test_ips_fill next_ip v4 len0 0 base1 n_msg st = Some (n_msg, st)"
| "test_ips_fill next_ip v4 len0 (Suc ipn) base1 n_msg st = do {
     let i = n_msg;
     base1 \<leftarrow> next_ip v4 base1;
     st \<leftarrow> set_iov (i * 2) (TestMsg v4) 0 len0 st;
     st \<leftarrow> set_iov (i * 2 + 1) (AddMsg v4) base1 (iplen v4) st;
     st \<leftarrow> set_MSGHDR i (i * 2) 2 st;
     test_ips_fill next_ip v4 len0 ipn (Some base1) (n_msg + 1) st }"

text \<open>\<open>len0\<close> is a difference of \<^verbatim>\<open>size_t\<close> values.\<close>

fun test_ips_families :: "bool \<Rightarrow> addctx \<Rightarrow> (bool \<Rightarrow> nat option \<Rightarrow> nat option) \<Rightarrow> bool list \<Rightarrow> nat
    \<Rightarrow> ipset_state \<Rightarrow> (nat \<times> ipset_state) option" where
  "test_ips_families be ctx next_ip [] n_msg st = Some (n_msg, st)"
| "test_ips_families be ctx next_ip (v4 # v4s) n_msg st =
     (let ipn = a_ipcnt ctx v4
      in if ipn = 0 then test_ips_families be ctx next_ip v4s n_msg st
         else do {
           base0 \<leftarrow> a_test ctx v4;
           l \<leftarrow> nlmsg_len be base0;
           let len0 = nat ((int (unat l) - int (iplen v4)) mod 2 ^ 64);
           (n_msg, st) \<leftarrow> test_ips_fill next_ip v4 len0 ipn None n_msg st;
           test_ips_families be ctx next_ip v4s n_msg st })"

fun test_ips_save :: "bool \<Rightarrow> nat list \<Rightarrow> bytes \<Rightarrow> ipset_state \<Rightarrow> bytes option" where
  "test_ips_save be [] exists st = Some exists"
| "test_ips_save be (i # is) exists st = do {
     res \<leftarrow> res_at st i;
     b \<leftarrow> test_res be st res;
     exists \<leftarrow> (if b then bitvec_set1 exists i else Some exists);
     test_ips_save be is exists st }"

definition test_ips :: "bool \<Rightarrow> addctx \<Rightarrow> bytes \<Rightarrow> (bool \<Rightarrow> nat option \<Rightarrow> nat option) \<Rightarrow> ipset_state
    \<Rightarrow> (bytes \<times> ipset_state) option" where
  "test_ips be ctx exists next_ip st = do {
     (n_msg, st) \<leftarrow> test_ips_families be ctx next_ip [True, False] 0 st;
     if n_msg = 0 then Some (exists, st)
     else do {
       (r, st) \<leftarrow> send_req (add_env ctx) n_msg st;
       if r < 0 then Some (exists, st)
       else do {
         st \<leftarrow> init_nlerr_msgv (nat r) st;
         (r, st) \<leftarrow> recv_res (nat r) st;
         if r \<le> 0 then Some (exists, st)
         else do {
           exists \<leftarrow> test_ips_save be [0 ..< nat r] exists st;
           Some (exists, st) } } } }"

section \<open>Sending the pending addresses\<close>

text \<open>
  The loop over the elements of a family, which is the same in both backends: an element that
  is not in the set yet gets an \<^verbatim>\<open>iovec\<close>.
\<close>

fun end_add_elems :: "bool \<Rightarrow> nat \<Rightarrow> bytes \<Rightarrow> nat \<Rightarrow> nat \<Rightarrow> nat \<Rightarrow> nat \<Rightarrow> nat \<Rightarrow> ipset_state
    \<Rightarrow> (nat \<times> nat \<times> nat \<times> ipset_state) option" where
  "end_add_elems v4 elemsz exists 0 elem bit_i iov_i add_n st = Some (bit_i, iov_i, add_n, st)"
| "end_add_elems v4 elemsz exists (Suc ipn) elem bit_i iov_i add_n st = do {
     b \<leftarrow> bitvec_get exists bit_i;
     if \<not> b then do {
       st \<leftarrow> set_iov iov_i (AddMsg v4) elem elemsz st;
       end_add_elems v4 elemsz exists ipn (elem + elemsz) (bit_i + 1) (iov_i + 1) (add_n + 1) st }
     else end_add_elems v4 elemsz exists ipn (elem + elemsz) (bit_i + 1) iov_i add_n st }"

definition next_ip_ipset :: "addctx \<Rightarrow> bool \<Rightarrow> nat option \<Rightarrow> nat option" where
  "next_ip_ipset ctx v4 p =
     (case p of
        None \<Rightarrow> do { b \<leftarrow> a_baselen ctx v4; Some (unat b + NLA_HDRLEN * 3) }
      | Some p \<Rightarrow> Some (p + (NLA_HDRLEN * 3 + iplen v4)))"

fun end_add_ip_ipset_loop :: "bool \<Rightarrow> bytes \<Rightarrow> bool list \<Rightarrow> nat \<Rightarrow> nat \<Rightarrow> nat \<Rightarrow> addctx \<Rightarrow> ipset_state
    \<Rightarrow> (nat \<times> addctx \<times> ipset_state) option" where
  "end_add_ip_ipset_loop be exists [] iov_i n_msg bit_i ctx st = Some (n_msg, ctx, st)"
| "end_add_ip_ipset_loop be exists (v4 # v4s) iov_i n_msg bit_i ctx st =
     (let ipn = a_ipcnt ctx v4
      in if ipn = 0 then end_add_ip_ipset_loop be exists v4s iov_i n_msg bit_i ctx st
         else do {
           nlmsg \<leftarrow> a_msg ctx v4;
           base \<leftarrow> a_baselen ctx v4;
           nlmsg \<leftarrow> wrh32 be nlmsg 0 base;
           elem \<leftarrow> nlmsg_dataend be nlmsg;
           let elemsz = NLA_HDRLEN * 3 + iplen v4;
           st \<leftarrow> set_iov iov_i (AddMsg v4) 0 (unat base) st;
           (bit_i, iov_i, add_n, st) \<leftarrow> end_add_elems v4 elemsz exists ipn elem bit_i (iov_i + 1) 0 st;
           if add_n = 0
           then end_add_ip_ipset_loop be exists v4s (iov_i - 1) n_msg bit_i (ctx\<lparr>a_msg := (a_msg ctx)(v4 := Some nlmsg)\<rparr>) st
           else do {
             e \<leftarrow> nlmsg_dataend be nlmsg;
             nlmsg \<leftarrow> wrh16 be nlmsg (e - NLA_HDRLEN) (word_of_nat (nla_len_calc (add_n * elemsz)));
             l \<leftarrow> nlmsg_len be nlmsg;
             nlmsg \<leftarrow> wrh32 be nlmsg 0 (l + word_of_nat (add_n * elemsz));
             st \<leftarrow> set_MSGHDR n_msg (iov_i - 1 - add_n) (1 + add_n) st;
             end_add_ip_ipset_loop be exists v4s iov_i (n_msg + 1) bit_i (ctx\<lparr>a_msg := (a_msg ctx)(v4 := Some nlmsg)\<rparr>) st } })"

definition end_add_ip_ipset :: "bool \<Rightarrow> addctx \<Rightarrow> ipset_state \<Rightarrow> (nat \<times> addctx \<times> ipset_state) option" where
  "end_add_ip_ipset be ctx st = do {
     let exists = replicate (bitvec_n (IP_N * 2)) 0;
     (exists, st) \<leftarrow> test_ips be ctx exists (next_ip_ipset ctx) st;
     end_add_ip_ipset_loop be exists [True, False] 0 0 0 ctx st }"

definition next_ip_nftset :: "addctx \<Rightarrow> bool \<Rightarrow> nat option \<Rightarrow> nat option" where
  "next_ip_nftset ctx v4 p =
     (case p of
        None \<Rightarrow> do { b \<leftarrow> a_baselen ctx v4; Some (unat b + NLA_HDRLEN * 3) }
      | Some p \<Rightarrow> Some (p + (NLA_HDRLEN * 7 + align4 4 + iplen v4 * 2)))"

fun end_add_ip_nftset_loop :: "bool \<Rightarrow> bytes \<Rightarrow> bool list \<Rightarrow> nat \<Rightarrow> nat \<Rightarrow> addctx \<Rightarrow> ipset_state
    \<Rightarrow> (nat \<times> addctx \<times> ipset_state) option" where
  "end_add_ip_nftset_loop be exists [] iov_i bit_i ctx st = Some (iov_i, ctx, st)"
| "end_add_ip_nftset_loop be exists (v4 # v4s) iov_i bit_i ctx st =
     (let ipn = a_ipcnt ctx v4
      in if ipn = 0 then end_add_ip_nftset_loop be exists v4s iov_i bit_i ctx st
         else do {
           nlmsg \<leftarrow> a_msg ctx v4;
           base \<leftarrow> a_baselen ctx v4;
           nlmsg \<leftarrow> wrh32 be nlmsg 0 base;
           elem \<leftarrow> nlmsg_dataend be nlmsg;
           let elemsz = NLA_HDRLEN * 7 + align4 4 + iplen v4 * 2;
           st \<leftarrow> set_iov iov_i (AddMsg v4) 0 (unat base) st;
           (bit_i, iov_i, add_n, st) \<leftarrow> end_add_elems v4 elemsz exists ipn elem bit_i (iov_i + 1) 0 st;
           if add_n = 0
           then end_add_ip_nftset_loop be exists v4s (iov_i - 1) bit_i (ctx\<lparr>a_msg := (a_msg ctx)(v4 := Some nlmsg)\<rparr>) st
           else do {
             e \<leftarrow> nlmsg_dataend be nlmsg;
             nlmsg \<leftarrow> wrh16 be nlmsg (e - NLA_HDRLEN) (word_of_nat (nla_len_calc (add_n * elemsz)));
             l \<leftarrow> nlmsg_len be nlmsg;
             nlmsg \<leftarrow> wrh32 be nlmsg 0 (l + word_of_nat (add_n * elemsz));
             end_add_ip_nftset_loop be exists v4s iov_i bit_i (ctx\<lparr>a_msg := (a_msg ctx)(v4 := Some nlmsg)\<rparr>) st } })"

definition end_add_ip_nftset :: "bool \<Rightarrow> addctx \<Rightarrow> ipset_state \<Rightarrow> (nat \<times> addctx \<times> ipset_state) option" where
  "end_add_ip_nftset be ctx st = do {
     let exists = replicate (bitvec_n (IP_N * 2)) 0;
     (exists, st) \<leftarrow> test_ips be ctx exists (next_ip_nftset ctx) st;
     st \<leftarrow> set_iov 0 BatchBegin 0 HEADER_SIZE st;
     (iov_i, ctx, st) \<leftarrow> end_add_ip_nftset_loop be exists [True, False] 1 0 ctx st;
     if iov_i \<le> 1 then Some (0, ctx, st)
     else do {
       st \<leftarrow> set_iov iov_i BatchEnd 0 HEADER_SIZE st;
       st \<leftarrow> set_MSGHDR 0 0 (iov_i + 1) st;
       Some (1, ctx, st) } }"

definition add_ip :: "bool \<Rightarrow> ipset_state \<Rightarrow> addctx \<Rightarrow> bool \<Rightarrow> bytes \<Rightarrow> addctx option" where
  "add_ip be st ctx v4 ip = do {
     is_ipset \<leftarrow> s_backend st;
     if is_ipset then add_ip_ipset be ctx v4 ip else add_ip_nftset be ctx v4 ip }"

definition end_add_ip :: "bool \<Rightarrow> addctx \<Rightarrow> ipset_state \<Rightarrow> (nat \<times> addctx \<times> ipset_state) option" where
  "end_add_ip be ctx st = do {
     is_ipset \<leftarrow> s_backend st;
     if is_ipset then end_add_ip_ipset be ctx st else end_add_ip_nftset be ctx st }"

definition ipset_end_add_ip :: "bool \<Rightarrow> addctx \<Rightarrow> ipset_state \<Rightarrow> (addctx \<times> ipset_state) option" where
  "ipset_end_add_ip be ctx st =
     (if a_ipcnt ctx True + a_ipcnt ctx False = 0 then Some (ctx, st)
      else do {
        (n_msg, ctx, st) \<leftarrow> end_add_ip be ctx st;
        let ctx = ctx\<lparr>a_ipcnt := (a_ipcnt ctx)(True := 0, False := 0)\<rparr>;
        if n_msg = 0 then Some (ctx, st)
        else do {
          (r, st) \<leftarrow> send_req (add_env ctx) n_msg st;
          if r < 0 then Some (ctx, st)
          else do {
            let n_msg = max n_msg 2;
            st \<leftarrow> init_nlerr_msgv n_msg st;
            (r, st) \<leftarrow> recv_res n_msg st;
            if r = 0 then Some (ctx, st)
            else do {
              errcodes \<leftarrow> those (map (\<lambda>i. Option.bind (res_at st i) (nlmsg_errcode be)) [0 ..< nat r]);
              Some (ctx, st) } } } })"

definition ipset_add_ip :: "bool \<Rightarrow> addctx \<Rightarrow> bytes \<Rightarrow> bool \<Rightarrow> ipset_state \<Rightarrow> (addctx \<times> ipset_state) option" where
  "ipset_add_ip be ctx ip v4 st =
     (case a_msg ctx v4 of
        None \<Rightarrow> Some (ctx, st)
      | Some _ \<Rightarrow> do {
          blacklisted \<leftarrow> (if ipset_blacklist st then in_blacklist ip v4 else Some False);
          if blacklisted then Some (ctx, st)
          else do {
            let n = a_ipcnt ctx v4;
            let set_baselen = (\<lambda>ctx. do {
              base \<leftarrow> a_baselen ctx v4;
              msg \<leftarrow> a_msg ctx v4;
              msg \<leftarrow> wrh32 be msg 0 base;
              Some (ctx\<lparr>a_msg := (a_msg ctx)(v4 := Some msg)\<rparr>) });
            (ctx, st) \<leftarrow> (if n = 0 then do { ctx \<leftarrow> set_baselen ctx; Some (ctx, st) }
              else if n \<ge> IP_N then do {
                (ctx, st) \<leftarrow> ipset_end_add_ip be ctx st;
                _ \<leftarrow> c_assert (a_ipcnt ctx v4 = 0);
                ctx \<leftarrow> set_baselen ctx;
                Some (ctx, st) }
              else Some (ctx, st));
            ctx \<leftarrow> add_ip be st ctx v4 ip;
            Some (ctx\<lparr>a_ipcnt := (a_ipcnt ctx)(v4 := a_ipcnt ctx v4 + 1)\<rparr>, st) } })"

end
