(* ===== verification/Ipset_Pending.thy ===== *)
theory Ipset_Pending
  imports Ipset_Ops
begin

text \<open>
  What the buffers of an add context hold: for each family the pending addresses, as elements
  behind the fixed part of the add message, and the fixed part of the test message. New contexts
  hold none, and adding an address appends its element: for nft the two ends of the interval
  that is the address alone.
\<close>

section \<open>Incrementing an address\<close>

text \<open>The next address, as a big-endian number, wrapping around after the last one.\<close>

fun inc_rev :: "bytes \<Rightarrow> bytes" where
  "inc_rev [] = []"
| "inc_rev (b # bs) = (if b = 255 then 0 # inc_rev bs else (b + 1) # bs)"

definition succ_ip :: "bytes \<Rightarrow> bytes" where
  "succ_ip ip = rev (inc_rev (rev ip))"

lemma succ_ip_Nil [simp]: "succ_ip [] = []"
  by (simp add: succ_ip_def)

lemma succ_ip_snoc: "succ_ip (a @ [x]) = (if x = 255 then succ_ip a @ [0] else a @ [x + 1])"
  by (simp add: succ_ip_def)

lemma length_succ_ip [simp]: "length (succ_ip ip) = length ip"
  by (induction ip rule: rev_induct) (simp_all add: succ_ip_snoc)

lemma u8_inc: "(x :: u8) < x + 1 \<longleftrightarrow> x \<noteq> 255"
proof
  assume "x \<noteq> 255"
  then have "unat x \<noteq> 255" using word_unat_eq_iff [of x 255] by simp
  then have "unat x + 1 < 256" using unat_u8_less [of x] by linarith
  then have "unat (x + 1) = unat x + 1" by (simp add: unat_word_ariths)
  then show "x < x + 1" by (simp add: word_less_nat_alt)
next
  show "x < x + 1 \<Longrightarrow> x \<noteq> 255" by auto
qed

lemma inc_ip_eq: "inc_ip (pre @ ip @ post) (length pre) (length ip) = Some (pre @ succ_ip ip @ post)"
proof (induction ip arbitrary: post rule: rev_induct)
  case (snoc x a)
  have wrap: "(255 :: u8) + 1 = 0" "(256 :: u8) = 0" by simp_all
  have rd: "rd8 (pre @ (a @ [x]) @ post) (length pre + length a) = Some x"
    using rd8_append [of "pre @ a" x post] by simp
  have wr: "wr8 (pre @ (a @ [x]) @ post) (length pre + length a) (x + 1) = Some (pre @ a @ (x + 1) # post)"
    using wr8_append [of "pre @ a" x post "x + 1"] by simp
  show ?case
  proof (cases "x = 255")
    case False
    then show ?thesis using rd wr u8_inc [of x] by (simp add: succ_ip_snoc del: append_assoc)
  next
    case True
    then have "wr8 (pre @ (a @ [x]) @ post) (length pre + length a) 0 = Some (pre @ a @ 0 # post)"
      using wr by (simp only: wrap(1))
    then show ?thesis using True rd snoc.IH [of "0 # post"] by (simp add: succ_ip_snoc wrap(2))
  qed
qed simp

text \<open>Addresses as numbers.\<close>

definition ip_value :: "bytes \<Rightarrow> nat" where
  "ip_value ip = foldl (\<lambda>n b. 256 * n + unat b) 0 ip"

lemma ip_value_snoc [simp]: "ip_value (ip @ [b]) = 256 * ip_value ip + unat b" "ip_value [] = 0"
  by (simp_all add: ip_value_def)

lemma ip_value_less: "ip_value ip < 256 ^ length ip"
proof (induction ip rule: rev_induct)
  case (snoc b ip)
  have "unat b < 256" by simp
  then have "256 * ip_value ip + unat b < 256 * 256 ^ length ip" using snoc by linarith
  then show ?case by simp
qed simp

lemma ip_value_succ: "ip_value (succ_ip ip) = (ip_value ip + 1) mod 256 ^ length ip"
proof (induction ip rule: rev_induct)
  case (snoc b ip)
  show ?case
  proof (cases "b = 255")
    case True
    have "ip_value (succ_ip (ip @ [b])) = 256 * ((ip_value ip + 1) mod 256 ^ length ip)"
      using True snoc by (simp add: succ_ip_snoc)
    also have "\<dots> = (256 * (ip_value ip + 1)) mod 256 ^ length (ip @ [b])" by (simp add: mult_mod_right)
    also have "256 * (ip_value ip + 1) = ip_value (ip @ [b]) + 1" using True by (simp del: unat_u8_less) 
    finally show ?thesis .
  next
    case False
    then have "unat (b + 1) = unat b + 1"
      using word_unat_eq_iff [of b 255] unat_u8_less [of b] by (simp add: unat_word_ariths del: unat_u8_less)
    moreover have "256 * ip_value ip + (unat b + 1) < 256 ^ length (ip @ [b])"
      using ip_value_less [of "ip @ [b + 1]"] calculation by simp
    ultimately show ?thesis using False by (simp add: succ_ip_snoc)
  qed
qed simp

section \<open>Elements\<close>

definition elem :: "bool \<Rightarrow> bool \<Rightarrow> bool \<Rightarrow> bytes \<Rightarrow> bytes" where
  "elem be is_ipset v4 ip =
     (if is_ipset then elem_ipset be v4 ip
      else elem_nft be 0 ip @ elem_nft be NFT_SET_ELEM_INTERVAL_END (succ_ip ip))"

definition elemsz :: "bool \<Rightarrow> bool \<Rightarrow> nat" where
  "elemsz is_ipset v4 = (if is_ipset then 12 + iplen v4 else 32 + 2 * iplen v4)"

lemma length_elem: "length ip = iplen v4 \<Longrightarrow> length (elem be is v4 ip) = elemsz is v4"
  by (simp add: elem_def elemsz_def length_elem_ipset length_elem_nft NFT_SET_ELEM_INTERVAL_END_def)

lemma length_elems:
  "\<forall>ip \<in> set ips. length ip = iplen v4 \<Longrightarrow> length (concat (map (elem be is v4) ips)) = length ips * elemsz is v4"
  by (induction ips) (simp_all add: length_elem)

text \<open>The address is behind the three attribute headers.\<close>

lemma elem_ipset_ip:
  "length ip = iplen v4 \<Longrightarrow> take 12 (elem_ipset be v4 ip) = take 12 (elem_ipset be v4 ip0) \<and> drop 12 (elem_ipset be v4 ip) = ip"
  if "length ip0 = iplen v4"
  using that by (simp add: elem_ipset_def nest_def nla_def)

lemma elem_nft_ip:
  assumes "length ip0 = length ip" "f = (if fl = 0 then 12 else 20)"
  shows "take f (elem_nft be fl ip) = take f (elem_nft be fl ip0)" "drop f (elem_nft be fl ip) = ip"
  using assms by (auto simp: elem_nft_def nest_def nla_def)

lemma elem_nft_split:
  "length ip = n \<Longrightarrow> elem_nft be fl ip = take (if fl = 0 then 12 else 20) (elem_nft be fl (replicate n 0)) @ ip"
  using elem_nft_ip [of "replicate n 0" ip _ fl be] append_take_drop_id [of "if fl = 0 then 12 else 20" "elem_nft be fl ip"]
  by (simp del: append_take_drop_id)

lemma elem_slice:
  assumes "length ip = iplen v4"
  shows "slice_at (elem be is v4 ip @ r) 12 (iplen v4) = Some ip"
proof -
  have at12: "slice_at (e @ r) 12 (iplen v4) = Some ip" if "e = x @ ip @ y" "length x = 12" for e x y
    using that assms by (simp add: slice_at_def)
  have ip: "elem be True v4 ip = take 12 (elem_ipset be v4 ip) @ ip @ []"
    using elem_ipset_ip [OF assms assms, of be] append_take_drop_id [of 12 "elem_ipset be v4 ip"] by (simp add: elem_def)
  have nft: "elem be False v4 ip = take 12 (elem_nft be 0 (replicate (iplen v4) 0)) @ ip
      @ elem_nft be NFT_SET_ELEM_INTERVAL_END (succ_ip ip)"
    unfolding elem_def by (subst elem_nft_split [OF assms, of be 0]) simp
  show ?thesis
  proof (cases "is")
    case True
    then show ?thesis using at12 [OF ip] assms by (simp add: length_elem_ipset)
  next
    case False
    then show ?thesis using at12 [OF nft] by (simp add: length_elem_nft [of _ v4])
  qed
qed

section \<open>Pending addresses in a message\<close>

text \<open>
  The fixed bytes of the messages of a family: the test message up to the address, the headers
  of the add message behind its length, and its attributes before the list of elements.
\<close>

record fam =
  q_head :: bytes
  a_head :: bytes
  a_pre :: bytes

definition list_type :: "bool \<Rightarrow> u16" where
  "list_type is_ipset = or (if is_ipset then IPSET_ATTR_ADT else NFTA_SET_ELEM_LIST_ELEMENTS) NLA_F_NESTED"

definition add_payload :: "bool \<Rightarrow> bool \<Rightarrow> bool \<Rightarrow> fam \<Rightarrow> u16 \<Rightarrow> bytes list \<Rightarrow> bytes" where
  "add_payload be is_ipset v4 f L ips =
     a_pre f @ host16 be L @ host16 be (list_type is_ipset) @ concat (map (elem be is_ipset v4) ips)"

definition add_view :: "bool \<Rightarrow> bool \<Rightarrow> bool \<Rightarrow> fam \<Rightarrow> u16 \<Rightarrow> bytes list \<Rightarrow> bytes \<Rightarrow> bool" where
  "add_view be is_ipset v4 f L ips m \<longleftrightarrow> (\<exists>fr. nlview be m (a_head f) (add_payload be is_ipset v4 f L ips) fr
     \<and> (IP_N - length ips) * elemsz is_ipset v4 \<le> length fr)"

text \<open>Without pending addresses the length field may hold anything.\<close>

definition add_inv :: "bool \<Rightarrow> bool \<Rightarrow> bool \<Rightarrow> fam \<Rightarrow> bytes list \<Rightarrow> bytes \<Rightarrow> bool" where
  "add_inv be is_ipset v4 f ips m \<longleftrightarrow>
     (\<exists>L m0 len. add_view be is_ipset v4 f L ips m0 \<and> m = host32 be len @ drop 4 m0 \<and> (ips \<noteq> [] \<longrightarrow> m = m0))"

definition baselen_of :: "fam \<Rightarrow> u32" where
  "baselen_of f = word_of_nat (24 + length (a_pre f))"

lemma nlview_set_len:
  "nlview be m0 h pl fr \<Longrightarrow> wrh32 be (host32 be len @ drop 4 m0) 0 (word_of_nat (20 + length pl)) = Some m0"
  using put_at [of 0 "[]" "host32 be len" "host32 be (word_of_nat (20 + length pl))" "drop 4 m0"]
  by (simp add: wrh32_def nlview_def)

lemma add_inv_set_base:
  assumes "add_inv be is v4 f [] m"
  shows "\<exists>L m'. wrh32 be m 0 (baselen_of f) = Some m' \<and> add_view be is v4 f L [] m'"
proof -
  obtain L m0 len fr where m0: "nlview be m0 (a_head f) (add_payload be is v4 f L []) fr"
    "IP_N * elemsz is v4 \<le> length fr" "m = host32 be len @ drop 4 m0"
    using assms by (auto simp: add_inv_def add_view_def)
  have "length (add_payload be is v4 f L []) = length (a_pre f) + 4" by (simp add: add_payload_def)
  then have "wrh32 be m 0 (baselen_of f) = Some m0"
    using nlview_set_len [OF m0(1), of len] m0(3) by (simp add: baselen_of_def add.commute)
  then show ?thesis using m0 by (auto simp: add_view_def)
qed

lemma add_view_inv: "add_view be is v4 f L ips m \<Longrightarrow> add_inv be is v4 f ips m"
  unfolding add_inv_def
  by (rule exI [of _ L], rule exI [of _ m], rule exI [of _ "unhost32 be (take 4 m)"])
    (auto simp: add_view_def nlview_def)

lemma add_inv_view: "add_inv be is v4 f ips m \<Longrightarrow> ips \<noteq> [] \<Longrightarrow> \<exists>L. add_view be is v4 f L ips m"
  by (auto simp: add_inv_def)

lemma add_view_room: "add_view be is v4 f L ips m \<Longrightarrow> length ips < 10 \<Longrightarrow> \<exists>fr. nlview be m (a_head f) (add_payload be is v4 f L ips) fr
    \<and> elemsz is v4 + (IP_N - Suc (length ips)) * elemsz is v4 \<le> length fr"
proof -
  assume "add_view be is v4 f L ips m" "length ips < 10"
  moreover have "IP_N - length ips = Suc (IP_N - Suc (length ips))" if "length ips < 10" using that by (simp add: IP_N_def)
  ultimately show ?thesis by (auto simp: add_view_def)
qed

lemma add_payload_snoc: "add_payload be is v4 f L (ips @ [ip]) = add_payload be is v4 f L ips @ elem be is v4 ip"
  by (simp add: add_payload_def)

lemma add_elem_ipset_step:
  assumes v: "add_view be True v4 f L ips m" and ip: "length ips < 10" "length ip = iplen v4"
  shows "\<exists>p m'. add_elem_ipset be m (Some ip) v4 = Some (p, m') \<and> add_view be True v4 f L (ips @ [ip]) m'"
proof -
  obtain fr where fr: "nlview be m (a_head f) (add_payload be True v4 f L ips) fr"
    "elemsz True v4 + (IP_N - Suc (length ips)) * elemsz True v4 \<le> length fr"
    using add_view_room [OF v ip(1)] by blast
  have "12 + iplen v4 \<le> length fr" using fr(2) by (simp add: elemsz_def)
  from add_elem_ipset_view [OF fr(1) this, where ip = "Some ip"] ip(2)
  obtain p m' where "add_elem_ipset be m (Some ip) v4 = Some (p, m')"
    "nlview be m' (a_head f) (add_payload be True v4 f L ips @ elem_ipset be v4 ip) (drop (12 + iplen v4) fr)"
    by (auto simp: ip_or_def)
  then show ?thesis
    using fr(2) by (auto simp: add_view_def add_payload_snoc elem_def elemsz_def)
qed

lemma add_elem_nft_step:
  assumes v: "add_view be False v4 f L ips m" and ip: "length ips < 10" "length ip = iplen v4"
  shows "\<exists>m'. do {
      (_, m) \<leftarrow> add_elem_nftset be m (Some ip) v4 0;
      (nla, m) \<leftarrow> add_elem_nftset be m (Some ip) v4 NFT_SET_ELEM_INTERVAL_END;
      inc_ip m (nla_data nla) (iplen v4) } = Some m' \<and> add_view be False v4 f L (ips @ [ip]) m'"
proof -
  let ?pl = "add_payload be False v4 f L ips" and ?e0 = "elem_nft be 0 ip"
  obtain fr where fr: "nlview be m (a_head f) ?pl fr"
    "elemsz False v4 + (IP_N - Suc (length ips)) * elemsz False v4 \<le> length fr"
    using add_view_room [OF v ip(1)] by blast
  have "(if (0::u32) = 0 then 12 else 20) + iplen v4 \<le> length fr" using fr(2) by (simp add: elemsz_def)
  from add_elem_nft_view [OF fr(1) this, where ip = "Some ip"] ip(2)
  obtain p m1 where m1: "add_elem_nftset be m (Some ip) v4 0 = Some (p, m1)"
    "nlview be m1 (a_head f) (?pl @ ?e0) (drop (12 + iplen v4) fr)"
    by (auto simp: ip_or_def)
  have one: "NFT_SET_ELEM_INTERVAL_END \<noteq> 0" by (simp add: NFT_SET_ELEM_INTERVAL_END_def)
  define X where "X = take 20 (elem_nft be NFT_SET_ELEM_INTERVAL_END (replicate (iplen v4) 0))"
  have lenX: "length X = 20" using one by (simp add: X_def length_elem_nft [of _ v4])
  have e1: "elem_nft be NFT_SET_ELEM_INTERVAL_END a = X @ a" if "length a = iplen v4" for a
    using elem_nft_split [OF that, of be NFT_SET_ELEM_INTERVAL_END] one by (simp add: X_def)
  have "(if NFT_SET_ELEM_INTERVAL_END = 0 then 12 else 20) + iplen v4 \<le> length (drop (12 + iplen v4) fr)"
    using fr(2) one by (simp add: elemsz_def)
  from add_elem_nft_view [OF m1(2) this, where ip = "Some ip"] ip(2) one
  obtain m2 where m2: "add_elem_nftset be m1 (Some ip) v4 NFT_SET_ELEM_INTERVAL_END
      = Some (20 + length (?pl @ ?e0) + 16, m2)"
    "nlview be m2 (a_head f) ((?pl @ ?e0) @ X @ ip) (drop (20 + iplen v4) (drop (12 + iplen v4) fr))"
    by (auto simp: ip_or_def e1)
  define rest where "rest = drop (20 + iplen v4) (drop (12 + iplen v4) fr)"
  let ?H = "host32 be (word_of_nat (20 + length ((?pl @ ?e0) @ X @ ip))) @ a_head f @ (?pl @ ?e0) @ X"
  have m2': "m2 = ?H @ ip @ rest" "length (a_head f) = 16" "20 + length ((?pl @ ?e0) @ X @ ip) + length rest < 65536"
    using m2(2) by (simp_all add: nlview_def rest_def)
  have "nla_data (20 + length (?pl @ ?e0) + 16) = length ?H"
    using m2'(2) lenX by (simp add: nla_data_def NLA_HDRLEN_def)
  then have inc: "inc_ip m2 (nla_data (20 + length (?pl @ ?e0) + 16)) (iplen v4) = Some (?H @ succ_ip ip @ rest)"
    using inc_ip_eq [of ?H ip rest] ip(2) m2'(1) by simp
  have "nlview be (?H @ succ_ip ip @ rest) (a_head f) (add_payload be False v4 f L (ips @ [ip])) rest"
    using m2' ip(2) e1 by (simp add: nlview_def add_payload_snoc elem_def)
  moreover have "(IP_N - Suc (length ips)) * elemsz False v4 \<le> length rest"
    using fr(2) by (simp add: rest_def elemsz_def)
  ultimately show ?thesis
    using m1(1) m2(1) inc by (auto simp: add_view_def)
qed

end
