(* ===== verification/Ipset_New.thy ===== *)
theory Ipset_New
  imports Ipset_Pending
begin

text \<open>
  The invariants of the static variables and of the contexts, and that \<open>ipset_new_testctx\<close> and
  \<open>ipset_new_addctx\<close> establish them from any memory \<^verbatim>\<open>malloc\<close> returns, or end the program
  for exactly the options they should refuse.
\<close>

section \<open>Static variables\<close>

definition batch_msg :: "bool \<Rightarrow> u32 \<Rightarrow> u16 \<Rightarrow> bytes" where
  "batch_msg be portid type = host32 be (word_of_nat HEADER_SIZE)
     @ header_tail be portid type NLM_F_REQUEST AF_UNSPEC NFNL_SUBSYS_NFTABLES"

definition st_ready :: "bool \<Rightarrow> bool \<Rightarrow> ipset_state \<Rightarrow> bool" where
  "st_ready be is_ipset st \<longleftrightarrow> s_backend st = Some is_ipset \<and> 0 \<le> s_sock st \<and> length (s_iov st) = IOV_N
     \<and> length (s_msgv st) = MSG_N \<and> length (s_buf_res st) = BUFSZ_RES
     \<and> (is_ipset \<or> s_batch_begin st = batch_msg be (s_portid st) NFNL_MSG_BATCH_BEGIN
                   \<and> s_batch_end st = batch_msg be (s_portid st) NFNL_MSG_BATCH_END)"

definition st_ok :: "bool \<Rightarrow> ipset_state \<Rightarrow> bool" where
  "st_ok be st \<longleftrightarrow> (if s_sock st < 0 then length (s_batch_begin st) = HEADER_SIZE \<and> length (s_batch_end st) = HEADER_SIZE
     else \<exists>is_ipset. st_ready be is_ipset st)"

lemma st_ok_initial: "st_ok be (ipset_initial r s k)"
  by (simp add: st_ok_def ipset_initial_def)

lemma length_fresh [simp]: "length (fresh g p n) = n"
  by (simp add: fresh_def)

text \<open>Whether the netlink socket can be used for the backend that a set name asks for.\<close>

definition socket_ok :: "sock_calls \<Rightarrow> bytes \<Rightarrow> ipset_state \<Rightarrow> bool" where
  "socket_ok c name46 st \<longleftrightarrow>
     (if s_sock st < 0 then r_socket c \<ge> 0 \<and> r_bind c = 0 \<and> r_getsockname c = 0 \<and> r_connect c = 0
      else s_backend st = Some (AT_SIGN \<notin> set name46))"

lemma init_batch:
  assumes "length m = HEADER_SIZE"
  shows "init_header be portid m type NLM_F_REQUEST AF_UNSPEC NFNL_SUBSYS_NFTABLES = Some (batch_msg be portid type)"
proof -
  have "20 \<le> length m" "length m < 65536" using assms by (simp_all add: HEADER_SIZE_def)
  from init_header_view [OF this, of be portid type NLM_F_REQUEST AF_UNSPEC NFNL_SUBSYS_NFTABLES] assms
  show ?thesis by (auto simp: nlview_def batch_msg_def HEADER_SIZE_def)
qed

lemma init_spec:
  assumes "st_ok be st"
  shows "(init be c g name46 st = Some Exit \<and> \<not> socket_ok c name46 st)
    \<or> (\<exists>st'. init be c g name46 st = Some (Run (AT_SIGN \<notin> set name46, st')) \<and> socket_ok c name46 st
        \<and> st_ready be (AT_SIGN \<notin> set name46) st' \<and> net st' = net st)"
proof (cases "s_sock st \<ge> 0")
  case True
  then obtain is_ipset where "st_ready be is_ipset st" using assms by (auto simp: st_ok_def)
  then show ?thesis using True by (auto simp: init_def Let_def st_ready_def socket_ok_def)
next
  case False
  then have len: "length (s_batch_begin st) = HEADER_SIZE" "length (s_batch_end st) = HEADER_SIZE"
    using assms by (auto simp: st_ok_def)
  show ?thesis
  proof (cases "nl_sock_create c")
    case Exit
    then show ?thesis using False by (auto simp: init_def Let_def socket_ok_def nl_sock_create_def split: if_splits)
  next
    case (Run a)
    then have c: "a = (r_socket c, nl_pid c)" "r_socket c \<ge> 0" "socket_ok c name46 st"
      using False by (auto simp: nl_sock_create_def socket_ok_def split: if_splits)
    then show ?thesis
      using False Run by (auto simp: init_def Let_def init_batch len st_ready_def)
  qed
qed

section \<open>Contexts\<close>

definition fam_of :: "bool \<Rightarrow> u32 \<Rightarrow> target \<Rightarrow> bool \<Rightarrow> bool \<Rightarrow> bytes \<times> bytes \<Rightarrow> bytes \<times> bytes \<Rightarrow> fam" where
  "fam_of be portid tg v4 ack p r =
     (let m = test_attrs be tg v4 (fst p) (snd p) (replicate (iplen v4) 0)
      in \<lparr>q_head = host32 be (word_of_nat (20 + length m)) @ test_head be portid tg v4 ack @ take (length m - iplen v4) m,
          a_head = add_head be portid tg v4, a_pre = add_attrs be tg (fst r) (snd r)\<rparr>)"

definition test_inv :: "bool \<Rightarrow> bool \<Rightarrow> bytes \<Rightarrow> bytes \<Rightarrow> bool" where
  "test_inv be v4 q m \<longleftrightarrow> (\<exists>ip fr. m = q @ ip @ fr \<and> length ip = iplen v4 \<and> 4 \<le> length q
     \<and> take 4 q = host32 be (word_of_nat (length q + iplen v4)) \<and> length q + iplen v4 < 65536)"

definition fam_ok :: "bool \<Rightarrow> u32 \<Rightarrow> bool \<Rightarrow> bool \<Rightarrow> bool \<Rightarrow> bytes \<Rightarrow> fam option \<Rightarrow> bool" where
  "fam_ok be portid is_ipset v4 ack name f \<longleftrightarrow>
     (if name = [] then f = None
      else \<exists>tg p r. target_of is_ipset name = Some tg \<and> pads_ok tg (fst p) (snd p) \<and> pads_ok tg (fst r) (snd r)
         \<and> f = Some (fam_of be portid tg v4 ack p r))"

lemma length_set_attrs: "pads_ok tg p1 p2 \<Longrightarrow> target_ok tg \<Longrightarrow> length (set_attrs be tg p1 p2) \<le> 520"
proof (cases tg)
  case (Set_nft f t s)
  assume "pads_ok tg p1 p2" "target_ok tg"
  moreover from this have "align4 (length t + 1) \<le> 256" "align4 (length s + 1) \<le> 256"
    using Set_nft by (auto intro!: align4_le)
  moreover have "length t + 1 \<le> align4 (length t + 1)" "length s + 1 \<le> align4 (length s + 1)" by (simp_all only: align4_props)
  ultimately show ?thesis using Set_nft by (simp add: padlen_def)
next
  case (Set_ipset name)
  assume "pads_ok tg p1 p2" "target_ok tg"
  moreover from this have "align4 (length name + 1) \<le> 32"
    using Set_ipset by (auto intro!: align4_le)
  moreover have "length name + 1 \<le> align4 (length name + 1)" by (simp only: align4_props)
  ultimately show ?thesis using Set_ipset by (simp add: padlen_def align4_def)
qed

text \<open>The address ends the attributes of a test message, and nothing before it depends on it.\<close>

lemma test_attrs_split:
  assumes "length ip = iplen v4"
  shows "\<exists>x. test_attrs be tg v4 p1 p2 ip = x @ ip
    \<and> x = take (length (test_attrs be tg v4 p1 p2 (replicate (iplen v4) 0)) - iplen v4)
            (test_attrs be tg v4 p1 p2 (replicate (iplen v4) 0))"
proof -
  have "\<exists>x. \<forall>a. length a = iplen v4 \<longrightarrow> test_attrs be tg v4 p1 p2 a = x @ a"
  proof (cases tg)
    case (Set_ipset name)
    have "elem_ipset be v4 a = take 12 (elem_ipset be v4 (replicate (iplen v4) 0)) @ a" if "length a = iplen v4" for a
      using elem_ipset_ip [of "replicate (iplen v4) 0" v4 a be] that append_take_drop_id [of 12 "elem_ipset be v4 a"] by simp
    then show ?thesis using Set_ipset by (metis test_attrs.simps(1) append_assoc)
  next
    case (Set_nft f t s)
    define X where "X = take 12 (elem_nft be 0 (replicate (iplen v4) 0))"
    have e: "elem_nft be 0 a = X @ a" if "length a = iplen v4" for a
      using elem_nft_split [OF that, of be 0] by (simp add: X_def)
    have "nest be NFTA_SET_ELEM_LIST_ELEMENTS (X @ a) = take (4 + length X) (nest be NFTA_SET_ELEM_LIST_ELEMENTS (X @ replicate (iplen v4) 0)) @ a"
      if "length a = iplen v4" for a using that by (simp add: nest_def nla_def)
    then show ?thesis using Set_nft e by (metis test_attrs.simps(2) append_assoc)
  qed
  then obtain x where x: "\<And>a. length a = iplen v4 \<Longrightarrow> test_attrs be tg v4 p1 p2 a = x @ a" by blast
  show ?thesis using x [OF assms] x [of "replicate (iplen v4) 0"] by simp
qed

lemma test_query_eq:
  assumes "length ip = iplen v4"
  shows "q_head (fam_of be portid tg v4 ack p r) @ ip
    = host32 be (word_of_nat (20 + length (test_attrs be tg v4 (fst p) (snd p) ip))) @ test_head be portid tg v4 ack
      @ test_attrs be tg v4 (fst p) (snd p) ip"
proof -
  let ?z = "test_attrs be tg v4 (fst p) (snd p) (replicate (iplen v4) 0)"
  have "length ?z = length (test_attrs be tg v4 (fst p) (snd p) ip)"
    using assms by (cases tg) (simp_all add: length_elem_ipset length_elem_nft [of _ v4])
  then show ?thesis using test_attrs_split [OF assms, of be tg "fst p" "snd p"] by (auto simp: fam_of_def Let_def)
qed

lemma test_inv_new:
  assumes v: "nlview be m (test_head be portid tg v4 ack) (test_attrs be tg v4 (fst p) (snd p) ip) fr" and ip: "length ip = iplen v4"
  shows "test_inv be v4 (q_head (fam_of be portid tg v4 ack p r)) m"
proof -
  let ?q = "q_head (fam_of be portid tg v4 ack p r)" and ?t = "test_attrs be tg v4 (fst p) (snd p) ip"
  have m: "m = ?q @ ip @ fr" and small: "20 + length ?t < 65536" and h: "length (test_head be portid tg v4 ack) = 16"
    using v test_query_eq [OF ip, of be portid tg ack p r] by (auto simp: nlview_def)
  have len: "length ?q + iplen v4 = 20 + length ?t"
    using arg_cong [OF test_query_eq [OF ip, of be portid tg ack p r], of length] ip h by simp
  have "take 4 (?q @ ip) = host32 be (word_of_nat (20 + length ?t))"
    unfolding test_query_eq [OF ip, of be portid tg ack p r] by simp
  moreover have q: "20 \<le> length ?q" by (simp add: fam_of_def Let_def test_head_def)
  ultimately have "take 4 ?q = host32 be (word_of_nat (length ?q + iplen v4))" unfolding len by simp
  then show ?thesis using m ip small q unfolding test_inv_def len [symmetric] by fastforce
qed

text \<open>The invariant of a test context, and of an add context with the pending addresses \<open>ips\<close>.\<close>

definition test_ctx_inv :: "bool \<Rightarrow> (bool \<Rightarrow> fam option) \<Rightarrow> testctx \<Rightarrow> bool" where
  "test_ctx_inv be F ctx \<longleftrightarrow> (\<forall>v4. case F v4 of None \<Rightarrow> ctx v4 = None
     | Some f \<Rightarrow> \<exists>m. ctx v4 = Some m \<and> test_inv be v4 (q_head f) m)"

definition add_ctx_inv :: "bool \<Rightarrow> bool \<Rightarrow> (bool \<Rightarrow> fam option) \<Rightarrow> (bool \<Rightarrow> bytes list) \<Rightarrow> addctx \<Rightarrow> bool" where
  "add_ctx_inv be is_ipset F ips ctx \<longleftrightarrow> test_ctx_inv be F (a_test ctx)
     \<and> (\<forall>v4. case F v4 of None \<Rightarrow> a_msg ctx v4 = None \<and> ips v4 = []
         | Some f \<Rightarrow> \<exists>m. a_msg ctx v4 = Some m \<and> add_inv be is_ipset v4 f (ips v4) m \<and> a_baselen ctx v4 = Some (baselen_of f))
     \<and> (\<forall>v4. a_ipcnt ctx v4 = length (ips v4) \<and> length (ips v4) \<le> IP_N \<and> (\<forall>ip \<in> set (ips v4). length ip = iplen v4))"

lemma add_ctx_invD:
  assumes "add_ctx_inv be is_ipset F ips ctx"
  shows "a_ipcnt ctx v4 = length (ips v4)" "length (ips v4) \<le> IP_N" "\<forall>ip \<in> set (ips v4). length ip = iplen v4"
    "F v4 = None \<Longrightarrow> a_msg ctx v4 = None \<and> ips v4 = []"
    "F v4 = Some f \<Longrightarrow> \<exists>t m. a_test ctx v4 = Some t \<and> test_inv be v4 (q_head f) t \<and> a_msg ctx v4 = Some m
       \<and> add_inv be is_ipset v4 f (ips v4) m \<and> a_baselen ctx v4 = Some (baselen_of f)"
    "ips v4 \<noteq> [] \<Longrightarrow> \<exists>f. F v4 = Some f"
proof -
  have c: "case F v4 of None \<Rightarrow> a_msg ctx v4 = None \<and> ips v4 = []
      | Some f \<Rightarrow> \<exists>m. a_msg ctx v4 = Some m \<and> add_inv be is_ipset v4 f (ips v4) m \<and> a_baselen ctx v4 = Some (baselen_of f)"
    and t: "case F v4 of None \<Rightarrow> a_test ctx v4 = None | Some f \<Rightarrow> \<exists>m. a_test ctx v4 = Some m \<and> test_inv be v4 (q_head f) m"
    using assms by (simp_all add: add_ctx_inv_def test_ctx_inv_def)
  show "a_ipcnt ctx v4 = length (ips v4)" "length (ips v4) \<le> IP_N" "\<forall>ip \<in> set (ips v4). length ip = iplen v4"
    using assms by (simp_all add: add_ctx_inv_def)
  show "F v4 = None \<Longrightarrow> a_msg ctx v4 = None \<and> ips v4 = []" using c by simp
  show "F v4 = Some f \<Longrightarrow> \<exists>t m. a_test ctx v4 = Some t \<and> test_inv be v4 (q_head f) t \<and> a_msg ctx v4 = Some m
       \<and> add_inv be is_ipset v4 f (ips v4) m \<and> a_baselen ctx v4 = Some (baselen_of f)" using c t by auto
  show "ips v4 \<noteq> [] \<Longrightarrow> \<exists>f. F v4 = Some f" using c by (cases "F v4") auto
qed

text \<open>What setting up the test message of one family leaves.\<close>

definition test_done :: "bool \<Rightarrow> u32 \<Rightarrow> bool \<Rightarrow> bool \<Rightarrow> bytes \<Rightarrow> bytes option \<Rightarrow> bool \<Rightarrow> bool" where
  "test_done be portid is_ipset ack name msg v4 \<longleftrightarrow>
     (if name = [] then msg = None
      else \<exists>tg p m. target_of is_ipset name = Some tg \<and> pads_ok tg (fst p) (snd p) \<and> msg = Some m
         \<and> (\<forall>r. test_inv be v4 (q_head (fam_of be portid tg v4 ack p r)) m))"

lemma init_testmsg_done:
  assumes "length m = BUFSZ_TEST is_ipset v4" "name \<noteq> []"
  shows "(init_testmsg is_ipset be portid m name v4 ack = Some Exit \<and> target_of is_ipset name = None)
    \<or> (\<exists>m'. init_testmsg is_ipset be portid m name v4 ack = Some (Run m') \<and> target_of is_ipset name \<noteq> None
        \<and> test_done be portid is_ipset ack name (Some m') v4)"
proof (cases "target_of is_ipset name")
  case None
  then show ?thesis using init_testmsg_view [OF assms(1), where name = name and be = be and portid = portid and ack = ack] by simp
next
  case (Some tg)
  then obtain m' p1 p2 ip fr where m': "init_testmsg is_ipset be portid m name v4 ack = Some (Run m')"
    "pads_ok tg p1 p2" "length ip = iplen v4"
    "nlview be m' (test_head be portid tg v4 ack) (test_attrs be tg v4 p1 p2 ip) fr"
    using init_testmsg_view [OF assms(1), where name = name and be = be and portid = portid and ack = ack] by auto
  have "test_inv be v4 (q_head (fam_of be portid tg v4 ack (p1, p2) r)) m'" for r
    using test_inv_new [of be m' portid tg v4 ack "(p1, p2)" ip fr r] m'(3,4) by simp
  then have "test_done be portid is_ipset ack name (Some m') v4"
    using assms(2) Some m'(2) unfolding test_done_def by auto
  then show ?thesis using m'(1) Some by blast
qed

lemma init_testctx_spec:
  assumes c4: "ctx True = (if name4 = [] then None else Some m4)" "length m4 = BUFSZ_TEST is_ipset True"
    and c6: "ctx False = (if name6 = [] then None else Some m6)" "length m6 = BUFSZ_TEST is_ipset False"
  shows "(init_testctx be portid ctx name4 name6 is_ipset ack = Some Exit
      \<and> (name4 \<noteq> [] \<and> target_of is_ipset name4 = None \<or> name6 \<noteq> [] \<and> target_of is_ipset name6 = None))
    \<or> (\<exists>ctx'. init_testctx be portid ctx name4 name6 is_ipset ack = Some (Run ctx')
        \<and> (name4 \<noteq> [] \<longrightarrow> target_of is_ipset name4 \<noteq> None) \<and> (name6 \<noteq> [] \<longrightarrow> target_of is_ipset name6 \<noteq> None)
        \<and> test_done be portid is_ipset ack name4 (ctx' True) True \<and> test_done be portid is_ipset ack name6 (ctx' False) False)"
proof -
  define step where "step = (\<lambda>v4 name ctx. (case ctx v4 of None \<Rightarrow> Some (Run ctx)
     | Some m \<Rightarrow> and_then (init_testmsg is_ipset be portid m name v4 ack) (\<lambda>m. Some (Run (ctx(v4 := Some m))))))"
  have def: "init_testctx be portid ctx name4 name6 is_ipset ack = and_then (step True name4 ctx) (step False name6)"
    by (simp only: init_testctx_def step_def Let_def init_testmsg_def)
  have one: "(step v4 name ctx = Some Exit \<and> name \<noteq> [] \<and> target_of is_ipset name = None)
      \<or> (\<exists>msg. step v4 name ctx = Some (Run (ctx(v4 := msg))) \<and> (name \<noteq> [] \<longrightarrow> target_of is_ipset name \<noteq> None)
          \<and> test_done be portid is_ipset ack name msg v4)"
    if "ctx v4 = (if name = [] then None else Some m)" "length m = BUFSZ_TEST is_ipset v4" for ctx v4 name m
  proof (cases "name = []")
    case True
    then have "step v4 name ctx = Some (Run (ctx(v4 := None)))" using that(1) by (simp add: step_def fun_upd_idem)
    then show ?thesis using True by (auto simp: test_done_def)
  next
    case False
    then show ?thesis using init_testmsg_done [OF that(2) False, where be = be and portid = portid and ack = ack] that(1)
      by (auto simp: step_def and_then_def)
  qed
  from one [of ctx True, OF c4]
  consider "step True name4 ctx = Some Exit" "name4 \<noteq> []" "target_of is_ipset name4 = None"
    | msg where "step True name4 ctx = Some (Run (ctx(True := msg)))" "name4 \<noteq> [] \<longrightarrow> target_of is_ipset name4 \<noteq> None"
        "test_done be portid is_ipset ack name4 msg True" by (elim disjE exE conjE) simp_all
  then show ?thesis
  proof cases
    case 1
    then show ?thesis unfolding def by (simp add: and_then_def)
  next
    case 2
    have "(ctx(True := msg)) False = (if name6 = [] then None else Some m6)" using c6(1) by simp
    from one [of "ctx(True := msg)" False, OF this c6(2)] show ?thesis using 2 unfolding def by (auto simp: and_then_def)
  qed
qed

section \<open>New contexts\<close>

definition sets_exist :: "bool \<Rightarrow> bytes \<Rightarrow> bytes \<Rightarrow> bool" where
  "sets_exist is_ipset name4 name6 \<longleftrightarrow> (name4 \<noteq> [] \<longrightarrow> target_of is_ipset name4 \<noteq> None)
     \<and> (name6 \<noteq> [] \<longrightarrow> target_of is_ipset name6 \<noteq> None)"

text \<open>The add message of one family, with what the loop of \<open>ipset_new_addctx\<close> stores.\<close>

definition add_done :: "bool \<Rightarrow> u32 \<Rightarrow> bool \<Rightarrow> bytes \<Rightarrow> addctx \<Rightarrow> bool \<Rightarrow> bool" where
  "add_done be portid is_ipset name ctx v4 \<longleftrightarrow>
     (if name = [] then a_msg ctx v4 = None
      else \<exists>tg r m. target_of is_ipset name = Some tg \<and> pads_ok tg (fst r) (snd r) \<and> a_msg ctx v4 = Some m
         \<and> (\<forall>p ack. add_inv be is_ipset v4 (fam_of be portid tg v4 ack p r) [] m
              \<and> a_baselen ctx v4 = Some (baselen_of (fam_of be portid tg v4 ack p r))))"

lemma init_addmsg_done:
  assumes len: "length m = BUFSZ_ADD is_ipset v4" and tg: "target_of is_ipset name = Some tg"
  shows "\<exists>m' r. init_addmsg is_ipset be portid m name v4 = Some (Run m') \<and> pads_ok tg (fst r) (snd r)
    \<and> (\<forall>p ack. add_inv be is_ipset v4 (fam_of be portid tg v4 ack p r) [] m'
         \<and> nlmsg_len be m' = Some (baselen_of (fam_of be portid tg v4 ack p r)))"
proof -
  obtain m' r1 r2 fr where m': "init_addmsg is_ipset be portid m name v4 = Some (Run m')" "pads_ok tg r1 r2"
    "nlview be m' (add_head be portid tg v4) (add_attrs be tg r1 r2 @ nest be (list_attr tg) []) fr"
    and room: "10 * (if is_ipset then 12 + iplen v4 else 32 + 2 * iplen v4) \<le> length fr"
    using init_addmsg_view [OF len, where name = name and be = be and portid = portid] tg by auto
  have ok: "is_ipset_target tg = is_ipset" using target_of_ok [OF tg] by auto
  have lt: "or (list_attr tg) NLA_F_NESTED = list_type is_ipset"
    using ok by (cases tg) (auto simp: list_type_def)
  have f: "a_pre (fam_of be portid tg v4 ack p (r1, r2)) = add_attrs be tg r1 r2"
    "a_head (fam_of be portid tg v4 ack p (r1, r2)) = add_head be portid tg v4" for ack p
    by (simp_all add: fam_of_def Let_def)
  have pay: "add_attrs be tg r1 r2 @ nest be (list_attr tg) []
      = add_payload be is_ipset v4 (fam_of be portid tg v4 ack p (r1, r2)) (word_of_nat 4) []" for ack p
    by (simp add: nest_def nla_def add_payload_def f lt)
  have "add_view be is_ipset v4 (fam_of be portid tg v4 ack p (r1, r2)) (word_of_nat 4) [] m'" for ack p
    using m'(3) room unfolding add_view_def pay [of ack p] f(2) [of ack p, symmetric]
    by (intro exI [of _ fr]) (auto simp: elemsz_def IP_N_def)
  then have "add_inv be is_ipset v4 (fam_of be portid tg v4 ack p (r1, r2)) [] m'" for ack p
    by (rule add_view_inv)
  moreover have "nlmsg_len be m' = Some (baselen_of (fam_of be portid tg v4 ack p (r1, r2)))" for ack p
    using nlview_len(1) [OF m'(3)] by (simp add: baselen_of_def f add.commute)
  ultimately show ?thesis using m'(1,2) by (intro exI [of _ m'] exI [of _ "(r1, r2)"]) simp
qed

lemma add_ctx_inv_new:
  assumes t: "test_done be portid is_ipset True name4 (a_test ctx True) True" "test_done be portid is_ipset True name6 (a_test ctx False) False"
    and a: "add_done be portid is_ipset name4 ctx True" "add_done be portid is_ipset name6 ctx False"
    and n: "a_ipcnt ctx = (\<lambda>_. 0)"
  shows "\<exists>F. add_ctx_inv be is_ipset F (\<lambda>_. []) ctx \<and> fam_ok be portid is_ipset True True name4 (F True)
    \<and> fam_ok be portid is_ipset False True name6 (F False)"
proof -
  have one: "\<exists>f. fam_ok be portid is_ipset v4 True name f
      \<and> (case f of None \<Rightarrow> a_test ctx v4 = None \<and> a_msg ctx v4 = None
         | Some f \<Rightarrow> (\<exists>m. a_test ctx v4 = Some m \<and> test_inv be v4 (q_head f) m)
             \<and> (\<exists>m. a_msg ctx v4 = Some m \<and> add_inv be is_ipset v4 f [] m \<and> a_baselen ctx v4 = Some (baselen_of f)))"
    if h: "test_done be portid is_ipset True name (a_test ctx v4) v4" "add_done be portid is_ipset name ctx v4" for name v4
  proof (cases "name = []")
    case True
    then show ?thesis using h by (intro exI [of _ None]) (simp add: fam_ok_def test_done_def add_done_def)
  next
    case False
    obtain tg p m where p: "target_of is_ipset name = Some tg" "pads_ok tg (fst p) (snd p)" "a_test ctx v4 = Some m"
      "\<forall>r. test_inv be v4 (q_head (fam_of be portid tg v4 True p r)) m"
      using h(1) False unfolding test_done_def by (simp only: if_False) blast
    obtain r m' where r: "pads_ok tg (fst r) (snd r)" "a_msg ctx v4 = Some m'"
      "\<forall>p ack. add_inv be is_ipset v4 (fam_of be portid tg v4 ack p r) [] m'
          \<and> a_baselen ctx v4 = Some (baselen_of (fam_of be portid tg v4 ack p r))"
      using h(2) False p(1) unfolding add_done_def by (simp only: if_False option.inject) blast
    have "fam_ok be portid is_ipset v4 True name (Some (fam_of be portid tg v4 True p r))"
      using p(1,2) r(1) unfolding fam_ok_def if_not_P [OF False] by blast
    then show ?thesis using p(3) p(4) [rule_format, of r] r(2) spec [OF spec [OF r(3), of p], of True]
      by (intro exI [of _ "Some (fam_of be portid tg v4 True p r)"]) simp
  qed
  obtain f4 f6 where f: "fam_ok be portid is_ipset True True name4 f4" "fam_ok be portid is_ipset False True name6 f6"
    "case f4 of None \<Rightarrow> a_test ctx True = None \<and> a_msg ctx True = None
         | Some f \<Rightarrow> (\<exists>m. a_test ctx True = Some m \<and> test_inv be True (q_head f) m)
             \<and> (\<exists>m. a_msg ctx True = Some m \<and> add_inv be is_ipset True f [] m \<and> a_baselen ctx True = Some (baselen_of f))"
    "case f6 of None \<Rightarrow> a_test ctx False = None \<and> a_msg ctx False = None
         | Some f \<Rightarrow> (\<exists>m. a_test ctx False = Some m \<and> test_inv be False (q_head f) m)
             \<and> (\<exists>m. a_msg ctx False = Some m \<and> add_inv be is_ipset False f [] m \<and> a_baselen ctx False = Some (baselen_of f))"
    using one [OF t(1) a(1)] one [OF t(2) a(2)] by blast
  let ?F = "\<lambda>v4. if v4 then f4 else f6"
  have "add_ctx_inv be is_ipset ?F (\<lambda>_. []) ctx"
    using f(3,4) n unfolding add_ctx_inv_def test_ctx_inv_def all_bool_eq by (auto split: option.splits)
  then show ?thesis using f(1,2) by (intro exI [of _ ?F]) simp
qed

lemma add_done_cong:
  "a_msg ctx v4 = a_msg ctx' v4 \<Longrightarrow> a_baselen ctx v4 = a_baselen ctx' v4 \<Longrightarrow>
    add_done be portid is_ipset name ctx v4 \<longleftrightarrow> add_done be portid is_ipset name ctx' v4"
  unfolding add_done_def by (simp only:)

lemma new_addctx_run:
  assumes init: "init be c garbage name46 st = Some (Run (is_ipset, st'))"
    and parse: "parse_name46 name46 = Some (Run (name4, name6))"
    and st': "st_ready be is_ipset st'" "net st' = net st"
  shows "if sets_exist is_ipset name4 name6
    then \<exists>ctx st' F. ipset_new_addctx be c garbage mem name46 st = Some (Run (ctx, st'))
           \<and> st_ready be is_ipset st' \<and> net st' = net st \<and> add_ctx_inv be is_ipset F (\<lambda>_. []) ctx
           \<and> fam_ok be (s_portid st') is_ipset True True name4 (F True)
           \<and> fam_ok be (s_portid st') is_ipset False True name6 (F False)
    else ipset_new_addctx be c garbage mem name46 st = Some Exit"
proof -
  define t4 t6 a4 a6 where sz: "t4 = (if name4 = [] then 0 else BUFSZ_TEST is_ipset True)"
    "t6 = (if name6 = [] then 0 else BUFSZ_TEST is_ipset False)"
    "a4 = (if name4 = [] then 0 else BUFSZ_ADD is_ipset True)" "a6 = (if name6 = [] then 0 else BUFSZ_ADD is_ipset False)"
  define ctx where "ctx = \<lparr>a_test = (\<lambda>v4. if v4 then if t4 \<noteq> 0 then Some (fresh mem 0 t4) else None
                     else if t6 \<noteq> 0 then Some (fresh mem t4 t6) else None),
                  a_msg = (\<lambda>v4. if v4 then if a4 \<noteq> 0 then Some (fresh mem (t4 + t6) a4) else None
                     else if a6 \<noteq> 0 then Some (fresh mem (t4 + t6 + a4) a6) else None),
                  a_baselen = (\<lambda>_. None), a_ipcnt = (\<lambda>_. 0)\<rparr>"
  define add where "add = (\<lambda>v4 name (ctx :: addctx). (case a_msg ctx v4 of None \<Rightarrow> Some (Run ctx)
     | Some m \<Rightarrow> and_then (init_addmsg is_ipset be (s_portid st') m name v4) (\<lambda>m. do {
         l \<leftarrow> nlmsg_len be m;
         Some (Run (ctx\<lparr>a_msg := (a_msg ctx)(v4 := Some m), a_baselen := (a_baselen ctx)(v4 := Some l)\<rparr>)) })))"
  have def: "ipset_new_addctx be c garbage mem name46 st =
    and_then (init_testctx be (s_portid st') (a_test ctx) name4 name6 is_ipset True) (\<lambda>t.
      and_then (add True name4 (ctx\<lparr>a_test := t\<rparr>)) (\<lambda>ctx.
      and_then (add False name6 ctx) (\<lambda>ctx. Some (Run (ctx, st')))))"
    unfolding ipset_new_addctx_def init parse and_then_def [of "Some (Run _)"] option.case run.case prod.case Let_def
      sz [symmetric] ctx_def [symmetric] add_def init_addmsg_def by (rule refl)
  have pos: "BUFSZ_TEST is_ipset v4 \<noteq> 0" "BUFSZ_ADD is_ipset v4 \<noteq> 0" for v4
    by (simp_all add: BUFSZ_TEST_def BUFSZ_ADD_def bufsz_eq)
  have t: "a_test ctx True = (if name4 = [] then None else Some (fresh mem 0 (BUFSZ_TEST is_ipset True)))"
    "a_test ctx False = (if name6 = [] then None else Some (fresh mem t4 (BUFSZ_TEST is_ipset False)))"
    and m: "a_msg ctx True = (if name4 = [] then None else Some (fresh mem (t4 + t6) (BUFSZ_ADD is_ipset True)))"
    "a_msg ctx False = (if name6 = [] then None else Some (fresh mem (t4 + t6 + a4) (BUFSZ_ADD is_ipset False)))"
    using pos by (simp_all add: ctx_def sz)
  have add: "\<exists>m' l. add v4 name ctx = Some (Run (ctx\<lparr>a_msg := (a_msg ctx)(v4 := m'), a_baselen := (a_baselen ctx)(v4 := l)\<rparr>))
      \<and> add_done be (s_portid st') is_ipset name (ctx\<lparr>a_msg := (a_msg ctx)(v4 := m'), a_baselen := (a_baselen ctx)(v4 := l)\<rparr>) v4"
    if h: "a_msg ctx v4 = (if name = [] then None else Some m)" "length m = BUFSZ_ADD is_ipset v4"
      "name \<noteq> [] \<longrightarrow> target_of is_ipset name \<noteq> None" for v4 name m and ctx :: addctx
  proof (cases "name = []")
    case True
    then have "add v4 name ctx = Some (Run (ctx\<lparr>a_msg := (a_msg ctx)(v4 := None), a_baselen := (a_baselen ctx)(v4 := a_baselen ctx v4)\<rparr>))"
      using h(1) by (simp add: add_def fun_upd_idem)
    then show ?thesis using True h(1)
      by (intro exI [of _ None] exI [of _ "a_baselen ctx v4"]) (simp add: add_done_def)
  next
    case False
    then obtain tg where tg: "target_of is_ipset name = Some tg" using h(3) by auto
    from init_addmsg_done [OF h(2) tg, of be "s_portid st'"]
    obtain m' r where m': "init_addmsg is_ipset be (s_portid st') m name v4 = Some (Run m')" "pads_ok tg (fst r) (snd r)"
      "\<forall>p ack. add_inv be is_ipset v4 (fam_of be (s_portid st') tg v4 ack p r) [] m'
         \<and> nlmsg_len be m' = Some (baselen_of (fam_of be (s_portid st') tg v4 ack p r))" by blast
    obtain l where l: "nlmsg_len be m' = Some l" using m'(3) by blast
    have "add v4 name ctx = Some (Run (ctx\<lparr>a_msg := (a_msg ctx)(v4 := Some m'), a_baselen := (a_baselen ctx)(v4 := Some l)\<rparr>))"
      using h(1) False m'(1) l by (simp add: add_def and_then_def)
    moreover have "add_done be (s_portid st') is_ipset name
        (ctx\<lparr>a_msg := (a_msg ctx)(v4 := Some m'), a_baselen := (a_baselen ctx)(v4 := Some l)\<rparr>) v4"
      unfolding add_done_def if_not_P [OF False]
      by (rule exI [of _ tg], rule exI [of _ r], rule exI [of _ m']) (use tg m'(2,3) l in simp)
    ultimately show ?thesis by blast
  qed
  from init_testctx_spec [OF t(1) length_fresh t(2) length_fresh, where portid = "s_portid st'" and ack = True and be = be]
  consider "init_testctx be (s_portid st') (a_test ctx) name4 name6 is_ipset True = Some Exit" "\<not> sets_exist is_ipset name4 name6"
    | t where "init_testctx be (s_portid st') (a_test ctx) name4 name6 is_ipset True = Some (Run t)" "sets_exist is_ipset name4 name6"
      "test_done be (s_portid st') is_ipset True name4 (t True) True" "test_done be (s_portid st') is_ipset True name6 (t False) False"
    unfolding sets_exist_def by (elim disjE exE conjE) simp_all
  then show ?thesis
  proof cases
    case 1
    then show ?thesis unfolding def by (simp add: and_then_def)
  next
    case 2
    note ex = 2(2) [unfolded sets_exist_def]
    let ?c0 = "ctx\<lparr>a_test := t\<rparr>"
    have "a_msg ?c0 True = (if name4 = [] then None else Some (fresh mem (t4 + t6) (BUFSZ_ADD is_ipset True)))"
      using m(1) by simp
    from add [of ?c0 True name4, OF this length_fresh conjunct1 [OF ex]]
    obtain m4 l4 where c1: "add True name4 ?c0 = Some (Run (?c0\<lparr>a_msg := (a_msg ?c0)(True := m4), a_baselen := (a_baselen ?c0)(True := l4)\<rparr>))"
      "add_done be (s_portid st') is_ipset name4 (?c0\<lparr>a_msg := (a_msg ?c0)(True := m4), a_baselen := (a_baselen ?c0)(True := l4)\<rparr>) True"
      by blast
    let ?c1 = "?c0\<lparr>a_msg := (a_msg ?c0)(True := m4), a_baselen := (a_baselen ?c0)(True := l4)\<rparr>"
    have "a_msg ?c1 False = (if name6 = [] then None else Some (fresh mem (t4 + t6 + a4) (BUFSZ_ADD is_ipset False)))"
      using m(2) by simp
    from add [of ?c1 False name6, OF this length_fresh conjunct2 [OF ex]]
    obtain m6 l6 where c2: "add False name6 ?c1 = Some (Run (?c1\<lparr>a_msg := (a_msg ?c1)(False := m6), a_baselen := (a_baselen ?c1)(False := l6)\<rparr>))"
      "add_done be (s_portid st') is_ipset name6 (?c1\<lparr>a_msg := (a_msg ?c1)(False := m6), a_baselen := (a_baselen ?c1)(False := l6)\<rparr>) False"
      by blast
    let ?c2 = "?c1\<lparr>a_msg := (a_msg ?c1)(False := m6), a_baselen := (a_baselen ?c1)(False := l6)\<rparr>"
    have "add_done be (s_portid st') is_ipset name4 ?c2 True"
      by (rule add_done_cong [THEN iffD1, OF _ _ c1(2)]) simp_all
    moreover have "a_test ?c2 = t" "a_ipcnt ?c2 = (\<lambda>_. 0)" by (simp_all add: ctx_def)
    ultimately obtain F where "add_ctx_inv be is_ipset F (\<lambda>_. []) ?c2"
      "fam_ok be (s_portid st') is_ipset True True name4 (F True)" "fam_ok be (s_portid st') is_ipset False True name6 (F False)"
      using add_ctx_inv_new [of be "s_portid st'" is_ipset name4 ?c2 name6] 2(3,4) c2(2) by auto
    moreover have "ipset_new_addctx be c garbage mem name46 st = Some (Run (?c2, st'))"
      unfolding def using 2(1) c1(1) c2(1) by (simp add: and_then_def del: fun_upd_apply)
    ultimately show ?thesis using 2(2) st' by (simp only: if_True) blast
  qed
qed

lemma ipset_new_addctx_spec:
  assumes "st_ok be st"
  shows "case parse_name46 name46 of
      Some (Run (name4, name6)) \<Rightarrow>
        (let is_ipset = (AT_SIGN \<notin> set name46)
         in if socket_ok c name46 st \<and> sets_exist is_ipset name4 name6
            then \<exists>ctx st' F. ipset_new_addctx be c garbage mem name46 st = Some (Run (ctx, st'))
                   \<and> st_ready be is_ipset st' \<and> net st' = net st \<and> add_ctx_inv be is_ipset F (\<lambda>_. []) ctx
                   \<and> fam_ok be (s_portid st') is_ipset True True name4 (F True)
                   \<and> fam_ok be (s_portid st') is_ipset False True name6 (F False)
            else ipset_new_addctx be c garbage mem name46 st = Some Exit)
    | _ \<Rightarrow> ipset_new_addctx be c garbage mem name46 st = Some Exit"
proof -
  define is_ipset where "is_ipset = (AT_SIGN \<notin> set name46)"
  from init_spec [OF assms, of c garbage name46]
  consider (off) "init be c garbage name46 st = Some Exit" "\<not> socket_ok c name46 st"
    | (on) st' where "init be c garbage name46 st = Some (Run (is_ipset, st'))" "socket_ok c name46 st"
        "st_ready be is_ipset st'" "net st' = net st"
    unfolding is_ipset_def by (elim disjE exE conjE) simp_all
  then show ?thesis
  proof cases
    case off
    then have "ipset_new_addctx be c garbage mem name46 st = Some Exit"
      by (simp add: ipset_new_addctx_def and_then_def)
    then show ?thesis using off(2) by (simp add: Let_def split: option.splits run.splits)
  next
    case on
    obtain r where r: "parse_name46 name46 = Some r" unfolding parse_name46_eq Let_def by blast
    show ?thesis
    proof (cases r)
      case Exit
      then show ?thesis using r on(1) by (simp add: ipset_new_addctx_def and_then_def)
    next
      case (Run n)
      obtain name4 name6 where n: "n = (name4, name6)" by (cases n) auto
      show ?thesis
        using new_addctx_run [OF on(1) r [unfolded Run n] on(3,4), where mem = mem] on(2) r Run n
        unfolding is_ipset_def [symmetric] Let_def by (simp only: option.case run.case prod.case simp_thms)
    qed
  qed
qed

lemma ipset_new_testctx_spec:
  assumes ok: "st_ok be st" and sock: "socket_ok c name46 st" and parse: "parse_name46 name46 = Some (Run (name4, name6))"
    and ex: "sets_exist (AT_SIGN \<notin> set name46) name4 name6"
  shows "\<exists>ctx st' F. ipset_new_testctx be c garbage mem name46 st = Some (Run (ctx, st'))
    \<and> st_ready be (AT_SIGN \<notin> set name46) st' \<and> net st' = net st \<and> test_ctx_inv be F ctx
    \<and> fam_ok be (s_portid st') (AT_SIGN \<notin> set name46) True False name4 (F True)
    \<and> fam_ok be (s_portid st') (AT_SIGN \<notin> set name46) False False name6 (F False)"
proof -
  let ?is = "AT_SIGN \<notin> set name46"
  from init_spec [OF ok, of c garbage name46] sock obtain st' where st': "init be c garbage name46 st = Some (Run (?is, st'))"
    "st_ready be ?is st'" "net st' = net st" by blast
  define t4 t6 where sz: "t4 = (if name4 = [] then 0 else BUFSZ_TEST ?is True)" "t6 = (if name6 = [] then 0 else BUFSZ_TEST ?is False)"
  define ctx where "ctx = (\<lambda>v4. if v4 then if t4 \<noteq> 0 then Some (fresh mem 0 t4) else None
                       else if t6 \<noteq> 0 then Some (fresh mem t4 t6) else None)"
  have def: "ipset_new_testctx be c garbage mem name46 st =
    and_then (init_testctx be (s_portid st') ctx name4 name6 ?is False) (\<lambda>ctx. Some (Run (ctx, st')))"
    unfolding ipset_new_testctx_def st'(1) parse and_then_def [of "Some (Run _)"] option.case run.case prod.case Let_def
      sz [symmetric] ctx_def [symmetric] by (rule refl)
  have pos: "BUFSZ_TEST is_ipset v4 \<noteq> 0" for is_ipset v4 by (simp add: BUFSZ_TEST_def bufsz_eq)
  have c: "ctx True = (if name4 = [] then None else Some (fresh mem 0 (BUFSZ_TEST ?is True)))"
    "ctx False = (if name6 = [] then None else Some (fresh mem t4 (BUFSZ_TEST ?is False)))"
    using pos by (simp_all add: ctx_def sz)
  from init_testctx_spec [OF c(1) length_fresh c(2) length_fresh, where portid = "s_portid st'" and ack = False and be = be] ex
  obtain t where t: "init_testctx be (s_portid st') ctx name4 name6 ?is False = Some (Run t)"
    "test_done be (s_portid st') ?is False name4 (t True) True" "test_done be (s_portid st') ?is False name6 (t False) False"
    unfolding sets_exist_def by (elim disjE exE conjE) simp_all
  have one: "\<exists>f. fam_ok be (s_portid st') ?is v4 False name f
      \<and> (case f of None \<Rightarrow> t v4 = None | Some f \<Rightarrow> \<exists>m. t v4 = Some m \<and> test_inv be v4 (q_head f) m)"
    if h: "test_done be (s_portid st') ?is False name (t v4) v4" for name v4
  proof (cases "name = []")
    case True
    then show ?thesis using h by (intro exI [of _ None]) (simp add: fam_ok_def test_done_def)
  next
    case False
    obtain tg p m where p: "target_of ?is name = Some tg" "pads_ok tg (fst p) (snd p)" "t v4 = Some m"
      "\<forall>r. test_inv be v4 (q_head (fam_of be (s_portid st') tg v4 False p r)) m"
      using h False unfolding test_done_def by (simp only: if_False) blast
    have "fam_ok be (s_portid st') ?is v4 False name (Some (fam_of be (s_portid st') tg v4 False p p))"
      using p(1,2) unfolding fam_ok_def if_not_P [OF False] by blast
    then show ?thesis using p(3) spec [OF p(4), of p]
      by (intro exI [of _ "Some (fam_of be (s_portid st') tg v4 False p p)"]) simp
  qed
  from one [OF t(2)] one [OF t(3)] obtain f4 f6 where f: "fam_ok be (s_portid st') ?is True False name4 f4"
    "fam_ok be (s_portid st') ?is False False name6 f6"
    "case f4 of None \<Rightarrow> t True = None | Some f \<Rightarrow> \<exists>m. t True = Some m \<and> test_inv be True (q_head f) m"
    "case f6 of None \<Rightarrow> t False = None | Some f \<Rightarrow> \<exists>m. t False = Some m \<and> test_inv be False (q_head f) m" by blast
  have "test_ctx_inv be (\<lambda>v4. if v4 then f4 else f6) t"
    using f(3,4) unfolding test_ctx_inv_def all_bool_eq by simp
  moreover have "ipset_new_testctx be c garbage mem name46 st = Some (Run (t, st'))" unfolding def using t(1) by (simp add: and_then_def)
  ultimately show ?thesis using st'(2,3) f(1,2) by (intro exI [of _ t] exI [of _ st'] exI [of _ "\<lambda>v4. if v4 then f4 else f6"]) simp
qed

end
