(* ===== verification/Ipset_Xfer.thy ===== *)
theory Ipset_Xfer
  imports Ipset_New
begin

text \<open>
  Sending and receiving in \<^verbatim>\<open>src/ipset.c\<close>: what \<open>send_req\<close> sends is the gathered bytes of
  the messages that were set up, and after \<open>recv_res\<close> each response can be read at its place
  in \<open>s_buf_res\<close>. Both stay inside their arrays.
\<close>

section \<open>The receive call\<close>

text \<open>The sending side and the oracles are left alone, and \<open>n\<close> receives are counted.\<close>

definition recv_frame :: "kernel \<Rightarrow> kernel \<Rightarrow> bool" where
  "recv_frame k k' \<longleftrightarrow> k_sent k' = k_sent k \<and> k_send k' = k_send k \<and> k_nsend k' = k_nsend k \<and> k_recv k' = k_recv k"

lemma sys_recvmmsg_all_spec:
  assumes "sys_recvmmsg_all rooms flags k = (e, ms, k')"
  shows "recv_frame k k' \<and> length ms \<le> length rooms
    \<and> (\<forall>j < length ms. \<exists>n fl m. k_recv k (k_sent k) n fl = Inr m \<and> ms ! j = take (rooms ! j) m)"
  using assms
proof (induction rooms arbitrary: flags k ms)
  case (Cons room rooms)
  let ?fl = "flags AND NOT MSG_WAITFORONE"
  show ?case
  proof (cases "k_recv k (k_sent k) (k_nrecv k) ?fl")
    case (Inl x)
    then show ?thesis using Cons.prems by (auto simp: recvmsg_def Let_def recv_frame_def)
  next
    case (Inr m)
    let ?k1 = "k\<lparr>k_nrecv := k_nrecv k + 1\<rparr>"
    have one: "recvmsg room ?fl k = ((int (length (take room m)), 0), take room m, ?k1)"
      using Inr by (simp add: recvmsg_def Let_def)
    obtain ms1 where ms1: "sys_recvmmsg_all rooms (if flags AND MSG_WAITFORONE \<noteq> 0 then flags OR MSG_DONTWAIT else flags) ?k1
        = (e, ms1, k')" "ms = take room m # ms1"
      using Cons.prems one by (auto split: prod.splits)
    from Cons.IH [OF ms1(1)] have IH: "recv_frame ?k1 k'" "length ms1 \<le> length rooms"
      "\<forall>j < length ms1. \<exists>n fl m. k_recv k (k_sent k) n fl = Inr m \<and> ms1 ! j = take (rooms ! j) m" by auto
    have "\<exists>n fl m. k_recv k (k_sent k) n fl = Inr m \<and> ms ! j = take ((room # rooms) ! j) m" if "j < length ms" for j
      using that IH(3) Inr ms1(2) by (cases j) auto
    then show ?thesis using IH(1,2) ms1(2) by (auto simp: recv_frame_def)
  qed
qed (auto simp: recv_frame_def)

text \<open>With replies waiting, all of them are received.\<close>

lemma sys_recvmmsg_all_replies:
  assumes "flags AND MSG_WAITFORONE = 0" "\<forall>j < length rooms. k_recv k (k_sent k) (k_nrecv k + j) flags = Inr (a j)"
  shows "\<exists>e. sys_recvmmsg_all rooms flags k
    = (e, map (\<lambda>j. take (rooms ! j) (a j)) [0 ..< length rooms], k\<lparr>k_nrecv := k_nrecv k + length rooms\<rparr>)"
  using assms(2)
proof (induction rooms arbitrary: k a)
  case (Cons room rooms)
  have fl: "flags AND NOT MSG_WAITFORONE = flags"
  proof -
    have "flags = (flags AND MSG_WAITFORONE) OR (flags AND NOT MSG_WAITFORONE)"
      by (simp add: bit.conj_disj_distrib [symmetric])
    then show ?thesis using assms(1) by simp
  qed
  let ?k1 = "k\<lparr>k_nrecv := k_nrecv k + 1\<rparr>"
  have "k_recv k (k_sent k) (k_nrecv k) flags = Inr (a 0)" using Cons.prems by force
  then have one: "recvmsg room (flags AND NOT MSG_WAITFORONE) k = ((int (length (take room (a 0))), 0), take room (a 0), ?k1)"
    by (simp add: recvmsg_def Let_def fl)
  have "\<forall>j < length rooms. k_recv ?k1 (k_sent ?k1) (k_nrecv ?k1 + j) flags = Inr (a (Suc j))"
    using Cons.prems by force
  from Cons.IH [OF this] obtain e where "sys_recvmmsg_all rooms flags ?k1
      = (e, map (\<lambda>j. take (rooms ! j) (a (Suc j))) [0 ..< length rooms], ?k1\<lparr>k_nrecv := k_nrecv ?k1 + length rooms\<rparr>)" by blast
  moreover have "map (\<lambda>j. take ((room # rooms) ! j) (a j)) [0 ..< length (room # rooms)]
      = take room (a 0) # map (\<lambda>j. take (rooms ! j) (a (Suc j))) [0 ..< length rooms]"
    by (simp add: map_upt_Suc del: upt_Suc)
  ultimately show ?case using one assms(1) by (simp del: upt_Suc)
qed simp

lemma RECVMMSG_all:
  assumes "rooms \<noteq> []" "sys_recvmmsg_all rooms flags k = (e, ms, k')"
  shows "\<exists>e'. RECVMMSG i rooms flags k = ((if ms = [] then -1 else int (length ms), e'), ms, k')"
  using assms userspace_recvmmsg_loop_eq [OF refl, of rooms flags 0 "[]" k]
  by (cases i) (auto simp: RECVMMSG_def sys_recvmmsg_def userspace_recvmmsg_def Let_def)

lemma RECVMMSG_spec:
  assumes "rooms \<noteq> []"
  shows "\<exists>e ms k'. RECVMMSG i rooms flags k = ((if ms = [] then -1 else int (length ms), e), ms, k')
    \<and> recv_frame k k' \<and> length ms \<le> length rooms
    \<and> (\<forall>j < length ms. \<exists>n fl m. k_recv k (k_sent k) n fl = Inr m \<and> ms ! j = take (rooms ! j) m)"
proof -
  obtain e ms k' where all: "sys_recvmmsg_all rooms flags k = (e, ms, k')"
    by (cases "sys_recvmmsg_all rooms flags k") auto
  from RECVMMSG_all [OF assms all, of i] sys_recvmmsg_all_spec [OF all] show ?thesis by blast
qed

section \<open>Frames\<close>

definition xframe :: "ipset_state \<Rightarrow> ipset_state \<Rightarrow> bool" where
  "xframe st st' \<longleftrightarrow> st' = st\<lparr>s_iov := s_iov st', s_msgv := s_msgv st'\<rparr>
     \<and> length (s_iov st') = length (s_iov st) \<and> length (s_msgv st') = length (s_msgv st)"

lemma xframe_refl [simp]: "xframe st st"
  by (simp add: xframe_def)

lemma xframeD:
  assumes "xframe st st'"
  shows "length (s_iov st') = length (s_iov st)" "length (s_msgv st') = length (s_msgv st)" "s_buf_res st' = s_buf_res st"
    "s_batch_begin st' = s_batch_begin st" "s_batch_end st' = s_batch_end st" "net st' = net st" "s_backend st' = s_backend st"
    "s_sock st' = s_sock st" "s_portid st' = s_portid st" "send_impl st' = send_impl st" "recv_impl st' = recv_impl st"
    "ipset_blacklist st' = ipset_blacklist st"
proof -
  have e: "st' = st\<lparr>s_iov := s_iov st', s_msgv := s_msgv st'\<rparr>" using assms by (simp add: xframe_def)
  show "s_buf_res st' = s_buf_res st" "s_batch_begin st' = s_batch_begin st" "s_batch_end st' = s_batch_end st"
    "net st' = net st" "s_backend st' = s_backend st" "s_sock st' = s_sock st" "s_portid st' = s_portid st"
    "send_impl st' = send_impl st" "recv_impl st' = recv_impl st" "ipset_blacklist st' = ipset_blacklist st"
    by (subst e, simp)+
  show "length (s_iov st') = length (s_iov st)" "length (s_msgv st') = length (s_msgv st)"
    using assms by (simp_all add: xframe_def)
qed

lemma xframe_trans: "xframe st st1 \<Longrightarrow> xframe st1 st2 \<Longrightarrow> xframe st st2"
proof -
  assume 1: "xframe st st1" and 2: "xframe st1 st2"
  have "st2 = st1\<lparr>s_iov := s_iov st2, s_msgv := s_msgv st2\<rparr>" using 2 by (simp add: xframe_def)
  also have "\<dots> = st\<lparr>s_iov := s_iov st2, s_msgv := s_msgv st2\<rparr>"
    using 1 by (cases st; cases st1) (simp add: xframe_def)
  finally show ?thesis using 1 2 by (simp add: xframe_def)
qed

lemma set_iov_step:
  assumes "i < length (s_iov st)"
  shows "\<exists>st'. set_iov i a off len st = Some st' \<and> xframe st st' \<and> s_msgv st' = s_msgv st
    \<and> get_iov st' i = Some (a, off, len) \<and> (\<forall>j. j \<noteq> i \<longrightarrow> get_iov st' j = get_iov st j)"
  using assms by (simp add: set_iov_def xframe_def get_iov_def)

lemma set_MSGHDR_step:
  assumes "i < length (s_msgv st)"
  shows "\<exists>st'. set_MSGHDR i f n st = Some st' \<and> xframe st st' \<and> s_iov st' = s_iov st
    \<and> get_msg st' i = Some (f, n) \<and> (\<forall>j. j \<noteq> i \<longrightarrow> get_msg st' j = get_msg st j)"
  using assms by (simp add: set_MSGHDR_def xframe_def get_msg_def)

lemma get_iov_eq: "s_iov st' = s_iov st \<Longrightarrow> get_iov st' i = get_iov st i"
  by (simp add: get_iov_def)

lemma get_msg_eq: "s_msgv st' = s_msgv st \<Longrightarrow> get_msg st' i = get_msg st i"
  by (simp add: get_msg_def)

lemma area_bytes_xframe: "xframe st st' \<Longrightarrow> area_bytes env st' a = area_bytes env st a"
  by (simp add: area_bytes_def xframeD split: area.splits)

lemma iov_bytes_eq: "xframe st st' \<Longrightarrow> get_iov st' i = get_iov st i \<Longrightarrow> iov_bytes env st' i = iov_bytes env st i"
  by (simp add: iov_bytes_def area_bytes_xframe cong: option.case_cong)

lemma iov_bytes_get:
  "get_iov st i = Some (a, off, len) \<Longrightarrow> area_bytes env st a = Some m \<Longrightarrow> slice_at m off len = Some b \<Longrightarrow> iov_bytes env st i = Some b"
  by (simp add: iov_bytes_def)

lemma those_map_Some: "(\<And>x. x \<in> set xs \<Longrightarrow> f x = Some (g x)) \<Longrightarrow> those (map f xs) = Some (map g xs)"
  by (induction xs) auto

lemma those_map_nth: "n = length ys \<Longrightarrow> (\<And>i. i < n \<Longrightarrow> f i = Some (ys ! i)) \<Longrightarrow> those (map f [0 ..< n]) = Some ys"
proof -
  assume "n = length ys" "\<And>i. i < n \<Longrightarrow> f i = Some (ys ! i)"
  then have "those (map f [0 ..< n]) = Some (map (nth ys) [0 ..< n])" by (intro those_map_Some) auto
  then show ?thesis using \<open>n = length ys\<close> by (simp add: map_nth)
qed

section \<open>send_req\<close>

lemma send_req_eq:
  assumes q: "n = length ms" "\<And>i. i < n \<Longrightarrow> msg_bytes env st i = Some (ms ! i)" and n: "0 < n" "n \<le> MSG_N"
    and live: "interrupts_end (net st)"
  shows "\<exists>r k. sendall (SENDMMSG (send_impl st)) ms (net st) = Some (r, k) \<and> send_req env n st = Some (r, st\<lparr>net := k\<rparr>)
    \<and> same_oracles (net st) k \<and> (r = -1 \<or> 0 < r) \<and> r \<le> int n \<and> k_sent k = k_sent (net st) @ take (nat r) ms"
proof -
  have "ms \<noteq> []" using q n by auto
  from send.sendall_spec [OF live this, of "send_impl st"]
  obtain r k where r: "sendall (SENDMMSG (send_impl st)) ms (net st) = Some (r, k)" "same_oracles (net st) k"
    "r \<noteq> 0" "-1 \<le> r" "r \<le> int (length ms)" "k_sent k = k_sent (net st) @ take (nat r) ms" by blast
  have "send_req env n st = Some (r, st\<lparr>net := k\<rparr>)"
    using n r(1,3) those_map_nth [OF q] by (simp add: send_req_def)
  moreover have "r = -1 \<or> 0 < r" using r(3,4) by linarith
  ultimately show ?thesis using r q(1) by (intro exI [of _ r] exI [of _ k]) simp
qed

section \<open>recv_res\<close>

definition recv_slots :: "ipset_state \<Rightarrow> nat \<Rightarrow> bool" where
  "recv_slots st n \<longleftrightarrow> (\<forall>i < n. get_msg st i = Some (i, 1) \<and> get_iov st i = Some (ResBuf, NLMSGERR_SPACE * i, NLMSGERR_SPACE))"

lemma recv_slots_cong: "s_iov st' = s_iov st \<Longrightarrow> s_msgv st' = s_msgv st \<Longrightarrow> recv_slots st' n = recv_slots st n"
  by (simp only: recv_slots_def get_msg_def get_iov_def)

lemma NLMSGERR_SPACE_eq: "NLMSGERR_SPACE = 36"
  by (simp add: NLMSGERR_SPACE_def align4_def NLMSG_HDRLEN_def)

lemma init_nlerr_msgv_loop_spec:
  assumes "\<forall>i \<in> set xs. i < length (s_iov st) \<and> i < length (s_msgv st)"
  shows "\<exists>st'. init_nlerr_msgv_loop xs st = Some st' \<and> xframe st st'
    \<and> (\<forall>i. get_msg st' i = (if i \<in> set xs then Some (i, 1) else get_msg st i))
    \<and> (\<forall>i. get_iov st' i = (if i \<in> set xs then Some (ResBuf, NLMSGERR_SPACE * i, NLMSGERR_SPACE) else get_iov st i))"
  using assms
proof (induction xs arbitrary: st)
  case (Cons x xs)
  from Cons.prems have x: "x < length (s_iov st)" "x < length (s_msgv st)" by auto
  from set_iov_step [OF x(1), of ResBuf "NLMSGERR_SPACE * x" NLMSGERR_SPACE]
  obtain st1 where st1: "set_iov x ResBuf (NLMSGERR_SPACE * x) NLMSGERR_SPACE st = Some st1" "xframe st st1" "s_msgv st1 = s_msgv st"
    "get_iov st1 x = Some (ResBuf, NLMSGERR_SPACE * x, NLMSGERR_SPACE)" "\<forall>j. j \<noteq> x \<longrightarrow> get_iov st1 j = get_iov st j" by blast
  have "x < length (s_msgv st1)" using x(2) st1(3) by simp
  from set_MSGHDR_step [OF this, of x 1]
  obtain st2 where st2: "set_MSGHDR x x 1 st1 = Some st2" "xframe st1 st2" "s_iov st2 = s_iov st1"
    "get_msg st2 x = Some (x, 1)" "\<forall>j. j \<noteq> x \<longrightarrow> get_msg st2 j = get_msg st1 j" by blast
  have fr: "xframe st st2" using st1(2) st2(2) by (rule xframe_trans)
  have "\<forall>i \<in> set xs. i < length (s_iov st2) \<and> i < length (s_msgv st2)"
    using Cons.prems xframeD(1,2) [OF fr] by simp
  from Cons.IH [OF this] obtain st' where st': "init_nlerr_msgv_loop xs st2 = Some st'" "xframe st2 st'"
    "\<forall>i. get_msg st' i = (if i \<in> set xs then Some (i, 1) else get_msg st2 i)"
    "\<forall>i. get_iov st' i = (if i \<in> set xs then Some (ResBuf, NLMSGERR_SPACE * i, NLMSGERR_SPACE) else get_iov st2 i)" by blast
  have "get_iov st2 i = get_iov st1 i" "get_msg st1 i = get_msg st i" for i
    using get_iov_eq [OF st2(3)] get_msg_eq [OF st1(3)] by auto
  then have "get_msg st' i = (if i \<in> set (x # xs) then Some (i, 1) else get_msg st i)"
    "get_iov st' i = (if i \<in> set (x # xs) then Some (ResBuf, NLMSGERR_SPACE * i, NLMSGERR_SPACE) else get_iov st i)" for i
    using st'(3,4) st1(4,5) st2(4,5) by auto
  moreover have "init_nlerr_msgv_loop (x # xs) st = Some st'" using st1(1) st2(1) st'(1) by simp
  ultimately show ?case using xframe_trans [OF fr st'(2)] by blast
qed simp

lemma init_nlerr_msgv_spec:
  assumes "0 < n" "n \<le> MSG_N" "length (s_iov st) = IOV_N" "length (s_msgv st) = MSG_N"
  shows "\<exists>st'. init_nlerr_msgv n st = Some st' \<and> xframe st st' \<and> recv_slots st' n"
proof -
  have "\<forall>i \<in> set [0 ..< n]. i < length (s_iov st) \<and> i < length (s_msgv st)"
    using assms by (auto simp: IOV_N_def MSG_N_def IP_N_def)
  from init_nlerr_msgv_loop_spec [OF this] show ?thesis
    using assms(1,2) by (auto simp: init_nlerr_msgv_def recv_slots_def)
qed

lemma store_msgs_spec:
  assumes "recv_slots st n" "i + length ms \<le> n" "n \<le> MSG_N" "length (s_buf_res st) = BUFSZ_RES"
    "\<forall>m \<in> set ms. length m \<le> NLMSGERR_SPACE"
  shows "\<exists>b. store_msgs i ms st = Some (st\<lparr>s_buf_res := b\<rparr>) \<and> length b = BUFSZ_RES
    \<and> take (NLMSGERR_SPACE * i) b = take (NLMSGERR_SPACE * i) (s_buf_res st)
    \<and> (\<forall>j < length ms. take (length (ms ! j)) (drop (NLMSGERR_SPACE * (i + j)) b) = ms ! j)"
  using assms
proof (induction ms arbitrary: i st)
  case Nil
  then show ?case by (intro exI [of _ "s_buf_res st"]) simp
next
  case (Cons m ms)
  have m: "length m \<le> NLMSGERR_SPACE" and i: "i < n" using Cons.prems by auto
  have room: "NLMSGERR_SPACE * i + length m \<le> length (s_buf_res st)"
  proof -
    have "NLMSGERR_SPACE * (i + 1) \<le> NLMSGERR_SPACE * MSG_N" using i Cons.prems(3) by (intro mult_le_mono2) simp
    then show ?thesis using m Cons.prems(4) by (simp add: BUFSZ_RES_def MSG_N_def)
  qed
  define b1 where "b1 = take (NLMSGERR_SPACE * i) (s_buf_res st) @ m @ drop (NLMSGERR_SPACE * i + length m) (s_buf_res st)"
  have put: "put (s_buf_res st) (NLMSGERR_SPACE * i) m = Some b1" using room by (simp add: put_def b1_def)
  have len1: "length b1 = BUFSZ_RES" using put_length [OF put] Cons.prems(4) by simp
  let ?st1 = "st\<lparr>s_buf_res := b1\<rparr>"
  have "recv_slots ?st1 n" using Cons.prems(1) recv_slots_cong [of ?st1 st n] by simp
  from Cons.IH [OF this, of "i + 1"] Cons.prems len1
  obtain b where b: "store_msgs (i + 1) ms ?st1 = Some (?st1\<lparr>s_buf_res := b\<rparr>)" "length b = BUFSZ_RES"
    "take (NLMSGERR_SPACE * (i + 1)) b = take (NLMSGERR_SPACE * (i + 1)) b1"
    "\<forall>j < length ms. take (length (ms ! j)) (drop (NLMSGERR_SPACE * (i + 1 + j)) b) = ms ! j"
    by auto
  have cut: "take (NLMSGERR_SPACE * i) b = take (NLMSGERR_SPACE * i) b1"
  proof -
    have "take (NLMSGERR_SPACE * i) (take (NLMSGERR_SPACE * (i + 1)) b) = take (NLMSGERR_SPACE * i) (take (NLMSGERR_SPACE * (i + 1)) b1)"
      using b(3) by simp
    then show ?thesis by simp
  qed
  have first: "take (length m) (drop (NLMSGERR_SPACE * i) b) = m"
  proof -
    have "take (length m) (drop (NLMSGERR_SPACE * i) (take (NLMSGERR_SPACE * (i + 1)) b))
        = take (length m) (drop (NLMSGERR_SPACE * i) (take (NLMSGERR_SPACE * (i + 1)) b1))"
      using b(3) by simp
    then have "take (length m) (drop (NLMSGERR_SPACE * i) b) = take (length m) (drop (NLMSGERR_SPACE * i) b1)"
      using m by (simp add: drop_take NLMSGERR_SPACE_eq)
    then show ?thesis using room by (simp add: b1_def)
  qed
  have "take (length ((m # ms) ! j)) (drop (NLMSGERR_SPACE * (i + j)) b) = (m # ms) ! j" if "j < length (m # ms)" for j
    using that first b(4) by (cases j) (auto simp del: mult_Suc_right)
  moreover have "take (NLMSGERR_SPACE * i) b = take (NLMSGERR_SPACE * i) (s_buf_res st)"
    using cut room by (simp add: b1_def)
  moreover have "store_msgs i (m # ms) st = Some (st\<lparr>s_buf_res := b\<rparr>)"
    using Cons.prems(1) i put b(1) by (simp add: recv_slots_def)
  ultimately show ?case using b(2) by blast
qed

lemma recv_res_spec:
  assumes slots: "recv_slots st n" and n: "0 < n" "n \<le> MSG_N" and buf: "length (s_buf_res st) = BUFSZ_RES"
    and call: "RECVMMSG (recv_impl st) (replicate n NLMSGERR_SPACE) MSG_DONTWAIT (net st) = (re, ms, k)"
  shows "\<exists>r b. recv_res n st = Some (r, st\<lparr>net := k, s_buf_res := b\<rparr>) \<and> (if ms = [] then r \<le> 0 else r = int (length ms))
    \<and> length ms \<le> n \<and> length b = BUFSZ_RES
    \<and> (\<forall>j < length ms. take (length (ms ! j)) (drop (NLMSGERR_SPACE * j) b) = ms ! j)"
proof -
  have ne: "replicate n NLMSGERR_SPACE \<noteq> []" using n by simp
  from RECVMMSG_spec [OF ne, of "recv_impl st" MSG_DONTWAIT "net st"] call
  obtain e where re: "re = (if ms = [] then -1 else int (length ms), e)" and len: "length ms \<le> n"
    and each: "\<forall>j < length ms. \<exists>n' fl m. k_recv (net st) (k_sent (net st)) n' fl = Inr m \<and> ms ! j = take (replicate n NLMSGERR_SPACE ! j) m"
    by auto
  have "length m \<le> NLMSGERR_SPACE" if "m \<in> set ms" for m
  proof -
    obtain j where j: "j < length ms" "m = ms ! j" using \<open>m \<in> set ms\<close> by (auto simp: in_set_conv_nth)
    then obtain m' where "m = take (replicate n NLMSGERR_SPACE ! j) m'" using each by blast
    then show ?thesis using j len by simp
  qed
  then have small: "\<forall>m \<in> set ms. length m \<le> NLMSGERR_SPACE" by blast
  have "recv_slots (st\<lparr>net := k\<rparr>) n" using slots recv_slots_cong [of "st\<lparr>net := k\<rparr>" st n] by simp
  from store_msgs_spec [OF this, of 0 ms] len n(2) buf small
  obtain b where b: "store_msgs 0 ms (st\<lparr>net := k\<rparr>) = Some (st\<lparr>net := k, s_buf_res := b\<rparr>)" "length b = BUFSZ_RES"
    "\<forall>j < length ms. take (length (ms ! j)) (drop (NLMSGERR_SPACE * j) b) = ms ! j"
    by auto
  have room: "msg_room st i = Some (replicate n NLMSGERR_SPACE ! i)" if "i < n" for i
  proof -
    have "NLMSGERR_SPACE * (i + 1) \<le> NLMSGERR_SPACE * MSG_N" using that n(2) by (intro mult_le_mono2) simp
    then have "NLMSGERR_SPACE * i + NLMSGERR_SPACE \<le> length (s_buf_res st)" using buf by (simp add: BUFSZ_RES_def MSG_N_def)
    then show ?thesis using slots that by (simp add: msg_room_def recv_slots_def)
  qed
  have rooms: "those (map (msg_room st) [0 ..< n]) = Some (replicate n NLMSGERR_SPACE)"
    using room by (intro those_map_nth) simp_all
  define r where "r = (if fst re < 0 \<and> e = EAGAIN then 0 else fst re)"
  have nz: "fst re \<noteq> 0" using re by simp
  have "recv_res n st = Some (r, st\<lparr>net := k, s_buf_res := b\<rparr>)"
    using n rooms call b(1) nz re by (simp add: recv_res_def r_def)
  moreover have "if ms = [] then r \<le> 0 else r = int (length ms)" using re by (simp add: r_def)
  ultimately show ?thesis using len b(2,3) by blast
qed

section \<open>Responses\<close>

definition NEWSETELEM :: u16 where
  "NEWSETELEM = or (push_bit 8 NFNL_SUBSYS_NFTABLES) NFT_MSG_NEWSETELEM"

definition is_error :: "bool \<Rightarrow> bytes \<Rightarrow> bool" where
  "is_error be m \<longleftrightarrow> 20 \<le> length m \<and> nlmsg_type be m = Some NLMSG_ERROR"

definition reply_ok :: "bool \<Rightarrow> bool \<Rightarrow> bytes \<Rightarrow> bool" where
  "reply_ok be is_ipset m \<longleftrightarrow> is_error be m \<or> \<not> is_ipset \<and> 20 \<le> length m \<and> nlmsg_type be m = Some NEWSETELEM"

text \<open>Whether a response says that the address is in the set.\<close>

definition present :: "bool \<Rightarrow> bool \<Rightarrow> bytes \<Rightarrow> bool" where
  "present be is_ipset m = (if is_ipset then nlmsg_errcode be m = Some 0 else nlmsg_type be m = Some NEWSETELEM)"

lemma rdh_prefix:
  assumes "take (length m) x = m"
  shows "i + 2 \<le> length m \<Longrightarrow> rdh16 be x i = rdh16 be m i" "i + 4 \<le> length m \<Longrightarrow> rdh32 be x i = rdh32 be m i"
proof -
  obtain y where x: "x = m @ y" using assms by (metis append_take_drop_id)
  show "i + 2 \<le> length m \<Longrightarrow> rdh16 be x i = rdh16 be m i" "i + 4 \<le> length m \<Longrightarrow> rdh32 be x i = rdh32 be m i"
    by (simp_all add: x rdh16_def rdh32_def slice_at_def)
qed

lemma response_prefix:
  assumes "take (length m) x = m" "20 \<le> length m"
  shows "nlmsg_type be x = nlmsg_type be m" "nlmsg_errcode be x = nlmsg_errcode be m"
    "present be is x = present be is m" "test_res_ipset be x = test_res_ipset be m" "test_res_nftset be x = test_res_nftset be m"
proof -
  show 1: "nlmsg_type be x = nlmsg_type be m"
    using rdh_prefix(1) [OF assms(1)] assms(2) by (simp add: nlmsg_type_def)
  show 2: "nlmsg_errcode be x = nlmsg_errcode be m"
    using rdh_prefix(2) [OF assms(1), of 16] assms(2) by (simp add: nlmsg_errcode_def 1 nlmsg_data_def NLMSG_HDRLEN_def)
  show "present be is x = present be is m" "test_res_ipset be x = test_res_ipset be m" "test_res_nftset be x = test_res_nftset be m"
    by (simp_all only: present_def test_res_ipset_def test_res_nftset_def 1 2)
qed

lemma errcode_total: "is_error be m \<Longrightarrow> \<exists>e. nlmsg_errcode be m = Some e"
  by (simp add: is_error_def nlmsg_errcode_def rdh32_def slice_at_def nlmsg_data_def NLMSG_HDRLEN_def)

lemma test_res_present:
  assumes "reply_ok be is m" "s_backend st = Some is"
  shows "test_res be st m = Some (present be is m)"
proof (cases "is")
  case True
  then have "is_error be m" using assms(1) by (simp add: reply_ok_def)
  then show ?thesis using errcode_total assms(2) True by (fastforce simp: test_res_def test_res_ipset_def present_def)
next
  case False
  then consider "nlmsg_type be m = Some NEWSETELEM" | "is_error be m" using assms(1) by (auto simp: reply_ok_def)
  then show ?thesis
  proof cases
    case 1
    then show ?thesis using assms(2) False
      by (simp add: test_res_def test_res_nftset_def present_def NEWSETELEM_def)
  next
    case 2
    have "NLMSG_ERROR \<noteq> NEWSETELEM"
      by (simp add: NLMSG_ERROR_def NEWSETELEM_def NFNL_SUBSYS_NFTABLES_def NFT_MSG_NEWSETELEM_def)
    then show ?thesis using 2 errcode_total [OF 2] assms(2) False
      by (auto simp: test_res_def test_res_nftset_def present_def is_error_def NEWSETELEM_def)
  qed
qed

lemma reply_take: "reply_ok be is m \<Longrightarrow> 20 \<le> n \<Longrightarrow> reply_ok be is (take n m) \<and> present be is (take n m) = present be is m"
  "is_error be m \<Longrightarrow> 20 \<le> n \<Longrightarrow> is_error be (take n m)"
proof -
  have "reply_ok be is (take n m) \<and> present be is (take n m) = present be is m \<and> (is_error be m \<longrightarrow> is_error be (take n m))"
    if "20 \<le> length m" "20 \<le> n" "reply_ok be is m \<or> is_error be m" for m n "is"
  proof -
    have "20 \<le> length (take n m)" "take (length (take n m)) m = take n m" using that by (auto simp: min_def)
    from response_prefix [OF this(2,1), of be] \<open>20 \<le> length (take n m)\<close> that show ?thesis
      by (auto simp: reply_ok_def is_error_def)
  qed
  then show "reply_ok be is m \<Longrightarrow> 20 \<le> n \<Longrightarrow> reply_ok be is (take n m) \<and> present be is (take n m) = present be is m"
    "is_error be m \<Longrightarrow> 20 \<le> n \<Longrightarrow> is_error be (take n m)"
    by (auto simp: reply_ok_def is_error_def)
qed

end
