(* ===== verification/Ipset_Test.thy ===== *)
theory Ipset_Test
  imports Ipset_Xfer
begin

text \<open>
  \<open>test_ips\<close>: one request per pending address, made of the fixed part of the test message and
  of the address where it stands in the add message, and a bit per address for the answers.
  It is shown to compute the specification \<open>lookup\<close>, which sends a list of requests and reads
  the answers.
\<close>

section \<open>Slices of the add message\<close>

lemma slice_at_append: "i = length pre + j \<Longrightarrow> slice_at (pre @ m) i n = slice_at m j n"
  by (simp add: slice_at_def)

lemma slice_at_prefix: "n = length a \<Longrightarrow> slice_at (a @ b) 0 n = Some a"
  by (simp add: slice_at_def)

lemma elems_split:
  assumes "\<forall>ip \<in> set ips. length ip = iplen v4" "j < length ips"
  shows "\<exists>x y. concat (map (elem be is v4) ips) = x @ elem be is v4 (ips ! j) @ y \<and> length x = j * elemsz is v4"
proof -
  let ?x = "concat (map (elem be is v4) (take j ips))" and ?y = "concat (map (elem be is v4) (drop (Suc j) ips))"
  have "concat (map (elem be is v4) ips) = concat (map (elem be is v4) (take j ips @ ips ! j # drop (Suc j) ips))"
    using assms(2) by (simp add: id_take_nth_drop [symmetric])
  moreover have "length ?x = j * elemsz is v4"
    using assms by (subst length_elems) (auto dest: in_set_takeD)
  ultimately show ?thesis by (intro exI [of _ ?x] exI [of _ ?y]) simp
qed

lemma elems_slice:
  assumes "\<forall>ip \<in> set ips. length ip = iplen v4" "j < length ips"
  shows "slice_at (pre @ concat (map (elem be is v4) ips) @ r) (length pre + 12 + j * elemsz is v4) (iplen v4) = Some (ips ! j)"
    "slice_at (pre @ concat (map (elem be is v4) ips) @ r) (length pre + j * elemsz is v4) (elemsz is v4) = Some (elem be is v4 (ips ! j))"
proof -
  obtain x y where x: "concat (map (elem be is v4) ips) = x @ elem be is v4 (ips ! j) @ y" "length x = j * elemsz is v4"
    using elems_split [OF assms] by blast
  have len: "length (ips ! j) = iplen v4" using assms by simp
  show "slice_at (pre @ concat (map (elem be is v4) ips) @ r) (length pre + 12 + j * elemsz is v4) (iplen v4) = Some (ips ! j)"
    using slice_at_append [of "length pre + 12 + j * elemsz is v4" "pre @ x" 12] elem_slice [OF len] x by simp
  show "slice_at (pre @ concat (map (elem be is v4) ips) @ r) (length pre + j * elemsz is v4) (elemsz is v4) = Some (elem be is v4 (ips ! j))"
    using slice_at_append [of "length pre + j * elemsz is v4" "pre @ x" 0] x length_elem [OF len, of be "is"]
    by (simp add: slice_at_prefix)
qed

text \<open>An add message with pending addresses, split where the elements begin.\<close>

lemma add_view_split:
  assumes "add_view be is v4 f L ips m" "\<forall>ip \<in> set ips. length ip = iplen v4"
  shows "\<exists>pre fr. m = pre @ concat (map (elem be is v4) ips) @ fr \<and> length pre = 24 + length (a_pre f)
    \<and> unat (baselen_of f) = length pre
    \<and> pre = host32 be (word_of_nat (24 + length (a_pre f) + length ips * elemsz is v4)) @ a_head f @ a_pre f
        @ host16 be L @ host16 be (list_type is)
    \<and> length (a_head f) = 16 \<and> 24 + length (a_pre f) + length ips * elemsz is v4 + length fr < 65536"
proof -
  obtain fr where fr: "nlview be m (a_head f) (add_payload be is v4 f L ips) fr"
    using assms(1) by (auto simp: add_view_def)
  have len: "length (add_payload be is v4 f L ips) = 4 + length (a_pre f) + length ips * elemsz is v4"
    using length_elems [OF assms(2), of be "is"] by (simp add: add_payload_def)
  let ?pre = "host32 be (word_of_nat (24 + length (a_pre f) + length ips * elemsz is v4)) @ a_head f @ a_pre f
        @ host16 be L @ host16 be (list_type is)"
  have h: "length (a_head f) = 16" and small: "20 + length (add_payload be is v4 f L ips) + length fr < 65536"
    using fr by (auto simp: nlview_def)
  have m: "m = host32 be (word_of_nat (20 + length (add_payload be is v4 f L ips))) @ a_head f @ add_payload be is v4 f L ips @ fr"
    using fr by (simp add: nlview_def)
  have "m = ?pre @ concat (map (elem be is v4) ips) @ fr"
    unfolding m len by (simp add: add_payload_def add.commute add.left_commute)
  moreover have "unat (baselen_of f) = length ?pre"
  proof -
    have "24 + length (a_pre f) < 2 ^ 32" using small len by simp
    then have "unat (baselen_of f) = 24 + length (a_pre f)"
      by (simp only: baselen_of_def unat_of_nat) (simp add: take_bit_nat_eq_self)
    then show ?thesis using h by simp
  qed
  ultimately show ?thesis
    using h small len by (intro exI [of _ ?pre] exI [of _ fr]) simp
qed

section \<open>Queueing the requests\<close>

definition queued :: "env \<Rightarrow> ipset_state \<Rightarrow> bytes list \<Rightarrow> bool" where
  "queued env st ms \<longleftrightarrow> (\<forall>i < length ms. get_msg st i = Some (i * 2, 2)
     \<and> (\<exists>a b. iov_bytes env st (i * 2) = Some a \<and> iov_bytes env st (i * 2 + 1) = Some b \<and> a @ b = ms ! i))"

lemma queued_Nil [simp]: "queued env st []"
  by (simp add: queued_def)

lemma queued_msg_bytes: "queued env st ms \<Longrightarrow> i < length ms \<Longrightarrow> msg_bytes env st i = Some (ms ! i)"
  by (auto simp: queued_def msg_bytes_def numeral_2_eq_2)

lemma queued_step:
  assumes q: "queued env st ms" and n: "length ms < MSG_N" and len: "length (s_iov st) = IOV_N" "length (s_msgv st) = MSG_N"
    and t: "env (TestMsg v4) = Some tm" "slice_at tm 0 len0 = Some a"
    and m: "env (AddMsg v4) = Some am" "slice_at am p (iplen v4) = Some b"
  shows "\<exists>st1 st2 st3. set_iov (length ms * 2) (TestMsg v4) 0 len0 st = Some st1
    \<and> set_iov (length ms * 2 + 1) (AddMsg v4) p (iplen v4) st1 = Some st2
    \<and> set_MSGHDR (length ms) (length ms * 2) 2 st2 = Some st3 \<and> xframe st st3 \<and> queued env st3 (ms @ [a @ b])"
proof -
  let ?n = "length ms"
  have i: "?n * 2 < length (s_iov st)" "?n * 2 + 1 < length (s_iov st)"
    using n len by (auto simp: IOV_N_def MSG_N_def IP_N_def)
  from set_iov_step [OF i(1), of "TestMsg v4" 0 len0] obtain st1 where st1: "set_iov (?n * 2) (TestMsg v4) 0 len0 st = Some st1"
    "xframe st st1" "s_msgv st1 = s_msgv st" "get_iov st1 (?n * 2) = Some (TestMsg v4, 0, len0)"
    "\<forall>j. j \<noteq> ?n * 2 \<longrightarrow> get_iov st1 j = get_iov st j" by blast
  have "?n * 2 + 1 < length (s_iov st1)" using i xframeD(1) [OF st1(2)] by simp
  from set_iov_step [OF this, of "AddMsg v4" p "iplen v4"]
  obtain st2 where st2: "set_iov (?n * 2 + 1) (AddMsg v4) p (iplen v4) st1 = Some st2"
    "xframe st1 st2" "s_msgv st2 = s_msgv st1" "get_iov st2 (?n * 2 + 1) = Some (AddMsg v4, p, iplen v4)"
    "\<forall>j. j \<noteq> ?n * 2 + 1 \<longrightarrow> get_iov st2 j = get_iov st1 j" by blast
  have "?n < length (s_msgv st2)" using n len st1(3) st2(3) by simp
  from set_MSGHDR_step [OF this, of "?n * 2" 2]
  obtain st3 where st3: "set_MSGHDR ?n (?n * 2) 2 st2 = Some st3" "xframe st2 st3" "s_iov st3 = s_iov st2"
    "get_msg st3 ?n = Some (?n * 2, 2)" "\<forall>j. j \<noteq> ?n \<longrightarrow> get_msg st3 j = get_msg st2 j" by blast
  have fr: "xframe st st3" using st1(2) st2(2) st3(2) xframe_trans by blast
  have iov: "get_iov st3 (?n * 2) = Some (TestMsg v4, 0, len0)" "get_iov st3 (?n * 2 + 1) = Some (AddMsg v4, p, iplen v4)"
    "j < ?n * 2 \<Longrightarrow> get_iov st3 j = get_iov st j" for j
    using st1(4,5) st2(4,5) get_iov_eq [OF st3(3)] by auto
  have msg: "j < ?n \<Longrightarrow> get_msg st3 j = get_msg st j" for j
    using st3(5) get_msg_eq [OF st2(3)] get_msg_eq [OF st1(3)] by auto
  have old: "iov_bytes env st3 j = iov_bytes env st j" if "j < ?n * 2" for j
    using iov_bytes_eq [OF fr iov(3) [OF that]] .
  have new: "iov_bytes env st3 (?n * 2) = Some a" "iov_bytes env st3 (?n * 2 + 1) = Some b"
    using iov_bytes_get [OF iov(1)] iov_bytes_get [OF iov(2)] t m by (simp_all add: area_bytes_def)
  have "queued env st3 (ms @ [a @ b])"
    unfolding queued_def
  proof (intro allI impI)
    fix i assume "i < length (ms @ [a @ b])"
    then consider "i < ?n" | "i = ?n" by fastforce
    then show "get_msg st3 i = Some (i * 2, 2) \<and> (\<exists>x y. iov_bytes env st3 (i * 2) = Some x
        \<and> iov_bytes env st3 (i * 2 + 1) = Some y \<and> x @ y = (ms @ [a @ b]) ! i)"
    proof cases
      case 1
      then have "iov_bytes env st3 (i * 2) = iov_bytes env st (i * 2)" "iov_bytes env st3 (i * 2 + 1) = iov_bytes env st (i * 2 + 1)"
        by (auto intro: old)
      then show ?thesis using q 1 msg [OF 1] by (simp add: queued_def nth_append)
    next
      case 2
      then show ?thesis using st3(4) new by simp
    qed
  qed
  then show ?thesis using st1(1) st2(1) st3(1) fr by blast
qed

lemma test_ips_fill_spec:
  assumes "queued env st ms" "length ms + length ips \<le> MSG_N" "length (s_iov st) = IOV_N" "length (s_msgv st) = MSG_N"
    and t: "env (TestMsg v4) = Some tm" "slice_at tm 0 len0 = Some a" and m: "env (AddMsg v4) = Some am"
    and nx: "\<And>p. nx v4 (Some p) = Some (p + sz)"
    and "nx v4 base1 = Some p" "\<forall>j < length ips. slice_at am (p + j * sz) (iplen v4) = Some (ips ! j)"
  shows "\<exists>st'. test_ips_fill nx v4 len0 (length ips) base1 (length ms) st = Some (length ms + length ips, st')
    \<and> xframe st st' \<and> queued env st' (ms @ map (\<lambda>ip. a @ ip) ips)"
  using assms(1-4,9-)
proof (induction ips arbitrary: st ms base1 p)
  case (Cons ip ips)
  have n: "length ms < MSG_N" using Cons.prems(2) by simp
  have s: "slice_at am p (iplen v4) = Some ip" using Cons.prems(6) by force
  from queued_step [OF Cons.prems(1) n Cons.prems(3,4) t m s]
  obtain st1 st2 st3 where st: "set_iov (length ms * 2) (TestMsg v4) 0 len0 st = Some st1"
    "set_iov (length ms * 2 + 1) (AddMsg v4) p (iplen v4) st1 = Some st2"
    "set_MSGHDR (length ms) (length ms * 2) 2 st2 = Some st3" "xframe st st3" "queued env st3 (ms @ [a @ ip])" by blast
  have "\<forall>j < length ips. slice_at am (p + sz + j * sz) (iplen v4) = Some (ips ! j)"
    using Cons.prems(6) by (auto simp: add.assoc)
  then obtain st' where st': "test_ips_fill nx v4 len0 (length ips) (Some p) (length (ms @ [a @ ip])) st3
      = Some (length (ms @ [a @ ip]) + length ips, st')" "xframe st3 st'" "queued env st' ((ms @ [a @ ip]) @ map (\<lambda>ip. a @ ip) ips)"
    using Cons.IH [OF st(5), of "Some p" "p + sz"] Cons.prems(2-4) xframeD(1,2) [OF st(4)] nx by auto
  then show ?case using st(1-3) Cons.prems(5) xframe_trans [OF st(4) st'(2)] by (auto simp: Let_def)
qed simp

section \<open>All pending addresses\<close>

definition queries :: "(bool \<Rightarrow> fam option) \<Rightarrow> (bool \<Rightarrow> bytes list) \<Rightarrow> bool list \<Rightarrow> bytes list" where
  "queries F ips v4s = concat (map (\<lambda>v4. map (\<lambda>ip. q_head (the (F v4)) @ ip) (ips v4)) v4s)"

definition npending :: "(bool \<Rightarrow> bytes list) \<Rightarrow> bool list \<Rightarrow> nat" where
  "npending ips v4s = sum_list (map (\<lambda>v4. length (ips v4)) v4s)"

lemma queries_simps [simp]:
  "queries F ips [] = []"
  "queries F ips (v4 # v4s) = map (\<lambda>ip. q_head (the (F v4)) @ ip) (ips v4) @ queries F ips v4s"
  by (simp_all add: queries_def)

lemma npending_simps [simp]: "npending ips [] = 0" "npending ips (v4 # v4s) = length (ips v4) + npending ips v4s"
  by (simp_all add: npending_def)

lemma length_queries [simp]: "length (queries F ips v4s) = npending ips v4s"
  by (induction v4s) simp_all

text \<open>The test message without its address.\<close>

lemma test_inv_slice:
  assumes "test_inv be v4 q m"
  shows "\<exists>l. nlmsg_len be m = Some l
    \<and> slice_at m 0 (nat ((int (unat l) - int (iplen v4)) mod 2 ^ 64)) = Some q"
proof -
  obtain ip fr where m: "m = q @ ip @ fr" "length ip = iplen v4" "4 \<le> length q"
    "take 4 q = host32 be (word_of_nat (length q + iplen v4))" "length q + iplen v4 < 65536"
    using assms by (auto simp: test_inv_def)
  let ?l = "word_of_nat (length q + iplen v4) :: u32"
  have "nlmsg_len be m = Some ?l"
  proof -
    have "m = host32 be ?l @ drop 4 q @ ip @ fr" using m(1,4) append_take_drop_id [of 4 q] by simp
    then show ?thesis using rdh32_append [of be "[]" ?l] by (simp add: nlmsg_len_def)
  qed
  moreover have "unat ?l = length q + iplen v4"
    using m(5) by (simp only: unat_of_nat) (simp add: take_bit_nat_eq_self)
  moreover have "nat ((int (length q + iplen v4) - int (iplen v4)) mod 2 ^ 64) = length q" using m(5) by simp
  ultimately show ?thesis using m(1) slice_at_prefix [of "length q" q "ip @ fr"]
    by (intro exI [of _ ?l]) (simp only: simp_thms option.inject)
qed

lemma test_ips_families_spec:
  assumes inv: "add_ctx_inv be is F ips ctx" and nx: "\<And>v4 p. nx v4 (Some p) = Some (p + elemsz is v4)"
    "\<And>v4. nx v4 None = map_option (\<lambda>b. unat b + 12) (a_baselen ctx v4)"
    and st: "queued (add_env ctx) st ms" "length ms + npending ips v4s \<le> MSG_N" "length (s_iov st) = IOV_N" "length (s_msgv st) = MSG_N"
  shows "\<exists>st'. test_ips_families be ctx nx v4s (length ms) st = Some (length ms + npending ips v4s, st')
    \<and> xframe st st' \<and> queued (add_env ctx) st' (ms @ queries F ips v4s)"
  using st
proof (induction v4s arbitrary: ms st)
  case (Cons v4 v4s)
  have cnt: "a_ipcnt ctx v4 = length (ips v4)" and ok: "\<forall>ip \<in> set (ips v4). length ip = iplen v4"
    using add_ctx_invD(1,3) [OF inv] by auto
  show ?case
  proof (cases "ips v4 = []")
    case True
    then show ?thesis using Cons cnt by simp
  next
    case False
    then obtain f where f: "F v4 = Some f" using add_ctx_invD(6) [OF inv] by blast
    obtain tm am where tm: "a_test ctx v4 = Some tm" "test_inv be v4 (q_head f) tm"
      and am: "a_msg ctx v4 = Some am" "add_inv be is v4 f (ips v4) am" "a_baselen ctx v4 = Some (baselen_of f)"
      using add_ctx_invD(5) [OF inv f] by blast
    from add_inv_view [OF am(2) False] obtain L where "add_view be is v4 f L (ips v4) am" by blast
    from add_view_split [OF this ok] obtain pre fr where pre: "am = pre @ concat (map (elem be is v4) (ips v4)) @ fr"
      "unat (baselen_of f) = length pre" by blast
    from test_inv_slice [OF tm(2)] obtain l where l: "nlmsg_len be tm = Some l"
      "slice_at tm 0 (nat ((int (unat l) - int (iplen v4)) mod 2 ^ 64)) = Some (q_head f)" by blast
    have env: "add_env ctx (TestMsg v4) = Some tm" "add_env ctx (AddMsg v4) = Some am"
      using tm am by (simp_all add: add_env_def)
    have room: "length ms + length (ips v4) \<le> MSG_N" using Cons.prems(2) by simp
    have start: "nx v4 None = Some (length pre + 12)" using nx(2) am(3) pre(2) by simp
    have sl: "\<forall>j < length (ips v4). slice_at am (length pre + 12 + j * elemsz is v4) (iplen v4) = Some (ips v4 ! j)"
      using elems_slice(1) [OF ok] pre(1) by blast
    from test_ips_fill_spec [where nx = nx and ?v4.0 = v4 and sz = "elemsz is v4" and ips = "ips v4", OF Cons.prems(1) room Cons.prems(3,4) env(1) l(2) env(2) nx(1) start sl]
    obtain st1 where st1: "test_ips_fill nx v4 (nat ((int (unat l) - int (iplen v4)) mod 2 ^ 64)) (length (ips v4)) None (length ms) st
        = Some (length ms + length (ips v4), st1)" "xframe st st1"
      "queued (add_env ctx) st1 (ms @ map (\<lambda>ip. q_head f @ ip) (ips v4))" by blast
    have "length (ms @ map (\<lambda>ip. q_head f @ ip) (ips v4)) + npending ips v4s \<le> MSG_N" using Cons.prems(2) by simp
    from Cons.IH [OF st1(3) this] Cons.prems(3,4) xframeD(1,2) [OF st1(2)]
    obtain st' where "test_ips_families be ctx nx v4s (length ms + length (ips v4)) st1
        = Some (length ms + length (ips v4) + npending ips v4s, st')" "xframe st1 st'"
      "queued (add_env ctx) st' ((ms @ map (\<lambda>ip. q_head f @ ip) (ips v4)) @ queries F ips v4s)" by auto
    then show ?thesis
      using False cnt f tm(1) l(1) st1(1) xframe_trans [OF st1(2)] by (simp add: Let_def add.assoc)
  qed
qed simp

section \<open>Answers\<close>

text \<open>
  The specification: requests are sent, and the answers to those that got through are read, in
  order, a bit per answer.
\<close>

definition lookup :: "bool \<Rightarrow> bool \<Rightarrow> impl \<Rightarrow> impl \<Rightarrow> bytes list \<Rightarrow> kernel \<Rightarrow> (bool list \<times> kernel) option" where
  "lookup be is_ipset recv send reqs k = do {
     (r, k) \<leftarrow> sendall (SENDMMSG send) reqs k;
     if r < 0 then Some ([], k)
     else (case RECVMMSG recv (replicate (nat r) NLMSGERR_SPACE) MSG_DONTWAIT k of
             (_, ms, k) \<Rightarrow> Some (map (present be is_ipset) ms, k)) }"

definition hit :: "bool list \<Rightarrow> nat \<Rightarrow> bool" where
  "hit bs i \<longleftrightarrow> i < length bs \<and> bs ! i"

text \<open>
  What the code relies on from the kernel: signals do not interrupt it forever; a response is
  the header of an error or acknowledgement with its code, or, when nft was asked for an
  element, that element.
\<close>

definition GETSETELEM :: u16 where
  "GETSETELEM = or (push_bit 8 NFNL_SUBSYS_NFTABLES) NFT_MSG_GETSETELEM"

definition kernel_ok :: "bool \<Rightarrow> bool \<Rightarrow> kernel \<Rightarrow> bool" where
  "kernel_ok be is_ipset k \<longleftrightarrow> interrupts_end k
     \<and> (\<forall>sent n fl m. k_recv k sent n fl = Inr m \<longrightarrow> is_error be m
          \<or> \<not> is_ipset \<and> 20 \<le> length m \<and> nlmsg_type be m = Some NEWSETELEM
            \<and> sent \<noteq> [] \<and> nlmsg_type be (last sent) = Some GETSETELEM)"

lemma kernel_ok_cong: "k_send k' = k_send k \<Longrightarrow> k_recv k' = k_recv k \<Longrightarrow> kernel_ok be is k' = kernel_ok be is k"
  by (simp add: kernel_ok_def interrupts_end_def)

lemma kernel_ok_reply: "kernel_ok be is k \<Longrightarrow> k_recv k sent n fl = Inr m \<Longrightarrow> reply_ok be is m"
  by (fastforce simp: kernel_ok_def reply_ok_def)

lemma test_ips_save_spec:
  assumes "\<forall>i \<in> set xs. i < 8 * length exists \<and> (\<exists>m. res_at st i = Some m \<and> test_res be st m = Some (pb i))"
  shows "\<exists>e'. test_ips_save be xs exists st = Some e' \<and> length e' = length exists
    \<and> (\<forall>j < 8 * length exists. bitvec_get e' j = (if j \<in> set xs \<and> pb j then Some True else bitvec_get exists j))"
  using assms
proof (induction xs arbitrary: "exists")
  case (Cons x xs)
  obtain m where m: "res_at st x = Some m" "test_res be st m = Some (pb x)" and x: "x < 8 * length exists"
    using Cons.prems by auto
  obtain e1 where e1: "(if pb x then bitvec_set1 exists x else Some exists) = Some e1" "length e1 = length exists"
    "\<forall>j < 8 * length exists. bitvec_get e1 j = (if j = x \<and> pb x then Some True else bitvec_get exists j)"
    using bitvec_set1_get [OF x] by (cases "pb x") auto
  have "\<forall>i \<in> set xs. i < 8 * length e1 \<and> (\<exists>m. res_at st i = Some m \<and> test_res be st m = Some (pb i))"
    using Cons.prems e1(2) by simp
  from Cons.IH [OF this] obtain e' where "test_ips_save be xs e1 st = Some e'" "length e' = length exists"
    "\<forall>j < 8 * length exists. bitvec_get e' j = (if j \<in> set xs \<and> pb j then Some True else bitvec_get e1 j)"
    using e1(2) by auto
  then show ?case using m e1 by (intro exI [of _ e']) auto
qed simp

section \<open>test_ips\<close>

definition sframe :: "ipset_state \<Rightarrow> ipset_state \<Rightarrow> bool" where
  "sframe st st' \<longleftrightarrow> st' = st\<lparr>s_iov := s_iov st', s_msgv := s_msgv st', s_buf_res := s_buf_res st', net := net st'\<rparr>
     \<and> length (s_iov st') = length (s_iov st) \<and> length (s_msgv st') = length (s_msgv st)
     \<and> length (s_buf_res st') = length (s_buf_res st)
     \<and> k_send (net st') = k_send (net st) \<and> k_recv (net st') = k_recv (net st)"

lemma sframe_refl [simp]: "sframe st st"
  by (simp add: sframe_def)

lemma sframe_trans: "sframe st st1 \<Longrightarrow> sframe st1 st2 \<Longrightarrow> sframe st st2"
proof -
  assume 1: "sframe st st1" and 2: "sframe st1 st2"
  have "st2 = st1\<lparr>s_iov := s_iov st2, s_msgv := s_msgv st2, s_buf_res := s_buf_res st2, net := net st2\<rparr>"
    using 2 by (simp add: sframe_def)
  also have "\<dots> = st\<lparr>s_iov := s_iov st2, s_msgv := s_msgv st2, s_buf_res := s_buf_res st2, net := net st2\<rparr>"
    using 1 by (cases st; cases st1) (simp add: sframe_def)
  finally show ?thesis using 1 2 by (simp add: sframe_def)
qed

lemma xframe_sframe: "xframe st st' \<Longrightarrow> sframe st st'"
proof -
  assume x: "xframe st st'"
  have "st' = st\<lparr>s_iov := s_iov st', s_msgv := s_msgv st'\<rparr>" using x by (simp add: xframe_def)
  also have "\<dots> = st\<lparr>s_iov := s_iov st', s_msgv := s_msgv st', s_buf_res := s_buf_res st', net := net st'\<rparr>"
    using xframeD(3,6) [OF x] by simp
  finally show ?thesis using xframeD(1-3,6) [OF x] by (simp add: sframe_def)
qed

lemma sframeD:
  assumes "sframe st st'"
  shows "s_batch_begin st' = s_batch_begin st" "s_batch_end st' = s_batch_end st" "s_backend st' = s_backend st"
    "s_sock st' = s_sock st" "s_portid st' = s_portid st" "send_impl st' = send_impl st" "recv_impl st' = recv_impl st"
    "ipset_blacklist st' = ipset_blacklist st"
    "length (s_iov st') = length (s_iov st)" "length (s_msgv st') = length (s_msgv st)"
    "length (s_buf_res st') = length (s_buf_res st)"
proof -
  have e: "st' = st\<lparr>s_iov := s_iov st', s_msgv := s_msgv st', s_buf_res := s_buf_res st', net := net st'\<rparr>"
    using assms by (simp add: sframe_def)
  show "s_batch_begin st' = s_batch_begin st" "s_batch_end st' = s_batch_end st" "s_backend st' = s_backend st"
    "s_sock st' = s_sock st" "s_portid st' = s_portid st" "send_impl st' = send_impl st" "recv_impl st' = recv_impl st"
    "ipset_blacklist st' = ipset_blacklist st"
    by (subst e, simp)+
  show "length (s_iov st') = length (s_iov st)" "length (s_msgv st') = length (s_msgv st)"
    "length (s_buf_res st') = length (s_buf_res st)" using assms by (simp_all add: sframe_def)
qed

lemma sframe_ready: "sframe st st' \<Longrightarrow> st_ready be is st \<Longrightarrow> st_ready be is st'"
  by (simp add: st_ready_def sframeD)

lemma sframe_kernel_ok: "sframe st st' \<Longrightarrow> kernel_ok be is (net st) \<Longrightarrow> kernel_ok be is (net st')"
  using kernel_ok_cong [of "net st'" "net st"] by (simp add: sframe_def)

lemma bits_zero: "j < 24 \<Longrightarrow> bitvec_get (replicate (bitvec_n (IP_N * 2)) 0) j = Some False"
  by (simp add: bitvec_zero_get bitvec_n_def IP_N_def)

text \<open>Receiving the answers to the requests that were sent.\<close>

lemma test_ips_answers:
  assumes ready: "st_ready be is st" and ok: "kernel_ok be is (net st)" and n: "0 < n" "n \<le> MSG_N"
  defines "exists \<equiv> replicate (bitvec_n (IP_N * 2)) 0"
  shows "\<exists>x ms k e' st'. RECVMMSG (recv_impl st) (replicate n NLMSGERR_SPACE) MSG_DONTWAIT (net st) = (x, ms, k)
    \<and> do {
        st \<leftarrow> init_nlerr_msgv n st;
        (r, st) \<leftarrow> recv_res n st;
        if r \<le> 0 then Some (exists, st)
        else do {
          exists \<leftarrow> test_ips_save be [0 ..< nat r] exists st;
          Some (exists, st) } } = Some (e', st')
    \<and> (\<forall>j < 24. bitvec_get e' j = Some (hit (map (present be is) ms) j)) \<and> sframe st st' \<and> net st' = k"
proof -
  from ready have len: "length (s_iov st) = IOV_N" "length (s_msgv st) = MSG_N" "length (s_buf_res st) = BUFSZ_RES"
    and backend: "s_backend st = Some is" by (auto simp: st_ready_def)
  from init_nlerr_msgv_spec [OF n len(1,2)] obtain st1 where st1: "init_nlerr_msgv n st = Some st1" "xframe st st1"
    "recv_slots st1 n" by blast
  note fr1 = xframeD [OF st1(2)]
  have ne: "replicate n NLMSGERR_SPACE \<noteq> []" using n by simp
  from RECVMMSG_spec [OF ne, of "recv_impl st" MSG_DONTWAIT "net st"]
  obtain x ms k where call: "RECVMMSG (recv_impl st) (replicate n NLMSGERR_SPACE) MSG_DONTWAIT (net st) = (x, ms, k)"
    and k: "recv_frame (net st) k" "length ms \<le> n"
    and each: "\<forall>j < length ms. \<exists>n' fl m. k_recv (net st) (k_sent (net st)) n' fl = Inr m \<and> ms ! j = take (replicate n NLMSGERR_SPACE ! j) m"
    by auto
  have call1: "RECVMMSG (recv_impl st1) (replicate n NLMSGERR_SPACE) MSG_DONTWAIT (net st1) = (x, ms, k)"
    using call fr1 by simp
  from recv_res_spec [OF st1(3) n _ call1] len fr1 obtain r b where r: "recv_res n st1 = Some (r, st1\<lparr>net := k, s_buf_res := b\<rparr>)"
    "if ms = [] then r \<le> 0 else r = int (length ms)" "length b = BUFSZ_RES"
    "\<forall>j < length ms. take (length (ms ! j)) (drop (NLMSGERR_SPACE * j) b) = ms ! j" by auto
  let ?st2 = "st1\<lparr>net := k, s_buf_res := b\<rparr>"
  have fr2: "sframe st ?st2"
  proof -
    have "sframe st1 ?st2" using r(3) len fr1 k(1) by (simp add: sframe_def recv_frame_def)
    then show ?thesis using xframe_sframe [OF st1(2)] sframe_trans by blast
  qed
  show ?thesis
  proof (cases "ms = []")
    case True
    have "\<forall>j < 24. bitvec_get exists j = Some (hit (map (present be is) ms) j)"
      using True unfolding exists_def by (auto simp: bits_zero hit_def)
    then show ?thesis using call st1(1) r(1,2) fr2 True
      by (intro exI [of _ x] exI [of _ ms] exI [of _ k] exI [of _ "exists"] exI [of _ ?st2]) simp
  next
    case False
    then have rn: "r = int (length ms)" "\<not> r \<le> 0" using r(2) by auto
    have res: "i < 8 * length exists \<and> (\<exists>m. res_at ?st2 i = Some m \<and> test_res be ?st2 m = Some (present be is (ms ! i)))"
      if "i \<in> set [0 ..< length ms]" for i
    proof -
      have i: "i < length ms" using that by simp
      then obtain n' fl m where m: "k_recv (net st) (k_sent (net st)) n' fl = Inr m" "ms ! i = take NLMSGERR_SPACE m"
        using each k(2) by fastforce
      have ok': "reply_ok be is (ms ! i)" "20 \<le> length (ms ! i)"
        using reply_take(1) [OF kernel_ok_reply [OF ok m(1)], of NLMSGERR_SPACE] m(2) 
        by (auto simp: NLMSGERR_SPACE_eq reply_ok_def is_error_def)
      have pre: "take (length (ms ! i)) (drop (NLMSGERR_SPACE * i) b) = ms ! i" using r(4) i by blast
      have "get_iov ?st2 i = Some (ResBuf, NLMSGERR_SPACE * i, NLMSGERR_SPACE)"
        using st1(3) i k(2) get_iov_eq [of ?st2 st1] by (simp add: recv_slots_def)
      then have "res_at ?st2 i = Some (drop (NLMSGERR_SPACE * i) b)" by (simp add: res_at_def)
      moreover have "test_res be ?st2 (drop (NLMSGERR_SPACE * i) b) = test_res be ?st2 (ms ! i)"
        using response_prefix(4,5) [OF pre ok'(2), of be] by (simp only: test_res_def)
      moreover have "test_res be ?st2 (ms ! i) = Some (present be is (ms ! i))"
        using test_res_present [OF ok'(1), of ?st2] backend fr1 by simp
      moreover have "i < 8 * length exists"
        using i k(2) n(2) by (simp add: exists_def bitvec_n_def IP_N_def MSG_N_def)
      ultimately show ?thesis by simp
    qed
    then have "\<forall>i \<in> set [0 ..< length ms]. i < 8 * length exists
        \<and> (\<exists>m. res_at ?st2 i = Some m \<and> test_res be ?st2 m = Some (present be is (ms ! i)))" by blast
    from test_ips_save_spec [OF this] obtain e' where e': "test_ips_save be [0 ..< length ms] exists ?st2 = Some e'"
      "\<forall>j < 8 * length exists. bitvec_get e' j = (if j \<in> set [0 ..< length ms] \<and> present be is (ms ! j) then Some True else bitvec_get exists j)"
      by blast
    have "\<forall>j < 24. bitvec_get e' j = Some (hit (map (present be is) ms) j)"
    proof (intro allI impI)
      fix j :: nat assume j: "j < 24"
      then have "j < 8 * length exists" by (simp add: exists_def bitvec_n_def IP_N_def)
      then show "bitvec_get e' j = Some (hit (map (present be is) ms) j)"
        using e'(2) bits_zero [OF j] by (auto simp: exists_def hit_def)
    qed
    then show ?thesis using call st1(1) r(1) rn e'(1) fr2
      by (intro exI [of _ x] exI [of _ ms] exI [of _ k] exI [of _ e'] exI [of _ ?st2]) simp
  qed
qed

lemma test_ips_spec:
  assumes inv: "add_ctx_inv be is F ips ctx" and nx: "\<And>v4 p. nx v4 (Some p) = Some (p + elemsz is v4)"
    "\<And>v4. nx v4 None = map_option (\<lambda>b. unat b + 12) (a_baselen ctx v4)"
    and ready: "st_ready be is st" and ok: "kernel_ok be is (net st)" and pend: "0 < npending ips [True, False]"
  shows "\<exists>bs k e' st'. lookup be is (recv_impl st) (send_impl st) (queries F ips [True, False]) (net st) = Some (bs, k)
    \<and> test_ips be ctx (replicate (bitvec_n (IP_N * 2)) 0) nx st = Some (e', st')
    \<and> (\<forall>j < 24. bitvec_get e' j = Some (hit bs j)) \<and> sframe st st' \<and> net st' = k"
proof -
  let ?qs = "queries F ips [True, False]" and ?e = "replicate (bitvec_n (IP_N * 2)) 0 :: bytes"
  from ready have len: "length (s_iov st) = IOV_N" "length (s_msgv st) = MSG_N" by (auto simp: st_ready_def)
  have cnt: "npending ips [True, False] \<le> MSG_N"
    using add_ctx_invD(2) [OF inv, of True] add_ctx_invD(2) [OF inv, of False] by (simp add: MSG_N_def)
  from test_ips_families_spec [where nx = nx, OF inv nx queued_Nil _ len, of "[True, False]"] cnt
  obtain st1 where st1: "test_ips_families be ctx nx [True, False] 0 st = Some (npending ips [True, False], st1)"
    "xframe st st1" "queued (add_env ctx) st1 ?qs" by auto
  note fr1 = xframeD [OF st1(2)]
  have live: "interrupts_end (net st1)" using ok fr1 by (simp add: kernel_ok_def)
  have qn: "npending ips [True, False] = length ?qs" by (simp only: length_queries)
  have qb: "\<And>i. i < npending ips [True, False] \<Longrightarrow> msg_bytes (add_env ctx) st1 i = Some (?qs ! i)"
    using queued_msg_bytes [OF st1(3)] by (simp only: length_queries)
  from send_req_eq [OF qn qb pend cnt live]
  obtain r k where r: "sendall (SENDMMSG (send_impl st1)) ?qs (net st1) = Some (r, k)"
    "send_req (add_env ctx) (npending ips [True, False]) st1 = Some (r, st1\<lparr>net := k\<rparr>)"
    "same_oracles (net st1) k" "r = -1 \<or> 0 < r" "r \<le> int (npending ips [True, False])" by blast
  let ?st2 = "st1\<lparr>net := k\<rparr>"
  have fr2: "sframe st ?st2"
  proof -
    have "sframe st1 ?st2" using r(3) by (simp add: sframe_def same_oracles_def)
    then show ?thesis using xframe_sframe [OF st1(2)] sframe_trans by blast
  qed
  have send: "sendall (SENDMMSG (send_impl st)) ?qs (net st) = Some (r, k)" using r(1) fr1 by simp
  show ?thesis
  proof (cases "r < 0")
    case True
    then have "lookup be is (recv_impl st) (send_impl st) ?qs (net st) = Some ([], k)"
      using send by (simp add: lookup_def del: queries_simps)
    moreover have "test_ips be ctx ?e nx st = Some (?e, ?st2)"
      using st1(1) r(2) True pend by (simp add: test_ips_def del: npending_simps)
    moreover have "\<forall>j < 24. bitvec_get ?e j = Some (hit [] j)" by (simp add: bits_zero hit_def)
    ultimately show ?thesis using fr2
      by (intro exI [of _ "[]"] exI [of _ k] exI [of _ ?e] exI [of _ ?st2]) simp
  next
    case False
    then have n: "0 < nat r" "nat r \<le> MSG_N" using r(4,5) cnt by auto
    from test_ips_answers [OF sframe_ready [OF fr2 ready] sframe_kernel_ok [OF fr2 ok] n]
    obtain x ms k' e' st' where a: "RECVMMSG (recv_impl ?st2) (replicate (nat r) NLMSGERR_SPACE) MSG_DONTWAIT (net ?st2) = (x, ms, k')"
      "do {
        st \<leftarrow> init_nlerr_msgv (nat r) ?st2;
        (r, st) \<leftarrow> recv_res (nat r) st;
        if r \<le> 0 then Some (?e, st)
        else do {
          exists \<leftarrow> test_ips_save be [0 ..< nat r] ?e st;
          Some (exists, st) } } = Some (e', st')"
      "\<forall>j < 24. bitvec_get e' j = Some (hit (map (present be is) ms) j)" "sframe ?st2 st'" "net st' = k'" by blast
    have "lookup be is (recv_impl st) (send_impl st) ?qs (net st) = Some (map (present be is) ms, k')"
      using send False a(1) fr1 by (simp add: lookup_def del: queries_simps)
    moreover have nz: "npending ips [True, False] \<noteq> 0" using pend by (simp only: neq0_conv)
    have "test_ips be ctx ?e nx st = Some (e', st')"
      unfolding test_ips_def st1(1) Option.bind.bind_lunit prod.case if_not_P [OF nz] r(2) if_not_P [OF False] a(2) ..
    ultimately show ?thesis using a(3,5) sframe_trans [OF fr2 a(4)] by blast
  qed
qed

end
