(* ===== verification/Ipset_Flush.thy ===== *)
theory Ipset_Flush
  imports Ipset_Test
begin

text \<open>
  Sending the pending addresses: which requests \<open>end_add_ip\<close> leaves queued. The code sends the
  header of an add message, rewritten for the addresses that are missing from the set, and then
  the elements of these from where they stand in the message. It is shown that this gathers, per
  family, one well-formed request with exactly the missing addresses, and that the invariants of
  the context hold again afterwards, without pending addresses.
\<close>

section \<open>The messages of one family\<close>

definition add_header :: "bool \<Rightarrow> bool \<Rightarrow> bool \<Rightarrow> fam \<Rightarrow> nat \<Rightarrow> bytes" where
  "add_header be is_ipset v4 f n =
     host32 be (word_of_nat (24 + length (a_pre f) + n * elemsz is_ipset v4)) @ a_head f @ a_pre f
     @ host16 be (word_of_nat (4 + n * elemsz is_ipset v4)) @ host16 be (list_type is_ipset)"

definition add_request :: "bool \<Rightarrow> bool \<Rightarrow> bool \<Rightarrow> fam \<Rightarrow> bytes list \<Rightarrow> bytes" where
  "add_request be is_ipset v4 f ips =
     add_header be is_ipset v4 f (length ips) @ concat (map (elem be is_ipset v4) ips)"

text \<open>A message whose elements count as free space.\<close>

lemma add_inv_emptied:
  assumes "m = host32 be x @ a_head f @ a_pre f @ host16 be y @ host16 be (list_type is) @ rest"
    "length (a_head f) = 16" "IP_N * elemsz is v4 \<le> length rest" "24 + length (a_pre f) + length rest < 65536"
  shows "add_inv be is v4 f [] m"
proof -
  let ?m0 = "host32 be (word_of_nat (24 + length (a_pre f))) @ a_head f @ a_pre f @ host16 be y @ host16 be (list_type is) @ rest"
  have len: "length (add_payload be is v4 f y []) = 4 + length (a_pre f)" by (simp add: add_payload_def)
  have "nlview be ?m0 (a_head f) (add_payload be is v4 f y []) rest"
    unfolding nlview_def len using assms(2,4) by (simp add: add_payload_def)
  then have "add_view be is v4 f y [] ?m0" using assms(3) by (auto simp: add_view_def)
  then show ?thesis unfolding add_inv_def
    by (intro exI [of _ y] exI [of _ ?m0] exI [of _ x]) (simp add: assms(1))
qed

lemma fam_messages:
  assumes inv: "add_inv be is v4 f ips m" "ips \<noteq> []" and ips: "\<forall>ip \<in> set ips. length ip = iplen v4" "length ips \<le> IP_N"
  shows "\<exists>m0 B. wrh32 be m 0 (baselen_of f) = Some m0 \<and> unat (baselen_of f) = B \<and> B = 24 + length (a_pre f)
    \<and> nlmsg_dataend be m0 = Some B \<and> add_inv be is v4 f [] m0
    \<and> (\<forall>n \<le> length ips. \<exists>m1 m2. wrh16 be m0 (B - NLA_HDRLEN) (word_of_nat (nla_len_calc (n * elemsz is v4))) = Some m1
        \<and> nlmsg_len be m1 = Some (baselen_of f) \<and> wrh32 be m1 0 (baselen_of f + word_of_nat (n * elemsz is v4)) = Some m2
        \<and> add_inv be is v4 f [] m2 \<and> slice_at m2 0 B = Some (add_header be is v4 f n)
        \<and> (\<forall>j < length ips. slice_at m2 (B + j * elemsz is v4) (elemsz is v4) = Some (elem be is v4 (ips ! j))))"
proof -
  let ?sz = "elemsz is v4"
  from add_inv_view [OF inv] obtain L where v: "add_view be is v4 f L ips m" by blast
  obtain fr0 where room: "nlview be m (a_head f) (add_payload be is v4 f L ips) fr0" "(IP_N - length ips) * ?sz \<le> length fr0"
    using v by (auto simp: add_view_def)
  let ?es = "concat (map (elem be is v4) ips)"
  have es: "length ?es = length ips * ?sz" by (rule length_elems [OF ips(1)])
  from add_view_split [OF v ips(1)] obtain pre fr where pre: "m = pre @ ?es @ fr" "length pre = 24 + length (a_pre f)"
    "unat (baselen_of f) = length pre"
    "pre = host32 be (word_of_nat (24 + length (a_pre f) + length ips * ?sz)) @ a_head f @ a_pre f
        @ host16 be L @ host16 be (list_type is)"
    and h: "length (a_head f) = 16" and small: "24 + length (a_pre f) + length ips * ?sz + length fr < 65536" by blast
  have "length fr = length fr0"
    using nlview_len(3) [OF room(1)] pre(1,2) es by (simp add: add_payload_def)
  then have big: "IP_N * ?sz \<le> length (?es @ fr)"
    using room(2) ips(2) es by (simp add: diff_mult_distrib)
  have small': "24 + length (a_pre f) + length (?es @ fr) < 65536" using small es by simp
  let ?hd = "\<lambda>x. host32 be x @ a_head f @ a_pre f"
  have m: "m = host32 be (word_of_nat (24 + length (a_pre f) + length ips * ?sz)) @ (a_head f @ a_pre f
        @ host16 be L @ host16 be (list_type is) @ ?es @ fr)"
    unfolding pre(1) by (subst pre(4)) simp
  define m0 where "m0 = ?hd (baselen_of f) @ host16 be L @ host16 be (list_type is) @ ?es @ fr"
  have w0: "wrh32 be m 0 (baselen_of f) = Some m0"
    unfolding m m0_def wrh32_def by (subst put_at [of _ "[]", simplified]) auto
  have len0: "nlmsg_len be (?hd (baselen_of f) @ y) = Some (baselen_of f)" for y
    using rdh32_append [of be "[]" "baselen_of f"] by (simp add: nlmsg_len_def)
  have inv0: "add_inv be is v4 f [] m0" 
    by (rule add_inv_emptied [where x = "baselen_of f" and y = L, OF _ h big small']) (simp add: m0_def)
  let ?B = "24 + length (a_pre f)"
  have "\<exists>m1 m2. wrh16 be m0 (?B - NLA_HDRLEN) (word_of_nat (nla_len_calc (n * ?sz))) = Some m1
        \<and> nlmsg_len be m1 = Some (baselen_of f) \<and> wrh32 be m1 0 (baselen_of f + word_of_nat (n * ?sz)) = Some m2
        \<and> add_inv be is v4 f [] m2 \<and> slice_at m2 0 ?B = Some (add_header be is v4 f n)
        \<and> (\<forall>j < length ips. slice_at m2 (?B + j * ?sz) ?sz = Some (elem be is v4 (ips ! j)))"
    if "n \<le> length ips" for n
  proof -
    let ?l = "word_of_nat (4 + n * ?sz) :: u16" and ?x = "word_of_nat (24 + length (a_pre f) + n * ?sz) :: u32"
    let ?m1 = "?hd (baselen_of f) @ host16 be ?l @ host16 be (list_type is) @ ?es @ fr"
    let ?m2 = "?hd ?x @ host16 be ?l @ host16 be (list_type is) @ ?es @ fr"
    have "?B - NLA_HDRLEN = length (?hd (baselen_of f))" using h by (simp add: NLA_HDRLEN_def)
    then have w1: "wrh16 be m0 (?B - NLA_HDRLEN) (word_of_nat (nla_len_calc (n * ?sz))) = Some ?m1"
      unfolding m0_def nla_len_calc_def NLA_HDRLEN_def by (intro wrh16_append) auto
    have sum: "baselen_of f + word_of_nat (n * ?sz) = ?x" by (simp add: baselen_of_def)
    have w2: "wrh32 be ?m1 0 (baselen_of f + word_of_nat (n * ?sz)) = Some ?m2"
      unfolding sum wrh32_def
      using put_at [of 0 "[]" "host32 be (baselen_of f)" "host32 be ?x" "a_head f @ a_pre f @ host16 be ?l @ host16 be (list_type is) @ ?es @ fr"]
      by simp
    have inv2: "add_inv be is v4 f [] ?m2" 
      by (rule add_inv_emptied [where x = ?x and y = ?l, OF _ h big small']) simp
    have m2: "?m2 = add_header be is v4 f n @ ?es @ fr" and lh: "length (add_header be is v4 f n) = ?B"
      using h by (simp_all add: add_header_def)
    have "slice_at ?m2 0 ?B = Some (add_header be is v4 f n)" unfolding m2 using lh by (intro slice_at_prefix) simp
    moreover have "\<forall>j < length ips. slice_at ?m2 (?B + j * ?sz) ?sz = Some (elem be is v4 (ips ! j))"
      unfolding m2 using elems_slice(2) [OF ips(1)] lh by metis
    ultimately show ?thesis using w1 len0 w2 inv2 by blast
  qed
  then show ?thesis using w0 pre(2,3) inv0 len0
    by (intro exI [of _ m0] exI [of _ ?B]) (simp add: nlmsg_dataend_def m0_def)
qed

section \<open>The missing addresses\<close>

fun missing :: "(nat \<Rightarrow> bool) \<Rightarrow> nat \<Rightarrow> 'a list \<Rightarrow> 'a list" where
  "missing ex i [] = []"
| "missing ex i (x # xs) = (if ex i then missing ex (i + 1) xs else x # missing ex (i + 1) xs)"

lemma missing_map: "missing ex i (map f xs) = map f (missing ex i xs)"
  by (induction xs arbitrary: i) simp_all

lemma missing_subset: "set (missing ex i xs) \<subseteq> set xs"
  by (induction xs arbitrary: i) auto

lemma missing_length: "length (missing ex i xs) \<le> length xs"
  by (induction xs arbitrary: i) (auto intro: le_SucI)

lemma missing_idx: "missing ex i xs = map (nth xs) (missing ex i [0 ..< length xs])"
  by (simp only: missing_map [symmetric] map_nth)

lemma end_add_elems_spec:
  assumes bits: "\<forall>j < 24. bitvec_get e j = Some (ex j)" and "bit_i + length offs \<le> 24" "iov_i + length offs \<le> length (s_iov st)"
    and "\<And>j. j < length offs \<Longrightarrow> offs ! j = p + j * sz"
  shows "\<exists>st'. end_add_elems v4 sz e (length offs) p bit_i iov_i add_n st
      = Some (bit_i + length offs, iov_i + length (missing ex bit_i offs), add_n + length (missing ex bit_i offs), st')
    \<and> xframe st st' \<and> s_msgv st' = s_msgv st \<and> (\<forall>j < iov_i. get_iov st' j = get_iov st j)
    \<and> (\<forall>j < length (missing ex bit_i offs). get_iov st' (iov_i + j) = Some (AddMsg v4, missing ex bit_i offs ! j, sz))"
  using assms(2-)
proof (induction offs arbitrary: p bit_i iov_i add_n st)
  case (Cons o1 offs)
  have o1: "o1 = p" using Cons.prems(3) [of 0] by simp
  have rest: "\<And>j. j < length offs \<Longrightarrow> offs ! j = p + sz + j * sz"
    using Cons.prems(3) [of "Suc _"] by (simp add: add.assoc)
  have bit: "bitvec_get e bit_i = Some (ex bit_i)" using bits Cons.prems(1) by simp
  show ?case
  proof (cases "ex bit_i")
    case True
    then show ?thesis using Cons.IH [of "bit_i + 1" iov_i st "p + sz" add_n] Cons.prems rest bit by simp
  next
    case False
    have "iov_i < length (s_iov st)" using Cons.prems(2) by simp
    from set_iov_step [OF this, of "AddMsg v4" p sz] obtain st1 where st1: "set_iov iov_i (AddMsg v4) p sz st = Some st1"
      "xframe st st1" "s_msgv st1 = s_msgv st" "get_iov st1 iov_i = Some (AddMsg v4, p, sz)"
      "\<forall>j. j \<noteq> iov_i \<longrightarrow> get_iov st1 j = get_iov st j" by blast
    have "(bit_i + 1) + length offs \<le> 24" "(iov_i + 1) + length offs \<le> length (s_iov st1)"
      using Cons.prems xframeD(1) [OF st1(2)] by auto
    from Cons.IH [OF this rest, of "add_n + 1"]
    obtain st' where st': "end_add_elems v4 sz e (length offs) (p + sz) (bit_i + 1) (iov_i + 1) (add_n + 1) st1
        = Some (bit_i + 1 + length offs, iov_i + 1 + length (missing ex (bit_i + 1) offs), add_n + 1 + length (missing ex (bit_i + 1) offs), st')"
      "xframe st1 st'" "s_msgv st' = s_msgv st1" "\<forall>j < iov_i + 1. get_iov st' j = get_iov st1 j"
      "\<forall>j < length (missing ex (bit_i + 1) offs). get_iov st' (iov_i + 1 + j) = Some (AddMsg v4, missing ex (bit_i + 1) offs ! j, sz)" by blast
    have "get_iov st' (iov_i + j) = Some (AddMsg v4, missing ex bit_i (o1 # offs) ! j, sz)"
      if "j < length (missing ex bit_i (o1 # offs))" for j
      using that st'(4,5) st1(4) False o1 by (cases j) auto
    then show ?thesis
      using st1 st' False bit xframe_trans [OF st1(2) st'(2)] by (intro exI [of _ st']) simp
  qed
qed (auto intro!: exI [of _ st])

section \<open>Gathering\<close>

text \<open>
  \<open>gather ctx st v4s bss\<close>: the first \<^verbatim>\<open>iovec\<close>s stand for the byte strings \<open>bss\<close>, and will do
  so whatever happens to the add messages of the families \<open>v4s\<close>.
\<close>

definition gather :: "addctx \<Rightarrow> ipset_state \<Rightarrow> bool list \<Rightarrow> bytes list \<Rightarrow> bool" where
  "gather ctx st v4s bss \<longleftrightarrow> (\<forall>j < length bss. \<exists>a off len m. get_iov st j = Some (a, off, len)
     \<and> a \<notin> AddMsg ` set v4s \<and> area_bytes (add_env ctx) st a = Some m \<and> slice_at m off len = Some (bss ! j))"

definition pend :: "bool list \<Rightarrow> (bool \<Rightarrow> bytes list) \<Rightarrow> bool \<Rightarrow> bytes list" where
  "pend v4s ips v = (if v \<in> set v4s then ips v else [])"

text \<open>The invariant of a context apart from the counts, which are reset at the end.\<close>

definition ctx_inv0 :: "bool \<Rightarrow> bool \<Rightarrow> (bool \<Rightarrow> fam option) \<Rightarrow> (bool \<Rightarrow> bytes list) \<Rightarrow> addctx \<Rightarrow> bool" where
  "ctx_inv0 be is_ipset F ips ctx \<longleftrightarrow> add_ctx_inv be is_ipset F ips (ctx\<lparr>a_ipcnt := (\<lambda>v. length (ips v))\<rparr>)"

definition set_msg :: "addctx \<Rightarrow> bool \<Rightarrow> bytes \<Rightarrow> addctx" where
  "set_msg ctx v4 m = ctx\<lparr>a_msg := (a_msg ctx)(v4 := Some m)\<rparr>"

lemma set_msg_simps [simp]:
  "a_test (set_msg ctx v4 m) = a_test ctx" "a_baselen (set_msg ctx v4 m) = a_baselen ctx" "a_ipcnt (set_msg ctx v4 m) = a_ipcnt ctx"
  "a_msg (set_msg ctx v4 m) v = (if v = v4 then Some m else a_msg ctx v)"
  by (simp_all add: set_msg_def)

lemma ctx_inv0_emptied:
  assumes inv: "ctx_inv0 be is F (pend (v4 # v4s) ips) ctx" and "v4 \<notin> set v4s" "F v4 = Some f" "add_inv be is v4 f [] m"
  shows "ctx_inv0 be is F (pend v4s ips) (set_msg ctx v4 m)"
proof -
  have "case F v of None \<Rightarrow> a_msg (set_msg ctx v4 m) v = None \<and> pend v4s ips v = []
      | Some f \<Rightarrow> \<exists>m'. a_msg (set_msg ctx v4 m) v = Some m' \<and> add_inv be is v f (pend v4s ips v) m'
          \<and> a_baselen (set_msg ctx v4 m) v = Some (baselen_of f)" for v
  proof (cases "v = v4")
    case True
    then show ?thesis using assms add_ctx_invD(5) [OF inv [unfolded ctx_inv0_def] assms(3)] by (auto simp: pend_def)
  next
    case False
    then have "pend (v4 # v4s) ips v = pend v4s ips v" by (simp add: pend_def)
    then show ?thesis
      using False add_ctx_invD(4,5) [OF inv [unfolded ctx_inv0_def], of v] by (cases "F v") auto
  qed
  moreover have "length (pend v4s ips v) \<le> IP_N \<and> (\<forall>ip \<in> set (pend v4s ips v). length ip = iplen v)" for v
    using add_ctx_invD(2,3) [OF inv [unfolded ctx_inv0_def], of v] by (auto simp: pend_def split: if_splits)
  moreover have "test_ctx_inv be F (a_test ctx)" using inv by (simp add: ctx_inv0_def add_ctx_inv_def)
  moreover have e: "a_test (c\<lparr>a_ipcnt := g\<rparr>) = a_test c" "a_msg (c\<lparr>a_ipcnt := g\<rparr>) = a_msg c"
    "a_baselen (c\<lparr>a_ipcnt := g\<rparr>) = a_baselen c" "a_ipcnt (c\<lparr>a_ipcnt := g\<rparr>) = g" for c :: addctx and g
    by simp_all
  ultimately show ?thesis unfolding ctx_inv0_def add_ctx_inv_def e set_msg_simps(1) by blast
qed

lemma gather_keep:
  assumes "gather ctx st (v4 # v4s) bss" "xframe st st'" "\<And>j. j < length bss \<Longrightarrow> get_iov st' j = get_iov st j"
  shows "gather (set_msg ctx v4 m) st' v4s bss"
  unfolding gather_def
proof (intro allI impI)
  fix j assume j: "j < length bss"
  then obtain a off len b where a: "get_iov st j = Some (a, off, len)" "a \<notin> AddMsg ` set (v4 # v4s)"
    "area_bytes (add_env ctx) st a = Some b" "slice_at b off len = Some (bss ! j)"
    using assms(1) unfolding gather_def by blast
  have "add_env (set_msg ctx v4 m) a = add_env ctx a" using a(2) by (auto simp: add_env_def split: area.splits)
  then have "area_bytes (add_env (set_msg ctx v4 m)) st' a = Some b"
    using a(3) unfolding area_bytes_xframe [OF assms(2)] by (simp add: area_bytes_def split: area.splits)
  then show "\<exists>a off len b. get_iov st' j = Some (a, off, len) \<and> a \<notin> AddMsg ` set v4s
      \<and> area_bytes (add_env (set_msg ctx v4 m)) st' a = Some b \<and> slice_at b off len = Some (bss ! j)"
    using a assms(3) [OF j] by auto
qed

lemma gather_append:
  assumes "gather ctx st v4s bss" "\<And>j. j < length xs \<Longrightarrow> \<exists>a off len m. get_iov st (length bss + j) = Some (a, off, len)
     \<and> a \<notin> AddMsg ` set v4s \<and> area_bytes (add_env ctx) st a = Some m \<and> slice_at m off len = Some (xs ! j)"
  shows "gather ctx st v4s (bss @ xs)"
  unfolding gather_def
proof (intro allI impI)
  fix j assume j: "j < length (bss @ xs)"
  show "\<exists>a off len m. get_iov st j = Some (a, off, len) \<and> a \<notin> AddMsg ` set v4s
      \<and> area_bytes (add_env ctx) st a = Some m \<and> slice_at m off len = Some ((bss @ xs) ! j)"
  proof (cases "j < length bss")
    case True
    then show ?thesis using assms(1) unfolding gather_def by (auto simp: nth_append)
  next
    case False
    then show ?thesis using assms(2) [of "j - length bss"] j by (auto simp: nth_append)
  qed
qed

lemma gather_msg:
  assumes "gather ctx st v4s bss" "get_msg st k = Some (s, n)" "s + n \<le> length bss"
  shows "msg_bytes (add_env ctx) st k = Some (concat (take n (drop s bss)))"
proof -
  have "iov_bytes (add_env ctx) st (s + i) = Some (bss ! (s + i))" if "i < n" for i
  proof -
    have "s + i < length bss" using that assms(3) by simp
    then show ?thesis using assms(1) unfolding gather_def by (auto intro: iov_bytes_get)
  qed
  then have "those (map (\<lambda>i. iov_bytes (add_env ctx) st (s + i)) [0 ..< n]) = Some (take n (drop s bss))"
    using assms(3) by (intro those_map_nth) auto
  moreover have "map (iov_bytes (add_env ctx) st) [s ..< s + n] = map (\<lambda>i. iov_bytes (add_env ctx) st (s + i)) [0 ..< n]"
    by (rule nth_equalityI) auto
  ultimately show ?thesis using assms(2) by (simp add: msg_bytes_def)
qed

text \<open>One round of the loops of \<open>end_add_ip_ipset\<close> and \<open>end_add_ip_nftset\<close>.\<close>

lemma family_round:
  assumes inv: "ctx_inv0 be is F (pend (v4 # v4s) ips) ctx" and v4: "v4 \<notin> set v4s" "ips v4 \<noteq> []" "F v4 = Some f"
    and bits: "\<forall>j < 24. bitvec_get e j = Some (ex j)" "bit_i + length (ips v4) \<le> 24"
    and g: "gather ctx st (v4 # v4s) bss" "length bss + 1 + length (ips v4) \<le> length (s_iov st)"
  defines "new \<equiv> missing ex bit_i (ips v4)" and "B \<equiv> unat (baselen_of f)"
  shows "\<exists>m m0 st1 st2. a_msg ctx v4 = Some m \<and> a_baselen ctx v4 = Some (baselen_of f) \<and> wrh32 be m 0 (baselen_of f) = Some m0
    \<and> nlmsg_dataend be m0 = Some B \<and> set_iov (length bss) (AddMsg v4) 0 B st = Some st1
    \<and> end_add_elems v4 (elemsz is v4) e (length (ips v4)) B bit_i (length bss + 1) 0 st1
        = Some (bit_i + length (ips v4), length bss + 1 + length new, length new, st2)
    \<and> xframe st st2 \<and> s_msgv st2 = s_msgv st
    \<and> (if new = [] then ctx_inv0 be is F (pend v4s ips) (set_msg ctx v4 m0) \<and> gather (set_msg ctx v4 m0) st2 v4s bss
       else \<exists>m1 m2. wrh16 be m0 (B - NLA_HDRLEN) (word_of_nat (nla_len_calc (length new * elemsz is v4))) = Some m1
         \<and> nlmsg_len be m1 = Some (baselen_of f) \<and> wrh32 be m1 0 (baselen_of f + word_of_nat (length new * elemsz is v4)) = Some m2
         \<and> ctx_inv0 be is F (pend v4s ips) (set_msg ctx v4 m2)
         \<and> gather (set_msg ctx v4 m2) st2 v4s (bss @ add_header be is v4 f (length new) # map (elem be is v4) new))"
proof -
  let ?sz = "elemsz is v4"
  note D = add_ctx_invD [OF inv [unfolded ctx_inv0_def]]
  have p: "pend (v4 # v4s) ips v4 = ips v4" by (simp add: pend_def)
  obtain m where m: "a_msg ctx v4 = Some m" "add_inv be is v4 f (ips v4) m" "a_baselen ctx v4 = Some (baselen_of f)"
    using D(5) [OF v4(3)] p by auto
  have ok: "\<forall>ip \<in> set (ips v4). length ip = iplen v4" "length (ips v4) \<le> IP_N" using D(2,3) [of v4] p by auto
  from fam_messages [OF m(2) v4(2) ok] obtain m0 where m0: "wrh32 be m 0 (baselen_of f) = Some m0"
    "nlmsg_dataend be m0 = Some B" "add_inv be is v4 f [] m0"
    and upd: "\<forall>n \<le> length (ips v4). \<exists>m1 m2. wrh16 be m0 (B - NLA_HDRLEN) (word_of_nat (nla_len_calc (n * ?sz))) = Some m1
        \<and> nlmsg_len be m1 = Some (baselen_of f) \<and> wrh32 be m1 0 (baselen_of f + word_of_nat (n * ?sz)) = Some m2
        \<and> add_inv be is v4 f [] m2 \<and> slice_at m2 0 B = Some (add_header be is v4 f n)
        \<and> (\<forall>j < length (ips v4). slice_at m2 (B + j * ?sz) ?sz = Some (elem be is v4 (ips v4 ! j)))"
    unfolding B_def by blast
  have i: "length bss < length (s_iov st)" using g(2) by simp
  from set_iov_step [OF i, of "AddMsg v4" 0 B] obtain st1 where st1: "set_iov (length bss) (AddMsg v4) 0 B st = Some st1"
    "xframe st st1" "s_msgv st1 = s_msgv st" "get_iov st1 (length bss) = Some (AddMsg v4, 0, B)"
    "\<forall>j. j \<noteq> length bss \<longrightarrow> get_iov st1 j = get_iov st j" by blast
  define offs where "offs = map (\<lambda>j. B + j * ?sz) [0 ..< length (ips v4)]"
  have o: "length offs = length (ips v4)" "\<And>j. j < length offs \<Longrightarrow> offs ! j = B + j * ?sz" by (simp_all add: offs_def)
  let ?idx = "missing ex bit_i [0 ..< length (ips v4)]"
  have new: "new = map (nth (ips v4)) ?idx" unfolding new_def by (rule missing_idx)
  have moffs: "missing ex bit_i offs = map (\<lambda>j. B + j * ?sz) ?idx" unfolding offs_def by (rule missing_map)
  have "bit_i + length offs \<le> 24" "length bss + 1 + length offs \<le> length (s_iov st1)"
    using bits(2) g(2) o(1) xframeD(1) [OF st1(2)] by simp_all
  from end_add_elems_spec [OF bits(1) this o(2), of v4 0]
  obtain st2 where st2: "end_add_elems v4 ?sz e (length (ips v4)) B bit_i (length bss + 1) 0 st1
      = Some (bit_i + length (ips v4), length bss + 1 + length new, length new, st2)"
    "xframe st1 st2" "s_msgv st2 = s_msgv st1" "\<forall>j < length bss + 1. get_iov st2 j = get_iov st1 j"
    "\<forall>j < length new. get_iov st2 (length bss + 1 + j) = Some (AddMsg v4, B + (?idx ! j) * ?sz, ?sz)"
    using o(1) moffs new by auto
  have fr: "xframe st st2" using st1(2) st2(2) by (rule xframe_trans)
  have keep: "get_iov st2 j = get_iov st j" if "j < length bss" for j using that st1(5) st2(4) by auto
  have "if new = [] then ctx_inv0 be is F (pend v4s ips) (set_msg ctx v4 m0) \<and> gather (set_msg ctx v4 m0) st2 v4s bss
       else \<exists>m1 m2. wrh16 be m0 (B - NLA_HDRLEN) (word_of_nat (nla_len_calc (length new * ?sz))) = Some m1
         \<and> nlmsg_len be m1 = Some (baselen_of f) \<and> wrh32 be m1 0 (baselen_of f + word_of_nat (length new * ?sz)) = Some m2
         \<and> ctx_inv0 be is F (pend v4s ips) (set_msg ctx v4 m2)
         \<and> gather (set_msg ctx v4 m2) st2 v4s (bss @ add_header be is v4 f (length new) # map (elem be is v4) new)"
  proof (cases "new = []")
    case True
    then show ?thesis using ctx_inv0_emptied [OF inv v4(1,3) m0(3)] gather_keep [OF g(1) fr keep] by simp
  next
    case False
    have "length new \<le> length (ips v4)" unfolding new_def by (rule missing_length)
    then obtain m1 m2 where u: "wrh16 be m0 (B - NLA_HDRLEN) (word_of_nat (nla_len_calc (length new * ?sz))) = Some m1"
      "nlmsg_len be m1 = Some (baselen_of f)" "wrh32 be m1 0 (baselen_of f + word_of_nat (length new * ?sz)) = Some m2"
      "add_inv be is v4 f [] m2" "slice_at m2 0 B = Some (add_header be is v4 f (length new))"
      "\<forall>j < length (ips v4). slice_at m2 (B + j * ?sz) ?sz = Some (elem be is v4 (ips v4 ! j))"
      using upd by blast
    have area: "area_bytes (add_env (set_msg ctx v4 m2)) st2 (AddMsg v4) = Some m2"
      by (simp add: area_bytes_def add_env_def)
    have notin: "AddMsg v4 \<notin> AddMsg ` set v4s" using v4(1) by auto
    have "gather (set_msg ctx v4 m2) st2 v4s (bss @ add_header be is v4 f (length new) # map (elem be is v4) new)"
    proof (rule gather_append [OF gather_keep [OF g(1) fr keep]])
      fix j assume j: "j < length (add_header be is v4 f (length new) # map (elem be is v4) new)"
      show "\<exists>a off len m. get_iov st2 (length bss + j) = Some (a, off, len) \<and> a \<notin> AddMsg ` set v4s
          \<and> area_bytes (add_env (set_msg ctx v4 m2)) st2 a = Some m
          \<and> slice_at m off len = Some ((add_header be is v4 f (length new) # map (elem be is v4) new) ! j)"
      proof (cases j)
        case 0
        then have "get_iov st2 (length bss + j) = Some (AddMsg v4, 0, B)" using st1(4) st2(4) by simp
        then show ?thesis using 0 notin area u(5) by auto
      next
        case (Suc i)
        then have i: "i < length new" using j by simp
        then have "?idx ! i \<in> set ?idx" using new by simp
        then have "?idx ! i < length (ips v4)" using missing_subset [of ex bit_i "[0 ..< length (ips v4)]"] by auto
        then have "slice_at m2 (B + (?idx ! i) * ?sz) ?sz = Some (elem be is v4 (new ! i))"
          using u(6) i new by simp
        moreover have "get_iov st2 (length bss + j) = Some (AddMsg v4, B + (?idx ! i) * ?sz, ?sz)"
          using st2(5) i Suc by simp
        ultimately show ?thesis using Suc i notin area by auto
      qed
    qed auto
    then show ?thesis using False u(1-3) ctx_inv0_emptied [OF inv v4(1,3) u(4)] by (simp only: if_False) blast
  qed
  then show ?thesis using m(1,3) m0(1,2) st1(1) st2(1) fr st1(3) st2(3) by (simp only: simp_thms) metis
qed

section \<open>The requests\<close>

text \<open>
  One request per family that has a missing address; \<open>i\<close> is the number of the first pending
  address of the families that are left.
\<close>

fun add_requests :: "bool \<Rightarrow> bool \<Rightarrow> (bool \<Rightarrow> fam option) \<Rightarrow> (nat \<Rightarrow> bool) \<Rightarrow> (bool \<Rightarrow> bytes list) \<Rightarrow> nat \<Rightarrow> bool list \<Rightarrow> bytes list" where
  "add_requests be is_ipset F ex ips i [] = []"
| "add_requests be is_ipset F ex ips i (v4 # v4s) =
     (let new = missing ex i (ips v4)
      in (if new = [] then [] else [add_request be is_ipset v4 (the (F v4)) new])
         @ add_requests be is_ipset F ex ips (i + length (ips v4)) v4s)"

lemma elemsz_simps: "NLA_HDRLEN * 3 + iplen v4 = elemsz True v4" "NLA_HDRLEN * 7 + align4 4 + iplen v4 * 2 = elemsz False v4"
  by (simp_all add: elemsz_def NLA_HDRLEN_def align4_def)

lemma ctx_inv0_skip: "ctx_inv0 be is F (pend (v4 # v4s) ips) ctx \<Longrightarrow> ips v4 = [] \<Longrightarrow> ctx_inv0 be is F (pend v4s ips) ctx"
proof -
  assume "ctx_inv0 be is F (pend (v4 # v4s) ips) ctx" "ips v4 = []"
  moreover from this have "pend (v4 # v4s) ips = pend v4s ips" by (auto simp: pend_def)
  ultimately show ?thesis by simp
qed

lemma gather_skip: "gather ctx st (v4 # v4s) bss \<Longrightarrow> gather ctx st v4s bss"
  unfolding gather_def by fastforce

lemma ctx_inv0_fam: "ctx_inv0 be is F (pend (v4 # v4s) ips) ctx \<Longrightarrow> ips v4 \<noteq> [] \<Longrightarrow> \<exists>f. F v4 = Some f"
  using add_ctx_invD(6) [of be "is" F "pend (v4 # v4s) ips" "ctx\<lparr>a_ipcnt := (\<lambda>v. length (pend (v4 # v4s) ips v))\<rparr>" v4]
  by (simp add: ctx_inv0_def pend_def)

lemma nft_loop:
  assumes bits: "\<forall>j < 24. bitvec_get e j = Some (ex j)"
    and "distinct v4s" "ctx_inv0 be False F (pend v4s ips) ctx" "\<forall>v \<in> set v4s. a_ipcnt ctx v = length (ips v)"
    "gather ctx st v4s bss" "bit_i + npending ips v4s \<le> 24" "length bss + length v4s + npending ips v4s \<le> length (s_iov st)"
  shows "\<exists>ctx' st' bss'. end_add_ip_nftset_loop be e v4s (length bss) bit_i ctx st = Some (length bss', ctx', st')
    \<and> xframe st st' \<and> ctx_inv0 be False F (\<lambda>_. []) ctx' \<and> gather ctx' st' [] bss'
    \<and> concat bss' = concat bss @ concat (add_requests be False F ex ips bit_i v4s)
    \<and> length bss' \<le> length bss + length v4s + npending ips v4s \<and> take (length bss) bss' = bss
    \<and> (if add_requests be False F ex ips bit_i v4s = [] then bss' = bss else length bss < length bss')"
  using assms(2-)
proof (induction v4s arbitrary: bss bit_i ctx st)
  case Nil
  then show ?case by (auto simp: pend_def)
next
  case (Cons v4 v4s)
  have v4: "v4 \<notin> set v4s" "distinct v4s" using Cons.prems(1) by auto
  have cnt: "a_ipcnt ctx v4 = length (ips v4)" using Cons.prems(3) by simp
  show ?case
  proof (cases "ips v4 = []")
    case True
    then show ?thesis
      using Cons.IH [OF v4(2) ctx_inv0_skip [OF Cons.prems(2) True] _ gather_skip [OF Cons.prems(4)], of bit_i] Cons.prems cnt
      by fastforce
  next
    case False
    obtain f where f: "F v4 = Some f" using ctx_inv0_fam [OF Cons.prems(2) False] by blast
    let ?new = "missing ex bit_i (ips v4)" and ?sz = "elemsz False v4"
    have b: "bit_i + length (ips v4) \<le> 24" and l: "length bss + 1 + length (ips v4) \<le> length (s_iov st)"
      using Cons.prems(5,6) by simp_all
    from family_round [OF Cons.prems(2) v4(1) False f bits b Cons.prems(4) l]
    obtain m m0 st1 st2 where r: "a_msg ctx v4 = Some m" "a_baselen ctx v4 = Some (baselen_of f)" "wrh32 be m 0 (baselen_of f) = Some m0"
      "nlmsg_dataend be m0 = Some (unat (baselen_of f))" "set_iov (length bss) (AddMsg v4) 0 (unat (baselen_of f)) st = Some st1"
      "end_add_elems v4 ?sz e (length (ips v4)) (unat (baselen_of f)) bit_i (length bss + 1) 0 st1
        = Some (bit_i + length (ips v4), length bss + 1 + length ?new, length ?new, st2)" "xframe st st2"
      and upd: "if ?new = [] then ctx_inv0 be False F (pend v4s ips) (set_msg ctx v4 m0) \<and> gather (set_msg ctx v4 m0) st2 v4s bss
       else \<exists>m1 m2. wrh16 be m0 (unat (baselen_of f) - NLA_HDRLEN) (word_of_nat (nla_len_calc (length ?new * ?sz))) = Some m1
         \<and> nlmsg_len be m1 = Some (baselen_of f) \<and> wrh32 be m1 0 (baselen_of f + word_of_nat (length ?new * ?sz)) = Some m2
         \<and> ctx_inv0 be False F (pend v4s ips) (set_msg ctx v4 m2)
         \<and> gather (set_msg ctx v4 m2) st2 v4s (bss @ add_header be False v4 f (length ?new) # map (elem be False v4) ?new)"
      by blast
    show ?thesis
    proof (cases "?new = []")
      case True
      then have u: "ctx_inv0 be False F (pend v4s ips) (set_msg ctx v4 m0)" "gather (set_msg ctx v4 m0) st2 v4s bss"
        using upd by simp_all
      have step: "end_add_ip_nftset_loop be e (v4 # v4s) (length bss) bit_i ctx st
          = end_add_ip_nftset_loop be e v4s (length bss) (bit_i + length (ips v4)) (set_msg ctx v4 m0) st2"
        using r(1-6) False cnt True by (simp add: Let_def elemsz_simps set_msg_def)
      have "\<forall>v \<in> set v4s. a_ipcnt (set_msg ctx v4 m0) v = length (ips v)" using Cons.prems(3) by simp
      from Cons.IH [OF v4(2) u(1) this u(2), of "bit_i + length (ips v4)"] Cons.prems(5,6) xframeD(1) [OF r(7)]
      obtain ctx' st' bss' where IH: "end_add_ip_nftset_loop be e v4s (length bss) (bit_i + length (ips v4)) (set_msg ctx v4 m0) st2
          = Some (length bss', ctx', st')" "xframe st2 st'" "ctx_inv0 be False F (\<lambda>_. []) ctx'" "gather ctx' st' [] bss'"
        "concat bss' = concat bss @ concat (add_requests be False F ex ips (bit_i + length (ips v4)) v4s)"
        "length bss' \<le> length bss + length v4s + npending ips v4s" "take (length bss) bss' = bss"
        "if add_requests be False F ex ips (bit_i + length (ips v4)) v4s = [] then bss' = bss else length bss < length bss'"
        by auto
      then show ?thesis
        using step True xframe_trans [OF r(7) IH(2)] by (intro exI [of _ ctx'] exI [of _ st'] exI [of _ bss']) (simp add: Let_def)
    next
      case new: False
      then obtain m1 m2 where u: "wrh16 be m0 (unat (baselen_of f) - NLA_HDRLEN) (word_of_nat (nla_len_calc (length ?new * ?sz))) = Some m1"
        "nlmsg_len be m1 = Some (baselen_of f)" "wrh32 be m1 0 (baselen_of f + word_of_nat (length ?new * ?sz)) = Some m2"
        "ctx_inv0 be False F (pend v4s ips) (set_msg ctx v4 m2)"
        "gather (set_msg ctx v4 m2) st2 v4s (bss @ add_header be False v4 f (length ?new) # map (elem be False v4) ?new)"
        using upd by auto
      define bss1 where "bss1 = bss @ add_header be False v4 f (length ?new) # map (elem be False v4) ?new"
      have l1: "length bss1 = length bss + 1 + length ?new" by (simp add: bss1_def)
      have step: "end_add_ip_nftset_loop be e (v4 # v4s) (length bss) bit_i ctx st
          = end_add_ip_nftset_loop be e v4s (length bss1) (bit_i + length (ips v4)) (set_msg ctx v4 m2) st2"
        unfolding l1 using r(1-6) False cnt new u(1-3) by (simp add: Let_def elemsz_simps set_msg_def)
      have "\<forall>v \<in> set v4s. a_ipcnt (set_msg ctx v4 m2) v = length (ips v)" using Cons.prems(3) by simp
      moreover have "length bss1 + length v4s + npending ips v4s \<le> length (s_iov st2)" "bit_i + length (ips v4) + npending ips v4s \<le> 24"
        using l1 missing_length [of ex bit_i "ips v4"] Cons.prems(5,6) xframeD(1) [OF r(7)] by auto
      ultimately obtain ctx' st' bss' where IH: "end_add_ip_nftset_loop be e v4s (length bss1) (bit_i + length (ips v4)) (set_msg ctx v4 m2) st2
          = Some (length bss', ctx', st')" "xframe st2 st'" "ctx_inv0 be False F (\<lambda>_. []) ctx'" "gather ctx' st' [] bss'"
        "concat bss' = concat bss1 @ concat (add_requests be False F ex ips (bit_i + length (ips v4)) v4s)"
        "length bss' \<le> length bss1 + length v4s + npending ips v4s" "take (length bss1) bss' = bss1"
        "if add_requests be False F ex ips (bit_i + length (ips v4)) v4s = [] then bss' = bss1 else length bss1 < length bss'"
        using Cons.IH [OF v4(2) u(4) _ u(5), of "bit_i + length (ips v4)"] unfolding bss1_def [symmetric] by blast
      have "length bss < length bss'" using IH(8) l1 by (auto split: if_splits)
      moreover have "take (length bss) bss' = bss"
        using arg_cong [OF IH(7), of "take (length bss)"] l1 by (simp add: bss1_def min_def split: if_splits)
      moreover have "length bss' \<le> length bss + length (v4 # v4s) + npending ips (v4 # v4s)"
        using IH(6) l1 missing_length [of ex bit_i "ips v4"] by simp
      moreover have "concat bss' = concat bss @ concat (add_requests be False F ex ips bit_i (v4 # v4s))"
        using IH(5) new f by (simp add: bss1_def add_request_def Let_def)
      ultimately show ?thesis
        using step IH(1,3,4) new xframe_trans [OF r(7) IH(2)]
        by (intro exI [of _ ctx'] exI [of _ st'] exI [of _ bss']) (simp add: Let_def)
    qed
  qed
qed

text \<open>In the ipset backend each request is a message of its own: \<open>parts\<close> are its \<^verbatim>\<open>iovec\<close>s.\<close>

definition part_bytes :: "bytes list \<Rightarrow> nat \<times> nat \<Rightarrow> bytes" where
  "part_bytes bss p = concat (take (snd p) (drop (fst p) bss))"

definition parts_ok :: "ipset_state \<Rightarrow> bytes list \<Rightarrow> (nat \<times> nat) list \<Rightarrow> bool" where
  "parts_ok st bss parts \<longleftrightarrow> (\<forall>k < length parts. get_msg st k = Some (parts ! k) \<and> fst (parts ! k) + snd (parts ! k) \<le> length bss)"

lemma parts_ok_append: "parts_ok st bss parts \<Longrightarrow> s_msgv st' = s_msgv st \<Longrightarrow> parts_ok st' (bss @ xs) parts"
  using get_msg_eq [of st' st] by (fastforce simp: parts_ok_def)

lemma part_bytes_append:
  "parts_ok st bss parts \<Longrightarrow> map (part_bytes (bss @ xs)) parts = map (part_bytes bss) parts"
proof (rule map_cong [OF refl])
  fix p assume "parts_ok st bss parts" "p \<in> set parts"
  then have "fst p + snd p \<le> length bss" unfolding parts_ok_def by (metis in_set_conv_nth)
  then show "part_bytes (bss @ xs) p = part_bytes bss p" by (simp add: part_bytes_def)
qed

lemma gather_msgv:
  assumes "gather ctx st v4s bss" "xframe st st'" "s_iov st' = s_iov st"
  shows "gather ctx st' v4s bss"
  using assms(1) unfolding gather_def area_bytes_xframe [OF assms(2)] get_iov_eq [OF assms(3)] .

lemma ipset_loop:
  assumes bits: "\<forall>j < 24. bitvec_get e j = Some (ex j)"
    and "distinct v4s" "ctx_inv0 be True F (pend v4s ips) ctx" "\<forall>v \<in> set v4s. a_ipcnt ctx v = length (ips v)"
    "gather ctx st v4s bss" "bit_i + npending ips v4s \<le> 24" "length bss + length v4s + npending ips v4s \<le> length (s_iov st)"
    "parts_ok st bss parts" "length parts + length v4s \<le> length (s_msgv st)"
  shows "\<exists>ctx' st' bss' parts'. end_add_ip_ipset_loop be e v4s (length bss) (length parts) bit_i ctx st = Some (length parts', ctx', st')
    \<and> xframe st st' \<and> ctx_inv0 be True F (\<lambda>_. []) ctx' \<and> gather ctx' st' [] bss' \<and> parts_ok st' bss' parts'
    \<and> map (part_bytes bss') parts' = map (part_bytes bss) parts @ add_requests be True F ex ips bit_i v4s
    \<and> length parts' \<le> length parts + length v4s"
  using assms(2-)
proof (induction v4s arbitrary: bss bit_i ctx st parts)
  case Nil
  then show ?case by (auto simp: pend_def)
next
  case (Cons v4 v4s)
  have v4: "v4 \<notin> set v4s" "distinct v4s" using Cons.prems(1) by auto
  have cnt: "a_ipcnt ctx v4 = length (ips v4)" using Cons.prems(3) by simp
  show ?case
  proof (cases "ips v4 = []")
    case True
    then show ?thesis
      using Cons.IH [OF v4(2) ctx_inv0_skip [OF Cons.prems(2) True] _ gather_skip [OF Cons.prems(4)], of bit_i parts] Cons.prems cnt
      by fastforce
  next
    case False
    obtain f where f: "F v4 = Some f" using ctx_inv0_fam [OF Cons.prems(2) False] by blast
    let ?new = "missing ex bit_i (ips v4)" and ?sz = "elemsz True v4"
    have b: "bit_i + length (ips v4) \<le> 24" and l: "length bss + 1 + length (ips v4) \<le> length (s_iov st)"
      using Cons.prems(5,6) by simp_all
    from family_round [OF Cons.prems(2) v4(1) False f bits b Cons.prems(4) l]
    obtain m m0 st1 st2 where r: "a_msg ctx v4 = Some m" "a_baselen ctx v4 = Some (baselen_of f)" "wrh32 be m 0 (baselen_of f) = Some m0"
      "nlmsg_dataend be m0 = Some (unat (baselen_of f))" "set_iov (length bss) (AddMsg v4) 0 (unat (baselen_of f)) st = Some st1"
      "end_add_elems v4 ?sz e (length (ips v4)) (unat (baselen_of f)) bit_i (length bss + 1) 0 st1
        = Some (bit_i + length (ips v4), length bss + 1 + length ?new, length ?new, st2)" "xframe st st2" "s_msgv st2 = s_msgv st"
      and upd: "if ?new = [] then ctx_inv0 be True F (pend v4s ips) (set_msg ctx v4 m0) \<and> gather (set_msg ctx v4 m0) st2 v4s bss
       else \<exists>m1 m2. wrh16 be m0 (unat (baselen_of f) - NLA_HDRLEN) (word_of_nat (nla_len_calc (length ?new * ?sz))) = Some m1
         \<and> nlmsg_len be m1 = Some (baselen_of f) \<and> wrh32 be m1 0 (baselen_of f + word_of_nat (length ?new * ?sz)) = Some m2
         \<and> ctx_inv0 be True F (pend v4s ips) (set_msg ctx v4 m2)
         \<and> gather (set_msg ctx v4 m2) st2 v4s (bss @ add_header be True v4 f (length ?new) # map (elem be True v4) ?new)"
      by blast
    show ?thesis
    proof (cases "?new = []")
      case True
      then have u: "ctx_inv0 be True F (pend v4s ips) (set_msg ctx v4 m0)" "gather (set_msg ctx v4 m0) st2 v4s bss"
        using upd by simp_all
      have step: "end_add_ip_ipset_loop be e (v4 # v4s) (length bss) (length parts) bit_i ctx st
          = end_add_ip_ipset_loop be e v4s (length bss) (length parts) (bit_i + length (ips v4)) (set_msg ctx v4 m0) st2"
        using r(1-6) False cnt True by (simp add: Let_def elemsz_simps set_msg_def)
      have a: "\<forall>v \<in> set v4s. a_ipcnt (set_msg ctx v4 m0) v = length (ips v)" using Cons.prems(3) by simp
      have pk: "parts_ok st2 bss parts" using parts_ok_append [OF Cons.prems(7) r(8), of "[]"] by simp
      have le: "bit_i + length (ips v4) + npending ips v4s \<le> 24" "length bss + length v4s + npending ips v4s \<le> length (s_iov st2)"
        "length parts + length v4s \<le> length (s_msgv st2)" using Cons.prems(5,6,8) xframeD(1,2) [OF r(7)] by auto
      from Cons.IH [OF v4(2) u(1) a u(2) le(1,2) pk le(3)]
      obtain ctx' st' bss' parts' where IH: "end_add_ip_ipset_loop be e v4s (length bss) (length parts) (bit_i + length (ips v4)) (set_msg ctx v4 m0) st2
          = Some (length parts', ctx', st')" "xframe st2 st'" "ctx_inv0 be True F (\<lambda>_. []) ctx'" "gather ctx' st' [] bss'"
        "parts_ok st' bss' parts'"
        "map (part_bytes bss') parts' = map (part_bytes bss) parts @ add_requests be True F ex ips (bit_i + length (ips v4)) v4s"
        "length parts' \<le> length parts + length v4s" by blast
      then show ?thesis
        using step True xframe_trans [OF r(7) IH(2)]
        by (intro exI [of _ ctx'] exI [of _ st'] exI [of _ bss'] exI [of _ parts']) (simp add: Let_def)
    next
      case new: False
      then obtain m1 m2 where u: "wrh16 be m0 (unat (baselen_of f) - NLA_HDRLEN) (word_of_nat (nla_len_calc (length ?new * ?sz))) = Some m1"
        "nlmsg_len be m1 = Some (baselen_of f)" "wrh32 be m1 0 (baselen_of f + word_of_nat (length ?new * ?sz)) = Some m2"
        "ctx_inv0 be True F (pend v4s ips) (set_msg ctx v4 m2)"
        "gather (set_msg ctx v4 m2) st2 v4s (bss @ add_header be True v4 f (length ?new) # map (elem be True v4) ?new)"
        using upd by auto
      define bss1 where "bss1 = bss @ add_header be True v4 f (length ?new) # map (elem be True v4) ?new"
      define part where "part = (length bss, 1 + length ?new)"
      have l1: "length bss1 = length bss + 1 + length ?new" by (simp add: bss1_def)
      have k: "length parts < length (s_msgv st2)" using Cons.prems(8) r(8) by simp
      from set_MSGHDR_step [OF k, of "length bss" "1 + length ?new"]
      obtain st3 where st3: "set_MSGHDR (length parts) (length bss) (1 + length ?new) st2 = Some st3" "xframe st2 st3"
        "s_iov st3 = s_iov st2" "get_msg st3 (length parts) = Some part" "\<forall>j. j \<noteq> length parts \<longrightarrow> get_msg st3 j = get_msg st2 j"
        unfolding part_def by blast
      have step: "end_add_ip_ipset_loop be e (v4 # v4s) (length bss) (length parts) bit_i ctx st
          = end_add_ip_ipset_loop be e v4s (length bss1) (length (parts @ [part])) (bit_i + length (ips v4)) (set_msg ctx v4 m2) st3"
        unfolding l1 using r(1-6) False cnt new u(1-3) st3(1) by (simp add: Let_def elemsz_simps set_msg_def)
      have a: "\<forall>v \<in> set v4s. a_ipcnt (set_msg ctx v4 m2) v = length (ips v)" using Cons.prems(3) by simp
      have fr: "xframe st st3" using r(7) st3(2) by (rule xframe_trans)
      have g3: "gather (set_msg ctx v4 m2) st3 v4s bss1" using gather_msgv [OF u(5) st3(2,3)] by (simp add: bss1_def)
      have p2: "parts_ok st2 bss1 parts" unfolding bss1_def by (rule parts_ok_append [OF Cons.prems(7) r(8)])
      have p3: "parts_ok st3 bss1 (parts @ [part])"
        unfolding parts_ok_def
      proof (intro allI impI)
        fix j assume "j < length (parts @ [part])"
        then consider "j < length parts" | "j = length parts" by fastforce
        then show "get_msg st3 j = Some ((parts @ [part]) ! j)
            \<and> fst ((parts @ [part]) ! j) + snd ((parts @ [part]) ! j) \<le> length bss1"
          using p2 st3(4,5) l1 by cases (auto simp: parts_ok_def nth_append part_def)
      qed
      have le: "bit_i + length (ips v4) + npending ips v4s \<le> 24" "length bss1 + length v4s + npending ips v4s \<le> length (s_iov st3)"
        "length (parts @ [part]) + length v4s \<le> length (s_msgv st3)"
        using Cons.prems(5,6,8) xframeD(1,2) [OF fr] l1 missing_length [of ex bit_i "ips v4"] by auto
      from Cons.IH [OF v4(2) u(4) a g3 le(1,2) p3 le(3)]
      obtain ctx' st' bss' parts' where IH: "end_add_ip_ipset_loop be e v4s (length bss1) (length (parts @ [part])) (bit_i + length (ips v4)) (set_msg ctx v4 m2) st3
          = Some (length parts', ctx', st')" "xframe st3 st'" "ctx_inv0 be True F (\<lambda>_. []) ctx'" "gather ctx' st' [] bss'"
        "parts_ok st' bss' parts'"
        "map (part_bytes bss') parts' = map (part_bytes bss1) (parts @ [part]) @ add_requests be True F ex ips (bit_i + length (ips v4)) v4s"
        "length parts' \<le> length (parts @ [part]) + length v4s" by blast
      have "map (part_bytes bss1) (parts @ [part]) = map (part_bytes bss) parts @ [add_request be True v4 f ?new]"
        unfolding bss1_def using part_bytes_append [OF Cons.prems(7)] by (simp add: part_bytes_def part_def add_request_def)
      then show ?thesis
        using step IH(1,3-7) new f xframe_trans [OF fr IH(2)]
        by (intro exI [of _ ctx'] exI [of _ st'] exI [of _ bss'] exI [of _ parts']) (simp add: Let_def)
    qed
  qed
qed

end
