(* ===== verification/Ipset.thy ===== *)
theory Ipset
  imports Ipset_Flush
begin

text \<open>
  The interface of \<^verbatim>\<open>src/ipset.c\<close> against its specification: pending addresses are lists,
  and sending them is a lookup of all of them followed by requests that add exactly those that
  are missing. All operations are shown to refine this for every kernel that answers in the
  format of the netlink protocol, however it accepts, splits, refuses or interrupts the calls.
\<close>

section \<open>Specification\<close>

text \<open>The messages sent for the missing addresses: one transaction in the nft backend.\<close>

definition add_messages :: "bool \<Rightarrow> bool \<Rightarrow> u32 \<Rightarrow> (bool \<Rightarrow> fam option) \<Rightarrow> (nat \<Rightarrow> bool) \<Rightarrow> (bool \<Rightarrow> bytes list) \<Rightarrow> bytes list" where
  "add_messages be is_ipset portid F ex ips =
     (let rs = add_requests be is_ipset F ex ips 0 [True, False]
      in if is_ipset then rs
         else if rs = [] then []
         else [batch_msg be portid NFNL_MSG_BATCH_BEGIN @ concat rs @ batch_msg be portid NFNL_MSG_BATCH_END])"

definition flush :: "bool \<Rightarrow> bool \<Rightarrow> u32 \<Rightarrow> impl \<Rightarrow> impl \<Rightarrow> (bool \<Rightarrow> fam option) \<Rightarrow> (bool \<Rightarrow> bytes list) \<Rightarrow> kernel \<Rightarrow> kernel option" where
  "flush be is_ipset portid recv send F ips k = do {
     (bs, k) \<leftarrow> lookup be is_ipset recv send (queries F ips [True, False]) k;
     let ms = add_messages be is_ipset portid F (hit bs) ips;
     if ms = [] then Some k
     else do {
       (r, k) \<leftarrow> sendall (SENDMMSG send) ms k;
       if r < 0 then Some k
       else (case RECVMMSG recv (replicate (max (length ms) 2) NLMSGERR_SPACE) MSG_DONTWAIT k of (_, _, k) \<Rightarrow> Some k) } }"

section \<open>end_add_ip\<close>

lemma length_add_requests: "length (add_requests be is F ex ips i v4s) \<le> length v4s"
  by (induction v4s arbitrary: i) (auto simp: Let_def intro: le_SucI)

lemma next_ip_eqs:
  "next_ip_ipset ctx v4 (Some p) = Some (p + elemsz True v4)" "next_ip_nftset ctx v4 (Some p) = Some (p + elemsz False v4)"
  "next_ip_ipset ctx v4 None = map_option (\<lambda>b. unat b + 12) (a_baselen ctx v4)"
  "next_ip_nftset ctx v4 None = map_option (\<lambda>b. unat b + 12) (a_baselen ctx v4)"
  by (simp_all only: next_ip_ipset_def next_ip_nftset_def option.case elemsz_simps map_conv_bind_option)
    (simp_all add: NLA_HDRLEN_def comp_def)

lemma ctx_inv0_start: "add_ctx_inv be is F ips ctx \<Longrightarrow> ctx_inv0 be is F (pend [True, False] ips) ctx"
proof -
  assume inv: "add_ctx_inv be is F ips ctx"
  have "pend [True, False] ips = ips" by (rule ext) (simp add: pend_def)
  moreover have "a_ipcnt ctx = (\<lambda>v. length (ips v))" using add_ctx_invD(1) [OF inv] by (rule ext)
  then have "ctx\<lparr>a_ipcnt := (\<lambda>v. length (ips v))\<rparr> = ctx" by simp
  ultimately show ?thesis using inv by (simp add: ctx_inv0_def)
qed

lemma end_add_ip_ipset_spec:
  assumes inv: "add_ctx_inv be True F ips ctx" and ready: "st_ready be True st" and ok: "kernel_ok be True (net st)"
    and pend: "0 < npending ips [True, False]"
  shows "\<exists>bs k ctx' st'. lookup be True (recv_impl st) (send_impl st) (queries F ips [True, False]) (net st) = Some (bs, k)
    \<and> end_add_ip_ipset be ctx st = Some (length (add_messages be True (s_portid st) F (hit bs) ips), ctx', st')
    \<and> sframe st st' \<and> net st' = k \<and> ctx_inv0 be True F (\<lambda>_. []) ctx'
    \<and> (\<forall>i < length (add_messages be True (s_portid st) F (hit bs) ips).
         msg_bytes (add_env ctx') st' i = Some (add_messages be True (s_portid st) F (hit bs) ips ! i))"
proof -
  from test_ips_spec [where nx = "next_ip_ipset ctx", OF inv next_ip_eqs(1,3) ready ok pend]
  obtain bs k e st1 where t: "lookup be True (recv_impl st) (send_impl st) (queries F ips [True, False]) (net st) = Some (bs, k)"
    "test_ips be ctx (replicate (bitvec_n (IP_N * 2)) 0) (next_ip_ipset ctx) st = Some (e, st1)"
    "\<forall>j < 24. bitvec_get e j = Some (hit bs j)" "sframe st st1" "net st1 = k" by blast
  have cnt: "length (ips v4) \<le> 10" for v4 using add_ctx_invD(2) [OF inv, of v4] by (simp add: IP_N_def)
  have cnt2: "npending ips [True, False] \<le> 20" using cnt [of True] cnt [of False] by simp
  have len: "length (s_iov st1) = 40" "length (s_msgv st1) = 20"
    using ready sframeD(9,10) [OF t(4)] by (simp_all add: st_ready_def IOV_N_def MSG_N_def IP_N_def)
  have g: "gather ctx st1 [True, False] []" "parts_ok st1 [] []" by (simp_all add: gather_def parts_ok_def)
  have c: "\<forall>v \<in> set [True, False]. a_ipcnt ctx v = length (ips v)" using add_ctx_invD(1) [OF inv] by simp
  have le: "0 + npending ips [True, False] \<le> 24" "length ([] :: bytes list) + length [True, False] + npending ips [True, False] \<le> length (s_iov st1)"
    "length ([] :: (nat \<times> nat) list) + length [True, False] \<le> length (s_msgv st1)"
    using cnt2 len by simp_all
  have "distinct [True, False]" by simp
  from ipset_loop [OF t(3) this ctx_inv0_start [OF inv] c g(1) le(1,2) g(2) le(3)]
  obtain ctx' st' bss' parts' where l: "end_add_ip_ipset_loop be e [True, False] 0 0 0 ctx st1 = Some (length parts', ctx', st')"
    "xframe st1 st'" "ctx_inv0 be True F (\<lambda>_. []) ctx'" "gather ctx' st' [] bss'" "parts_ok st' bss' parts'"
    "map (part_bytes bss') parts' = add_requests be True F (hit bs) ips 0 [True, False]"
    by (auto simp del: add_requests.simps)
  let ?ms = "add_messages be True (s_portid st) F (hit bs) ips"
  have ms: "?ms = map (part_bytes bss') parts'" using l(6) by (simp add: add_messages_def del: add_requests.simps)
  have "msg_bytes (add_env ctx') st' i = Some (?ms ! i)" if "i < length ?ms" for i
  proof -
    have i: "i < length parts'" using that ms by simp
    then have "get_msg st' i = Some (fst (parts' ! i), snd (parts' ! i))" "fst (parts' ! i) + snd (parts' ! i) \<le> length bss'"
      using l(5) by (simp_all add: parts_ok_def)
    from gather_msg [OF l(4) this] show ?thesis using i ms by (simp add: part_bytes_def)
  qed
  moreover have "end_add_ip_ipset be ctx st = Some (length ?ms, ctx', st')"
    using t(2) l(1) ms by (simp add: end_add_ip_ipset_def del: end_add_ip_ipset_loop.simps)
  moreover have "sframe st st'" using t(4) xframe_sframe [OF l(2)] by (rule sframe_trans)
  moreover have "net st' = k" using t(5) xframeD(6) [OF l(2)] by simp
  ultimately show ?thesis using t(1) l(3) by blast
qed

lemma end_add_ip_nftset_spec:
  assumes inv: "add_ctx_inv be False F ips ctx" and ready: "st_ready be False st" and ok: "kernel_ok be False (net st)"
    and pend: "0 < npending ips [True, False]"
  shows "\<exists>bs k ctx' st'. lookup be False (recv_impl st) (send_impl st) (queries F ips [True, False]) (net st) = Some (bs, k)
    \<and> end_add_ip_nftset be ctx st = Some (length (add_messages be False (s_portid st) F (hit bs) ips), ctx', st')
    \<and> sframe st st' \<and> net st' = k \<and> ctx_inv0 be False F (\<lambda>_. []) ctx'
    \<and> (\<forall>i < length (add_messages be False (s_portid st) F (hit bs) ips).
         msg_bytes (add_env ctx') st' i = Some (add_messages be False (s_portid st) F (hit bs) ips ! i))"
proof -
  from test_ips_spec [where nx = "next_ip_nftset ctx", OF inv next_ip_eqs(2,4) ready ok pend]
  obtain bs k e st1 where t: "lookup be False (recv_impl st) (send_impl st) (queries F ips [True, False]) (net st) = Some (bs, k)"
    "test_ips be ctx (replicate (bitvec_n (IP_N * 2)) 0) (next_ip_nftset ctx) st = Some (e, st1)"
    "\<forall>j < 24. bitvec_get e j = Some (hit bs j)" "sframe st st1" "net st1 = k" by blast
  let ?b = "batch_msg be (s_portid st) NFNL_MSG_BATCH_BEGIN" and ?e = "batch_msg be (s_portid st) NFNL_MSG_BATCH_END"
  have batch: "s_batch_begin st1 = ?b" "s_batch_end st1 = ?e"
    using ready sframeD(1,2) [OF t(4)] by (auto simp: st_ready_def)
  have lenb: "length (batch_msg be p x) = HEADER_SIZE" for p x by (simp add: batch_msg_def HEADER_SIZE_def)
  have cnt: "length (ips v4) \<le> 10" for v4 using add_ctx_invD(2) [OF inv, of v4] by (simp add: IP_N_def)
  have cnt2: "npending ips [True, False] \<le> 20" using cnt [of True] cnt [of False] by simp
  have len1: "length (s_iov st1) = 40" "length (s_msgv st1) = 20"
    using ready sframeD(9,10) [OF t(4)] by (simp_all add: st_ready_def IOV_N_def MSG_N_def IP_N_def)
  have "0 < length (s_iov st1)" using len1 by simp
  from set_iov_step [OF this, of BatchBegin 0 HEADER_SIZE] obtain st2 where st2: "set_iov 0 BatchBegin 0 HEADER_SIZE st1 = Some st2"
    "xframe st1 st2" "get_iov st2 0 = Some (BatchBegin, 0, HEADER_SIZE)" by blast
  note fr2 = xframeD [OF st2(2)]
  have "area_bytes (add_env ctx) st2 BatchBegin = Some ?b" using batch fr2 by (simp add: area_bytes_def)
  moreover have "slice_at ?b 0 HEADER_SIZE = Some ?b" using slice_at_prefix [of HEADER_SIZE ?b "[]"] lenb by simp
  ultimately have g: "gather ctx st2 [True, False] [?b]" using st2(3) by (auto simp: gather_def)
  have c: "\<forall>v \<in> set [True, False]. a_ipcnt ctx v = length (ips v)" using add_ctx_invD(1) [OF inv] by simp
  have le: "0 + npending ips [True, False] \<le> 24" "length [?b] + length [True, False] + npending ips [True, False] \<le> length (s_iov st2)"
    using cnt2 len1 fr2(1) by simp_all
  let ?rs = "add_requests be False F (hit bs) ips 0 [True, False]"
  have "distinct [True, False]" by simp
  from nft_loop [OF t(3) this ctx_inv0_start [OF inv] c g le]
  obtain ctx' st3 bss' where l0: "end_add_ip_nftset_loop be e [True, False] (length [?b]) 0 ctx st2 = Some (length bss', ctx', st3)"
    "xframe st2 st3" "ctx_inv0 be False F (\<lambda>_. []) ctx'" "gather ctx' st3 [] bss'" "concat bss' = concat [?b] @ concat ?rs"
    "length bss' \<le> length [?b] + length [True, False] + npending ips [True, False]"
    "if ?rs = [] then bss' = [?b] else length [?b] < length bss'" by blast
  have l: "end_add_ip_nftset_loop be e [True, False] 1 0 ctx st2 = Some (length bss', ctx', st3)"
    "xframe st2 st3" "ctx_inv0 be False F (\<lambda>_. []) ctx'" "gather ctx' st3 [] bss'" "concat bss' = ?b @ concat ?rs"
    "length bss' \<le> 3 + npending ips [True, False]"
    using l0(1-6) by (simp_all del: add_requests.simps end_add_ip_nftset_loop.simps npending_simps)
  have grow: "?rs = [] \<Longrightarrow> bss' = [?b]" "?rs \<noteq> [] \<Longrightarrow> 1 < length bss'"
    using l0(7) by (simp_all only: if_True if_False refl length_Cons list.size)
  have fr3: "sframe st st3" using t(4) xframe_sframe [OF xframe_trans [OF st2(2) l(2)]] by (rule sframe_trans)
  have net3: "net st3 = k" using t(5) fr2 xframeD(6) [OF l(2)] by simp
  let ?ms = "add_messages be False (s_portid st) F (hit bs) ips"
  show ?thesis
  proof (cases "?rs = []")
    case True
    then have "length bss' \<le> 1" "?ms = []" using grow(1) by (simp_all add: add_messages_def del: add_requests.simps)
    then have "end_add_ip_nftset be ctx st = Some (length ?ms, ctx', st3)"
      using t(2) st2(1) l(1) by (simp add: end_add_ip_nftset_def del: end_add_ip_nftset_loop.simps)
    then show ?thesis using t(1) fr3 net3 l(3) \<open>?ms = []\<close>
      by (intro exI [of _ bs] exI [of _ k] exI [of _ ctx'] exI [of _ st3]) simp
  next
    case False
    then have long: "\<not> length bss' \<le> 1" using grow(2) by simp
    have ms: "?ms = [?b @ concat ?rs @ ?e]" using False by (simp add: add_messages_def del: add_requests.simps)
    have "length bss' < length (s_iov st3)" using l(6) cnt2 len1 fr2(1) xframeD(1) [OF l(2)] by simp
    from set_iov_step [OF this, of BatchEnd 0 HEADER_SIZE] obtain st4 where st4: "set_iov (length bss') BatchEnd 0 HEADER_SIZE st3 = Some st4"
      "xframe st3 st4" "get_iov st4 (length bss') = Some (BatchEnd, 0, HEADER_SIZE)" "\<forall>j. j \<noteq> length bss' \<longrightarrow> get_iov st4 j = get_iov st3 j"
      by blast
    have "0 < length (s_msgv st4)" using len1 fr2(2) xframeD(2) [OF l(2)] xframeD(2) [OF st4(2)] by simp
    from set_MSGHDR_step [OF this, of 0 "length bss' + 1"] obtain st5 where st5: "set_MSGHDR 0 0 (length bss' + 1) st4 = Some st5"
      "xframe st4 st5" "s_iov st5 = s_iov st4" "get_msg st5 0 = Some (0, length bss' + 1)" by blast
    have fr5: "xframe st3 st5" using st4(2) st5(2) by (rule xframe_trans)
    have iov5: "get_iov st5 (length bss') = Some (BatchEnd, 0, HEADER_SIZE)" "\<And>j. j < length bss' \<Longrightarrow> get_iov st5 j = get_iov st3 j"
      using st4(3,4) get_iov_eq [OF st5(3)] by auto
    have g5: "gather ctx' st5 [] bss'"
      using l(4) iov5(2) unfolding gather_def area_bytes_xframe [OF fr5] by auto
    have "area_bytes (add_env ctx') st5 BatchEnd = Some ?e"
      using batch fr2(5) xframeD(5) [OF l(2)] xframeD(5) [OF fr5] by (simp add: area_bytes_def)
    moreover have "slice_at ?e 0 HEADER_SIZE = Some ?e" using slice_at_prefix [of HEADER_SIZE ?e "[]"] lenb by simp
    ultimately have "gather ctx' st5 [] (bss' @ [?e])"
      using iov5(1) by (intro gather_append [OF g5]) auto
    from gather_msg [OF this st5(4)] have "msg_bytes (add_env ctx') st5 0 = Some (?b @ concat ?rs @ ?e)"
      using l(5) by (simp del: add_requests.simps)
    moreover have "end_add_ip_nftset be ctx st = Some (length ?ms, ctx', st5)"
      using t(2) st2(1) l(1) long st4(1) st5(1) ms by (simp add: end_add_ip_nftset_def del: end_add_ip_nftset_loop.simps)
    moreover have "sframe st st5" using fr3 xframe_sframe [OF fr5] by (rule sframe_trans)
    moreover have "net st5 = k" using net3 xframeD(6) [OF fr5] by simp
    ultimately show ?thesis using t(1) l(3) ms
      by (intro exI [of _ bs] exI [of _ k] exI [of _ ctx'] exI [of _ st5]) simp
  qed
qed

section \<open>ipset_end_add_ip\<close>

lemma type_host: "length l = 4 \<Longrightarrow> nlmsg_type be (l @ host16 be t @ rest) = Some t"
  using rdh16_append [of be l t rest] by (simp add: nlmsg_type_def)

text \<open>The kernel is not asked for elements by an add message.\<close>

lemma add_messages_type:
  assumes "m \<in> set (add_messages be False portid F ex ips)"
  shows "nlmsg_type be m \<noteq> Some GETSETELEM"
proof -
  obtain r where "m = batch_msg be portid NFNL_MSG_BATCH_BEGIN @ r"
    using assms by (auto simp: add_messages_def Let_def split: if_splits)
  then have "nlmsg_type be m = Some NFNL_MSG_BATCH_BEGIN"
    by (simp add: batch_msg_def header_tail_def type_host)
  then show ?thesis
    by (simp add: NFNL_MSG_BATCH_BEGIN_def GETSETELEM_def NFNL_SUBSYS_NFTABLES_def NFT_MSG_GETSETELEM_def)
qed

lemma add_messages_replies:
  assumes ok: "kernel_ok be is k" and sent: "k_sent k = old @ take n (add_messages be is portid F ex ips)" "0 < n"
    "add_messages be is portid F ex ips \<noteq> []" and reply: "k_recv k (k_sent k) i fl = Inr m"
  shows "is_error be m"
proof (cases "is")
  case True
  then show ?thesis using ok reply unfolding kernel_ok_def by blast
next
  case False
  let ?ms = "add_messages be is portid F ex ips"
  have "take n ?ms \<noteq> []" using sent(2,3) by simp
  then have "last (k_sent k) \<in> set (take n ?ms)" unfolding sent(1) by (simp add: last_append)
  then have "nlmsg_type be (last (k_sent k)) \<noteq> Some GETSETELEM"
    using add_messages_type False by (metis in_set_takeD)
  then show ?thesis using ok reply unfolding kernel_ok_def by blast
qed

lemma end_add_ip_spec:
  assumes inv: "add_ctx_inv be is F ips ctx" and ready: "st_ready be is st" and ok: "kernel_ok be is (net st)"
    and pend: "0 < npending ips [True, False]"
  shows "\<exists>bs k ctx' st'. lookup be is (recv_impl st) (send_impl st) (queries F ips [True, False]) (net st) = Some (bs, k)
    \<and> end_add_ip be ctx st = Some (length (add_messages be is (s_portid st) F (hit bs) ips), ctx', st')
    \<and> sframe st st' \<and> net st' = k \<and> ctx_inv0 be is F (\<lambda>_. []) ctx'
    \<and> (\<forall>i < length (add_messages be is (s_portid st) F (hit bs) ips).
         msg_bytes (add_env ctx') st' i = Some (add_messages be is (s_portid st) F (hit bs) ips ! i))"
proof (cases "is")
  case True
  have "end_add_ip be ctx st = end_add_ip_ipset be ctx st" using ready True by (simp add: end_add_ip_def st_ready_def)
  then show ?thesis using end_add_ip_ipset_spec [of be F ips ctx st] assms True by (simp only: simp_thms)
next
  case False
  have "end_add_ip be ctx st = end_add_ip_nftset be ctx st" using ready False by (simp add: end_add_ip_def st_ready_def)
  then show ?thesis using end_add_ip_nftset_spec [of be F ips ctx st] assms False by (simp only: simp_thms)
qed

text \<open>What follows once the messages have been sent.\<close>

lemma end_add_ip_recv:
  assumes ready: "st_ready be is st" and n: "0 < n" "n \<le> MSG_N"
    and err: "\<forall>i fl m. k_recv (net st) (k_sent (net st)) i fl = Inr m \<longrightarrow> is_error be m"
  shows "\<exists>x ms k st'. RECVMMSG (recv_impl st) (replicate n NLMSGERR_SPACE) MSG_DONTWAIT (net st) = (x, ms, k)
    \<and> do {
        st \<leftarrow> init_nlerr_msgv n st;
        (r, st) \<leftarrow> recv_res n st;
        if r = 0 then Some (ctx, st)
        else do {
          errcodes \<leftarrow> those (map (\<lambda>i. Option.bind (res_at st i) (nlmsg_errcode be)) [0 ..< nat r]);
          Some (ctx, st) } } = Some (ctx, st')
    \<and> sframe st st' \<and> net st' = k"
proof -
  from ready have len: "length (s_iov st) = IOV_N" "length (s_msgv st) = MSG_N" "length (s_buf_res st) = BUFSZ_RES"
    by (auto simp: st_ready_def)
  from init_nlerr_msgv_spec [OF n len(1,2)] obtain st1 where st1: "init_nlerr_msgv n st = Some st1" "xframe st st1"
    "recv_slots st1 n" by blast
  note fr1 = xframeD [OF st1(2)]
  have ne: "replicate n NLMSGERR_SPACE \<noteq> []" using n by simp
  from RECVMMSG_spec [OF ne, of "recv_impl st" MSG_DONTWAIT "net st"]
  obtain x ms k where call: "RECVMMSG (recv_impl st) (replicate n NLMSGERR_SPACE) MSG_DONTWAIT (net st) = (x, ms, k)"
    and k: "recv_frame (net st) k" "length ms \<le> n"
    and each: "\<forall>j < length ms. \<exists>n' fl m. k_recv (net st) (k_sent (net st)) n' fl = Inr m \<and> ms ! j = take (replicate n NLMSGERR_SPACE ! j) m"
    by auto
  have call1: "RECVMMSG (recv_impl st1) (replicate n NLMSGERR_SPACE) MSG_DONTWAIT (net st1) = (x, ms, k)"
    using call fr1 by simp
  from recv_res_spec [OF st1(3) n _ call1] len fr1 obtain r b where r: "recv_res n st1 = Some (r, st1\<lparr>net := k, s_buf_res := b\<rparr>)"
    "if ms = [] then r \<le> 0 else r = int (length ms)" "length b = BUFSZ_RES"
    "\<forall>j < length ms. take (length (ms ! j)) (drop (NLMSGERR_SPACE * j) b) = ms ! j" by auto
  let ?st2 = "st1\<lparr>net := k, s_buf_res := b\<rparr>"
  have fr2: "sframe st ?st2"
  proof -
    have "sframe st1 ?st2" using r(3) len fr1 k(1) by (simp add: sframe_def recv_frame_def)
    then show ?thesis using xframe_sframe [OF st1(2)] sframe_trans by blast
  qed
  have "\<exists>e. Option.bind (res_at ?st2 i) (nlmsg_errcode be) = Some e" if "i < nat r" for i
  proof -
    have i: "i < length ms" using that r(2) by (auto split: if_splits)
    then obtain n' fl m where m: "k_recv (net st) (k_sent (net st)) n' fl = Inr m" "ms ! i = take NLMSGERR_SPACE m"
      using each k(2) by fastforce
    have e: "is_error be (ms ! i)" using reply_take(2) [OF err [rule_format, OF m(1)], of NLMSGERR_SPACE] m(2) by (simp add: NLMSGERR_SPACE_eq)
    have "20 \<le> length (ms ! i)" using e by (simp add: is_error_def)
    moreover have "take (length (ms ! i)) (drop (NLMSGERR_SPACE * i) b) = ms ! i" using r(4) i by blast
    ultimately have "nlmsg_errcode be (drop (NLMSGERR_SPACE * i) b) = nlmsg_errcode be (ms ! i)"
      using response_prefix(2) by blast
    moreover have "get_iov ?st2 i = Some (ResBuf, NLMSGERR_SPACE * i, NLMSGERR_SPACE)"
      using st1(3) i k(2) get_iov_eq [of ?st2 st1] by (simp add: recv_slots_def)
    ultimately show ?thesis using errcode_total [OF e] by (simp add: res_at_def)
  qed
  then have "those (map (\<lambda>i. Option.bind (res_at ?st2 i) (nlmsg_errcode be)) [0 ..< nat r])
      = Some (map (\<lambda>i. the (Option.bind (res_at ?st2 i) (nlmsg_errcode be))) [0 ..< nat r])"
    by (intro those_map_Some) fastforce
  then show ?thesis using call st1(1) r(1) fr2 by (intro exI [of _ x] exI [of _ ms] exI [of _ k] exI [of _ ?st2]) simp
qed

lemma ctx_inv0_reset:
  "ctx_inv0 be is F (\<lambda>_. []) ctx \<Longrightarrow> add_ctx_inv be is F (\<lambda>_. []) (ctx\<lparr>a_ipcnt := (a_ipcnt ctx)(True := 0, False := 0)\<rparr>)"
proof -
  have "(a_ipcnt ctx)(True := 0, False := 0) = (\<lambda>v. length ([] :: bytes list))" by (rule ext) simp
  then show "ctx_inv0 be is F (\<lambda>_. []) ctx \<Longrightarrow> add_ctx_inv be is F (\<lambda>_. []) (ctx\<lparr>a_ipcnt := (a_ipcnt ctx)(True := 0, False := 0)\<rparr>)"
    unfolding ctx_inv0_def by (simp only:)
qed

lemma add_env_ipcnt [simp]: "add_env (ctx\<lparr>a_ipcnt := g\<rparr>) = add_env ctx"
  by (rule ext) (simp add: add_env_def split: area.splits)

lemma ipset_end_add_ip_spec:
  assumes inv: "add_ctx_inv be is F ips ctx" and ready: "st_ready be is st" and ok: "kernel_ok be is (net st)"
  shows "\<exists>ctx' st'. ipset_end_add_ip be ctx st = Some (ctx', st') \<and> add_ctx_inv be is F (\<lambda>_. []) ctx' \<and> sframe st st'
    \<and> (if npending ips [True, False] = 0 then ctx' = ctx \<and> st' = st
       else flush be is (s_portid st) (recv_impl st) (send_impl st) F ips (net st) = Some (net st'))"
proof (cases "npending ips [True, False] = 0")
  case True
  then have "ips = (\<lambda>_. [])" by (auto simp: fun_eq_iff all_bool_eq)
  moreover have "ipset_end_add_ip be ctx st = Some (ctx, st)"
    using True add_ctx_invD(1) [OF inv] by (simp add: ipset_end_add_ip_def)
  ultimately show ?thesis using inv True by auto
next
  case False
  then have pend: "0 < npending ips [True, False]" by (simp only: neq0_conv)
  from end_add_ip_spec [OF inv ready ok pend]
  obtain bs k ctx1 st1 where e: "lookup be is (recv_impl st) (send_impl st) (queries F ips [True, False]) (net st) = Some (bs, k)"
    "end_add_ip be ctx st = Some (length (add_messages be is (s_portid st) F (hit bs) ips), ctx1, st1)"
    "sframe st st1" "net st1 = k" "ctx_inv0 be is F (\<lambda>_. []) ctx1"
    "\<forall>i < length (add_messages be is (s_portid st) F (hit bs) ips).
       msg_bytes (add_env ctx1) st1 i = Some (add_messages be is (s_portid st) F (hit bs) ips ! i)" by blast
  define ms where "ms = add_messages be is (s_portid st) F (hit bs) ips"
  define ctx2 where "ctx2 = ctx1\<lparr>a_ipcnt := (a_ipcnt ctx1)(True := 0, False := 0)\<rparr>"
  have inv2: "add_ctx_inv be is F (\<lambda>_. []) ctx2" unfolding ctx2_def by (rule ctx_inv0_reset [OF e(5)])
  note fr1 = sframeD [OF e(3)]
  have cnt: "a_ipcnt ctx True + a_ipcnt ctx False \<noteq> 0" using pend add_ctx_invD(1) [OF inv] by simp
  have start: "ipset_end_add_ip be ctx st =
     (if length ms = 0 then Some (ctx2, st1)
      else do {
        (r, st) \<leftarrow> send_req (add_env ctx1) (length ms) st1;
        if r < 0 then Some (ctx2, st)
        else do {
          st \<leftarrow> init_nlerr_msgv (max (length ms) 2) st;
          (r, st) \<leftarrow> recv_res (max (length ms) 2) st;
          if r = 0 then Some (ctx2, st)
          else do {
            errcodes \<leftarrow> those (map (\<lambda>i. Option.bind (res_at st i) (nlmsg_errcode be)) [0 ..< nat r]);
            Some (ctx2, st) } } })"
    unfolding ipset_end_add_ip_def if_not_P [OF cnt] e(2) ms_def [symmetric] Option.bind.bind_lunit prod.case Let_def
      ctx2_def [symmetric] by (simp add: ctx2_def)
  have flush: "flush be is (s_portid st) (recv_impl st) (send_impl st) F ips (net st) =
     (if ms = [] then Some k
      else do {
        (r, k) \<leftarrow> sendall (SENDMMSG (send_impl st)) ms k;
        if r < 0 then Some k
        else (case RECVMMSG (recv_impl st) (replicate (max (length ms) 2) NLMSGERR_SPACE) MSG_DONTWAIT k of (_, _, k) \<Rightarrow> Some k) })"
    unfolding flush_def e(1) Option.bind.bind_lunit prod.case ms_def [symmetric] Let_def ..
  show ?thesis
  proof (cases "ms = []")
    case True
    then have "ipset_end_add_ip be ctx st = Some (ctx2, st1)" using start by simp
    then show ?thesis using inv2 e(3,4) flush True False by (intro exI [of _ ctx2] exI [of _ st1]) (simp del: npending_simps)
  next
    case ne: False
    have le2: "length ms \<le> 2"
      using length_add_requests [of be "is" F "hit bs" ips 0 "[True, False]"]
      by (auto simp: ms_def add_messages_def Let_def simp del: add_requests.simps)
    then have n: "0 < length ms" "length ms \<le> MSG_N" using ne by (auto simp: MSG_N_def IP_N_def)
    have live: "interrupts_end (net st1)" using sframe_kernel_ok [OF e(3) ok] by (simp add: kernel_ok_def)
    from send_req_eq [OF refl _ n live, of "add_env ctx1"] e(6)
    obtain r k1 where r: "sendall (SENDMMSG (send_impl st1)) ms (net st1) = Some (r, k1)"
      "send_req (add_env ctx1) (length ms) st1 = Some (r, st1\<lparr>net := k1\<rparr>)" "same_oracles (net st1) k1" "r = -1 \<or> 0 < r"
      "k_sent k1 = k_sent (net st1) @ take (nat r) ms" unfolding ms_def by blast
    let ?st2 = "st1\<lparr>net := k1\<rparr>"
    have fr2: "sframe st ?st2"
    proof -
      have "sframe st1 ?st2" using r(3) by (simp add: sframe_def same_oracles_def)
      then show ?thesis using e(3) sframe_trans by blast
    qed
    have send: "sendall (SENDMMSG (send_impl st)) ms k = Some (r, k1)" using r(1) fr1 e(4) by simp
    show ?thesis
    proof (cases "r < 0")
      case True
      then have "ipset_end_add_ip be ctx st = Some (ctx2, ?st2)" using start n r(2) by simp
      then show ?thesis using inv2 fr2 flush send ne False True by (intro exI [of _ ctx2] exI [of _ ?st2]) (simp del: npending_simps)
    next
      case pos: False
      then have rpos: "0 < nat r" using r(4) by auto
      have err: "\<forall>i fl m. k_recv (net ?st2) (k_sent (net ?st2)) i fl = Inr m \<longrightarrow> is_error be m"
      proof (intro allI impI, rule add_messages_replies [OF sframe_kernel_ok [OF fr2 ok], where ex = "hit bs" and portid = "s_portid st"
            and F = F and ips = ips and n = "nat r" and old = "k_sent (net st1)"])
        show "k_sent (net ?st2) = k_sent (net st1) @ take (nat r) (add_messages be is (s_portid st) F (hit bs) ips)"
          using r(5) by (simp add: ms_def)
        show "add_messages be is (s_portid st) F (hit bs) ips \<noteq> []" using ne by (simp add: ms_def)
      qed (use rpos in auto)
      have m2: "0 < max (length ms) 2" "max (length ms) 2 \<le> MSG_N" using le2 by (auto simp: MSG_N_def IP_N_def)
      from end_add_ip_recv [OF sframe_ready [OF fr2 ready] m2 err, where ctx = ctx2]
      obtain x rs k2 st' where rc: "RECVMMSG (recv_impl ?st2) (replicate (max (length ms) 2) NLMSGERR_SPACE) MSG_DONTWAIT (net ?st2) = (x, rs, k2)"
        "do {
          st \<leftarrow> init_nlerr_msgv (max (length ms) 2) ?st2;
          (r, st) \<leftarrow> recv_res (max (length ms) 2) st;
          if r = 0 then Some (ctx2, st)
          else do {
            errcodes \<leftarrow> those (map (\<lambda>i. Option.bind (res_at st i) (nlmsg_errcode be)) [0 ..< nat r]);
            Some (ctx2, st) } } = Some (ctx2, st')" "sframe ?st2 st'" "net st' = k2" by blast
      have "ipset_end_add_ip be ctx st = Some (ctx2, st')"
        unfolding start r(2) Option.bind.bind_lunit prod.case if_not_P [OF pos] rc(2) using ne by simp
      moreover have "flush be is (s_portid st) (recv_impl st) (send_impl st) F ips (net st) = Some k2"
        using flush ne send pos rc(1) fr1 by simp
      ultimately show ?thesis using inv2 sframe_trans [OF fr2 rc(3)] rc(4) False
        by (intro exI [of _ ctx2] exI [of _ st']) (simp del: npending_simps)
    qed
  qed
qed

section \<open>ipset_add_ip\<close>

definition blacklisted :: "bytes \<Rightarrow> bool \<Rightarrow> bool" where
  "blacklisted ip v4 \<longleftrightarrow> (if v4 then ip_value ip div 2 ^ 24 \<in> {0, 127} else ip_value ip \<le> 1)"

lemma ip_value_zero: "ip_value ip = 0 \<longleftrightarrow> ip = replicate (length ip) 0"
proof (induction ip rule: rev_induct)
  case (snoc b ip)
  then show ?case by (auto simp: replicate_append_same [symmetric] unat_eq_zero)
qed simp

lemma in_blacklist_eq:
  assumes "length ip = iplen v4"
  shows "in_blacklist ip v4 = Some (blacklisted ip v4)"
proof (cases v4)
  case True
  then have "length ip = 4" using assms by (simp add: iplen_def IPV4_LEN_def)
  then obtain a b c d where ip: "ip = [a, b, c, d]"
    by (auto simp: length_Suc_conv numeral_eq_Suc)
  have "ip_value ip div 2 ^ 24 = unat a"
  proof -
    have "unat b * 65536 + unat c * 256 + unat d < 16777216"
      using unat_u8_less [of b] unat_u8_less [of c] unat_u8_less [of d] by linarith
    then have "unat b * 65536 + unat c * 256 + unat d < 2 ^ 24" by simp
    moreover have "ip_value ip = unat a * 2 ^ 24 + (unat b * 65536 + unat c * 256 + unat d)"
      by (simp add: ip ip_value_def)
    ultimately show ?thesis by simp
  qed
  moreover have "(unat a = 127) = (a = 127)" "(unat a = 0) = (a = 0)"
    using word_unat_eq_iff [of a 127] word_unat_eq_iff [of a 0] by simp_all
  ultimately show ?thesis using True by (auto simp: in_blacklist_def rd8_def ip blacklisted_def)
next
  case False
  then have len: "length ip = 16" using assms by (simp add: iplen_def IPV6_LEN_def)
  define xs b where xs: "xs = take 15 ip" "b = ip ! 15"
  have ip: "ip = xs @ [b]" "length xs = 15"
    using len take_Suc_conv_app_nth [of 15 ip] by (simp_all add: xs)
  have "ip_value ip \<le> 1 \<longleftrightarrow> xs = replicate 15 0 \<and> unat b \<le> 1"
    using ip_value_zero [of xs] ip by auto
  moreover have "unat b \<le> 1 \<longleftrightarrow> b = 0 \<or> b = 1"
    using word_unat_eq_iff [of b 0] word_unat_eq_iff [of b 1] by auto
  ultimately show ?thesis
    using False ip by (auto simp: in_blacklist_def slice_at_def rd8_def nth_append blacklisted_def)
qed

text \<open>
  The addresses that are never added to a set are exactly those of 0.0.0.0/8 and 127.0.0.0/8,
  and the two IPv6 addresses \<^verbatim>\<open>::\<close> and \<^verbatim>\<open>::1\<close>; the check reads no byte behind the address.
\<close>

lemma in_blacklist_correct:
  assumes "length ip = iplen v4"
  shows "in_blacklist ip v4 = Some (if v4 then ip_value ip div 2 ^ 24 \<in> {0, 127} else ip_value ip \<le> 1)"
  using in_blacklist_eq [OF assms] by (simp add: blacklisted_def)

lemma add_ip_step:
  assumes ready: "st_ready be is st" and msg: "a_msg ctx v4 = Some m" "add_view be is v4 f L ips m"
    and ip: "length ips < 10" "length ip = iplen v4"
  shows "\<exists>m'. add_ip be st ctx v4 ip = Some (set_msg ctx v4 m') \<and> add_view be is v4 f L (ips @ [ip]) m'"
proof -
  have sl: "slice_at ip 0 (iplen v4) = Some ip" using slice_at_prefix [of "iplen v4" ip "[]"] ip(2) by simp
  show ?thesis
  proof (cases "is")
    case True
    have "add_view be True v4 f L ips m" using msg(2) True by simp
    from add_elem_ipset_step [OF this ip]
    obtain p m' where "add_elem_ipset be m (Some ip) v4 = Some (p, m')" "add_view be True v4 f L (ips @ [ip]) m'" by blast
    then show ?thesis
      using ready True msg(1) sl by (intro exI [of _ m']) (simp add: add_ip_def add_ip_ipset_def st_ready_def set_msg_def)
  next
    case False
    have "add_view be False v4 f L ips m" using msg(2) False by simp
    from add_elem_nft_step [OF this ip]
    obtain m' where m': "do {
      (_, m) \<leftarrow> add_elem_nftset be m (Some ip) v4 0;
      (nla, m) \<leftarrow> add_elem_nftset be m (Some ip) v4 NFT_SET_ELEM_INTERVAL_END;
      inc_ip m (nla_data nla) (iplen v4) } = Some m'" "add_view be False v4 f L (ips @ [ip]) m'" by blast
    obtain p1 m1 where m1: "add_elem_nftset be m (Some ip) v4 0 = Some (p1, m1)" using m'(1) by (auto split: Option.bind_splits)
    obtain p2 m2 where m2: "add_elem_nftset be m1 (Some ip) v4 NFT_SET_ELEM_INTERVAL_END = Some (p2, m2)"
      using m'(1) m1 by (auto split: Option.bind_splits)
    have "inc_ip m2 (nla_data p2) (iplen v4) = Some m'" using m'(1) m1 m2 by simp
    then show ?thesis
      using ready False msg(1) sl m1 m2 m'(2) by (intro exI [of _ m']) (simp add: add_ip_def add_ip_nftset_def st_ready_def set_msg_def)
  qed
qed

lemma add_ctx_inv_snoc:
  assumes inv: "add_ctx_inv be is F ips ctx" and f: "F v4 = Some f" and m: "add_inv be is v4 f (ips v4 @ [ip]) m"
    and n: "length (ips v4) < 10" "length ip = iplen v4"
  shows "add_ctx_inv be is F (ips(v4 := ips v4 @ [ip]))
    ((set_msg ctx v4 m)\<lparr>a_ipcnt := (a_ipcnt ctx)(v4 := a_ipcnt ctx v4 + 1)\<rparr>)"
proof -
  let ?ips = "ips(v4 := ips v4 @ [ip])"
  note D = add_ctx_invD [OF inv]
  obtain am where am: "a_msg ctx v4 = Some am" "a_baselen ctx v4 = Some (baselen_of f)" using D(5) [OF f] by blast
  have "case F v of None \<Rightarrow> a_msg (set_msg ctx v4 m) v = None \<and> ?ips v = []
      | Some f \<Rightarrow> \<exists>m'. a_msg (set_msg ctx v4 m) v = Some m' \<and> add_inv be is v f (?ips v) m'
          \<and> a_baselen ctx v = Some (baselen_of f)" for v
  proof (cases "v = v4")
    case True
    then show ?thesis using f m am by simp
  next
    case False
    then show ?thesis using D(4,5) [of v] by (cases "F v") auto
  qed
  moreover have "((a_ipcnt ctx)(v4 := a_ipcnt ctx v4 + 1)) v = length (?ips v) \<and> length (?ips v) \<le> IP_N
      \<and> (\<forall>ip \<in> set (?ips v). length ip = iplen v)" for v
    using D(1-3) n by (auto simp: IP_N_def)
  moreover have "test_ctx_inv be F (a_test ctx)" using inv by (simp add: add_ctx_inv_def)
  moreover have e: "a_test (c\<lparr>a_ipcnt := g\<rparr>) = a_test c" "a_msg (c\<lparr>a_ipcnt := g\<rparr>) = a_msg c"
    "a_baselen (c\<lparr>a_ipcnt := g\<rparr>) = a_baselen c" "a_ipcnt (c\<lparr>a_ipcnt := g\<rparr>) = g" for c :: addctx and g
    by simp_all
  ultimately show ?thesis unfolding add_ctx_inv_def e set_msg_simps(1,2) by blast
qed

text \<open>
  The specification of adding an address: whether it is ignored, whether the pending addresses
  are sent first, and the addresses that are pending afterwards.
\<close>

definition ignores :: "bool \<Rightarrow> (bool \<Rightarrow> fam option) \<Rightarrow> bytes \<Rightarrow> bool \<Rightarrow> bool" where
  "ignores blacklist F ip v4 \<longleftrightarrow> F v4 = None \<or> blacklist \<and> blacklisted ip v4"

definition sends_first :: "(bool \<Rightarrow> bytes list) \<Rightarrow> bool \<Rightarrow> bool" where
  "sends_first ips v4 \<longleftrightarrow> length (ips v4) = IP_N"

definition pending_after :: "(bool \<Rightarrow> bytes list) \<Rightarrow> bytes \<Rightarrow> bool \<Rightarrow> bool \<Rightarrow> bytes list" where
  "pending_after ips ip v4 = (if sends_first ips v4 then (\<lambda>_. [])(v4 := [ip]) else ips(v4 := ips v4 @ [ip]))"

lemma ipset_add_ip_spec:
  assumes inv: "add_ctx_inv be is F ips ctx" and ready: "st_ready be is st" and ok: "kernel_ok be is (net st)"
    and ip: "length ip = iplen v4"
  shows "\<exists>ctx' st'. ipset_add_ip be ctx ip v4 st = Some (ctx', st') \<and> sframe st st'
    \<and> (if ignores (ipset_blacklist st) F ip v4 then ctx' = ctx \<and> st' = st
       else add_ctx_inv be is F (pending_after ips ip v4) ctx'
         \<and> (if sends_first ips v4
            then flush be is (s_portid st) (recv_impl st) (send_impl st) F ips (net st) = Some (net st')
            else st' = st))"
proof (cases "F v4")
  case None
  then have "a_msg ctx v4 = None" using add_ctx_invD(4) [OF inv] by blast
  then show ?thesis using None by (simp add: ipset_add_ip_def ignores_def)
next
  case (Some f)
  obtain m where m: "a_msg ctx v4 = Some m" "add_inv be is v4 f (ips v4) m" "a_baselen ctx v4 = Some (baselen_of f)"
    using add_ctx_invD(5) [OF inv Some] by blast
  have bl: "(if ipset_blacklist st then in_blacklist ip v4 else Some False) = Some (ipset_blacklist st \<and> blacklisted ip v4)"
    using in_blacklist_eq [OF ip] by simp
  show ?thesis
  proof (cases "ipset_blacklist st \<and> blacklisted ip v4")
    case True
    then show ?thesis using m(1) bl by (simp add: ipset_add_ip_def ignores_def)
  next
    case False
    then have ig: "\<not> ignores (ipset_blacklist st) F ip v4" using Some by (simp add: ignores_def)
    let ?set = "\<lambda>ctx. do {
        base \<leftarrow> a_baselen ctx v4;
        msg \<leftarrow> a_msg ctx v4;
        msg \<leftarrow> wrh32 be msg 0 base;
        Some (ctx\<lparr>a_msg := (a_msg ctx)(v4 := Some msg)\<rparr>) }"
    let ?pre = "if a_ipcnt ctx v4 = 0 then do { ctx \<leftarrow> ?set ctx; Some (ctx, st) }
        else if a_ipcnt ctx v4 \<ge> IP_N then do {
          (ctx, st) \<leftarrow> ipset_end_add_ip be ctx st;
          _ \<leftarrow> c_assert (a_ipcnt ctx v4 = 0);
          ctx \<leftarrow> ?set ctx;
          Some (ctx, st) }
        else Some (ctx, st)"
    have run: "ipset_add_ip be ctx ip v4 st = do {
        (ctx, st) \<leftarrow> ?pre;
        ctx \<leftarrow> add_ip be st ctx v4 ip;
        Some (ctx\<lparr>a_ipcnt := (a_ipcnt ctx)(v4 := a_ipcnt ctx v4 + 1)\<rparr>, st) }"
      unfolding ipset_add_ip_def m(1) option.case bl Option.bind.bind_lunit if_not_P [OF False] Let_def ..
    have set_base: "\<exists>m' L. ?set c = Some (set_msg c v4 m') \<and> add_view be is v4 f L [] m'"
      if h: "add_ctx_inv be is F q c" "q v4 = []" for c q
    proof -
      obtain n where n: "a_msg c v4 = Some n" "add_inv be is v4 f [] n" "a_baselen c v4 = Some (baselen_of f)"
        using add_ctx_invD(5) [OF h(1) Some] h(2) by auto
      from add_inv_set_base [OF n(2)] obtain L m' where "wrh32 be n 0 (baselen_of f) = Some m'" "add_view be is v4 f L [] m'" by blast
      then show ?thesis using n by (auto simp: set_msg_def)
    qed
    have "\<exists>c q st1 m' L. ?pre = Some (set_msg c v4 m', st1) \<and> add_ctx_inv be is F q c \<and> sframe st st1
        \<and> add_view be is v4 f L (q v4) m' \<and> length (q v4) < 10 \<and> q(v4 := q v4 @ [ip]) = pending_after ips ip v4
        \<and> (if sends_first ips v4
            then flush be is (s_portid st) (recv_impl st) (send_impl st) F ips (net st) = Some (net st1)
            else st1 = st)"
    proof -
      consider "ips v4 = []" | "ips v4 \<noteq> []" "length (ips v4) < 10" | "length (ips v4) = 10"
        using add_ctx_invD(2) [OF inv, of v4] by (fastforce simp: IP_N_def)
      then show ?thesis
      proof cases
        case 1
        from set_base [OF inv 1] obtain m' L where b: "?set ctx = Some (set_msg ctx v4 m')" "add_view be is v4 f L [] m'" by blast
        have sf: "\<not> sends_first ips v4" using 1 by (simp add: sends_first_def IP_N_def)
        have c0: "a_ipcnt ctx v4 = 0" using 1 add_ctx_invD(1) [OF inv, of v4] by simp
        have "?pre = Some (set_msg ctx v4 m', st)" using b(1) by (simp only: if_P [OF c0] Option.bind.bind_lunit)
        then show ?thesis using inv b(2) 1 sf
          by (intro exI [of _ ctx] exI [of _ ips] exI [of _ st] exI [of _ m'] exI [of _ L]) (simp add: pending_after_def)
      next
        case 2
        from add_inv_view [OF m(2) 2(1)] obtain L where v: "add_view be is v4 f L (ips v4) m" by blast
        have sf: "\<not> sends_first ips v4" using 2 by (simp add: sends_first_def IP_N_def)
        have c: "a_ipcnt ctx v4 \<noteq> 0" "\<not> a_ipcnt ctx v4 \<ge> IP_N"
          using 2 add_ctx_invD(1) [OF inv, of v4] by (simp_all add: IP_N_def)
        have same: "set_msg ctx v4 m = ctx" using m(1) by (simp add: set_msg_def fun_upd_idem)
        have "?pre = Some (set_msg ctx v4 m, st)" unfolding same if_not_P [OF c(1)] if_not_P [OF c(2)] ..
        then show ?thesis using inv v 2(2) sf
          by (intro exI [of _ ctx] exI [of _ ips] exI [of _ st] exI [of _ m] exI [of _ L]) (simp add: pending_after_def)
      next
        case 3
        have sf: "sends_first ips v4" using 3 by (simp add: sends_first_def IP_N_def)
        have c: "a_ipcnt ctx v4 \<noteq> 0" "a_ipcnt ctx v4 \<ge> IP_N"
          using 3 add_ctx_invD(1) [OF inv, of v4] by (simp_all add: IP_N_def)
        have np: "npending ips [True, False] \<noteq> 0" using 3 by (cases v4) auto
        from ipset_end_add_ip_spec [OF inv ready ok] np
        obtain c1 st1 where e: "ipset_end_add_ip be ctx st = Some (c1, st1)" "add_ctx_inv be is F (\<lambda>_. []) c1" "sframe st st1"
          "flush be is (s_portid st) (recv_impl st) (send_impl st) F ips (net st) = Some (net st1)"
          by (auto simp del: npending_simps)
        from set_base [OF e(2)] obtain m' L where b: "?set c1 = Some (set_msg c1 v4 m')" "add_view be is v4 f L [] m'" by blast
        have "a_ipcnt c1 v4 = 0" using add_ctx_invD(1) [OF e(2), of v4] by simp
        then have "?pre = Some (set_msg c1 v4 m', st1)"
          using b(1) by (simp only: if_not_P [OF c(1)] if_P [OF c(2)] e(1) Option.bind.bind_lunit prod.case c_assert_simps refl)
        then show ?thesis using e(2-4) b(2) sf
          by (intro exI [of _ c1] exI [of _ "\<lambda>_. []"] exI [of _ st1] exI [of _ m'] exI [of _ L]) (simp add: pending_after_def)
      qed
    qed
    then obtain c q st1 m' L where pre: "?pre = Some (set_msg c v4 m', st1)" and q: "add_ctx_inv be is F q c" "sframe st st1"
      "add_view be is v4 f L (q v4) m'" "length (q v4) < 10" "q(v4 := q v4 @ [ip]) = pending_after ips ip v4"
      and fl: "if sends_first ips v4
          then flush be is (s_portid st) (recv_impl st) (send_impl st) F ips (net st) = Some (net st1) else st1 = st"
      by blast
    have "a_msg (set_msg c v4 m') v4 = Some m'" by simp
    from add_ip_step [OF sframe_ready [OF q(2) ready] this q(3,4) ip]
    obtain m2 where m2: "add_ip be st1 (set_msg c v4 m') v4 ip = Some (set_msg (set_msg c v4 m') v4 m2)"
      "add_view be is v4 f L (q v4 @ [ip]) m2" by blast
    have idem: "set_msg (set_msg c v4 m') v4 m2 = set_msg c v4 m2" by (simp add: set_msg_def)
    let ?c = "(set_msg c v4 m2)\<lparr>a_ipcnt := (a_ipcnt c)(v4 := a_ipcnt c v4 + 1)\<rparr>"
    have "ipset_add_ip be ctx ip v4 st = Some (?c, st1)"
      unfolding run pre Option.bind.bind_lunit prod.case m2(1) idem set_msg_simps ..
    moreover have "add_ctx_inv be is F (pending_after ips ip v4) ?c"
      using add_ctx_inv_snoc [OF q(1) Some add_view_inv [OF m2(2)] q(4) ip] q(5) by simp
    ultimately show ?thesis using ig fl q(2)
      by (intro exI [of _ ?c] exI [of _ st1]) (simp only: if_False simp_thms)
  qed
qed

section \<open>ipset_test_ip\<close>

lemma test_inv_put:
  assumes "test_inv be v4 q m" "length ip = iplen v4"
  shows "\<exists>p m' l. t_ip be m v4 = Some p \<and> put m p ip = Some m' \<and> test_inv be v4 q m' \<and> nlmsg_len be m' = Some l
    \<and> slice_at m' 0 (unat l) = Some (q @ ip)"
proof -
  obtain ip0 fr where m: "m = q @ ip0 @ fr" "length ip0 = iplen v4" "4 \<le> length q"
    "take 4 q = host32 be (word_of_nat (length q + iplen v4))" "length q + iplen v4 < 65536"
    using assms(1) by (auto simp: test_inv_def)
  let ?l = "word_of_nat (length q + iplen v4) :: u32"
  have q: "q = host32 be ?l @ drop 4 q" using m(4) append_take_drop_id [of 4 q] by simp
  have len: "nlmsg_len be (q @ r) = Some ?l" for r
  proof -
    have "q @ r = host32 be ?l @ drop 4 q @ r" using arg_cong [OF q, of "\<lambda>x. x @ r"] by (simp only: append_assoc)
    then show ?thesis using rdh32_append [of be "[]" ?l "drop 4 q @ r"] by (simp only: nlmsg_len_def append_Nil list.size)
  qed
  have l: "unat ?l = length q + iplen v4" using m(5) by (simp only: unat_of_nat) (simp add: take_bit_nat_eq_self)
  have "t_ip be m v4 = Some (length q)"
    using len [of "ip0 @ fr"] m(1) l by (simp add: t_ip_def nlmsg_dataend_def)
  moreover have "put m (length q) ip = Some (q @ ip @ fr)" using m(1,2) assms(2) by (simp add: put_at)
  moreover have "test_inv be v4 q (q @ ip @ fr)" using m(3-5) assms(2) unfolding test_inv_def by blast
  moreover have "slice_at (q @ ip @ fr) 0 (unat ?l) = Some (q @ ip)"
    using slice_at_prefix [of "unat ?l" "q @ ip" fr] l assms(2) by simp
  ultimately show ?thesis using len [of "ip @ fr"] by blast
qed

text \<open>Receiving into the whole of \<open>s_buf_res\<close>.\<close>

lemma recv_one:
  assumes ready: "st_ready be is st" and slot: "get_msg st 0 = Some (0, 1)" "get_iov st 0 = Some (ResBuf, 0, BUFSZ_RES)"
    and call: "RECVMMSG (recv_impl st) [BUFSZ_RES] MSG_DONTWAIT (net st) = ((n, e), ms, k)"
  shows "\<exists>b. recv_res 1 st = Some (if n < 0 \<and> e = EAGAIN then 0 else n, st\<lparr>net := k, s_buf_res := b\<rparr>) \<and> length b = BUFSZ_RES
    \<and> (ms = [] \<and> n = -1 \<or> (\<exists>m i fl. n = 1 \<and> ms = [take BUFSZ_RES m] \<and> k_recv (net st) (k_sent (net st)) i fl = Inr m
          \<and> take (length (hd ms)) b = hd ms))"
proof -
  have buf: "length (s_buf_res st) = BUFSZ_RES" using ready by (simp add: st_ready_def)
  have ne: "[BUFSZ_RES] \<noteq> []" by simp
  from RECVMMSG_spec [OF ne, of "recv_impl st" MSG_DONTWAIT "net st"] call
  have n: "n = (if ms = [] then -1 else int (length ms))" and len: "length ms \<le> 1"
    and each: "\<forall>j < length ms. \<exists>n' fl m. k_recv (net st) (k_sent (net st)) n' fl = Inr m \<and> ms ! j = take ([BUFSZ_RES] ! j) m"
    by auto
  have rooms: "those (map (msg_room st) [0 ..< 1]) = Some [BUFSZ_RES]"
    using slot buf by (simp add: msg_room_def)
  show ?thesis
  proof (cases ms)
    case Nil
    then have "recv_res 1 st = Some (if n < 0 \<and> e = EAGAIN then 0 else n, st\<lparr>net := k, s_buf_res := s_buf_res st\<rparr>)"
      using rooms call n by (simp add: recv_res_def MSG_N_def IP_N_def)
    then show ?thesis using Nil n buf by (intro exI [of _ "s_buf_res st"]) simp
  next
    case (Cons m1 ms1)
    then have ms: "ms = [m1]" "n = 1" using len n by auto
    then obtain i fl m where m: "k_recv (net st) (k_sent (net st)) i fl = Inr m" "m1 = take BUFSZ_RES m"
      using each by auto
    define b where "b = m1 @ drop (length m1) (s_buf_res st)"
    have "put (s_buf_res st) 0 m1 = Some b" using m(2) buf by (simp add: put_def b_def)
    moreover have "get_msg (st\<lparr>net := k\<rparr>) 0 = Some (0, 1)" "get_iov (st\<lparr>net := k\<rparr>) 0 = Some (ResBuf, 0, BUFSZ_RES)"
      using slot get_msg_eq [of "st\<lparr>net := k\<rparr>" st] get_iov_eq [of "st\<lparr>net := k\<rparr>" st] by simp_all
    ultimately have "store_msgs 0 ms (st\<lparr>net := k\<rparr>) = Some (st\<lparr>net := k, s_buf_res := b\<rparr>)"
      using ms by simp
    then have "recv_res 1 st = Some (if n < 0 \<and> e = EAGAIN then 0 else n, st\<lparr>net := k, s_buf_res := b\<rparr>)"
      using rooms call ms(2) by (simp add: recv_res_def MSG_N_def IP_N_def)
    moreover have "length b = BUFSZ_RES" using m(2) buf by (simp add: b_def)
    moreover have "take (length (hd ms)) b = hd ms" using ms by (simp add: b_def)
    ultimately show ?thesis using ms m by blast
  qed
qed

lemma ipset_test_ip_spec:
  assumes inv: "test_ctx_inv be F ctx" and ready: "st_ready be is st" and ok: "kernel_ok be is (net st)"
    and ip: "length ip = iplen v4" and f: "F v4 = Some f"
  shows "\<exists>b ctx' st' r k. ipset_test_ip be ctx ip v4 st = Some (b, ctx', st') \<and> test_ctx_inv be F ctx' \<and> sframe st st'
    \<and> sendall (SENDMMSG (send_impl st)) [q_head f @ ip] (net st) = Some (r, k)
    \<and> (if r < 0 then \<not> b \<and> net st' = k
       else \<exists>n e ms. RECVMMSG (recv_impl st) [BUFSZ_RES] MSG_DONTWAIT k = ((n, e), ms, net st')
          \<and> b = (if ms = [] then e = EAGAIN else present be is (hd ms)))"
proof -
  obtain m where m: "ctx v4 = Some m" "test_inv be v4 (q_head f) m"
    using inv f by (auto simp: test_ctx_inv_def dest!: spec [of _ v4])
  from test_inv_put [OF m(2) ip] obtain p m' l where p: "t_ip be m v4 = Some p" "put m p ip = Some m'"
    "test_inv be v4 (q_head f) m'" "nlmsg_len be m' = Some l" "slice_at m' 0 (unat l) = Some (q_head f @ ip)" by blast
  let ?ctx = "ctx(v4 := Some m')"
  have inv': "test_ctx_inv be F ?ctx"
    unfolding test_ctx_inv_def
  proof
    fix w
    show "case F w of None \<Rightarrow> ?ctx w = None | Some f \<Rightarrow> \<exists>m. ?ctx w = Some m \<and> test_inv be w (q_head f) m"
      using spec [OF inv [unfolded test_ctx_inv_def], of w] f p(3) by (cases "w = v4") (auto split: option.splits)
  qed
  have sl: "slice_at ip 0 (iplen v4) = Some ip" using slice_at_prefix [of "iplen v4" ip "[]"] ip by simp
  have len: "0 < length (s_iov st)" "0 < length (s_msgv st)"
    using ready by (simp_all add: st_ready_def IOV_N_def MSG_N_def IP_N_def)
  from set_iov_step [OF len(1), of "TestMsg v4" 0 "unat l"] obtain st1 where st1: "set_iov 0 (TestMsg v4) 0 (unat l) st = Some st1"
    "xframe st st1" "s_msgv st1 = s_msgv st" "get_iov st1 0 = Some (TestMsg v4, 0, unat l)" by blast
  have "0 < length (s_msgv st1)" using len st1(3) by simp
  from set_MSGHDR_step [OF this, of 0 1] obtain st2 where st2: "set_MSGHDR 0 0 1 st1 = Some st2" "xframe st1 st2"
    "s_iov st2 = s_iov st1" "get_msg st2 0 = Some (0, 1)" by blast
  have fr2: "xframe st st2" using st1(2) st2(2) by (rule xframe_trans)
  note x2 = xframeD [OF fr2]
  have "area_bytes (test_env ?ctx) st2 (TestMsg v4) = Some m'" by (simp add: area_bytes_def test_env_def)
  moreover have "get_iov st2 0 = Some (TestMsg v4, 0, unat l)" using st1(4) get_iov_eq [OF st2(3)] by simp
  ultimately have "iov_bytes (test_env ?ctx) st2 0 = Some (q_head f @ ip)" using p(5) iov_bytes_get by blast
  then have msg: "\<And>i. i < 1 \<Longrightarrow> msg_bytes (test_env ?ctx) st2 i = Some ([q_head f @ ip] ! i)"
    using st2(4) by (simp add: msg_bytes_def)
  have n: "(0::nat) < 1" "1 \<le> MSG_N" by (simp_all add: MSG_N_def IP_N_def)
  have live: "interrupts_end (net st2)" using ok x2 by (simp add: kernel_ok_def)
  have one: "1 = length [q_head f @ ip]" by simp
  from send_req_eq [OF one msg n live] obtain r k where r: "sendall (SENDMMSG (send_impl st2)) [q_head f @ ip] (net st2) = Some (r, k)"
    "send_req (test_env ?ctx) 1 st2 = Some (r, st2\<lparr>net := k\<rparr>)" "same_oracles (net st2) k" by blast
  let ?st3 = "st2\<lparr>net := k\<rparr>"
  have fr3: "sframe st ?st3"
  proof -
    have "sframe st2 ?st3" using r(3) by (simp add: sframe_def same_oracles_def)
    then show ?thesis using xframe_sframe [OF fr2] sframe_trans by blast
  qed
  have send: "sendall (SENDMMSG (send_impl st)) [q_head f @ ip] (net st) = Some (r, k)" using r(1) x2 by simp
  have run: "ipset_test_ip be ctx ip v4 st =
     (if r < 0 then Some (False, ?ctx, ?st3)
      else do {
        st \<leftarrow> set_iov 0 ResBuf 0 BUFSZ_RES ?st3;
        (r, st) \<leftarrow> recv_res 1 st;
        if r = 0 then Some (True, ?ctx, st)
        else if r = 1 then do {
          res \<leftarrow> area_bytes (test_env ?ctx) st ResBuf;
          b \<leftarrow> test_res be st res;
          Some (b, ?ctx, st) }
        else Some (False, ?ctx, st) })"
    unfolding ipset_test_ip_def m(1) option.case p(1,2,4) sl Option.bind.bind_lunit Let_def st1(1) st2(1) r(2) prod.case ..
  show ?thesis
  proof (cases "r < 0")
    case True
    then show ?thesis using run inv' fr3 send
      by (intro exI [of _ False] exI [of _ ?ctx] exI [of _ ?st3] exI [of _ r] exI [of _ k]) simp
  next
    case False
    have "0 < length (s_iov ?st3)" using len sframeD(9) [OF fr3] by simp
    from set_iov_step [OF this, of ResBuf 0 BUFSZ_RES] obtain st4 where st4: "set_iov 0 ResBuf 0 BUFSZ_RES ?st3 = Some st4"
      "xframe ?st3 st4" "s_msgv st4 = s_msgv ?st3" "get_iov st4 0 = Some (ResBuf, 0, BUFSZ_RES)" by blast
    have fr4: "sframe st st4" using fr3 xframe_sframe [OF st4(2)] by (rule sframe_trans)
    have net4: "net st4 = k" using xframeD(6) [OF st4(2)] by simp
    have ready4: "st_ready be is st4" by (rule sframe_ready [OF fr4 ready])
    have m4: "get_msg st4 0 = Some (0, 1)" using st2(4) get_msg_eq [OF st4(3)] get_msg_eq [of ?st3 st2] by simp
    obtain n e ms k' where call: "RECVMMSG (recv_impl st4) [BUFSZ_RES] MSG_DONTWAIT (net st4) = ((n, e), ms, k')"
      by (cases "RECVMMSG (recv_impl st4) [BUFSZ_RES] MSG_DONTWAIT (net st4)") auto
    from recv_one [OF ready4 m4 st4(4) call] obtain b where b: "recv_res 1 st4 = Some (if n < 0 \<and> e = EAGAIN then 0 else n, st4\<lparr>net := k', s_buf_res := b\<rparr>)"
      "length b = BUFSZ_RES" "ms = [] \<and> n = -1 \<or> (\<exists>m i fl. n = 1 \<and> ms = [take BUFSZ_RES m] \<and> k_recv (net st4) (k_sent (net st4)) i fl = Inr m
          \<and> take (length (hd ms)) b = hd ms)" by blast
    let ?st5 = "st4\<lparr>net := k', s_buf_res := b\<rparr>"
    have ne: "[BUFSZ_RES] \<noteq> []" by simp
    have "recv_frame (net st4) k'" using RECVMMSG_spec [OF ne, of "recv_impl st4" MSG_DONTWAIT "net st4"] call by auto
    then have "sframe st4 ?st5" using b(2) ready4 by (simp add: sframe_def recv_frame_def st_ready_def)
    then have fr5: "sframe st ?st5" using fr4 sframe_trans by blast
    have recv: "RECVMMSG (recv_impl st) [BUFSZ_RES] MSG_DONTWAIT k = ((n, e), ms, net ?st5)"
      using call net4 sframeD(7) [OF fr4] by simp
    have goal: "?thesis" if "ipset_test_ip be ctx ip v4 st = Some (x, ?ctx, ?st5)" "x = (if ms = [] then e = EAGAIN else present be is (hd ms))" for x
      using that inv' fr5 send False recv
      by (intro exI [of _ x] exI [of _ ?ctx] exI [of _ ?st5] exI [of _ r] exI [of _ k]) auto
    from b(3) show ?thesis
    proof (elim disjE exE conjE)
      assume "ms = []" "n = -1"
      then show ?thesis using run False st4(1) b(1) by (intro goal [of "e = EAGAIN"]) (auto simp: EAGAIN_def)
    next
      fix mm i fl assume h: "n = 1" "ms = [take BUFSZ_RES mm]" "k_recv (net st4) (k_sent (net st4)) i fl = Inr mm"
        "take (length (hd ms)) b = hd ms"
      have "20 \<le> BUFSZ_RES" by (simp add: BUFSZ_RES_def NLMSGERR_SPACE_eq IP_N_def)
      then have rep: "reply_ok be is (hd ms)" using reply_take(1) [OF kernel_ok_reply [OF sframe_kernel_ok [OF fr4 ok] h(3)]] h(2) by simp
      then have "20 \<le> length (hd ms)" by (auto simp: reply_ok_def is_error_def)
      then have "test_res be ?st5 b = test_res be ?st5 (hd ms)"
        using response_prefix(4,5) [OF h(4), of be] by (simp only: test_res_def)
      also have "\<dots> = Some (present be is (hd ms))"
        using ready4 by (intro test_res_present [OF rep]) (simp add: st_ready_def)
      finally show ?thesis using run False st4(1) b(1) h(1,2)
        by (intro goal [of "present be is (hd ms)"]) (auto simp: area_bytes_def)
    qed
  qed
qed

end
