(* ===== verification/Ipset_Read.thy ===== *)
theory Ipset_Read
  imports Ipset
begin

text \<open>
  How a receiver of netlink messages reads them: attributes one after the other, each with its
  length, its type and padding up to four bytes. The requests to add addresses, read this way,
  name the set of the option and list exactly the addresses that were given, each in the nft
  backend as the interval from itself to the next address.
\<close>

section \<open>Reading attributes\<close>

function read_nlas :: "bool \<Rightarrow> bytes \<Rightarrow> (u16 \<times> bytes) list option" where
  "read_nlas be bs =
     (if bs = [] then Some []
      else if length bs < 4 then None
      else let l = unat (unhost16 be (take 2 bs))
           in if l < 4 \<or> length bs < l then None
              else map_option (Cons (unhost16 be (take 2 (drop 2 bs)), take (l - 4) (drop 4 bs))) (read_nlas be (drop (align4 l) bs)))"
  by pat_completeness auto
termination
proof (relation "measure (\<lambda>(be, bs). length bs)")
  fix be :: bool and bs :: bytes and l
  assume "bs \<noteq> []" "\<not> (l < 4 \<or> length bs < l)"
  moreover have "l \<le> align4 l" by (rule align4_props)
  ultimately show "((be, drop (align4 l) bs), be, bs) \<in> measure (\<lambda>(be, bs). length bs)" by simp
qed simp

declare read_nlas.simps [simp del]

lemma read_nlas_Nil [simp]: "read_nlas be [] = Some []"
  by (simp add: read_nlas.simps)

lemma align4_add: "align4 (4 + n) = 4 + align4 n"
  unfolding align4_def by presburger

lemma read_nlas_nla:
  assumes "length pad = padlen (length d)" "4 + length d < 65536"
  shows "read_nlas be (nla be t d pad @ rest) = map_option (Cons (t, d)) (read_nlas be rest)"
proof -
  let ?b = "nla be t d pad @ rest"
  have l: "unat (unhost16 be (take 2 ?b)) = 4 + length d"
    using assms(2) by (simp add: nla_def take_bit_nat_eq_self unat_of_nat del: of_nat_add)
  have ty: "unhost16 be (take 2 (drop 2 ?b)) = t" "take (4 + length d - 4) (drop 4 ?b) = d" by (simp_all add: nla_def)
  have "align4 (4 + length d) = length (nla be t d pad)"
    using assms(1) align4_props(1) [of "length d"] by (simp add: align4_add padlen_def)
  then have rest: "drop (align4 (4 + length d)) ?b = rest" by simp
  have "?b \<noteq> []" "\<not> length ?b < 4" "\<not> (4 + length d < 4 \<or> length ?b < 4 + length d)"
    by (auto simp: nla_def simp del: append_is_Nil_conv) (metis host_lengths(1) length_0_conv append_is_Nil_conv zero_neq_numeral)
  then show ?thesis
    by (subst read_nlas.simps) (simp only: l if_False Let_def ty rest)
qed

lemma padlen_0 [simp]: "n mod 4 = 0 \<Longrightarrow> padlen n = 0"
  by (simp add: padlen_def align4_props(4))

section \<open>Reading a request\<close>

definition data_value :: u16 where "data_value = or NFTA_DATA_VALUE NLA_F_NET_BYTEORDER"

text \<open>The flags and the address of an element.\<close>

definition read_elem :: "bool \<Rightarrow> bool \<Rightarrow> bool \<Rightarrow> u16 \<times> bytes \<Rightarrow> (bytes \<times> bytes) option" where
  "read_elem be is_ipset v4 e = do {
     as \<leftarrow> read_nlas be (snd e);
     key \<leftarrow> map_of as (or (if is_ipset then IPSET_ATTR_IP else NFTA_SET_ELEM_KEY) NLA_F_NESTED);
     vs \<leftarrow> read_nlas be key;
     ip \<leftarrow> map_of vs (if is_ipset then addr_type v4 else data_value);
     Some (case map_of as NFTA_SET_ELEM_FLAGS of None \<Rightarrow> [] | Some fl \<Rightarrow> fl, ip) }"

definition read_request :: "bool \<Rightarrow> bool \<Rightarrow> bool \<Rightarrow> bytes \<Rightarrow> (bytes list \<times> (bytes \<times> bytes) list) option" where
  "read_request be is_ipset v4 m = do {
     as \<leftarrow> read_nlas be (drop HEADER_SIZE m);
     names \<leftarrow> those (map (map_of as) (if is_ipset then [IPSET_ATTR_SETNAME] else [NFTA_SET_ELEM_LIST_TABLE, NFTA_SET_ELEM_LIST_SET]));
     es \<leftarrow> map_of as (list_type is_ipset);
     es \<leftarrow> read_nlas be es;
     ips \<leftarrow> those (map (read_elem be is_ipset v4) es);
     Some (names, ips) }"

fun target_names :: "target \<Rightarrow> bytes list" where
  "target_names (Set_ipset name) = [name @ [0]]"
| "target_names (Set_nft f t s) = [t @ [0], s @ [0]]"

definition intervals :: "bool \<Rightarrow> bytes \<Rightarrow> (bytes \<times> bytes) list" where
  "intervals is_ipset ip = (if is_ipset then [([], ip)] else [([], ip), (be32_bytes NFT_SET_ELEM_INTERVAL_END, succ_ip ip)])"

lemmas attr_types = IPSET_ATTR_PROTOCOL_def IPSET_ATTR_SETNAME_def IPSET_ATTR_LINENO_def IPSET_ATTR_ADT_def
  IPSET_ATTR_DATA_def IPSET_ATTR_IP_def IPSET_ATTR_IPADDR_IPV4_def IPSET_ATTR_IPADDR_IPV6_def NFTA_SET_ELEM_LIST_TABLE_def
  NFTA_SET_ELEM_LIST_SET_def NFTA_SET_ELEM_LIST_ELEMENTS_def NFTA_LIST_ELEM_def NFTA_SET_ELEM_KEY_def
  NFTA_SET_ELEM_FLAGS_def NFTA_DATA_VALUE_def NLA_F_NESTED_def NLA_F_NET_BYTEORDER_def

lemma iplen_mod [simp]: "iplen v4 mod 4 = 0"
  by (simp add: iplen_def IPV4_LEN_def IPV6_LEN_def)

lemma padlen_iplen [simp]: "padlen (4 + iplen v4) = 0" "padlen (8 + iplen v4) = 0" "padlen (16 + iplen v4) = 0"
  by (cases v4; simp add: padlen_def align4_def iplen_def IPV4_LEN_def IPV6_LEN_def)+

lemma read_elem_ipset:
  assumes "length ip = iplen v4"
  shows "read_nlas be (elem_ipset be v4 ip @ rest) = map_option (Cons (or IPSET_ATTR_DATA NLA_F_NESTED,
      nest be IPSET_ATTR_IP (nla be (addr_type v4) ip []))) (read_nlas be rest)"
    "read_elem be True v4 (x, nest be IPSET_ATTR_IP (nla be (addr_type v4) ip [])) = Some ([], ip)"
proof -
  let ?v = "nla be (addr_type v4) ip []"
  have v: "read_nlas be ?v = Some [(addr_type v4, ip)]"
    using read_nlas_nla [of "[]" ip be "addr_type v4" "[]"] assms iplen_bounds [of v4] by simp
  have n: "read_nlas be (nest be IPSET_ATTR_IP ?v) = Some [(or IPSET_ATTR_IP NLA_F_NESTED, ?v)]"
    using read_nlas_nla [of "[]" ?v be "or IPSET_ATTR_IP NLA_F_NESTED" "[]"] assms iplen_bounds [of v4]
    by (simp add: nest_def)
  show "read_nlas be (elem_ipset be v4 ip @ rest) = map_option (Cons (or IPSET_ATTR_DATA NLA_F_NESTED,
      nest be IPSET_ATTR_IP ?v)) (read_nlas be rest)"
    using read_nlas_nla [of "[]" "nest be IPSET_ATTR_IP ?v" be "or IPSET_ATTR_DATA NLA_F_NESTED" rest] assms iplen_bounds [of v4]
    by (simp add: elem_ipset_def nest_def [of be IPSET_ATTR_DATA])
  show "read_elem be True v4 (x, nest be IPSET_ATTR_IP ?v) = Some ([], ip)"
    by (simp add: read_elem_def n v) (simp add: attr_types)
qed

definition nft_flags :: "bool \<Rightarrow> u32 \<Rightarrow> bytes" where
  "nft_flags be fl = (if fl \<noteq> 0 then nla be NFTA_SET_ELEM_FLAGS (be32_bytes fl) [] else [])"

lemma length_nft_flags: "length (nft_flags be fl) = (if fl = 0 then 0 else 8)"
  by (simp add: nft_flags_def)

lemma read_elem_nft:
  fixes be :: bool and fl :: u32
  assumes "length ip = iplen v4"
  defines "x \<equiv> nft_flags be fl @ nest be NFTA_SET_ELEM_KEY (nla be data_value ip [])"
  shows "read_nlas be (elem_nft be fl ip @ rest) = map_option (Cons (or NFTA_LIST_ELEM NLA_F_NESTED, x)) (read_nlas be rest)"
    "read_elem be False v4 (y, x) = Some (if fl = 0 then [] else be32_bytes fl, ip)"
proof -
  let ?v = "nla be data_value ip []"
  have v: "read_nlas be ?v = Some [(data_value, ip)]"
    using read_nlas_nla [of "[]" ip be data_value "[]"] assms iplen_bounds [of v4] by simp
  have k: "read_nlas be (nest be NFTA_SET_ELEM_KEY ?v) = Some [(or NFTA_SET_ELEM_KEY NLA_F_NESTED, ?v)]"
    using read_nlas_nla [of "[]" ?v be "or NFTA_SET_ELEM_KEY NLA_F_NESTED" "[]"] assms iplen_bounds [of v4]
    by (simp add: nest_def)
  have n: "read_nlas be x = Some ((if fl = 0 then [] else [(NFTA_SET_ELEM_FLAGS, be32_bytes fl)])
      @ [(or NFTA_SET_ELEM_KEY NLA_F_NESTED, ?v)])"
    using read_nlas_nla [of "[]" "be32_bytes fl" be NFTA_SET_ELEM_FLAGS "nest be NFTA_SET_ELEM_KEY ?v"] k
    by (simp add: x_def nft_flags_def)
  have e: "elem_nft be fl ip = nla be (or NFTA_LIST_ELEM NLA_F_NESTED) x []"
    by (simp add: elem_nft_def nest_def [of be NFTA_LIST_ELEM] x_def nft_flags_def data_value_def)
  have "length x = (if fl = 0 then 8 else 16) + iplen v4" using assms(1) by (simp add: x_def length_nft_flags)
  then show "read_nlas be (elem_nft be fl ip @ rest) = map_option (Cons (or NFTA_LIST_ELEM NLA_F_NESTED, x)) (read_nlas be rest)"
    unfolding e using iplen_bounds [of v4] by (intro read_nlas_nla) (auto split: if_splits)
  show "read_elem be False v4 (y, x) = Some (if fl = 0 then [] else be32_bytes fl, ip)"
    by (simp add: read_elem_def n v) (auto simp: attr_types)
qed

lemma read_elems:
  assumes "\<forall>ip \<in> set ips. length ip = iplen v4"
  shows "\<exists>es. read_nlas be (concat (map (elem be is v4) ips)) = Some es
    \<and> those (map (read_elem be is v4) es) = Some (concat (map (intervals is) ips))"
  using assms
proof (induction ips)
  case (Cons ip ips)
  obtain es where es: "read_nlas be (concat (map (elem be is v4) ips)) = Some es"
    "those (map (read_elem be is v4) es) = Some (concat (map (intervals is) ips))"
    using Cons by auto
  have len: "length ip = iplen v4" "length (succ_ip ip) = iplen v4" using Cons.prems by auto
  show ?case
  proof (cases "is")
    case True
    let ?e = "(or IPSET_ATTR_DATA NLA_F_NESTED, nest be IPSET_ATTR_IP (nla be (addr_type v4) ip []))"
    have "read_nlas be (concat (map (elem be is v4) (ip # ips))) = Some (?e # es)"
      using read_elem_ipset(1) [OF len(1), of be "concat (map (elem be is v4) ips)"] es(1) True
      by (simp add: elem_def [of be True v4 ip])
    moreover have "those (map (read_elem be is v4) (?e # es)) = Some (concat (map (intervals is) (ip # ips)))"
      using read_elem_ipset(2) [OF len(1), of be] es(2) True by (simp add: intervals_def [of True ip])
    ultimately show ?thesis by blast
  next
    case False
    let ?x = "\<lambda>fl ip. nft_flags be fl @ nest be NFTA_SET_ELEM_KEY (nla be data_value ip [])"
    let ?e = "\<lambda>fl ip. (or NFTA_LIST_ELEM NLA_F_NESTED, ?x fl ip)"
    let ?E = NFT_SET_ELEM_INTERVAL_END
    have "read_nlas be (concat (map (elem be is v4) (ip # ips))) = Some (?e 0 ip # ?e ?E (succ_ip ip) # es)"
      using read_elem_nft(1) [OF len(1), where be = be and fl = 0 and rest = "elem_nft be ?E (succ_ip ip) @ concat (map (elem be is v4) ips)"]
        read_elem_nft(1) [OF len(2), where be = be and fl = ?E and rest = "concat (map (elem be is v4) ips)"] es(1) False
      by (simp add: elem_def [of be False v4 ip])
    moreover have "?E \<noteq> 0" by (simp add: NFT_SET_ELEM_INTERVAL_END_def)
    then have "those (map (read_elem be is v4) (?e 0 ip # ?e ?E (succ_ip ip) # es)) = Some (concat (map (intervals is) (ip # ips)))"
      using read_elem_nft(2) [OF len(1), where be = be and fl = 0] read_elem_nft(2) [OF len(2), where be = be and fl = ?E] es(2) False
      by (simp add: intervals_def [of False ip])
    ultimately show ?thesis by blast
  qed
qed simp

lemma read_set_attrs:
  assumes "pads_ok tg (fst r) (snd r)" "target_ok tg"
  shows "\<exists>as. read_nlas be (add_attrs be tg (fst r) (snd r) @ rest) = map_option ((@) as) (read_nlas be rest)
    \<and> (\<forall>bs. those (map (map_of (as @ bs)) (if is_ipset_target tg then [IPSET_ATTR_SETNAME] else [NFTA_SET_ELEM_LIST_TABLE, NFTA_SET_ELEM_LIST_SET]))
          = Some (target_names tg)
        \<and> map_of (as @ bs) (list_type (is_ipset_target tg)) = map_of bs (list_type (is_ipset_target tg)))"
proof (cases tg)
  case (Set_ipset name)
  let ?as = "[(IPSET_ATTR_PROTOCOL, [IPSET_PROTOCOL]), (IPSET_ATTR_SETNAME, name @ [0]), (IPSET_ATTR_LINENO, host32 be 0)]"
  have "read_nlas be (add_attrs be tg (fst r) (snd r) @ rest) = map_option ((@) ?as) (read_nlas be rest)"
    using assms Set_ipset by (cases "read_nlas be rest") (simp_all add: read_nlas_nla)
  moreover have "\<forall>bs. those (map (map_of (?as @ bs)) [IPSET_ATTR_SETNAME]) = Some [name @ [0]]
      \<and> map_of (?as @ bs) (list_type True) = map_of bs (list_type True)"
    by (simp add: attr_types list_type_def)
  ultimately show ?thesis using Set_ipset by (intro exI [of _ ?as]) simp
next
  case (Set_nft f t s)
  let ?as = "[(NFTA_SET_ELEM_LIST_TABLE, t @ [0]), (NFTA_SET_ELEM_LIST_SET, s @ [0])]"
  have "read_nlas be (add_attrs be tg (fst r) (snd r) @ rest) = map_option ((@) ?as) (read_nlas be rest)"
    using assms Set_nft by (cases "read_nlas be rest") (simp_all add: read_nlas_nla)
  moreover have "\<forall>bs. those (map (map_of (?as @ bs)) [NFTA_SET_ELEM_LIST_TABLE, NFTA_SET_ELEM_LIST_SET]) = Some [t @ [0], s @ [0]]
      \<and> map_of (?as @ bs) (list_type False) = map_of bs (list_type False)"
    by (simp add: attr_types list_type_def)
  ultimately show ?thesis using Set_nft by (intro exI [of _ ?as]) simp
qed

lemma elemsz_mod: "n * elemsz is v4 mod 4 = 0"
proof -
  have "elemsz is v4 mod 4 = 0" by (cases v4) (simp_all add: elemsz_def iplen_def IPV4_LEN_def IPV6_LEN_def)
  then show ?thesis by (simp add: mod_mult_right_eq [symmetric])
qed

lemma read_add_request:
  fixes be :: bool and portid :: u32 and p :: "bytes \<times> bytes"
  assumes f: "target_of is name = Some tg" "pads_ok tg (fst r) (snd r)"
    and ips: "\<forall>ip \<in> set ips. length ip = iplen v4" "length ips \<le> IP_N"
  defines "m \<equiv> add_request be is v4 (fam_of be portid tg v4 True p r) ips"
  shows "nlmsg_len be m = Some (word_of_nat (length m))"
    "read_request be is v4 m = Some (target_names tg, concat (map (intervals is) ips))"
proof -
  let ?f = "fam_of be portid tg v4 True p r" and ?es = "concat (map (elem be is v4) ips)"
  have tg: "target_ok tg" "is_ipset_target tg = is" using target_of_ok [OF f(1)] by auto
  have h: "length (a_head ?f) = 16" "a_pre ?f = add_attrs be tg (fst r) (snd r)"
    by (simp_all add: fam_of_def Let_def add_head_def)
  have es: "length ?es = length ips * elemsz is v4" by (rule length_elems [OF ips(1)])
  have small: "4 + length ?es < 65536"
  proof -
    have "elemsz is v4 \<le> 64" using iplen_bounds [of v4] by (simp add: elemsz_def)
    then have "length ips * elemsz is v4 \<le> IP_N * 64" using ips(2) by (intro mult_le_mono) auto
    then show ?thesis using es by (simp add: IP_N_def)
  qed
  have m: "m = (host32 be (word_of_nat (24 + length (a_pre ?f) + length ?es)) @ a_head ?f) @ add_attrs be tg (fst r) (snd r)
      @ nla be (list_type is) ?es []"
    by (simp add: m_def add_request_def add_header_def es nla_def h)
  have lenm: "length m = 24 + length (a_pre ?f) + length ?es" unfolding m using h by simp
  show "nlmsg_len be m = Some (word_of_nat (length m))"
    unfolding lenm using rdh32_append [of be "[]"] by (simp add: m nlmsg_len_def)
  have pay: "drop HEADER_SIZE m = add_attrs be tg (fst r) (snd r) @ nla be (list_type is) ?es []"
    unfolding m HEADER_SIZE_def using h by simp
  have "padlen (length ?es) = 0" unfolding es by (intro padlen_0 elemsz_mod)
  then have last: "read_nlas be (nla be (list_type is) ?es []) = Some [(list_type is, ?es)]"
    using read_nlas_nla [of "[]" ?es be "list_type is" "[]"] small by simp
  from read_set_attrs [OF f(2) tg(1), of be "nla be (list_type is) ?es []"] obtain as where
    as0: "read_nlas be (add_attrs be tg (fst r) (snd r) @ nla be (list_type is) ?es []) = map_option ((@) as) (Some [(list_type is, ?es)])"
    "\<forall>bs. those (map (map_of (as @ bs)) (if is then [IPSET_ATTR_SETNAME] else [NFTA_SET_ELEM_LIST_TABLE, NFTA_SET_ELEM_LIST_SET]))
          = Some (target_names tg) \<and> map_of (as @ bs) (list_type is) = map_of bs (list_type is)"
    unfolding last tg(2) by blast
  have as: "read_nlas be (drop HEADER_SIZE m) = Some (as @ [(list_type is, ?es)])"
    "those (map (map_of (as @ [(list_type is, ?es)])) (if is then [IPSET_ATTR_SETNAME] else [NFTA_SET_ELEM_LIST_TABLE, NFTA_SET_ELEM_LIST_SET]))
      = Some (target_names tg)"
    using as0 unfolding pay by (simp_all only: option.map)
  have last': "map_of (as @ [(list_type is, ?es)]) (list_type is) = Some ?es"
    using spec [OF as0(2), of "[(list_type is, ?es)]"] by simp
  from read_elems [OF ips(1), of be "is"] obtain es' where e: "read_nlas be ?es = Some es'"
    "those (map (read_elem be is v4) es') = Some (concat (map (intervals is) ips))" by blast
  show "read_request be is v4 m = Some (target_names tg, concat (map (intervals is) ips))"
    unfolding read_request_def as last' Option.bind.bind_lunit e ..
qed

end
