(* ===== verification/Ipset_Correct.thy ===== *)
theory Ipset_Correct
  imports Ipset_Read
begin

text \<open>
  What is proved of \<^verbatim>\<open>src/ipset.c\<close> as a whole, with a sample kernel that acknowledges every
  request and has one address in its set.
\<close>

section \<open>A sample kernel\<close>

definition sample_reply :: "u32 \<Rightarrow> bytes" where
  "sample_reply e = host32 False 36 @ host16 False NLMSG_ERROR @ replicate 10 0 @ host32 False e"

definition sample_net :: kernel where
  "sample_net = \<lparr>k_sent = [], k_send = (\<lambda>_. Sends 1), k_nsend = 0,
     k_recv = (\<lambda>sent n fl. if n < length sent
       then Inr (sample_reply (if drop (length (sent ! n) - 4) (sent ! n) = [1, 1, 1, 1] then 0 else - 4103)) else Inl EAGAIN),
     k_nrecv = 0\<rparr>"

definition sample_calls :: sock_calls where
  "sample_calls = \<lparr>r_socket = 3, r_bind = 0, r_getsockname = 0, nl_pid = 77, r_connect = 0\<rparr>"

lemma sample_reply_error: "is_error False (sample_reply e)" "nlmsg_errcode False (sample_reply e) = Some (- sint e)"
proof -
  have t: "nlmsg_type False (sample_reply e) = Some NLMSG_ERROR"
    by (simp add: sample_reply_def type_host)
  then show "is_error False (sample_reply e)" by (simp add: is_error_def sample_reply_def)
  have "rdh32 False (sample_reply e) 16 = Some e"
    using rdh32_append [of False "host32 False 36 @ host16 False NLMSG_ERROR @ replicate 10 0" e "[]"]
    by (simp add: sample_reply_def)
  then show "nlmsg_errcode False (sample_reply e) = Some (- sint e)"
    using t by (simp add: nlmsg_errcode_def nlmsg_data_def NLMSG_HDRLEN_def)
qed

lemma sample_present: "present False True (sample_reply e) = (e = 0)"
proof -
  have "e = 0 \<longleftrightarrow> sint e = sint (0 :: u32)" by (rule word_eq_iff_signed)
  then have "sint e = 0 \<longleftrightarrow> e = 0" by simp
  then show ?thesis by (simp add: present_def sample_reply_error(2))
qed

lemma sample_net_ok: "kernel_ok False True sample_net" "never_refuses sample_net"
proof -
  have "interrupts_end sample_net" by (auto simp: interrupts_end_def sample_net_def)
  moreover have "is_error False m" if "k_recv sample_net sent n fl = Inr m" for sent n fl m
    using that sample_reply_error(1) by (auto simp: sample_net_def split: if_splits)
  ultimately show "kernel_ok False True sample_net" by (auto simp: kernel_ok_def)
  show "never_refuses sample_net" by (simp add: never_refuses_def sample_net_def)
qed

definition sample_start :: ipset_state where
  "sample_start = ipset_initial Syscall Syscall sample_net"

lemma sample_start: "st_ok False sample_start" "net sample_start = sample_net" "socket_ok sample_calls [97] sample_start"
  by (simp_all add: sample_start_def st_ok_initial socket_ok_def) (simp_all add: ipset_initial_def sample_calls_def)

lemma sample_name: "parse_name46 [97] = Some (Run ([97], []))" "AT_SIGN \<notin> set [97]" "sets_exist True [97] []"
  by (simp_all add: parse_name46_eq COMMA_def NULL_NAME_def Let_def AT_SIGN_def sets_exist_def target_of_def)

lemma sample_new:
  "\<exists>ctx st F f. ipset_new_addctx False sample_calls (\<lambda>_. 0) (\<lambda>_. 0) [97] sample_start = Some (Run (ctx, st))
    \<and> st_ready False True st \<and> net st = sample_net \<and> add_ctx_inv False True F (\<lambda>_. []) ctx \<and> F True = Some f
    \<and> fam_ok False (s_portid st) True True True [97] (F True) \<and> F False = None"
proof -
  have "(AT_SIGN \<notin> set [97]) = True" using sample_name(2) by blast
  from ipset_new_addctx_spec [OF sample_start(1), where ?name46.0 = "[97]" and c = sample_calls and garbage = "\<lambda>_. 0" and mem = "\<lambda>_. 0"] sample_name(1,3) sample_start(2,3) this
  obtain ctx st F where "ipset_new_addctx False sample_calls (\<lambda>_. 0) (\<lambda>_. 0) [97] sample_start = Some (Run (ctx, st))"
    "st_ready False True st" "net st = sample_net" "add_ctx_inv False True F (\<lambda>_. []) ctx"
    "fam_ok False (s_portid st) True True True [97] (F True)" "fam_ok False (s_portid st) True False True [] (F False)"
    by (auto simp: Let_def)
  moreover from this(5) obtain f where "F True = Some f" unfolding fam_ok_def by (auto simp del: split_paired_Ex)
  moreover have "F False = None" using calculation(6) by (simp add: fam_ok_def)
  ultimately show ?thesis by blast
qed

section \<open>New contexts\<close>

text \<open>
  C23: \<open>ipset_new_addctx\<close> makes a context exactly when the option names well-formed sets of the
  backend in use and the netlink socket is there; otherwise the program ends. The messages of
  a new context fill buffers of any content without an access outside them, name exactly the
  sets of the option, and hold no address.
\<close>

theorem ipset_new_addctx_correct:
  assumes "st_ok be st"
  shows "case parse_name46 name46 of
      Some (Run (name4, name6)) \<Rightarrow>
        (let is_ipset = (AT_SIGN \<notin> set name46)
         in if socket_ok c name46 st \<and> sets_exist is_ipset name4 name6
            then \<exists>ctx st' F. ipset_new_addctx be c garbage mem name46 st = Some (Run (ctx, st'))
                   \<and> st_ready be is_ipset st' \<and> net st' = net st \<and> add_ctx_inv be is_ipset F (\<lambda>_. []) ctx
                   \<and> fam_ok be (s_portid st') is_ipset True True name4 (F True)
                   \<and> fam_ok be (s_portid st') is_ipset False True name6 (F False)
            else ipset_new_addctx be c garbage mem name46 st = Some Exit)
    | _ \<Rightarrow> ipset_new_addctx be c garbage mem name46 st = Some Exit"
  by (rule ipset_new_addctx_spec [OF assms])

theorem ipset_new_addctx_correct_witness:
  "(\<exists>ctx st'. ipset_new_addctx False sample_calls (\<lambda>_. 7) (\<lambda>_. 8) [97] sample_start = Some (Run (ctx, st')))
   \<and> ipset_new_addctx False sample_calls (\<lambda>_. 7) (\<lambda>_. 8) [] sample_start = Some Exit"
proof
  have at: "(AT_SIGN \<notin> set [97]) = True" using sample_name(2) by blast
  show "\<exists>ctx st'. ipset_new_addctx False sample_calls (\<lambda>_. 7) (\<lambda>_. 8) [97] sample_start = Some (Run (ctx, st'))"
    using ipset_new_addctx_correct [OF sample_start(1), where ?name46.0 = "[97]" and c = sample_calls and garbage = "\<lambda>_. 7" and mem = "\<lambda>_. 8"] sample_name(1,3) sample_start(3) at
    by (auto simp: Let_def)
  have "parse_name46 [] = Some Exit" by (simp add: parse_name46_eq NULL_NAME_def Let_def)
  then show "ipset_new_addctx False sample_calls (\<lambda>_. 7) (\<lambda>_. 8) [] sample_start = Some Exit"
    using ipset_new_addctx_correct [OF sample_start(1), where ?name46.0 = "[]" and c = sample_calls and garbage = "\<lambda>_. 7" and mem = "\<lambda>_. 8"] by simp
qed

section \<open>Adding addresses\<close>

text \<open>
  C17: \<open>ipset_add_ip\<close> refines its specification on lists of addresses: an address of a family
  without a set, and with the blacklist on a blacklisted address, changes nothing; any other
  address becomes the last pending one of its family, after the pending addresses of both
  families have been sent if there were already ten. No assertion fails and no access is outside
  the buffers, whatever the kernel does, and the invariants of the context are kept.
\<close>

theorem ipset_add_ip_refines:
  assumes "add_ctx_inv be is_ipset F ips ctx" "st_ready be is_ipset st" "kernel_ok be is_ipset (net st)" "length ip = iplen v4"
  shows "\<exists>ctx' st'. ipset_add_ip be ctx ip v4 st = Some (ctx', st') \<and> st_ready be is_ipset st' \<and> kernel_ok be is_ipset (net st')
    \<and> (if ignores (ipset_blacklist st) F ip v4 then ctx' = ctx \<and> st' = st
       else add_ctx_inv be is_ipset F (pending_after ips ip v4) ctx'
         \<and> (if sends_first ips v4
            then flush be is_ipset (s_portid st) (recv_impl st) (send_impl st) F ips (net st) = Some (net st')
            else st' = st))"
  using ipset_add_ip_spec [OF assms] sframe_ready [OF _ assms(2)] sframe_kernel_ok [OF _ assms(3)] by blast

theorem ipset_add_ip_refines_witness:
  "\<exists>ctx st F ctx' st'. ipset_new_addctx False sample_calls (\<lambda>_. 0) (\<lambda>_. 0) [97] sample_start = Some (Run (ctx, st))
    \<and> ipset_add_ip False ctx [8, 8, 8, 8] True st = Some (ctx', st')
    \<and> add_ctx_inv False True F ((\<lambda>_. [])(True := [[8, 8, 8, 8]])) ctx' \<and> st' = st"
proof -
  obtain ctx st F f where new: "ipset_new_addctx False sample_calls (\<lambda>_. 0) (\<lambda>_. 0) [97] sample_start = Some (Run (ctx, st))"
    "st_ready False True st" "net st = sample_net" "add_ctx_inv False True F (\<lambda>_. []) ctx" "F True = Some f"
    using sample_new by blast
  have "blacklisted [8, 8, 8, 8] True = False" by code_simp
  then have i: "ignores (ipset_blacklist st) F [8, 8, 8, 8] True = False" "sends_first (\<lambda>_. []) True = False"
    using new(5) by (simp_all add: ignores_def sends_first_def IP_N_def)
  have k: "kernel_ok False True (net st)" using new(3) sample_net_ok by simp
  have l: "length [8, 8, 8, 8] = iplen True" by (simp add: iplen_def IPV4_LEN_def)
  show ?thesis
    using ipset_add_ip_refines [OF new(4,2) k l] new(1) i by (auto simp: pending_after_def)
qed

text \<open>
  C16: \<open>ipset_end_add_ip\<close> refines \<open>flush\<close>: all pending addresses are looked up, those that were
  not found are added by one request per family (one transaction in the nft backend), and none
  is pending afterwards; without pending addresses it does nothing. It returns for every kernel
  that answers in the netlink format, however many requests or answers get lost.
\<close>

theorem ipset_end_add_ip_refines:
  assumes "add_ctx_inv be is_ipset F ips ctx" "st_ready be is_ipset st" "kernel_ok be is_ipset (net st)"
  shows "\<exists>ctx' st'. ipset_end_add_ip be ctx st = Some (ctx', st') \<and> add_ctx_inv be is_ipset F (\<lambda>_. []) ctx'
    \<and> st_ready be is_ipset st' \<and> kernel_ok be is_ipset (net st')
    \<and> (if ips True = [] \<and> ips False = [] then ctx' = ctx \<and> st' = st
       else flush be is_ipset (s_portid st) (recv_impl st) (send_impl st) F ips (net st) = Some (net st'))"
proof -
  have "npending ips [True, False] = 0 \<longleftrightarrow> ips True = [] \<and> ips False = []" by simp
  then show ?thesis
    using ipset_end_add_ip_spec [OF assms] sframe_ready [OF _ assms(2)] sframe_kernel_ok [OF _ assms(3)] by metis
qed

lemma sample_add:
  assumes "st_ready False True st" "net st = sample_net" "add_ctx_inv False True F q ctx" "F True = Some f" "length (q True) < 10"
    "length ip = 4" "\<not> blacklisted ip True"
  shows "\<exists>ctx'. ipset_add_ip False ctx ip True st = Some (ctx', st) \<and> add_ctx_inv False True F (q(True := q True @ [ip])) ctx'"
proof -
  have "\<not> ignores (ipset_blacklist st) F ip True" "\<not> sends_first q True"
    using assms by (simp_all add: ignores_def sends_first_def IP_N_def)
  moreover have "kernel_ok False True (net st)" "length ip = iplen True"
    using assms sample_net_ok by (simp_all add: iplen_def IPV4_LEN_def)
  ultimately show ?thesis using ipset_add_ip_spec [OF assms(3,1)] by (fastforce simp: pending_after_def)
qed

theorem ipset_end_add_ip_refines_witness:
  "\<exists>ctx st F ctx1 ctx' st'. ipset_new_addctx False sample_calls (\<lambda>_. 0) (\<lambda>_. 0) [97] sample_start = Some (Run (ctx, st))
    \<and> ipset_add_ip False ctx [8, 8, 8, 8] True st = Some (ctx1, st) \<and> ipset_end_add_ip False ctx1 st = Some (ctx', st')
    \<and> flush False True (s_portid st) (recv_impl st) (send_impl st) F ((\<lambda>_. [])(True := [[8, 8, 8, 8]])) (net st) = Some (net st')"
proof -
  obtain ctx st F f where new: "ipset_new_addctx False sample_calls (\<lambda>_. 0) (\<lambda>_. 0) [97] sample_start = Some (Run (ctx, st))"
    "st_ready False True st" "net st = sample_net" "add_ctx_inv False True F (\<lambda>_. []) ctx" "F True = Some f"
    using sample_new by blast
  have "\<not> blacklisted [8, 8, 8, 8] True" by code_simp
  from sample_add [OF new(2-5) _ _ this] obtain ctx1 where c1: "ipset_add_ip False ctx [8, 8, 8, 8] True st = Some (ctx1, st)"
    "add_ctx_inv False True F ((\<lambda>_. [])(True := [[8, 8, 8, 8]])) ctx1" by auto
  have k: "kernel_ok False True (net st)" using new(3) sample_net_ok by simp
  show ?thesis using ipset_end_add_ip_refines [OF c1(2) new(2) k] new(1) c1(1) by auto
qed

section \<open>Any sequence of operations\<close>

datatype ip_op = Add bytes bool | End

fun run_ops :: "bool \<Rightarrow> ip_op list \<Rightarrow> addctx \<Rightarrow> ipset_state \<Rightarrow> (addctx \<times> ipset_state) option" where
  "run_ops be [] ctx st = Some (ctx, st)"
| "run_ops be (Add ip v4 # ops) ctx st = do { (ctx, st) \<leftarrow> ipset_add_ip be ctx ip v4 st; run_ops be ops ctx st }"
| "run_ops be (End # ops) ctx st = do { (ctx, st) \<leftarrow> ipset_end_add_ip be ctx st; run_ops be ops ctx st }"

definition op_ok :: "ip_op \<Rightarrow> bool" where
  "op_ok x = (case x of Add ip v4 \<Rightarrow> length ip = iplen v4 | End \<Rightarrow> True)"

lemma run_ops_inv:
  assumes "add_ctx_inv be is F q ctx" "st_ready be is st" "kernel_ok be is (net st)" "list_all op_ok ops"
  shows "\<exists>ctx' st' q'. run_ops be ops ctx st = Some (ctx', st') \<and> add_ctx_inv be is F q' ctx' \<and> sframe st st'"
  using assms
proof (induction ops arbitrary: ctx st q)
  case (Cons x ops)
  have step: ?case if h: "run_ops be (x # ops) ctx st = run_ops be ops c s" "add_ctx_inv be is F q1 c" "sframe st s" for c s q1
  proof -
    have "list_all op_ok ops" using Cons.prems(4) by simp
    from Cons.IH [OF h(2) sframe_ready [OF h(3) Cons.prems(2)] sframe_kernel_ok [OF h(3) Cons.prems(3)] this]
    show ?thesis using h(1) sframe_trans [OF h(3)] by metis
  qed
  show ?case
  proof (cases x)
    case (Add ip v4)
    then have "length ip = iplen v4" using Cons.prems(4) by (simp add: op_ok_def)
    from ipset_add_ip_spec [OF Cons.prems(1-3) this] obtain c s where "ipset_add_ip be ctx ip v4 st = Some (c, s)" "sframe st s"
      "if ignores (ipset_blacklist st) F ip v4 then c = ctx \<and> s = st else add_ctx_inv be is F (pending_after ips ip v4) c
         \<and> (if sends_first ips v4
            then flush be is (s_portid st) (recv_impl st) (send_impl st) F ips (net st) = Some (net s)
            else s = st)" if "ips = q" for ips by blast
    then show ?thesis using step [of c s] Add Cons.prems(1) by (cases "ignores (ipset_blacklist st) F ip v4") auto
  next
    case End
    from ipset_end_add_ip_spec [OF Cons.prems(1-3)] obtain c s where "ipset_end_add_ip be ctx st = Some (c, s)"
      "add_ctx_inv be is F (\<lambda>_. []) c" "sframe st s" by blast
    then show ?thesis using step [of c s] End by simp
  qed
qed auto

text \<open>What the invariant says about the buffers.\<close>

lemma add_ctx_inv_fits:
  assumes "add_ctx_inv be is F q ctx" "a_msg ctx v4 = Some m" "a_ipcnt ctx v4 > 0"
  shows "\<exists>l. nlmsg_len be m = Some l \<and> unat l \<le> length m"
proof -
  have ne: "q v4 \<noteq> []" using assms(3) add_ctx_invD(1) [OF assms(1), of v4] by auto
  then obtain f where f: "F v4 = Some f" using add_ctx_invD(6) [OF assms(1)] by blast
  then have "add_inv be is v4 f (q v4) m" using add_ctx_invD(5) [OF assms(1) f] assms(2) by auto
  from add_inv_view [OF this ne] obtain L fr where v: "nlview be m (a_head f) (add_payload be is v4 f L (q v4)) fr"
    by (auto simp: add_view_def)
  show ?thesis using nlview_len [OF v] by (auto simp: nlmsg_dataend_def)
qed

text \<open>
  C14: Any sequence of \<open>ipset_add_ip\<close> and \<open>ipset_end_add_ip\<close> on a context made by
  \<open>ipset_new_addctx\<close> runs to its end: no assertion fails, no access is outside the message
  buffers, the arrays of \<^verbatim>\<open>iovec\<close>s and message headers or the result buffer, whatever the kernel
  accepts, refuses or leaves unanswered. There are never more than ten pending addresses per
  family, and the message that holds them fits into its buffer.
\<close>

theorem ipset_ops_safe:
  assumes "st_ok be st" "kernel_ok be (AT_SIGN \<notin> set name46) (net st)"
    "ipset_new_addctx be c garbage mem name46 st = Some (Run (ctx, st0))" "list_all op_ok ops"
  shows "\<exists>ctx' st'. run_ops be ops ctx st0 = Some (ctx', st')
    \<and> (\<forall>v4. a_ipcnt ctx' v4 \<le> IP_N
        \<and> (\<forall>m. a_msg ctx' v4 = Some m \<and> a_ipcnt ctx' v4 > 0 \<longrightarrow> (\<exists>l. nlmsg_len be m = Some l \<and> unat l \<le> length m)))"
proof -
  let ?is = "AT_SIGN \<notin> set name46"
  from ipset_new_addctx_spec [OF assms(1), where ?name46.0 = name46 and c = c and garbage = garbage and mem = mem] assms(3)
  obtain F where F: "st_ready be ?is st0" "net st0 = net st" "add_ctx_inv be ?is F (\<lambda>_. []) ctx"
    by (auto simp: Let_def split: option.splits run.splits if_splits)
  have k: "kernel_ok be ?is (net st0)" using assms(2) F(2) by simp
  from run_ops_inv [OF F(3,1) k assms(4)] obtain ctx' st' q where "run_ops be ops ctx st0 = Some (ctx', st')"
    "add_ctx_inv be ?is F q ctx'" by blast
  then show ?thesis using add_ctx_inv_fits add_ctx_invD(1,2) by (metis (no_types, lifting))
qed

theorem ipset_ops_safe_witness:
  "\<exists>ctx st ctx' st'. ipset_new_addctx False sample_calls (\<lambda>_. 0) (\<lambda>_. 0) [97] sample_start = Some (Run (ctx, st))
    \<and> run_ops False [Add [8, 8, 8, 8] True, Add (replicate 16 9) False, End, Add [127, 0, 0, 1] True, End] ctx st = Some (ctx', st')"
proof -
  obtain ctx st where new: "ipset_new_addctx False sample_calls (\<lambda>_. 0) (\<lambda>_. 0) [97] sample_start = Some (Run (ctx, st))"
    using sample_new by blast
  have "list_all op_ok [Add [8, 8, 8, 8] True, Add (replicate 16 9) False, End, Add [127, 0, 0, 1] True, End]"
    by (simp add: op_ok_def iplen_def IPV4_LEN_def IPV6_LEN_def)
  moreover have "kernel_ok False (AT_SIGN \<notin> set [97]) (net sample_start)"
    using sample_net_ok sample_start sample_name(2) by simp
  ultimately show ?thesis using ipset_ops_safe [OF sample_start(1) _ new] new by blast
qed

section \<open>Exactly the missing addresses are added\<close>

definition pending_list :: "(bool \<Rightarrow> bytes list) \<Rightarrow> (bool \<times> bytes) list" where
  "pending_list ips = map (Pair True) (ips True) @ map (Pair False) (ips False)"

lemma missing_filter:
  "(\<And>j. j < length xs \<Longrightarrow> ex (i + j) = P (xs ! j)) \<Longrightarrow> missing ex i xs = filter (\<lambda>x. \<not> P x) xs"
proof (induction xs arbitrary: i)
  case (Cons x xs)
  have "ex i = P x" using Cons.prems [of 0] by simp
  moreover have "missing ex (i + 1) xs = filter (\<lambda>x. \<not> P x) xs"
    using Cons.prems [of "Suc _"] by (intro Cons.IH) simp
  ultimately show ?case by simp
qed simp

text \<open>What is sent for the addresses \<open>new\<close>.\<close>

definition requests_for :: "bool \<Rightarrow> bool \<Rightarrow> u32 \<Rightarrow> (bool \<Rightarrow> fam option) \<Rightarrow> (bool \<Rightarrow> bytes list) \<Rightarrow> bytes list" where
  "requests_for be is_ipset portid F new =
     (let rs = map (\<lambda>v4. add_request be is_ipset v4 (the (F v4)) (new v4)) (filter (\<lambda>v4. new v4 \<noteq> []) [True, False])
      in if is_ipset then rs
         else if rs = [] then []
         else [batch_msg be portid NFNL_MSG_BATCH_BEGIN @ concat rs @ batch_msg be portid NFNL_MSG_BATCH_END])"

lemma add_messages_eq:
  assumes "length bs = length (pending_list ips)" "\<And>j. j < length bs \<Longrightarrow> bs ! j = (pending_list ips ! j \<in> S)"
  shows "add_messages be is portid F (hit bs) ips = requests_for be is portid F (\<lambda>v4. filter (\<lambda>ip. (v4, ip) \<notin> S) (ips v4))"
proof -
  have len: "length bs = length (ips True) + length (ips False)" using assms(1) by (simp add: pending_list_def)
  have "missing (hit bs) 0 (ips True) = filter (\<lambda>ip. \<not> (True, ip) \<in> S) (ips True)"
    using assms(2) len by (intro missing_filter) (simp add: hit_def pending_list_def nth_append)
  moreover have "missing (hit bs) (length (ips True)) (ips False) = filter (\<lambda>ip. \<not> (False, ip) \<in> S) (ips False)"
    using assms(2) len by (intro missing_filter) (simp add: hit_def pending_list_def nth_append)
  ultimately show ?thesis by (simp add: add_messages_def requests_for_def Let_def)
qed

lemma lookup_answers:
  assumes ok: "kernel_ok be is k" "never_refuses k" and reqs: "reqs \<noteq> []"
    and ans: "\<forall>j < length reqs. \<exists>m. k_recv k (k_sent k @ reqs) (k_nrecv k + j) MSG_DONTWAIT = Inr m \<and> (present be is m \<longleftrightarrow> P j)"
  shows "\<exists>bs k'. lookup be is recv send reqs k = Some (bs, k') \<and> length bs = length reqs \<and> (\<forall>j < length bs. bs ! j = P j)
    \<and> k_sent k' = k_sent k @ reqs \<and> k_send k' = k_send k"
proof -
  have live: "interrupts_end k" using ok(1) by (simp add: kernel_ok_def)
  from send.sendall_spec [OF live reqs, of send] ok(2) obtain k1 where k1: "sendall (SENDMMSG send) reqs k = Some (int (length reqs), k1)"
    "same_oracles k k1" "k_sent k1 = k_sent k @ reqs" by auto
  from ans obtain a where a: "\<forall>j < length reqs. k_recv k (k_sent k @ reqs) (k_nrecv k + j) MSG_DONTWAIT = Inr (a j) \<and> (present be is (a j) \<longleftrightarrow> P j)"
    by metis
  let ?rooms = "replicate (length reqs) NLMSGERR_SPACE"
  have flag: "MSG_DONTWAIT AND MSG_WAITFORONE = 0" by (simp add: MSG_DONTWAIT_def MSG_WAITFORONE_def)
  have "\<forall>j < length ?rooms. k_recv k1 (k_sent k1) (k_nrecv k1 + j) MSG_DONTWAIT = Inr (a j)"
    using a k1(2,3) by (simp add: same_oracles_def)
  from sys_recvmmsg_all_replies [OF flag this] obtain e where all: "sys_recvmmsg_all ?rooms MSG_DONTWAIT k1
      = (e, map (\<lambda>j. take (?rooms ! j) (a j)) [0 ..< length ?rooms], k1\<lparr>k_nrecv := k_nrecv k1 + length ?rooms\<rparr>)" by blast
  have ne: "?rooms \<noteq> []" using reqs by simp
  let ?ms = "map (\<lambda>j. take (?rooms ! j) (a j)) [0 ..< length ?rooms]"
  from RECVMMSG_all [OF ne all, of recv] obtain x where x: "RECVMMSG recv ?rooms MSG_DONTWAIT k1
      = (x, ?ms, k1\<lparr>k_nrecv := k_nrecv k1 + length ?rooms\<rparr>)" by blast
  have "map (present be is) ?ms ! j = P j" if "j < length reqs" for j
  proof -
    have m: "k_recv k (k_sent k @ reqs) (k_nrecv k + j) MSG_DONTWAIT = Inr (a j)" "present be is (a j) \<longleftrightarrow> P j" using a that by blast+
    show ?thesis using reply_take(1) [OF kernel_ok_reply [OF ok(1) m(1)], of NLMSGERR_SPACE] m(2) that
      by (simp add: NLMSGERR_SPACE_eq)
  qed
  moreover have "lookup be is recv send reqs k = Some (map (present be is) ?ms, k1\<lparr>k_nrecv := k_nrecv k1 + length ?rooms\<rparr>)"
    using k1(1) x by (simp add: lookup_def)
  ultimately show ?thesis using k1(2,3) by (intro exI [of _ "map (present be is) ?ms"] exI [of _ "k1\<lparr>k_nrecv := k_nrecv k1 + length ?rooms\<rparr>"]) (simp add: same_oracles_def)
qed

lemma flush_adds_missing:
  assumes fl: "flush be is portid recv send F ips k0 = Some k'" and ne: "npending ips [True, False] \<noteq> 0"
    and ok: "kernel_ok be is k0" "never_refuses k0"
    and ans: "\<forall>j < length (pending_list ips). \<exists>m. k_recv k0 (k_sent k0 @ queries F ips [True, False]) (k_nrecv k0 + j) MSG_DONTWAIT = Inr m
       \<and> (present be is m \<longleftrightarrow> pending_list ips ! j \<in> S)"
  shows "k_sent k' = k_sent k0 @ queries F ips [True, False]
        @ requests_for be is portid F (\<lambda>v4. filter (\<lambda>ip. (v4, ip) \<notin> S) (ips v4))"
proof -
  let ?qs = "queries F ips [True, False]"
  let ?ms = "requests_for be is portid F (\<lambda>v4. filter (\<lambda>ip. (v4, ip) \<notin> S) (ips v4))"
  have len: "length (pending_list ips) = npending ips [True, False]" by (simp add: pending_list_def)
  have qs: "?qs \<noteq> []" using ne length_queries [of F ips "[True, False]"] by (metis list.size(3))
  have a: "\<forall>j < length ?qs. \<exists>m. k_recv k0 (k_sent k0 @ ?qs) (k_nrecv k0 + j) MSG_DONTWAIT = Inr m
       \<and> (present be is m \<longleftrightarrow> pending_list ips ! j \<in> S)"
    using ans by (simp only: len length_queries)
  from lookup_answers [OF ok qs a, of recv send]
  obtain bs k where l: "lookup be is recv send ?qs k0 = Some (bs, k)" "length bs = length ?qs"
    "\<forall>j < length bs. bs ! j = (pending_list ips ! j \<in> S)" "k_sent k = k_sent k0 @ ?qs" "k_send k = k_send k0" by blast
  have ms: "add_messages be is portid F (hit bs) ips = ?ms"
    using l(2,3) by (intro add_messages_eq) (simp_all only: len length_queries)
  have rest: "(if ?ms = [] then Some k
     else do {
       (r, k) \<leftarrow> sendall (SENDMMSG send) ?ms k;
       if r < 0 then Some k
       else (case RECVMMSG recv (replicate (max (length ?ms) 2) NLMSGERR_SPACE) MSG_DONTWAIT k of (_, _, k) \<Rightarrow> Some k) }) = Some k'"
    using fl unfolding flush_def l(1) Let_def Option.bind.bind_lunit prod.case ms .
  show ?thesis
  proof (cases "?ms = []")
    case True
    then have "k' = k" using rest by simp
    then show ?thesis using l(4) True by simp
  next
    case ne2: False
    have "interrupts_end k" "never_refuses k"
      using ok l(5) by (simp_all add: kernel_ok_def interrupts_end_def never_refuses_def)
    from send.sendall_spec [OF this(1) ne2, of send] this(2) obtain k1 where
      k1: "sendall (SENDMMSG send) ?ms k = Some (int (length ?ms), k1)" "k_sent k1 = k_sent k @ ?ms" by auto
    have "replicate (max (length ?ms) 2) NLMSGERR_SPACE \<noteq> []" by simp
    from RECVMMSG_spec [OF this, of recv MSG_DONTWAIT k1] obtain x rs k2 where
      "RECVMMSG recv (replicate (max (length ?ms) 2) NLMSGERR_SPACE) MSG_DONTWAIT k1 = (x, rs, k2)" "recv_frame k1 k2" by blast
    then have "k_sent k' = k_sent k1" using rest ne2 k1(1) by (simp add: recv_frame_def)
    then show ?thesis using k1(2) l(4) by simp
  qed
qed

lemma end_adds_missing:
  assumes "add_ctx_inv be is_ipset F ips ctx" "st_ready be is_ipset st" "kernel_ok be is_ipset (net st)" "never_refuses (net st)"
    "\<forall>j < length (pending_list ips). \<exists>m. k_recv (net st) (k_sent (net st) @ queries F ips [True, False]) (k_nrecv (net st) + j) MSG_DONTWAIT = Inr m
       \<and> (present be is_ipset m \<longleftrightarrow> pending_list ips ! j \<in> S)"
  shows "\<exists>ctx' st'. ipset_end_add_ip be ctx st = Some (ctx', st')
    \<and> k_sent (net st') = k_sent (net st) @ queries F ips [True, False]
        @ requests_for be is_ipset (s_portid st) F (\<lambda>v4. filter (\<lambda>ip. (v4, ip) \<notin> S) (ips v4))"
proof -
  from ipset_end_add_ip_spec [OF assms(1-3)] obtain ctx' st' where e: "ipset_end_add_ip be ctx st = Some (ctx', st')"
    "if npending ips [True, False] = 0 then ctx' = ctx \<and> st' = st
     else flush be is_ipset (s_portid st) (recv_impl st) (send_impl st) F ips (net st) = Some (net st')" by blast
  show ?thesis
  proof (cases "npending ips [True, False] = 0")
    case True
    then have "ips True = []" "ips False = []" by simp_all
    then show ?thesis using e True by (simp add: requests_for_def)
  next
    case False
    then have "flush be is_ipset (s_portid st) (recv_impl st) (send_impl st) F ips (net st) = Some (net st')" using e(2) by simp
    from flush_adds_missing [OF this False assms(3-5)] e(1) show ?thesis by blast
  qed
qed

text \<open>
  C7: When the kernel accepts the requests and answers every lookup, \<open>ipset_end_add_ip\<close> sends
  one lookup per pending address and then requests that add exactly the addresses that are not
  in the set yet, in order; nothing but the lookups is sent when all of them are.
\<close>

theorem ipset_adds_exactly_missing:
  assumes "add_ctx_inv be is_ipset F ips ctx" "st_ready be is_ipset st" "kernel_ok be is_ipset (net st)" "never_refuses (net st)"
    "\<forall>j < length (pending_list ips). \<exists>m. k_recv (net st) (k_sent (net st) @ queries F ips [True, False]) (k_nrecv (net st) + j) MSG_DONTWAIT = Inr m
       \<and> (present be is_ipset m \<longleftrightarrow> pending_list ips ! j \<in> S)"
  shows "\<exists>ctx' st'. ipset_end_add_ip be ctx st = Some (ctx', st')
    \<and> k_sent (net st') = k_sent (net st) @ queries F ips [True, False]
        @ requests_for be is_ipset (s_portid st) F (\<lambda>v4. filter (\<lambda>ip. (v4, ip) \<notin> S) (ips v4))"
  by (rule end_adds_missing [OF assms])

theorem ipset_adds_exactly_missing_witness:
  "\<exists>ctx st F ctx1 ctx2 ctx' st'. ipset_new_addctx False sample_calls (\<lambda>_. 0) (\<lambda>_. 0) [97] sample_start = Some (Run (ctx, st))
    \<and> ipset_add_ip False ctx [1, 1, 1, 1] True st = Some (ctx1, st) \<and> ipset_add_ip False ctx1 [8, 8, 8, 8] True st = Some (ctx2, st)
    \<and> ipset_end_add_ip False ctx2 st = Some (ctx', st')
    \<and> drop 2 (k_sent (net st')) = [add_request False True True (the (F True)) [[8, 8, 8, 8]]]"
proof -
  obtain ctx st F f where new: "ipset_new_addctx False sample_calls (\<lambda>_. 0) (\<lambda>_. 0) [97] sample_start = Some (Run (ctx, st))"
    "st_ready False True st" "net st = sample_net" "add_ctx_inv False True F (\<lambda>_. []) ctx" "F True = Some f"
    using sample_new by blast
  have b: "\<not> blacklisted [1, 1, 1, 1] True" "\<not> blacklisted [8, 8, 8, 8] True" by code_simp+
  from sample_add [OF new(2-5) _ _ b(1)] obtain ctx1 where c1: "ipset_add_ip False ctx [1, 1, 1, 1] True st = Some (ctx1, st)"
    "add_ctx_inv False True F ((\<lambda>_. [])(True := [[1, 1, 1, 1]])) ctx1" by auto
  from sample_add [OF new(2,3) c1(2) new(5) _ _ b(2)] obtain ctx2 where c2: "ipset_add_ip False ctx1 [8, 8, 8, 8] True st = Some (ctx2, st)"
    "add_ctx_inv False True F ((\<lambda>_. [])(True := [[1, 1, 1, 1], [8, 8, 8, 8]])) ctx2" by auto
  let ?ips = "(\<lambda>_. [])(True := [[1, 1, 1, 1], [8, 8, 8, 8 :: u8]])" and ?S = "{(True, [1, 1, 1, 1 :: u8])}"
  have q: "queries F ?ips [True, False] = [q_head f @ [1, 1, 1, 1], q_head f @ [8, 8, 8, 8]]"
    using new(5) by simp
  have pl: "pending_list ?ips = [(True, [1, 1, 1, 1]), (True, [8, 8, 8, 8])]" by (simp add: pending_list_def)
  have replies: "\<forall>j < length (pending_list ?ips). \<exists>m. k_recv (net st) (k_sent (net st) @ queries F ?ips [True, False]) (k_nrecv (net st) + j) MSG_DONTWAIT = Inr m
       \<and> (present False True m \<longleftrightarrow> pending_list ?ips ! j \<in> ?S)"
  proof (intro allI impI)
    fix j assume "j < length (pending_list ?ips)"
    then consider "j = 0" | "j = 1" unfolding pl by fastforce
    then show "\<exists>m. k_recv (net st) (k_sent (net st) @ queries F ?ips [True, False]) (k_nrecv (net st) + j) MSG_DONTWAIT = Inr m
       \<and> (present False True m \<longleftrightarrow> pending_list ?ips ! j \<in> ?S)"
      unfolding q pl new(3) by cases (simp_all add: sample_net_def sample_present)
  qed
  have k: "kernel_ok False True (net st)" "never_refuses (net st)" using new(3) sample_net_ok by simp_all
  from ipset_adds_exactly_missing [OF c2(2) new(2) k replies] obtain ctx' st' where e: "ipset_end_add_ip False ctx2 st = Some (ctx', st')"
    "k_sent (net st') = k_sent (net st) @ queries F ?ips [True, False]
        @ requests_for False True (s_portid st) F (\<lambda>v4. filter (\<lambda>ip. (v4, ip) \<notin> ?S) (?ips v4))" by blast
  have "k_sent (net st) = []" using new(3) by (simp add: sample_net_def)
  then have "drop 2 (k_sent (net st')) = [add_request False True True (the (F True)) [[8, 8, 8, 8]]]"
    using e(2) unfolding q by (simp add: requests_for_def)
  then show ?thesis using new(1) c1(1) c2(1) e(1) by blast
qed

section \<open>Testing one address\<close>

text \<open>
  C22: \<open>ipset_test_ip\<close> says that an address is not in a set the option does not name, without
  touching the netlink socket. Otherwise it sends exactly one message, the prepared lookup with the
  address in the place kept for it, and its answer is that of the kernel: found when the answer
  says so, found when no answer came because the socket is empty, not found when the request
  could not be sent or the answer could not be received. The context stays usable.
\<close>

theorem ipset_test_ip_correct:
  assumes "test_ctx_inv be F ctx" "st_ready be is_ipset st" "kernel_ok be is_ipset (net st)" "length ip = iplen v4"
  shows "\<exists>b ctx' st'. ipset_test_ip be ctx ip v4 st = Some (b, ctx', st') \<and> test_ctx_inv be F ctx' \<and> st_ready be is_ipset st'
    \<and> (case F v4 of
        None \<Rightarrow> \<not> b \<and> ctx' = ctx \<and> st' = st
      | Some f \<Rightarrow> \<exists>r k. sendall (SENDMMSG (send_impl st)) [q_head f @ ip] (net st) = Some (r, k)
          \<and> (if r < 0 then \<not> b \<and> net st' = k
             else \<exists>n e ms. RECVMMSG (recv_impl st) [BUFSZ_RES] MSG_DONTWAIT k = ((n, e), ms, net st')
                \<and> b = (if ms = [] then e = EAGAIN else present be is_ipset (hd ms))))"
proof (cases "F v4")
  case None
  then have "ctx v4 = None" using assms(1) by (auto simp: test_ctx_inv_def dest!: spec [of _ v4])
  then have "ipset_test_ip be ctx ip v4 st = Some (False, ctx, st)" by (simp add: ipset_test_ip_def)
  then show ?thesis using assms(1,2) None by (intro exI conjI) (assumption, simp_all)
next
  case (Some f)
  from ipset_test_ip_spec [OF assms Some] obtain b ctx' st' r k where "ipset_test_ip be ctx ip v4 st = Some (b, ctx', st')"
    "test_ctx_inv be F ctx'" "sframe st st'" "sendall (SENDMMSG (send_impl st)) [q_head f @ ip] (net st) = Some (r, k)"
    "if r < 0 then \<not> b \<and> net st' = k
       else \<exists>n e ms. RECVMMSG (recv_impl st) [BUFSZ_RES] MSG_DONTWAIT k = ((n, e), ms, net st')
          \<and> b = (if ms = [] then e = EAGAIN else present be is_ipset (hd ms))" by blast
  moreover from this(3) have "st_ready be is_ipset st'" by (rule sframe_ready [OF _ assms(2)])
  ultimately show ?thesis unfolding Some option.case by blast
qed

theorem ipset_test_ip_correct_witness:
  "\<exists>ctx st r k b ctx' st' f. ipset_new_testctx False sample_calls (\<lambda>_. 0) (\<lambda>_. 0) [97] sample_start = Some (Run (ctx, st))
    \<and> ipset_test_ip False ctx [8, 8, 8, 8] True st = Some (b, ctx', st')
    \<and> sendall (SENDMMSG (send_impl st)) [q_head (f :: fam) @ [8, 8, 8, 8]] (net st) = Some (r, k)
    \<and> (if r < 0 then \<not> b \<and> net st' = k
       else \<exists>n e ms. RECVMMSG (recv_impl st) [BUFSZ_RES] MSG_DONTWAIT k = ((n, e), ms, net st')
          \<and> b = (if ms = [] then e = EAGAIN else present False True (hd ms)))"
proof -
  have "(AT_SIGN \<notin> set [97]) = True" using sample_name(2) by blast
  from ipset_new_testctx_spec [OF sample_start(1,3) sample_name(1), unfolded this, OF sample_name(3), where garbage = "\<lambda>_. 0" and mem = "\<lambda>_. 0"]
  obtain ctx st F where new: "ipset_new_testctx False sample_calls (\<lambda>_. 0) (\<lambda>_. 0) [97] sample_start = Some (Run (ctx, st))"
    "st_ready False True st" "net st = sample_net" "test_ctx_inv False F ctx" "fam_ok False (s_portid st) True True False [97] (F True)"
    using sample_start(2) by auto
  from new(5) obtain f where f: "F True = Some f" unfolding fam_ok_def by (auto simp del: split_paired_Ex)
  have k: "kernel_ok False True (net st)" using new(3) sample_net_ok by simp
  have l: "length [8, 8, 8, 8] = iplen True" by (simp add: iplen_def IPV4_LEN_def)
  from ipset_test_ip_correct [OF new(4,2) k l, unfolded f option.case] obtain b ctx' st' r k where
    t: "ipset_test_ip False ctx [8, 8, 8, 8] True st = Some (b, ctx', st')"
    "sendall (SENDMMSG (send_impl st)) [q_head f @ [8, 8, 8, 8]] (net st) = Some (r, k)"
    "if r < 0 then \<not> b \<and> net st' = k
     else \<exists>n e ms. RECVMMSG (recv_impl st) [BUFSZ_RES] MSG_DONTWAIT k = ((n, e), ms, net st')
        \<and> b = (if ms = [] then e = EAGAIN else present False True (hd ms))" by blast
  show ?thesis by (intro exI conjI) (rule new(1), rule t(1), rule t(2), rule t(3))
qed

section \<open>The end of an interval\<close>

text \<open>
  \<open>inc_ip\<close> replaces the address at any place of a message by the next one, read as a number
  with the most significant byte first, and wraps around from the last address to zero. It
  writes nothing else, accesses nothing outside the address, and never fails.
\<close>

lemma inc_ip_next:
  "\<exists>ip'. inc_ip (pre @ ip @ post) (length pre) (length ip) = Some (pre @ ip' @ post)
    \<and> length ip' = length ip \<and> ip_value ip' = (ip_value ip + 1) mod 256 ^ length ip"
  by (intro exI [of _ "succ_ip ip"]) (simp add: inc_ip_eq ip_value_succ)

end
