(* ===== verification/Ipset_Wire.thy ===== *)
theory Ipset_Wire
  imports Ipset_Correct
begin

text \<open>
  The messages of \<^verbatim>\<open>src/ipset.c\<close> as their receiver sees them. A context is made, addresses are
  added and sent; each message on the socket is then read attribute by attribute. The lookups
  name the set and one address each, and the requests name the set and the addresses that the
  kernel, which answers what it reads, did not have.
\<close>

section \<open>Reading a lookup\<close>

definition read_lookup :: "bool \<Rightarrow> bool \<Rightarrow> bool \<Rightarrow> bytes \<Rightarrow> (bytes list \<times> bytes) option" where
  "read_lookup be is_ipset v4 m = do {
     as \<leftarrow> read_nlas be (drop HEADER_SIZE m);
     names \<leftarrow> those (map (map_of as) (if is_ipset then [IPSET_ATTR_SETNAME] else [NFTA_SET_ELEM_LIST_TABLE, NFTA_SET_ELEM_LIST_SET]));
     es \<leftarrow> (if is_ipset then Some as else Option.bind (map_of as (list_type False)) (read_nlas be));
     e \<leftarrow> map_of es (or (if is_ipset then IPSET_ATTR_DATA else NFTA_LIST_ELEM) NLA_F_NESTED);
     (flags, ip) \<leftarrow> read_elem be is_ipset v4 (0, e);
     Some (names, ip) }"

lemma list_attr_nested: "or NFTA_SET_ELEM_LIST_ELEMENTS NLA_F_NESTED = list_type False"
  by (simp add: list_type_def)

lemma read_set_names:
  assumes "pads_ok tg p1 p2" "target_ok tg"
  shows "\<exists>as. read_nlas be (set_attrs be tg p1 p2 @ rest) = map_option ((@) as) (read_nlas be rest)
    \<and> (\<forall>bs. those (map (map_of (as @ bs)) (if is_ipset_target tg then [IPSET_ATTR_SETNAME] else [NFTA_SET_ELEM_LIST_TABLE, NFTA_SET_ELEM_LIST_SET]))
          = Some (target_names tg)
        \<and> map_of (as @ bs) (or IPSET_ATTR_DATA NLA_F_NESTED) = map_of bs (or IPSET_ATTR_DATA NLA_F_NESTED)
        \<and> map_of (as @ bs) (list_type False) = map_of bs (list_type False))"
proof (cases tg)
  case (Set_ipset name)
  let ?as = "[(IPSET_ATTR_PROTOCOL, [IPSET_PROTOCOL]), (IPSET_ATTR_SETNAME, name @ [0])]"
  have "read_nlas be (set_attrs be tg p1 p2 @ rest) = map_option ((@) ?as) (read_nlas be rest)"
    using assms Set_ipset by (cases "read_nlas be rest") (simp_all add: read_nlas_nla)
  then show ?thesis using Set_ipset by (intro exI [of _ ?as]) (simp add: attr_types list_type_def)
next
  case (Set_nft f t s)
  let ?as = "[(NFTA_SET_ELEM_LIST_TABLE, t @ [0]), (NFTA_SET_ELEM_LIST_SET, s @ [0])]"
  have "read_nlas be (set_attrs be tg p1 p2 @ rest) = map_option ((@) ?as) (read_nlas be rest)"
    using assms Set_nft by (cases "read_nlas be rest") (simp_all add: read_nlas_nla)
  then show ?thesis using Set_nft by (intro exI [of _ ?as]) (simp add: attr_types list_type_def)
qed

lemma read_lookup_query:
  fixes be ack :: bool and portid :: u32 and r :: "bytes \<times> bytes"
  assumes f: "target_of is name = Some tg" "pads_ok tg (fst p) (snd p)" and ip: "length ip = iplen v4"
  defines "m \<equiv> q_head (fam_of be portid tg v4 ack p r) @ ip"
  shows "nlmsg_len be m = Some (word_of_nat (length m))" "nlmsg_type be m = Some (test_type tg)"
    "m ! 16 = target_family tg v4" "read_lookup be is v4 m = Some (target_names tg, ip)"
proof -
  let ?t = "test_attrs be tg v4 (fst p) (snd p) ip"
  have tg: "target_ok tg" "is_ipset_target tg = is" using target_of_ok [OF f(1)] by auto
  have m: "m = host32 be (word_of_nat (20 + length ?t)) @ test_head be portid tg v4 ack @ ?t"
    unfolding m_def by (rule test_query_eq [OF ip])
  have h: "length (test_head be portid tg v4 ack) = 16" by (simp add: test_head_def)
  show "nlmsg_len be m = Some (word_of_nat (length m))"
    using rdh32_append [of be "[]"] h by (simp add: m nlmsg_len_def)
  show "nlmsg_type be m = Some (test_type tg)"
    unfolding m test_head_def header_tail_def append_assoc by (rule type_host) simp
  show "m ! 16 = target_family tg v4"
    by (simp add: m test_head_def header_tail_def nth_append)
  have pay: "drop HEADER_SIZE m = ?t" unfolding m HEADER_SIZE_def using h by simp
  show "read_lookup be is v4 m = Some (target_names tg, ip)"
  proof (cases tg)
    case (Set_ipset n)
    let ?e = "(or IPSET_ATTR_DATA NLA_F_NESTED, nest be IPSET_ATTR_IP (nla be (addr_type v4) ip []))"
    have e: "read_nlas be (elem_ipset be v4 ip) = Some [?e]"
      using read_elem_ipset(1) [OF ip, of be "[]"] by simp
    obtain as where as0: "read_nlas be (set_attrs be tg (fst p) (snd p) @ elem_ipset be v4 ip) = map_option ((@) as) (Some [?e])"
      "\<forall>bs. those (map (map_of (as @ bs)) (if is_ipset_target tg then [IPSET_ATTR_SETNAME] else [NFTA_SET_ELEM_LIST_TABLE, NFTA_SET_ELEM_LIST_SET]))
          = Some (target_names tg)
        \<and> map_of (as @ bs) (or IPSET_ATTR_DATA NLA_F_NESTED) = map_of bs (or IPSET_ATTR_DATA NLA_F_NESTED)
        \<and> map_of (as @ bs) (list_type False) = map_of bs (list_type False)"
      using read_set_names [OF f(2) tg(1), of be "elem_ipset be v4 ip"] unfolding e by blast
    have t: "?t = set_attrs be tg (fst p) (snd p) @ elem_ipset be v4 ip" using Set_ipset by simp
    have "read_nlas be ?t = Some (as @ [?e])" unfolding t using as0(1) by simp
    moreover have "those (map (map_of (as @ [?e])) [IPSET_ATTR_SETNAME]) = Some (target_names tg)"
      "map_of (as @ [?e]) (or IPSET_ATTR_DATA NLA_F_NESTED) = Some (snd ?e)"
      using spec [OF as0(2), of "[?e]"] Set_ipset by (simp_all del: list.map those.simps target_names.simps)
    ultimately show ?thesis
      using tg(2) Set_ipset read_elem_ipset(2) [OF ip, of be 0]
      by (simp add: read_lookup_def pay del: list.map those.simps target_names.simps)
  next
    case (Set_nft fm t s)
    let ?x = "nft_flags be 0 @ nest be NFTA_SET_ELEM_KEY (nla be data_value ip [])"
    let ?e = "(or NFTA_LIST_ELEM NLA_F_NESTED, ?x)" and ?es = "elem_nft be 0 ip"
    have e: "read_nlas be ?es = Some [?e]"
      using read_elem_nft(1) [OF ip, where be = be and fl = 0 and rest = "[]"] by simp
    have "length ?es mod 4 = 0" "4 + length ?es < 65536"
      using iplen_bounds [of v4] iplen_mod [of v4] by (simp_all add: length_elem_nft [OF ip] mod_add_eq [symmetric])
    then have l: "read_nlas be (nest be NFTA_SET_ELEM_LIST_ELEMENTS ?es) = Some [(list_type False, ?es)]"
      using read_nlas_nla [of "[]" ?es be "list_type False" "[]"] by (simp add: nest_def list_attr_nested)
    let ?l = "nest be NFTA_SET_ELEM_LIST_ELEMENTS ?es"
    obtain as where as0: "read_nlas be (set_attrs be tg (fst p) (snd p) @ ?l) = map_option ((@) as) (Some [(list_type False, ?es)])"
      "\<forall>bs. those (map (map_of (as @ bs)) (if is_ipset_target tg then [IPSET_ATTR_SETNAME] else [NFTA_SET_ELEM_LIST_TABLE, NFTA_SET_ELEM_LIST_SET]))
          = Some (target_names tg)
        \<and> map_of (as @ bs) (or IPSET_ATTR_DATA NLA_F_NESTED) = map_of bs (or IPSET_ATTR_DATA NLA_F_NESTED)
        \<and> map_of (as @ bs) (list_type False) = map_of bs (list_type False)"
      using read_set_names [OF f(2) tg(1), of be ?l] unfolding l by blast
    have t: "?t = set_attrs be tg (fst p) (snd p) @ ?l" using Set_nft by simp
    have "read_nlas be ?t = Some (as @ [(list_type False, ?es)])" unfolding t using as0(1) by simp
    moreover have "those (map (map_of (as @ [(list_type False, ?es)])) [NFTA_SET_ELEM_LIST_TABLE, NFTA_SET_ELEM_LIST_SET]) = Some (target_names tg)"
      "map_of (as @ [(list_type False, ?es)]) (list_type False) = Some ?es"
      using spec [OF as0(2), of "[(list_type False, ?es)]"] Set_nft
      by (simp_all del: list.map those.simps target_names.simps)
    ultimately show ?thesis
      using tg(2) Set_nft e read_elem_nft(2) [OF ip, where be = be and fl = 0]
      by (simp add: read_lookup_def pay del: list.map those.simps target_names.simps)
  qed
qed

lemma add_request_header:
  fixes be ack v4 :: bool and portid :: u32 and p r :: "bytes \<times> bytes" and ips :: "bytes list"
  assumes "target_of is name = Some tg"
  defines "m \<equiv> add_request be is v4 (fam_of be portid tg v4 ack p r) ips"
  shows "nlmsg_type be m = Some (add_type tg)" "m ! 16 = target_family tg v4"
proof -
  have a: "a_head (fam_of be portid tg v4 ack p r) = add_head be portid tg v4" by (simp add: fam_of_def Let_def)
  show "nlmsg_type be m = Some (add_type tg)"
    unfolding m_def add_request_def add_header_def a add_head_def header_tail_def append_assoc by (rule type_host) simp
  show "m ! 16 = target_family tg v4"
    by (simp add: m_def add_request_def add_header_def a add_head_def header_tail_def nth_append)
qed

section \<open>What the receiver relies on\<close>

text \<open>
  The messages \<open>qs\<close> are well-formed lookups of the addresses \<open>xs\<close>, one each, in the sets of the
  option; \<open>name\<close> gives the name of the set of each family.
\<close>

definition lookups_for :: "bool \<Rightarrow> bool \<Rightarrow> (bool \<Rightarrow> bytes) \<Rightarrow> (bool \<times> bytes) list \<Rightarrow> bytes list \<Rightarrow> bool" where
  "lookups_for be is_ipset name = list_all2 (\<lambda>(v4, ip) m. \<exists>tg. target_of is_ipset (name v4) = Some tg
     \<and> nlmsg_len be m = Some (word_of_nat (length m)) \<and> nlmsg_type be m = Some (test_type tg)
     \<and> m ! 16 = target_family tg v4 \<and> read_lookup be is_ipset v4 m = Some (target_names tg, ip))"

text \<open>
  A kernel whose sets hold the addresses \<open>S\<close>: it reads the lookups and says of each address
  whether it is there.
\<close>

definition answers_lookups :: "bool \<Rightarrow> bool \<Rightarrow> (bool \<Rightarrow> bytes) \<Rightarrow> (bool \<times> bytes) set \<Rightarrow> kernel \<Rightarrow> bool" where
  "answers_lookups be is_ipset name S k \<longleftrightarrow> (\<forall>xs qs j. lookups_for be is_ipset name xs qs \<and> j < length xs
     \<longrightarrow> (\<exists>m. k_recv k (k_sent k @ qs) (k_nrecv k + j) MSG_DONTWAIT = Inr m
           \<and> (present be is_ipset m \<longleftrightarrow> xs ! j \<in> S)))"

text \<open>The messages \<open>rs\<close> ask to add the addresses \<open>new\<close>: one request per family that has some.\<close>

definition requests_add :: "bool \<Rightarrow> bool \<Rightarrow> (bool \<Rightarrow> bytes) \<Rightarrow> (bool \<Rightarrow> bytes list) \<Rightarrow> bytes list \<Rightarrow> bool" where
  "requests_add be is_ipset name new = list_all2 (\<lambda>v4 m. \<exists>tg. target_of is_ipset (name v4) = Some tg
     \<and> nlmsg_len be m = Some (word_of_nat (length m)) \<and> nlmsg_type be m = Some (add_type tg)
     \<and> m ! 16 = target_family tg v4
     \<and> read_request be is_ipset v4 m = Some (target_names tg, concat (map (intervals is_ipset) (new v4))))
     (filter (\<lambda>v4. new v4 \<noteq> []) [True, False])"

text \<open>The addresses that \<open>ipset_add_ip\<close> keeps, and the calls that add addresses and send them.\<close>

definition kept_ips :: "bool \<Rightarrow> (bool \<Rightarrow> bytes) \<Rightarrow> (bool \<times> bytes) list \<Rightarrow> bool \<Rightarrow> bytes list" where
  "kept_ips blacklist name xs v4 =
     map snd (filter (\<lambda>(u, ip). u = v4 \<and> name v4 \<noteq> [] \<and> \<not> (blacklist \<and> blacklisted ip v4)) xs)"

definition add_ops :: "(bool \<times> bytes) list \<Rightarrow> ip_op list" where
  "add_ops xs = map (\<lambda>(v4, ip). Add ip v4) xs"

lemma kept_ips_simps [simp]:
  "kept_ips bl name [] v4 = []"
  "kept_ips bl name ((u, ip) # xs) v4 =
    (if u = v4 \<and> name v4 \<noteq> [] \<and> \<not> (bl \<and> blacklisted ip v4) then ip # kept_ips bl name xs v4 else kept_ips bl name xs v4)"
  by (simp_all add: kept_ips_def)

lemma run_ops_append:
  "run_ops be (as @ bs) ctx st = Option.bind (run_ops be as ctx st) (\<lambda>(ctx, st). run_ops be bs ctx st)"
proof (induction as arbitrary: ctx st)
  case (Cons a as)
  then show ?case by (cases a) (auto split: bind_splits)
qed simp

section \<open>Adding up to ten addresses\<close>

lemma run_adds:
  assumes "add_ctx_inv be is F q ctx" "st_ready be is st" "kernel_ok be is (net st)"
    "\<forall>(v4, ip) \<in> set xs. length ip = iplen v4" "\<forall>v4. F v4 = None \<longleftrightarrow> name v4 = []"
    "\<forall>v4. length (q v4) + length (kept_ips (ipset_blacklist st) name xs v4) \<le> IP_N"
  shows "\<exists>ctx'. run_ops be (add_ops xs) ctx st = Some (ctx', st)
    \<and> add_ctx_inv be is F (\<lambda>v4. q v4 @ kept_ips (ipset_blacklist st) name xs v4) ctx'"
  using assms
proof (induction xs arbitrary: ctx q)
  case Nil
  then show ?case by (simp add: add_ops_def)
next
  case (Cons x xs)
  obtain v4 ip where x: "x = (v4, ip)" by (cases x)
  let ?kept = "kept_ips (ipset_blacklist st) name"
  have len: "length ip = iplen v4" using Cons.prems(4) x by simp
  note spec = ipset_add_ip_spec [OF Cons.prems(1-3) len]
  show ?case
  proof (cases "ignores (ipset_blacklist st) F ip v4")
    case True
    then have "\<not> (name v4 \<noteq> [] \<and> \<not> (ipset_blacklist st \<and> blacklisted ip v4))"
      using Cons.prems(5) by (auto simp: ignores_def)
    then have k: "?kept (x # xs) = ?kept xs"
    proof (intro ext)
      fix u
      show "?kept (x # xs) u = ?kept xs u"
        using \<open>\<not> (name v4 \<noteq> [] \<and> \<not> (ipset_blacklist st \<and> blacklisted ip v4))\<close>
        by (cases u; cases v4) (auto simp: x)
    qed
    have add: "ipset_add_ip be ctx ip v4 st = Some (ctx, st)" using spec True by auto
    have "\<exists>ctx'. run_ops be (add_ops xs) ctx st = Some (ctx', st)
      \<and> add_ctx_inv be is F (\<lambda>v4. q v4 @ ?kept xs v4) ctx'"
      using Cons.prems k by (intro Cons.IH) simp_all
    then show ?thesis using add k by (simp add: x add_ops_def)
  next
    case False
    then have keep: "name v4 \<noteq> [] \<and> \<not> (ipset_blacklist st \<and> blacklisted ip v4)"
      using Cons.prems(5) by (auto simp: ignores_def)
    then have "length (q v4) < IP_N" using Cons.prems(6) [rule_format, of v4] by (simp add: x)
    then have sf: "\<not> sends_first q v4" by (simp add: sends_first_def)
    from spec obtain c where add: "ipset_add_ip be ctx ip v4 st = Some (c, st)" "add_ctx_inv be is F (pending_after q ip v4) c"
      using False sf by auto
    let ?q = "q(v4 := q v4 @ [ip])"
    have q: "pending_after q ip v4 = ?q" using sf by (simp add: pending_after_def)
    have k: "?q u @ ?kept xs u = q u @ ?kept (x # xs) u" for u using keep by (simp add: x)
    have room: "\<forall>u. length (?q u) + length (?kept xs u) \<le> IP_N"
    proof
      fix u
      have "length (?q u @ ?kept xs u) \<le> IP_N" unfolding k length_append using Cons.prems(6) by blast
      then show "length (?q u) + length (?kept xs u) \<le> IP_N" by (simp only: length_append)
    qed
    have "\<forall>(v4, ip) \<in> set xs. length ip = iplen v4" using Cons.prems(4) by simp
    from Cons.IH [OF add(2) [unfolded q] Cons.prems(2,3) this Cons.prems(5) room]
    have "\<exists>ctx'. run_ops be (add_ops xs) c st = Some (ctx', st) \<and> add_ctx_inv be is F (\<lambda>u. ?q u @ ?kept xs u) ctx'" .
    then show ?thesis using add(1) unfolding k by (simp add: x add_ops_def)
  qed
qed

section \<open>What is on the socket\<close>

lemma queries_eq:
  "queries F ips [True, False] = map (\<lambda>(v4, ip). q_head (the (F v4)) @ ip) (pending_list ips)"
  by (simp add: queries_def pending_list_def comp_def)

lemma fam_ok_cases:
  assumes "fam_ok be portid is v4 ack name f"
  shows "f = None \<longleftrightarrow> name = []"
    "name \<noteq> [] \<Longrightarrow> \<exists>tg p r. target_of is name = Some tg \<and> pads_ok tg (fst p) (snd p) \<and> pads_ok tg (fst r) (snd r)
       \<and> f = Some (fam_of be portid tg v4 ack p r)"
  using assms by (auto simp: fam_ok_def split: if_splits)

lemma queries_lookups:
  assumes fam: "\<forall>v4. fam_ok be portid is v4 True (name v4) (F v4)"
    and ips: "\<forall>v4. \<forall>ip \<in> set (ips v4). name v4 \<noteq> [] \<and> length ip = iplen v4"
  shows "lookups_for be is name (pending_list ips) (queries F ips [True, False])"
proof -
  have "\<exists>tg. target_of is (name v4) = Some tg
     \<and> nlmsg_len be m = Some (word_of_nat (length m)) \<and> nlmsg_type be m = Some (test_type tg)
     \<and> m ! 16 = target_family tg v4 \<and> read_lookup be is v4 m = Some (target_names tg, ip)"
    if "(v4, ip) \<in> set (pending_list ips)" "m = q_head (the (F v4)) @ ip" for v4 ip m
  proof -
    have in': "ip \<in> set (ips v4)" using that(1) by (auto simp: pending_list_def)
    then have n: "name v4 \<noteq> []" "length ip = iplen v4" using ips by blast+
    from fam_ok_cases(2) [OF spec [OF fam, of v4] n(1)] obtain tg p r where
      "target_of is (name v4) = Some tg" "pads_ok tg (fst p) (snd p)" "F v4 = Some (fam_of be portid tg v4 True p r)" by blast
    with read_lookup_query [OF this(1,2) n(2), of be portid True r] that(2) show ?thesis by (intro exI [of _ tg]) simp
  qed
  then show ?thesis
    unfolding lookups_for_def queries_eq list_all2_map2 by (intro list.rel_refl_strong) auto
qed

lemma requests_for_add:
  assumes fam: "\<forall>v4. fam_ok be portid is v4 True (name v4) (F v4)"
    and new: "\<forall>v4. (\<forall>ip \<in> set (new v4). length ip = iplen v4) \<and> length (new v4) \<le> IP_N \<and> (new v4 \<noteq> [] \<longrightarrow> name v4 \<noteq> [])"
  shows "requests_add be is name new
    (map (\<lambda>v4. add_request be is v4 (the (F v4)) (new v4)) (filter (\<lambda>v4. new v4 \<noteq> []) [True, False]))"
proof -
  have "\<exists>tg. target_of is (name v4) = Some tg
     \<and> nlmsg_len be m = Some (word_of_nat (length m)) \<and> nlmsg_type be m = Some (add_type tg)
     \<and> m ! 16 = target_family tg v4
     \<and> read_request be is v4 m = Some (target_names tg, concat (map (intervals is) (new v4)))"
    if "new v4 \<noteq> []" "m = add_request be is v4 (the (F v4)) (new v4)" for v4 m
  proof -
    have n: "name v4 \<noteq> []" "\<forall>ip \<in> set (new v4). length ip = iplen v4" "length (new v4) \<le> IP_N" using that(1) new by blast+
    from fam_ok_cases(2) [OF spec [OF fam, of v4] n(1)] obtain tg p r where f:
      "target_of is (name v4) = Some tg" "pads_ok tg (fst r) (snd r)" "F v4 = Some (fam_of be portid tg v4 True p r)" by blast
    show ?thesis
      using read_add_request [OF f(1,2) n(2,3), of be portid p] add_request_header [OF f(1), of be v4 portid True p r "new v4"] f that(2)
      by (intro exI [of _ tg]) simp
  qed
  note one = this
  show ?thesis
    unfolding requests_add_def list_all2_map2
  proof (rule list.rel_refl_strong)
    fix v4 assume "v4 \<in> set (filter (\<lambda>v4. new v4 \<noteq> []) [True, False])"
    then have "new v4 \<noteq> []" unfolding set_filter by blast
    from one [OF this refl] show "\<exists>tg. target_of is (name v4) = Some tg
       \<and> nlmsg_len be (add_request be is v4 (the (F v4)) (new v4)) = Some (word_of_nat (length (add_request be is v4 (the (F v4)) (new v4))))
       \<and> nlmsg_type be (add_request be is v4 (the (F v4)) (new v4)) = Some (add_type tg)
       \<and> add_request be is v4 (the (F v4)) (new v4) ! 16 = target_family tg v4
       \<and> read_request be is v4 (add_request be is v4 (the (F v4)) (new v4)) = Some (target_names tg, concat (map (intervals is) (new v4)))" .
  qed
qed

lemma batch_headers:
  "nlmsg_type be (batch_msg be portid t) = Some t" "nlmsg_len be (batch_msg be portid t) = Some (word_of_nat HEADER_SIZE)"
  "length (batch_msg be portid t) = HEADER_SIZE"
proof -
  show "nlmsg_type be (batch_msg be portid t) = Some t"
    unfolding batch_msg_def header_tail_def append_assoc by (rule type_host) simp
  show "nlmsg_len be (batch_msg be portid t) = Some (word_of_nat HEADER_SIZE)"
    using rdh32_append [of be "[]"] by (simp add: batch_msg_def nlmsg_len_def)
qed (simp add: batch_msg_def HEADER_SIZE_def)

text \<open>
  C24: Make a context for an option, add addresses, at most ten of a family, and send them, over a
  kernel that reads the lookups and answers for a set of addresses \<open>S\<close>. Then the messages on the
  socket, read attribute by attribute, are: one well-formed lookup per address that
  \<open>ipset_add_ip\<close> keeps, in the set of its family, IPv4 first; and one request per family with
  addresses that \<open>S\<close> lacks, which names the set and lists exactly these addresses in order, in
  the nft backend each as the interval that starts with it and ends before the next address, and
  all requests between the two messages of a transaction. The length field of each message is
  its length, its type and family are those of the operation and the set.
\<close>

theorem ipset_messages_roundtrip:
  assumes "st_ok be st" "kernel_ok be is_ipset (net st)" "never_refuses (net st)" "is_ipset \<longleftrightarrow> AT_SIGN \<notin> set name46"
    "ipset_new_addctx be c garbage mem name46 st = Some (Run (ctx, st0))"
    "parse_name46 name46 = Some (Run (name True, name False))"
    "\<forall>(v4, ip) \<in> set xs. length ip = iplen v4"
    "\<forall>v4. length (kept_ips (ipset_blacklist st0) name xs v4) \<le> IP_N"
    "answers_lookups be is_ipset name S (net st)"
  shows "let ips = kept_ips (ipset_blacklist st0) name xs; new = (\<lambda>v4. filter (\<lambda>ip. (v4, ip) \<notin> S) (ips v4))
    in \<exists>ctx' st' qs rs b e. run_ops be (add_ops xs @ [End]) ctx st0 = Some (ctx', st')
      \<and> lookups_for be is_ipset name (pending_list ips) qs
      \<and> requests_add be is_ipset name new rs
      \<and> k_sent (net st') = k_sent (net st) @ qs @ (if is_ipset \<or> rs = [] then rs else [b @ concat rs @ e])
      \<and> nlmsg_type be b = Some NFNL_MSG_BATCH_BEGIN \<and> nlmsg_type be e = Some NFNL_MSG_BATCH_END
      \<and> (\<forall>m \<in> {b, e}. length m = HEADER_SIZE \<and> nlmsg_len be m = Some (word_of_nat HEADER_SIZE))"
proof -
  let ?ips = "kept_ips (ipset_blacklist st0) name xs"
  let ?new = "\<lambda>v4. filter (\<lambda>ip. (v4, ip) \<notin> S) (?ips v4)"
  let ?rs = "\<lambda>F. map (\<lambda>v4. add_request be is_ipset v4 (the (F v4)) (?new v4)) (filter (\<lambda>v4. ?new v4 \<noteq> []) [True, False])"
  let ?b = "batch_msg be (s_portid st0)"
  from ipset_new_addctx_spec [OF assms(1), where ?name46.0 = name46 and c = c and garbage = garbage and mem = mem] assms(4-6)
  obtain F where F: "st_ready be is_ipset st0" "net st0 = net st" "add_ctx_inv be is_ipset F (\<lambda>_. []) ctx"
    "fam_ok be (s_portid st0) is_ipset True True (name True) (F True)"
    "fam_ok be (s_portid st0) is_ipset False True (name False) (F False)"
    by (auto simp: Let_def split: if_splits)
  have fam: "\<forall>v4. fam_ok be (s_portid st0) is_ipset v4 True (name v4) (F v4)"
    using F(4,5) by (simp add: all_bool_eq)
  then have none: "\<forall>v4. F v4 = None \<longleftrightarrow> name v4 = []" using fam_ok_cases(1) by blast
  have k: "kernel_ok be is_ipset (net st0)" "never_refuses (net st0)" using assms(2,3) F(2) by simp_all
  have room: "\<forall>v4. length ([] :: bytes list) + length (?ips v4) \<le> IP_N" using assms(8) by simp
  from run_adds [OF F(3,1) k(1) assms(7) none room] obtain ctx1 where
    add: "run_ops be (add_ops xs) ctx st0 = Some (ctx1, st0)" "add_ctx_inv be is_ipset F ?ips ctx1" by auto
  have ips: "\<forall>v4. \<forall>ip \<in> set (?ips v4). name v4 \<noteq> [] \<and> length ip = iplen v4"
    using assms(7) by (auto simp: kept_ips_def)
  have qs: "lookups_for be is_ipset name (pending_list ?ips) (queries F ?ips [True, False])"
    by (rule queries_lookups [OF fam ips])
  then have ans: "\<forall>j < length (pending_list ?ips). \<exists>m.
      k_recv (net st0) (k_sent (net st0) @ queries F ?ips [True, False]) (k_nrecv (net st0) + j) MSG_DONTWAIT = Inr m
       \<and> (present be is_ipset m \<longleftrightarrow> pending_list ?ips ! j \<in> S)"
    using assms(9) unfolding answers_lookups_def F(2) by blast
  from end_adds_missing [OF add(2) F(1) k ans] obtain ctx' st' where
    e: "ipset_end_add_ip be ctx1 st0 = Some (ctx', st')"
    "k_sent (net st') = k_sent (net st0) @ queries F ?ips [True, False] @ requests_for be is_ipset (s_portid st0) F ?new" by blast
  have run: "run_ops be (add_ops xs @ [End]) ctx st0 = Some (ctx', st')"
    using add(1) e(1) by (simp add: run_ops_append)
  have len: "length (?new v4) \<le> IP_N" for v4
    using length_filter_le [of "\<lambda>ip. (v4, ip) \<notin> S" "?ips v4"] assms(8) le_trans by blast
  have "\<forall>v4. (\<forall>ip \<in> set (?new v4). length ip = iplen v4) \<and> length (?new v4) \<le> IP_N \<and> (?new v4 \<noteq> [] \<longrightarrow> name v4 \<noteq> [])"
  proof (intro allI conjI impI)
    fix v4 assume "?new v4 \<noteq> []"
    then have "?ips v4 \<noteq> []" by (intro notI) simp
    then obtain ip where "ip \<in> set (?ips v4)" by (meson list.set_sel(1))
    then show "name v4 \<noteq> []" using ips by blast
  qed (use ips len in simp_all)
  from requests_for_add [OF fam this] have rs: "requests_add be is_ipset name ?new (?rs F)" .
  have "k_sent (net st') = k_sent (net st) @ queries F ?ips [True, False]
      @ (if is_ipset \<or> ?rs F = [] then ?rs F else [?b NFNL_MSG_BATCH_BEGIN @ concat (?rs F) @ ?b NFNL_MSG_BATCH_END])"
    unfolding e(2) F(2) requests_for_def Let_def by (auto simp del: list.map filter.simps)
  with run qs rs batch_headers [of be "s_portid st0"] show ?thesis
    unfolding Let_def
    by (intro exI [of _ ctx'] exI [of _ st'] exI [of _ "queries F ?ips [True, False]"] exI [of _ "?rs F"]
      exI [of _ "?b NFNL_MSG_BATCH_BEGIN"] exI [of _ "?b NFNL_MSG_BATCH_END"] conjI) (assumption | simp)+
qed

section \<open>A kernel that reads\<close>

definition reading_net :: kernel where
  "reading_net = sample_net\<lparr>k_recv := (\<lambda>sent n fl. if n < length sent
     then Inr (sample_reply (if read_lookup False True True (sent ! n) = Some ([[97, 0]], [1, 1, 1, 1]) then 0 else - 4103))
     else Inl EAGAIN)\<rparr>"

definition sample_sets :: "bool \<Rightarrow> bytes" where
  "sample_sets v4 = (if v4 then [97] else [])"

lemma reading_net_ok: "kernel_ok False True reading_net" "never_refuses reading_net"
proof -
  have "interrupts_end reading_net" by (auto simp: interrupts_end_def reading_net_def sample_net_def)
  moreover have "is_error False m" if "k_recv reading_net sent n fl = Inr m" for sent n fl m
    using that sample_reply_error(1) by (auto simp: reading_net_def split: if_splits)
  ultimately show "kernel_ok False True reading_net" by (auto simp: kernel_ok_def)
  show "never_refuses reading_net" by (simp add: never_refuses_def reading_net_def sample_net_def)
qed

lemma reading_net_answers: "answers_lookups False True sample_sets {(True, [1, 1, 1, 1])} reading_net"
  unfolding answers_lookups_def
proof (intro allI impI)
  fix xs :: "(bool \<times> bytes) list" and qs :: "bytes list" and j
  assume h: "lookups_for False True sample_sets xs qs \<and> j < length xs"
  then have j: "j < length qs" by (auto simp: lookups_for_def dest: list_all2_lengthD)
  obtain v4 ip where x: "xs ! j = (v4, ip)" by (cases "xs ! j")
  have "\<exists>tg. target_of True (sample_sets v4) = Some tg \<and> read_lookup False True v4 (qs ! j) = Some (target_names tg, ip)"
    using h list_all2_nthD [of _ xs qs j] x unfolding lookups_for_def by fastforce
  then have "v4" "read_lookup False True True (qs ! j) = Some ([[97, 0]], ip)"
    by (auto simp: target_of_def sample_sets_def split: if_splits)
  moreover have "sample_net\<lparr>k_recv := f\<rparr> = \<lparr>k_sent = [], k_send = k_send sample_net, k_nsend = 0, k_recv = f, k_nrecv = 0\<rparr>" for f
    by (simp add: sample_net_def)
  ultimately show "\<exists>m. k_recv reading_net (k_sent reading_net @ qs) (k_nrecv reading_net + j) MSG_DONTWAIT = Inr m
     \<and> (present False True m \<longleftrightarrow> xs ! j \<in> {(True, [1, 1, 1, 1])})"
    using j by (simp add: reading_net_def x sample_present)
qed

theorem ipset_messages_roundtrip_witness:
  "\<exists>ctx st0 ctx' st' qs m. ipset_new_addctx False sample_calls (\<lambda>_. 3) (\<lambda>_. 5) [97] (ipset_initial Syscall Syscall reading_net) = Some (Run (ctx, st0))
    \<and> run_ops False [Add [1, 1, 1, 1] True, Add [8, 8, 8, 8] True, Add (replicate 16 32) False, End] ctx st0 = Some (ctx', st')
    \<and> k_sent (net st') = qs @ [m] \<and> map (read_lookup False True True) qs = [Some ([[97, 0]], [1, 1, 1, 1]), Some ([[97, 0]], [8, 8, 8, 8])]
    \<and> read_request False True True m = Some ([[97, 0]], [([], [8, 8, 8, 8])])"
proof -
  let ?st = "ipset_initial Syscall Syscall reading_net"
  let ?xs = "[(True, [1, 1, 1, 1]), (True, [8, 8, 8, 8]), (False, replicate 16 32)] :: (bool \<times> bytes) list"
  have net: "net ?st = reading_net" "socket_ok sample_calls [97] ?st"
    by (simp_all add: socket_ok_def ipset_initial_def sample_calls_def)
  have at: "True \<longleftrightarrow> AT_SIGN \<notin> set [97]" using sample_name(2) by blast
  have parse: "parse_name46 [97] = Some (Run (sample_sets True, sample_sets False))"
    using sample_name(1) by (simp add: sample_sets_def)
  from ipset_new_addctx_spec [OF st_ok_initial [of False Syscall Syscall reading_net], where ?name46.0 = "[97]" and c = sample_calls and garbage = "\<lambda>_. 3" and mem = "\<lambda>_. 5"]
    sample_name(1,3) net at
  obtain ctx st0 where new: "ipset_new_addctx False sample_calls (\<lambda>_. 3) (\<lambda>_. 5) [97] ?st = Some (Run (ctx, st0))"
    by (auto simp: Let_def)
  have b: "\<not> blacklisted [1, 1, 1, 1] True" "\<not> blacklisted [8, 8, 8, 8] True" by code_simp+
  then have kept: "kept_ips (ipset_blacklist st0) sample_sets ?xs = (\<lambda>v4. if v4 then [[1, 1, 1, 1], [8, 8, 8, 8]] else [])"
    by (intro ext) (simp add: sample_sets_def)
  have len: "\<forall>(v4, ip) \<in> set ?xs. length ip = iplen v4" by (simp add: iplen_def IPV4_LEN_def IPV6_LEN_def)
  have room: "\<forall>v4. length (kept_ips (ipset_blacklist st0) sample_sets ?xs v4) \<le> IP_N"
    unfolding kept by (simp add: IP_N_def)
  have ok: "kernel_ok False True (net ?st)" "never_refuses (net ?st)" "answers_lookups False True sample_sets {(True, [1, 1, 1, 1])} (net ?st)"
    unfolding net using reading_net_ok reading_net_answers by simp_all
  have tg: "target_of True (sample_sets True) = Some (Set_ipset [97])" by (simp add: target_of_def sample_sets_def)
  from ipset_messages_roundtrip [OF st_ok_initial ok(1,2) at new parse len room ok(3)]
  obtain ctx' st' qs rs b e where r: "run_ops False (add_ops ?xs @ [End]) ctx st0 = Some (ctx', st')"
    "lookups_for False True sample_sets [(True, [1, 1, 1, 1]), (True, [8, 8, 8, 8])] qs"
    "requests_add False True sample_sets (\<lambda>v4. if v4 then [[8, 8, 8, 8]] else []) rs"
    "k_sent (net st') = k_sent (net ?st) @ qs @ (if True \<or> rs = [] then rs else [b @ concat rs @ e])"
    unfolding kept by (auto simp: Let_def pending_list_def if_distrib [of "filter _"] cong: if_cong)
  obtain q1 q2 where q: "qs = [q1, q2]" "read_lookup False True True q1 = Some ([[97, 0]], [1, 1, 1, 1])"
    "read_lookup False True True q2 = Some ([[97, 0]], [8, 8, 8, 8])"
    using r(2) tg by (auto simp: lookups_for_def list_all2_Cons1)
  obtain m where m: "rs = [m]" "read_request False True True m = Some ([[97, 0]], [([], [8, 8, 8, 8])])"
    using r(3) tg by (auto simp: requests_add_def list_all2_Cons1 intervals_def)
  have "k_sent (net ?st) = []" unfolding net by (simp add: reading_net_def sample_net_def)
  then show ?thesis using new r(1,4) q m
    by (intro exI [of _ ctx] exI [of _ st0] exI [of _ ctx'] exI [of _ st'] exI [of _ qs] exI [of _ m]) (simp add: add_ops_def)
qed

end
