(* ===== verification/Reply.thy ===== *)
theory Reply
  imports Dns_Check Ipset_Correct
begin

text \<open>
  The two components at work together: \<open>dns_test_ip\<close> and \<open>dns_add_ip\<close> of \<^verbatim>\<open>src/dns.c\<close> on a reply
  that \<open>dns_check_reply\<close> has accepted, with \<open>ipset_test_ip\<close>, \<open>ipset_add_ip\<close> and
  \<open>ipset_end_add_ip\<close> of \<^verbatim>\<open>src/ipset.c\<close> as the set they ask and fill.
\<close>

section \<open>The set of the C code\<close>

definition set_test :: "bool \<Rightarrow> (testctx \<times> ipset_state) ip_test" where
  "set_test be ip v4 w = map_option (\<lambda>(b, ctx, st). (b, (ctx, st))) (ipset_test_ip be (fst w) ip v4 (snd w))"

definition set_add :: "bool \<Rightarrow> (addctx \<times> ipset_state) ip_add" where
  "set_add be ip v4 w = ipset_add_ip be (fst w) ip v4 (snd w)"

definition set_end_add :: "bool \<Rightarrow> addctx \<times> ipset_state \<Rightarrow> (addctx \<times> ipset_state) option" where
  "set_end_add be w = ipset_end_add_ip be (fst w) (snd w)"

section \<open>The addresses of a reply\<close>

text \<open>The addresses before the first malformed one, each with its family.\<close>

fun addr_list :: "rr list \<Rightarrow> (bool \<times> bytes) list" where
  "addr_list [] = []"
| "addr_list (r # rs) =
     (if \<not> is_addr r then addr_list rs
      else if \<not> addr_ok r then []
      else (rr_type r = DNS_TYPE_A, rr_data r) # addr_list rs)"

fun add_all :: "'w ip_add \<Rightarrow> (bool \<times> bytes) list \<Rightarrow> 'w \<Rightarrow> 'w option" where
  "add_all a [] w = Some w"
| "add_all a ((v4, ip) # as) w = do { w \<leftarrow> a ip v4 w; add_all a as w }"

lemma add_addrs_eq: "add_addrs a rs w = add_all a (addr_list rs) w"
proof (induction rs arbitrary: w)
  case (Cons r rs)
  then have "add_addrs a rs = add_all a (addr_list rs)" by blast
  then show ?case by simp
qed simp

lemma addr_list_lengths: "(v4, ip) \<in> set (addr_list rs) \<Longrightarrow> length ip = iplen v4"
  by (induction rs) (auto simp: addr_ok_def iplen_def IPV4_LEN_def IPV6_LEN_def split: if_splits)

section \<open>Batches of pending addresses\<close>

definition of_family :: "(bool \<times> bytes) list \<Rightarrow> bool \<Rightarrow> bytes list" where
  "of_family as v4 = map snd (filter (\<lambda>a. fst a = v4) as)"

lemma of_family_Cons: "of_family ((v4, ip) # as) w = (if w = v4 then ip # of_family as w else of_family as w)"
  by (simp add: of_family_def)

text \<open>The batches that are sent while \<open>as\<close> are added to the pending \<open>q\<close>, and what is pending then.\<close>

fun batches :: "(bool \<Rightarrow> bytes list) \<Rightarrow> (bool \<times> bytes) list \<Rightarrow> (bool \<Rightarrow> bytes list) list \<times> (bool \<Rightarrow> bytes list)" where
  "batches q [] = ([], q)"
| "batches q ((v4, ip) # as) =
     (case batches (pending_after q ip v4) as of (bs, r) \<Rightarrow> (if sends_first q v4 then q # bs else bs, r))"

fun flushes :: "bool \<Rightarrow> bool \<Rightarrow> u32 \<Rightarrow> impl \<Rightarrow> impl \<Rightarrow> (bool \<Rightarrow> fam option) \<Rightarrow> (bool \<Rightarrow> bytes list) list \<Rightarrow> kernel \<Rightarrow> kernel option" where
  "flushes be is_ipset portid recv send F [] k = Some k"
| "flushes be is_ipset portid recv send F (b # bs) k = do {
     k \<leftarrow> flush be is_ipset portid recv send F b k;
     flushes be is_ipset portid recv send F bs k }"

lemma flushes_append:
  "flushes be is portid recv send F (bs @ cs) k = Option.bind (flushes be is portid recv send F bs k) (flushes be is portid recv send F cs)"
proof (induction bs arbitrary: k)
  case (Cons b bs)
  then show ?case by (cases "flush be is portid recv send F b k") auto
qed simp

lemma batches_family:
  "batches q as = (bs, r) \<Longrightarrow> concat (map (\<lambda>b. b v4) bs) @ r v4 = q v4 @ of_family as v4"
proof (induction q as arbitrary: bs r rule: batches.induct)
  case (1 q)
  then show ?case by (simp add: of_family_def)
next
  case (2 q w ip as)
  obtain bs' r' where b: "batches (pending_after q ip w) as = (bs', r')" by (cases "batches (pending_after q ip w) as")
  from 2(1) [OF b] 2(2) b show ?case
    by (auto simp: pending_after_def of_family_Cons split: if_splits)
qed

lemma batches_bounds:
  assumes "\<forall>v4. length (q v4) \<le> IP_N" "batches q as = (bs, r)"
  shows "\<forall>b \<in> insert r (set bs). \<forall>v4. length (b v4) \<le> IP_N" "\<forall>b \<in> set bs. \<exists>v4. b v4 \<noteq> []"
proof -
  have "(\<forall>b \<in> insert r (set bs). \<forall>v4. length (b v4) \<le> IP_N) \<and> (\<forall>b \<in> set bs. \<exists>v4. b v4 \<noteq> [])"
    using assms
  proof (induction q as arbitrary: bs r rule: batches.induct)
    case (2 q w ip as)
    obtain bs' r' where b: "batches (pending_after q ip w) as = (bs', r')" by (cases "batches (pending_after q ip w) as")
    have "length (q w) < IP_N" if "\<not> sends_first q w"
      using spec [OF 2(2), of w] that by (simp add: sends_first_def)
    then have "\<forall>v4. length (pending_after q ip w v4) \<le> IP_N"
      using 2(2) by (auto simp: pending_after_def sends_first_def IP_N_def)
    moreover have "q w \<noteq> []" if "sends_first q w" using that by (auto simp: sends_first_def IP_N_def)
    ultimately show ?case using 2(1) [OF _ b] 2(2,3) b by (auto split: if_splits)
  qed simp
  then show "\<forall>b \<in> insert r (set bs). \<forall>v4. length (b v4) \<le> IP_N" "\<forall>b \<in> set bs. \<exists>v4. b v4 \<noteq> []" by blast+
qed

lemma batches_few:
  "\<forall>v4. length (q v4 @ of_family as v4) \<le> IP_N \<Longrightarrow> batches q as = ([], \<lambda>v4. q v4 @ of_family as v4)"
proof (induction q as rule: batches.induct)
  case (1 q)
  then show ?case by (simp add: of_family_def)
next
  case (2 q w ip as)
  have s: "\<not> sends_first q w" using spec [OF 2(2), of w] by (simp add: sends_first_def of_family_Cons)
  then have "pending_after q ip w v4 @ of_family as v4 = q v4 @ of_family ((w, ip) # as) v4" for v4
    by (simp add: pending_after_def of_family_Cons)
  then show ?case using 2 s by simp
qed

section \<open>Adding the addresses of a reply\<close>

definition wanted :: "bool \<Rightarrow> (bool \<Rightarrow> fam option) \<Rightarrow> (bool \<times> bytes) list \<Rightarrow> (bool \<times> bytes) list" where
  "wanted blacklist F as = filter (\<lambda>(v4, ip). \<not> ignores blacklist F ip v4) as"

lemma wanted_simps [simp]: "wanted blacklist F [] = []"
  "wanted blacklist F ((v4, ip) # as) = (if ignores blacklist F ip v4 then wanted blacklist F as else (v4, ip) # wanted blacklist F as)"
  by (simp_all add: wanted_def)

lemma add_all_spec:
  assumes "add_ctx_inv be is F q ctx" "st_ready be is st" "kernel_ok be is (net st)" "\<forall>(v4, ip) \<in> set as. length ip = iplen v4"
    and "batches q (wanted (ipset_blacklist st) F as) = (bs, r)"
  shows "\<exists>ctx' st'. add_all (set_add be) as (ctx, st) = Some (ctx', st') \<and> add_ctx_inv be is F r ctx' \<and> sframe st st'
    \<and> flushes be is (s_portid st) (recv_impl st) (send_impl st) F bs (net st) = Some (net st')"
  using assms
proof (induction as arbitrary: q ctx st bs)
  case (Cons a as)
  obtain v4 ip where a: "a = (v4, ip)" by (cases a)
  have len: "length ip = iplen v4" "\<forall>(v4, ip) \<in> set as. length ip = iplen v4" using Cons.prems(4) a by auto
  from ipset_add_ip_spec [OF Cons.prems(1-3) len(1)] obtain c s where s: "ipset_add_ip be ctx ip v4 st = Some (c, s)" "sframe st s"
    "if ignores (ipset_blacklist st) F ip v4 then c = ctx \<and> s = st
     else add_ctx_inv be is F (pending_after q ip v4) c
       \<and> (if sends_first q v4 then flush be is (s_portid st) (recv_impl st) (send_impl st) F q (net st) = Some (net s) else s = st)"
    by blast
  note fr = sframeD [OF s(2)]
  have nx: "st_ready be is s" "kernel_ok be is (net s)"
    using sframe_ready [OF s(2) Cons.prems(2)] sframe_kernel_ok [OF s(2) Cons.prems(3)] by blast+
  have step: "add_all (set_add be) (a # as) (ctx, st) = add_all (set_add be) as (c, s)"
    by (simp add: a set_add_def s(1))
  show ?case
  proof (cases "ignores (ipset_blacklist st) F ip v4")
    case True
    then have "batches q (wanted (ipset_blacklist st) F as) = (bs, r)" "c = ctx" "s = st" using Cons.prems(5) s(3) a by simp_all
    then show ?thesis using Cons.IH [OF Cons.prems(1-3) len(2)] step by simp
  next
    case False
    obtain bs' where b: "batches (pending_after q ip v4) (wanted (ipset_blacklist st) F as) = (bs', r)"
      "bs = (if sends_first q v4 then q # bs' else bs')"
      using Cons.prems(5) a False by (auto split: prod.splits)
    have "batches (pending_after q ip v4) (wanted (ipset_blacklist s) F as) = (bs', r)" using b(1) fr by simp
    moreover have "add_ctx_inv be is F (pending_after q ip v4) c" using s(3) False by simp
    ultimately obtain ctx' st' where
      r: "add_all (set_add be) as (c, s) = Some (ctx', st')" "add_ctx_inv be is F r ctx'" "sframe s st'"
      "flushes be is (s_portid s) (recv_impl s) (send_impl s) F bs' (net s) = Some (net st')" using Cons.IH [OF _ nx len(2)] by blast
    have "flushes be is (s_portid st) (recv_impl st) (send_impl st) F bs (net st) = Some (net st')"
      using r(4) s(3) False b(2) fr by (auto split: if_splits)
    then show ?thesis using step r(1,2) sframe_trans [OF s(2) r(3)] by metis
  qed
qed simp

lemma add_batch_spec:
  assumes inv: "add_ctx_inv be is F (\<lambda>_. []) ctx" and st: "st_ready be is st" "kernel_ok be is (net st)"
    and len: "\<forall>(v4, ip) \<in> set as. length ip = iplen v4"
    and b: "batches (\<lambda>_. []) (wanted (ipset_blacklist st) F as) = (bs, r)"
  shows "\<exists>ctx' st'. Option.bind (add_all (set_add be) as (ctx, st)) (set_end_add be) = Some (ctx', st')
    \<and> add_ctx_inv be is F (\<lambda>_. []) ctx' \<and> sframe st st'
    \<and> flushes be is (s_portid st) (recv_impl st) (send_impl st) F (bs @ (if r = (\<lambda>_. []) then [] else [r])) (net st) = Some (net st')"
proof -
  from add_all_spec [OF inv st len b] obtain c s where c: "add_all (set_add be) as (ctx, st) = Some (c, s)"
    "add_ctx_inv be is F r c" "sframe st s"
    "flushes be is (s_portid st) (recv_impl st) (send_impl st) F bs (net st) = Some (net s)" by blast
  note fr = sframeD [OF c(3)]
  have nz: "npending r [True, False] = 0 \<longleftrightarrow> r = (\<lambda>_. [])" by (auto simp: fun_eq_iff all_bool_eq)
  from ipset_end_add_ip_spec [OF c(2) sframe_ready [OF c(3) st(1)] sframe_kernel_ok [OF c(3) st(2)], unfolded nz]
  obtain c' s' where e: "ipset_end_add_ip be c s = Some (c', s')" "add_ctx_inv be is F (\<lambda>_. []) c'" "sframe s s'"
    "if r = (\<lambda>_. []) then c' = c \<and> s' = s
     else flush be is (s_portid s) (recv_impl s) (send_impl s) F r (net s) = Some (net s')" by blast
  have "flushes be is (s_portid st) (recv_impl st) (send_impl st) F (bs @ (if r = (\<lambda>_. []) then [] else [r])) (net st) = Some (net s')"
    using c(4) e(4) fr by (auto simp: flushes_append split: if_splits)
  then show ?thesis using c(1) e(1,2) sframe_trans [OF c(3) e(3)] by (auto simp: set_end_add_def)
qed

section \<open>An accepted reply\<close>

text \<open>What \<open>dns_add_ip\<close> and \<open>dns_test_ip\<close> see of an accepted reply: its answer records.\<close>

lemma checked_answer:
  assumes "dns_check_reply msg len asc = Some (True, msg', asc', Some qn, Some newlen)" "len \<le> int (length msg)" "ascii_buf asc"
    "dns_is_good msg = Some True"
  obtains hq h rs post rem where "msg' = hq @ encode_rrs rs @ post" "length hq = msg_minlen qn" "view_header hq = Some h" "hd_good h"
    "list_all wf_rr rs" "int (unat newlen) = int (length hq + length (encode_rrs rs))"
    "records (unat (hd_ancount h)) (encode_rrs rs) = (take (unat (hd_ancount h)) rs, rem, True)" "unat (hd_ancount h) \<le> length rs"
proof -
  obtain hq h rs post where s: "msg' = hq @ encode_rrs rs @ post" "length hq = msg_minlen qn"
    "unat newlen = length (hq @ encode_rrs rs)" "list_all wf_rr rs" "view_header hq = Some h" "hd_good h"
    "unat (hd_ancount h) + unat (hd_nscount h) + unat (hd_arcount h) = length rs"
    using checked_reply_shape [OF assms] by metis
  let ?n = "unat (hd_ancount h)"
  have n: "?n \<le> length rs" using s(7) by linarith
  then have "length (take ?n rs) = ?n" by simp
  moreover have "list_all wf_rr (take ?n rs)" using s(4) by (auto simp: list_all_iff dest: in_set_takeD)
  ultimately have "records ?n (encode_rrs (take ?n rs) @ encode_rrs (drop ?n rs)) = (take ?n rs, encode_rrs (drop ?n rs), True)"
    using records_encode [of "take ?n rs" "encode_rrs (drop ?n rs)"] by simp
  moreover have "encode_rrs (take ?n rs) @ encode_rrs (drop ?n rs) = encode_rrs rs"
    unfolding encode_rrs_def by (metis append_take_drop_id concat_append map_append)
  ultimately have "records ?n (encode_rrs rs) = (take ?n rs, encode_rrs (drop ?n rs), True)" by simp
  with s n show ?thesis by (intro that [OF s(1,2,5,6,4)]) simp_all
qed

text \<open>
  C8: From the packet to the kernel, for any kernel. On a good reply that \<open>dns_check_reply\<close> has
  accepted, \<open>dns_add_ip\<close> with the set operations of \<^verbatim>\<open>ipset.c\<close> runs to its end, leaves no
  address pending, and has sent the addresses of the answer section, in the order of the
  records and up to the first malformed one, in batches of at most ten per family: all of them
  but the blacklisted ones and those of a family that has no set.
\<close>

theorem checked_reply_add_refines:
  assumes "dns_check_reply msg len asc = Some (True, msg', asc', Some qn, Some newlen)" "len \<le> int (length msg)" "ascii_buf asc"
    "dns_is_good msg = Some True"
    and "add_ctx_inv be is_ipset F (\<lambda>_. []) ctx" "st_ready be is_ipset st" "kernel_ok be is_ipset (net st)"
  shows "\<exists>hq h rs post bs ctx' st'. msg' = hq @ encode_rrs rs @ post \<and> length hq = msg_minlen qn \<and> list_all wf_rr rs \<and> view_header hq = Some h
    \<and> unat (hd_ancount h) \<le> length rs
    \<and> dns_add_ip (set_add be) (set_end_add be) msg' (int (unat newlen)) qn (ctx, st) = Some (ctx', st')
    \<and> add_ctx_inv be is_ipset F (\<lambda>_. []) ctx' \<and> st_ready be is_ipset st' \<and> kernel_ok be is_ipset (net st')
    \<and> flushes be is_ipset (s_portid st) (recv_impl st) (send_impl st) F bs (net st) = Some (net st')
    \<and> (\<forall>v4. concat (map (\<lambda>b. b v4) bs)
          = of_family (wanted (ipset_blacklist st) F (addr_list (take (unat (hd_ancount h)) rs))) v4)
    \<and> (\<forall>b \<in> set bs. (\<exists>v4. b v4 \<noteq> []) \<and> (\<forall>v4. length (b v4) \<le> IP_N))"
proof -
  obtain hq h rs post rem where s: "msg' = hq @ encode_rrs rs @ post" "length hq = msg_minlen qn" "view_header hq = Some h" "hd_good h"
    "list_all wf_rr rs" "int (unat newlen) = int (length hq + length (encode_rrs rs))"
    "records (unat (hd_ancount h)) (encode_rrs rs) = (take (unat (hd_ancount h)) rs, rem, True)" "unat (hd_ancount h) \<le> length rs"
    by (rule checked_answer [OF assms(1-4)])
  let ?as = "addr_list (take (unat (hd_ancount h)) rs)"
  obtain bs r where b: "batches (\<lambda>_. []) (wanted (ipset_blacklist st) F ?as) = (bs, r)"
    by (cases "batches (\<lambda>_. []) (wanted (ipset_blacklist st) F ?as)")
  let ?bs = "bs @ (if r = (\<lambda>_. []) then [] else [r])"
  have "\<forall>(v4, ip) \<in> set ?as. length ip = iplen v4" using addr_list_lengths by blast
  from add_batch_spec [OF assms(5-7) this b] obtain ctx' st' where
    e: "Option.bind (add_all (set_add be) ?as (ctx, st)) (set_end_add be) = Some (ctx', st')" "add_ctx_inv be is_ipset F (\<lambda>_. []) ctx'"
      "sframe st st'" "flushes be is_ipset (s_portid st) (recv_impl st) (send_impl st) F ?bs (net st) = Some (net st')" by blast
  have "dns_add_ip (set_add be) (set_end_add be) msg' (int (unat newlen)) qn (ctx, st) = Some (ctx', st')"
    unfolding s(1) using dns_add_ip_eq [OF s(2-4,6,7), of "set_add be" "set_end_add be" post] e(1) by (simp add: add_addrs_eq)
  moreover have "concat (map (\<lambda>b. b v4) ?bs) = of_family (wanted (ipset_blacklist st) F ?as) v4" for v4
    using batches_family [OF b, of v4] by auto
  moreover have "\<forall>b \<in> set ?bs. (\<exists>v4. b v4 \<noteq> []) \<and> (\<forall>v4. length (b v4) \<le> IP_N)"
    using batches_bounds [OF _ b] by (auto simp: fun_eq_iff)
  ultimately show ?thesis
    using s(1-3,5,8) e(2,4) sframe_ready [OF e(3) assms(6)] sframe_kernel_ok [OF e(3) assms(7)] by blast
qed

theorem checked_reply_add_refines_witness:
  "\<exists>ctx st ctx' st'. ipset_new_addctx False sample_calls (\<lambda>_. 0) (\<lambda>_. 0) [97] sample_start = Some (Run (ctx, st))
    \<and> dns_add_ip (set_add False) (set_end_add False) Dns_Check.sample_reply (int (unat (35 :: u16))) 3 (ctx, st) = Some (ctx', st')"
proof -
  obtain ctx st F f where new: "ipset_new_addctx False sample_calls (\<lambda>_. 0) (\<lambda>_. 0) [97] sample_start = Some (Run (ctx, st))"
    "st_ready False True st" "net st = sample_net" "add_ctx_inv False True F (\<lambda>_. []) ctx" "F True = Some f"
    using sample_new by blast
  have g: "(35 :: int) \<le> int (length Dns_Check.sample_reply)" "dns_is_good Dns_Check.sample_reply = Some True" "ascii_buf None"
    by (code_simp, code_simp, simp add: ascii_buf_def)
  have k: "kernel_ok False True (net st)" using new(3) sample_net_ok by simp
  from checked_reply_add_refines [OF sample_checked g(1,3,2) new(4,2) k] new(1) show ?thesis by blast
qed

section \<open>A kernel that knows its set\<close>

text \<open>Every lookup of pending addresses is answered by membership in \<open>S\<close>.\<close>

definition knows_set :: "bool \<Rightarrow> bool \<Rightarrow> (bool \<Rightarrow> fam option) \<Rightarrow> (bool \<times> bytes) set \<Rightarrow> kernel \<Rightarrow> bool" where
  "knows_set be is_ipset F S k \<longleftrightarrow> (\<forall>ips j. (\<forall>v4. (F v4 = None \<longrightarrow> ips v4 = []) \<and> (\<forall>ip \<in> set (ips v4). length ip = iplen v4))
     \<longrightarrow> j < length (pending_list ips)
     \<longrightarrow> (\<exists>m. k_recv k (k_sent k @ queries F ips [True, False]) (k_nrecv k + j) MSG_DONTWAIT = Inr m
          \<and> (present be is_ipset m \<longleftrightarrow> pending_list ips ! j \<in> S)))"

text \<open>Every test is answered by membership in \<open>S\<close>; where no answer was asked for, silence is a yes.\<close>

definition knows_test :: "bool \<Rightarrow> bool \<Rightarrow> (bool \<Rightarrow> fam option) \<Rightarrow> (bool \<times> bytes) set \<Rightarrow> kernel \<Rightarrow> bool" where
  "knows_test be is_ipset F S k \<longleftrightarrow> (\<forall>v4 ip f. F v4 = Some f \<longrightarrow> length ip = iplen v4
     \<longrightarrow> (case k_recv k (k_sent k @ [q_head f @ ip]) (k_nrecv k) MSG_DONTWAIT of
           Inl e \<Rightarrow> e = EAGAIN \<and> (v4, ip) \<in> S
         | Inr m \<Rightarrow> present be is_ipset m \<longleftrightarrow> (v4, ip) \<in> S))"

lemma of_family_props:
  assumes "as = wanted bl F (addr_list rs)"
  shows "F v4 = None \<Longrightarrow> of_family as v4 = []" "ip \<in> set (of_family as v4) \<Longrightarrow> length ip = iplen v4"
proof -
  have "F w \<noteq> None" if "(w, x) \<in> set as" for w x using that assms by (auto simp: wanted_def ignores_def)
  then show "F v4 = None \<Longrightarrow> of_family as v4 = []" by (fastforce simp: of_family_def filter_empty_conv)
  show "ip \<in> set (of_family as v4) \<Longrightarrow> length ip = iplen v4"
    using assms addr_list_lengths [of v4 ip rs] by (auto simp: of_family_def wanted_def)
qed

text \<open>
  C4: A kernel that accepts the requests and knows its set gets exactly what is missing. For an
  accepted good reply with at most ten addresses per family, it is sent one lookup for each
  address of the answer, then requests that add those that are not in the set, and nothing else.
\<close>

theorem checked_reply_adds_missing:
  assumes "dns_check_reply msg len asc = Some (True, msg', asc', Some qn, Some newlen)" "len \<le> int (length msg)" "ascii_buf asc"
    "dns_is_good msg = Some True"
    and "add_ctx_inv be is_ipset F (\<lambda>_. []) ctx" "st_ready be is_ipset st" "kernel_ok be is_ipset (net st)"
    and "never_refuses (net st)" "knows_set be is_ipset F S (net st)"
  shows "\<exists>hq h rs post. msg' = hq @ encode_rrs rs @ post \<and> length hq = msg_minlen qn \<and> list_all wf_rr rs \<and> view_header hq = Some h
    \<and> unat (hd_ancount h) \<le> length rs
    \<and> (let ips = of_family (wanted (ipset_blacklist st) F (addr_list (take (unat (hd_ancount h)) rs)))
       in (\<forall>v4. length (ips v4) \<le> IP_N) \<longrightarrow>
         (\<exists>ctx' st'. dns_add_ip (set_add be) (set_end_add be) msg' (int (unat newlen)) qn (ctx, st) = Some (ctx', st')
           \<and> k_sent (net st') = k_sent (net st) @ queries F ips [True, False]
               @ requests_for be is_ipset (s_portid st) F (\<lambda>v4. filter (\<lambda>ip. (v4, ip) \<notin> S) (ips v4))))"
proof -
  obtain hq h rs post rem where s: "msg' = hq @ encode_rrs rs @ post" "length hq = msg_minlen qn" "view_header hq = Some h" "hd_good h"
    "list_all wf_rr rs" "int (unat newlen) = int (length hq + length (encode_rrs rs))"
    "records (unat (hd_ancount h)) (encode_rrs rs) = (take (unat (hd_ancount h)) rs, rem, True)" "unat (hd_ancount h) \<le> length rs"
    by (rule checked_answer [OF assms(1-4)])
  let ?as = "addr_list (take (unat (hd_ancount h)) rs)"
  define ips where "ips = of_family (wanted (ipset_blacklist st) F ?as)"
  have "\<exists>ctx' st'. dns_add_ip (set_add be) (set_end_add be) msg' (int (unat newlen)) qn (ctx, st) = Some (ctx', st')
      \<and> k_sent (net st') = k_sent (net st) @ queries F ips [True, False]
          @ requests_for be is_ipset (s_portid st) F (\<lambda>v4. filter (\<lambda>ip. (v4, ip) \<notin> S) (ips v4))"
    if few: "\<forall>v4. length (ips v4) \<le> IP_N"
  proof -
    have b: "batches (\<lambda>_. []) (wanted (ipset_blacklist st) F ?as) = ([], ips)"
      using batches_few [of "\<lambda>_. []" "wanted (ipset_blacklist st) F ?as"] few by (simp add: ips_def)
    have "\<forall>(v4, ip) \<in> set ?as. length ip = iplen v4" using addr_list_lengths by blast
    from add_batch_spec [OF assms(5-7) this b] obtain ctx' st' where
      e: "Option.bind (add_all (set_add be) ?as (ctx, st)) (set_end_add be) = Some (ctx', st')"
        "flushes be is_ipset (s_portid st) (recv_impl st) (send_impl st) F (if ips = (\<lambda>_. []) then [] else [ips]) (net st) = Some (net st')"
      by auto
    have d: "dns_add_ip (set_add be) (set_end_add be) msg' (int (unat newlen)) qn (ctx, st) = Some (ctx', st')"
      unfolding s(1) using dns_add_ip_eq [OF s(2-4,6,7), of "set_add be" "set_end_add be" post] e(1) by (simp add: add_addrs_eq)
    have "k_sent (net st') = k_sent (net st) @ queries F ips [True, False]
        @ requests_for be is_ipset (s_portid st) F (\<lambda>v4. filter (\<lambda>ip. (v4, ip) \<notin> S) (ips v4))"
    proof (cases "ips = (\<lambda>_. [])")
      case True
      then show ?thesis using e(2) by (simp add: requests_for_def)
    next
      case False
      then have ne: "npending ips [True, False] \<noteq> 0" by (auto simp: fun_eq_iff all_bool_eq)
      have "flush be is_ipset (s_portid st) (recv_impl st) (send_impl st) F ips (net st) = Some (net st')"
        using e(2) False by (auto split: Option.bind_splits)
      moreover have "\<forall>j < length (pending_list ips). \<exists>m. k_recv (net st) (k_sent (net st) @ queries F ips [True, False]) (k_nrecv (net st) + j) MSG_DONTWAIT
          = Inr m \<and> (present be is_ipset m \<longleftrightarrow> pending_list ips ! j \<in> S)"
        using assms(9) of_family_props [OF refl] unfolding knows_set_def ips_def by metis
      ultimately show ?thesis using flush_adds_missing ne assms(7,8) by blast
    qed
    then show ?thesis using d by blast
  qed
  then show ?thesis unfolding Let_def using s(1-3,5,8) unfolding ips_def by blast
qed

lemma sample_answer:
  assumes "Dns_Check.sample_reply = hq @ encode_rrs rs @ post" "length hq = msg_minlen 3" "list_all wf_rr rs" "view_header hq = Some h"
    "unat (hd_ancount h) \<le> length rs"
  shows "take (unat (hd_ancount h)) rs = [sample_rr]"
proof -
  have s: "Dns_Check.sample_reply = ([0, 7, 129, 128, 0, 1, 0, 1, 0, 0, 0, 0] @ [1, 97, 0, 0, 1, 0, 1]) @ encode_rr sample_rr"
    by (simp add: Dns_Check.sample_reply_def)
  have "hq = [0, 7, 129, 128, 0, 1, 0, 1, 0, 0, 0, 0] @ [1, 97, 0, 0, 1, 0, 1]" and e: "encode_rrs rs @ post = encode_rr sample_rr"
    using assms(1,2) unfolding s append_eq_append_conv2 [of hq] append_assoc
    by (auto simp: msg_minlen_def dns_sizes append_eq_conv_conj simp del: append.simps)
  then have n: "unat (hd_ancount h) = 1"
    using sample_header assms(4) by auto
  then obtain r rs' where rs: "rs = r # rs'" using assms(5) by (cases rs) auto
  have "wf_rr sample_rr" by (simp add: wf_rr_def sample_rr_def)
  then have "parse_rr (encode_rr sample_rr) = Some (sample_rr, [])" using parse_rr_encode [of sample_rr "[]"] by simp
  moreover have "parse_rr (encode_rr sample_rr) = Some (r, encode_rrs rs' @ post)"
    using parse_rr_encode [of r "encode_rrs rs' @ post"] assms(3) e rs by (simp add: encode_rrs_def)
  ultimately show ?thesis using n rs by simp
qed

lemma sample_knows_set:
  assumes "F True = Some f" "F False = None"
  shows "knows_set False True F {(True, [1, 1, 1, 1])} sample_net"
  unfolding knows_set_def
proof (intro allI impI)
  fix ips j
  assume ips: "\<forall>v4. (F v4 = None \<longrightarrow> ips v4 = []) \<and> (\<forall>ip \<in> set (ips v4). length ip = iplen v4)" and j: "j < length (pending_list ips)"
  have "ips False = []" using ips assms(2) by blast
  then have p: "pending_list ips = map (Pair True) (ips True)" "queries F ips [True, False] = map (\<lambda>ip. q_head f @ ip) (ips True)"
    using assms(1) by (simp_all add: pending_list_def)
  have len: "j < length (ips True)" using j p(1) by simp
  have "ips True ! j \<in> set (ips True)" using len by simp
  then have "length (ips True ! j) = iplen True" using ips by blast
  then have "length (ips True ! j) = 4" by (simp add: iplen_def IPV4_LEN_def)
  then have "k_recv sample_net (k_sent sample_net @ queries F ips [True, False]) (k_nrecv sample_net + j) MSG_DONTWAIT
      = Inr (Ipset_Correct.sample_reply (if ips True ! j = [1, 1, 1, 1] then 0 else - 4103))"
    using len by (simp add: sample_net_def p(2) del: queries_simps)
  then show "\<exists>m. k_recv sample_net (k_sent sample_net @ queries F ips [True, False]) (k_nrecv sample_net + j) MSG_DONTWAIT = Inr m
      \<and> (present False True m \<longleftrightarrow> pending_list ips ! j \<in> {(True, [1, 1, 1, 1])})"
    using len by (simp add: p(1) sample_present)
qed

theorem checked_reply_adds_missing_witness:
  "\<exists>ctx st F f ctx' st'. ipset_new_addctx False sample_calls (\<lambda>_. 0) (\<lambda>_. 0) [97] sample_start = Some (Run (ctx, st))
    \<and> dns_add_ip (set_add False) (set_end_add False) Dns_Check.sample_reply (int (unat (35 :: u16))) 3 (ctx, st) = Some (ctx', st')
    \<and> F True = Some f \<and> k_sent (net st') = [q_head f @ [1, 2, 4, 8], add_request False True True f [[1, 2, 4, 8]]]"
proof -
  obtain ctx st F f where new: "ipset_new_addctx False sample_calls (\<lambda>_. 0) (\<lambda>_. 0) [97] sample_start = Some (Run (ctx, st))"
    "st_ready False True st" "net st = sample_net" "add_ctx_inv False True F (\<lambda>_. []) ctx" "F True = Some f" "F False = None"
    using sample_new by blast
  have g: "(35 :: int) \<le> int (length Dns_Check.sample_reply)" "dns_is_good Dns_Check.sample_reply = Some True" "ascii_buf None"
    by (code_simp, code_simp, simp add: ascii_buf_def)
  have k: "kernel_ok False True (net st)" "never_refuses (net st)" "knows_set False True F {(True, [1, 1, 1, 1])} (net st)"
    using new(3) sample_net_ok sample_knows_set [OF new(5,6)] by simp_all
  from checked_reply_adds_missing [OF sample_checked g(1,3,2) new(4,2) k] obtain hq h rs post where
    r: "Dns_Check.sample_reply = hq @ encode_rrs rs @ post" "length hq = msg_minlen 3" "list_all wf_rr rs" "view_header hq = Some h"
      "unat (hd_ancount h) \<le> length rs"
      "let ips = of_family (wanted (ipset_blacklist st) F (addr_list (take (unat (hd_ancount h)) rs)))
       in (\<forall>v4. length (ips v4) \<le> IP_N) \<longrightarrow>
         (\<exists>ctx' st'. dns_add_ip (set_add False) (set_end_add False) Dns_Check.sample_reply (int (unat (35 :: u16))) 3 (ctx, st) = Some (ctx', st')
           \<and> k_sent (net st') = k_sent (net st) @ queries F ips [True, False]
               @ requests_for False True (s_portid st) F (\<lambda>v4. filter (\<lambda>ip. (v4, ip) \<notin> {(True, [1, 1, 1, 1])}) (ips v4)))" by blast
  have "\<not> blacklisted [1, 2, 4, 8] True" by code_simp
  then have "\<not> ignores (ipset_blacklist st) F [1, 2, 4, 8] True" using new(5) by (simp add: ignores_def)
  moreover have "addr_list (take (unat (hd_ancount h)) rs) = [(True, [1, 2, 4, 8])]"
    unfolding sample_answer [OF r(1-5)] by (simp add: sample_rr_def is_addr_def addr_ok_def DNS_TYPE_A_def)
  ultimately have w: "of_family (wanted (ipset_blacklist st) F (addr_list (take (unat (hd_ancount h)) rs)))
      = (\<lambda>v4. if v4 then [[1, 2, 4, 8]] else [])"
    by (auto simp: of_family_def fun_eq_iff)
  have "k_sent (net st) = []" using new(3) by (simp add: sample_net_def)
  with r(6) new(5) show ?thesis using new(1) unfolding w Let_def by (fastforce simp: requests_for_def IP_N_def)
qed

section \<open>The verdict on a reply\<close>

lemma RECVMMSG_one:
  "RECVMMSG i [room] MSG_DONTWAIT k =
    (let k' = k\<lparr>k_nrecv := k_nrecv k + 1\<rparr>
     in case k_recv k (k_sent k) (k_nrecv k) MSG_DONTWAIT of
          Inl e \<Rightarrow> ((-1, e), [], k')
        | Inr m \<Rightarrow> ((1, 0), [take room m], k'))"
proof -
  have "MSG_DONTWAIT AND NOT MSG_WAITFORONE = MSG_DONTWAIT" "MSG_DONTWAIT AND MSG_WAITFORONE = 0"
    by (simp_all add: MSG_DONTWAIT_def MSG_WAITFORONE_def)
  then show ?thesis
    by (cases i) (simp_all add: RECVMMSG_def sys_recvmmsg_def userspace_recvmmsg_def recvmsg_def Let_def split: sum.split)
qed

lemma ipset_test_ip_member:
  assumes "test_ctx_inv be F ctx" "st_ready be is st" "kernel_ok be is (net st)" "length ip = iplen v4" "F v4 = Some f"
    and "never_refuses (net st)" "knows_test be is F S (net st)"
  shows "\<exists>ctx' st'. ipset_test_ip be ctx ip v4 st = Some ((v4, ip) \<in> S, ctx', st') \<and> test_ctx_inv be F ctx' \<and> sframe st st'"
proof -
  from ipset_test_ip_spec [OF assms(1-5)] obtain b ctx' st' r k where t: "ipset_test_ip be ctx ip v4 st = Some (b, ctx', st')"
    "test_ctx_inv be F ctx'" "sframe st st'" "sendall (SENDMMSG (send_impl st)) [q_head f @ ip] (net st) = Some (r, k)"
    "if r < 0 then \<not> b \<and> net st' = k
       else \<exists>n e ms. RECVMMSG (recv_impl st) [BUFSZ_RES] MSG_DONTWAIT k = ((n, e), ms, net st')
          \<and> b = (if ms = [] then e = EAGAIN else present be is (hd ms))" by blast
  have live: "interrupts_end (net st)" using assms(3) by (simp add: kernel_ok_def)
  from send.sendall_spec [OF live, of "[q_head f @ ip]" "send_impl st"] assms(6) t(4)
  have k: "r = 1" "same_oracles (net st) k" "k_sent k = k_sent (net st) @ [q_head f @ ip]" by auto
  from t(5) k(1) obtain n e ms where m: "RECVMMSG (recv_impl st) [BUFSZ_RES] MSG_DONTWAIT k = ((n, e), ms, net st')"
    "b = (if ms = [] then e = EAGAIN else present be is (hd ms))" by auto
  let ?ans = "k_recv (net st) (k_sent (net st) @ [q_head f @ ip]) (k_nrecv (net st)) MSG_DONTWAIT"
  have ans: "case ?ans of Inl e \<Rightarrow> e = EAGAIN \<and> (v4, ip) \<in> S | Inr m \<Rightarrow> present be is m \<longleftrightarrow> (v4, ip) \<in> S"
    using assms(4,5,7) unfolding knows_test_def by blast
  have a: "k_recv k (k_sent k) (k_nrecv k) MSG_DONTWAIT = ?ans" using k by (simp add: same_oracles_def)
  have "b \<longleftrightarrow> (v4, ip) \<in> S"
  proof (cases ?ans)
    case (Inl e')
    then show ?thesis using m ans a by (auto simp: RECVMMSG_one Let_def)
  next
    case (Inr x)
    have "present be is (take BUFSZ_RES x) = present be is x"
      using reply_take(1) [OF kernel_ok_reply [OF assms(3) Inr], of BUFSZ_RES]
      by (simp add: BUFSZ_RES_def NLMSGERR_SPACE_eq IP_N_def)
    then show ?thesis using m ans a Inr by (auto simp: RECVMMSG_one Let_def)
  qed
  then show ?thesis using t(1-3) by auto
qed

text \<open>
  C5: The verdict. With a kernel that knows its set of Chinese addresses, \<open>dns_test_ip\<close> on an
  accepted good reply asks for the first A or AAAA record of the answer section and returns
  \<^verbatim>\<open>IS_CHINA_IP\<close> exactly if its address is in the set of its family, \<^verbatim>\<open>OTHER_CASE\<close> if the
  record is malformed and \<^verbatim>\<open>NO_IP_FOUND\<close> if there is no such record. The test context can be
  used again.
\<close>

theorem checked_reply_verdict:
  assumes "dns_check_reply msg len asc = Some (True, msg', asc', Some qn, Some newlen)" "len \<le> int (length msg)" "ascii_buf asc"
    "dns_is_good msg = Some True"
    and "test_ctx_inv be F ctx" "st_ready be is_ipset st" "kernel_ok be is_ipset (net st)"
    and "never_refuses (net st)" "knows_test be is_ipset F S (net st)"
  shows "\<exists>hq h rs post ctx' st'. msg' = hq @ encode_rrs rs @ post \<and> length hq = msg_minlen qn \<and> list_all wf_rr rs \<and> view_header hq = Some h
    \<and> unat (hd_ancount h) \<le> length rs \<and> test_ctx_inv be F ctx' \<and> st_ready be is_ipset st'
    \<and> dns_test_ip (set_test be) msg' (int (unat newlen)) qn (ctx, st) = Some
        (case find is_addr (take (unat (hd_ancount h)) rs) of
           None \<Rightarrow> DNS_TEST_IP_NO_IP_FOUND
         | Some r \<Rightarrow> if \<not> addr_ok r then DNS_TEST_IP_OTHER_CASE
             else if F (rr_type r = DNS_TYPE_A) \<noteq> None \<and> (rr_type r = DNS_TYPE_A, rr_data r) \<in> S then DNS_TEST_IP_IS_CHINA_IP
             else DNS_TEST_IP_NON_CHINA_IP, (ctx', st'))"
proof -
  obtain hq h rs post rem where s: "msg' = hq @ encode_rrs rs @ post" "length hq = msg_minlen qn" "view_header hq = Some h" "hd_good h"
    "list_all wf_rr rs" "int (unat newlen) = int (length hq + length (encode_rrs rs))"
    "records (unat (hd_ancount h)) (encode_rrs rs) = (take (unat (hd_ancount h)) rs, rem, True)" "unat (hd_ancount h) \<le> length rs"
    by (rule checked_answer [OF assms(1-4)])
  let ?rs = "take (unat (hd_ancount h)) rs"
  have d: "dns_test_ip (set_test be) msg' (int (unat newlen)) qn (ctx, st) =
    (case find is_addr ?rs of
       None \<Rightarrow> Some (2, (ctx, st))
     | Some r \<Rightarrow> if \<not> addr_ok r then Some (3, (ctx, st))
         else map_option (\<lambda>(china, w'). (if china then 0 else 1, w')) (set_test be (rr_data r) (rr_type r = DNS_TYPE_A) (ctx, st)))"
    unfolding s(1) using dns_test_ip_eq [OF s(2-4,6,7), of "set_test be" post "(ctx, st)"] by simp
  have one: "\<exists>ctx' st'. set_test be (rr_data r) (rr_type r = DNS_TYPE_A) (ctx, st)
      = Some (F (rr_type r = DNS_TYPE_A) \<noteq> None \<and> (rr_type r = DNS_TYPE_A, rr_data r) \<in> S, (ctx', st'))
    \<and> test_ctx_inv be F ctx' \<and> st_ready be is_ipset st'" if r: "is_addr r" "addr_ok r" for r
  proof (cases "F (rr_type r = DNS_TYPE_A)")
    case None
    then have "ctx (rr_type r = DNS_TYPE_A) = None" using assms(5) by (auto simp: test_ctx_inv_def dest!: spec [of _ "rr_type r = DNS_TYPE_A"])
    then show ?thesis using None assms(5,6) by (simp add: set_test_def ipset_test_ip_def)
  next
    case (Some f)
    have "length (rr_data r) = iplen (rr_type r = DNS_TYPE_A)" using r by (simp add: addr_ok_def iplen_def IPV4_LEN_def IPV6_LEN_def)
    from ipset_test_ip_member [OF assms(5-7) this Some assms(8,9)] show ?thesis
      using Some sframe_ready [OF _ assms(6)] by (auto simp: set_test_def)
  qed
  have "\<exists>ctx' st'. test_ctx_inv be F ctx' \<and> st_ready be is_ipset st'
    \<and> dns_test_ip (set_test be) msg' (int (unat newlen)) qn (ctx, st) = Some
        (case find is_addr ?rs of
           None \<Rightarrow> DNS_TEST_IP_NO_IP_FOUND
         | Some r \<Rightarrow> if \<not> addr_ok r then DNS_TEST_IP_OTHER_CASE
             else if F (rr_type r = DNS_TYPE_A) \<noteq> None \<and> (rr_type r = DNS_TYPE_A, rr_data r) \<in> S then DNS_TEST_IP_IS_CHINA_IP
             else DNS_TEST_IP_NON_CHINA_IP, (ctx', st'))"
  proof (cases "find is_addr ?rs")
    case None
    then show ?thesis using d assms(5,6) by (simp add: DNS_TEST_IP_NO_IP_FOUND_def)
  next
    case (Some r)
    have "is_addr r" using Some by (auto simp: find_Some_iff)
    show ?thesis
    proof (cases "addr_ok r")
      case True
      let ?in = "F (rr_type r = DNS_TYPE_A) \<noteq> None \<and> (rr_type r = DNS_TYPE_A, rr_data r) \<in> S"
      obtain ctx' st' where t: "set_test be (rr_data r) (rr_type r = DNS_TYPE_A) (ctx, st) = Some (?in, (ctx', st'))"
        "test_ctx_inv be F ctx'" "st_ready be is_ipset st'"
        using one [OF \<open>is_addr r\<close> True] by blast
      have "dns_test_ip (set_test be) msg' (int (unat newlen)) qn (ctx, st)
          = Some (if ?in then DNS_TEST_IP_IS_CHINA_IP else DNS_TEST_IP_NON_CHINA_IP, (ctx', st'))"
        unfolding d Some using True t(1) by (simp add: DNS_TEST_IP_IS_CHINA_IP_def DNS_TEST_IP_NON_CHINA_IP_def)
      then show ?thesis unfolding Some option.case using True t(2,3) by auto
    next
      case False
      then show ?thesis using d Some assms(5,6) by (simp add: DNS_TEST_IP_OTHER_CASE_def)
    qed
  qed
  then show ?thesis using s(1-3,5,8) by blast
qed

theorem checked_reply_verdict_witness:
  "\<exists>ctx st ctx' st'. ipset_new_testctx False sample_calls (\<lambda>_. 0) (\<lambda>_. 0) [97] sample_start = Some (Run (ctx, st))
    \<and> dns_test_ip (set_test False) Dns_Check.sample_reply (int (unat (35 :: u16))) 3 (ctx, st) = Some (DNS_TEST_IP_NON_CHINA_IP, (ctx', st'))"
proof -
  have "(AT_SIGN \<notin> set [97]) = True" using sample_name(2) by blast
  from ipset_new_testctx_spec [OF sample_start(1,3) sample_name(1), unfolded this, OF sample_name(3), where garbage = "\<lambda>_. 0" and mem = "\<lambda>_. 0"]
  obtain ctx st F where new: "ipset_new_testctx False sample_calls (\<lambda>_. 0) (\<lambda>_. 0) [97] sample_start = Some (Run (ctx, st))"
    "st_ready False True st" "net st = sample_net" "test_ctx_inv False F ctx" "fam_ok False (s_portid st) True False False [] (F False)"
    using sample_start(2) by auto
  have F: "F False = None" using new(5) by (simp add: fam_ok_def)
  have g: "(35 :: int) \<le> int (length Dns_Check.sample_reply)" "dns_is_good Dns_Check.sample_reply = Some True" "ascii_buf None"
    by (code_simp, code_simp, simp add: ascii_buf_def)
  have "knows_test False True F {(True, [1, 1, 1, 1])} sample_net"
    using F by (auto simp: knows_test_def sample_net_def sample_present iplen_def IPV4_LEN_def all_bool_eq)
  then have k: "kernel_ok False True (net st)" "never_refuses (net st)" "knows_test False True F {(True, [1, 1, 1, 1])} (net st)"
    using new(3) sample_net_ok by simp_all
  from checked_reply_verdict [OF sample_checked g(1,3,2) new(4,2) k] obtain hq h rs post ctx' st' where
    r: "Dns_Check.sample_reply = hq @ encode_rrs rs @ post" "length hq = msg_minlen 3" "list_all wf_rr rs" "view_header hq = Some h"
      "unat (hd_ancount h) \<le> length rs"
      "dns_test_ip (set_test False) Dns_Check.sample_reply (int (unat (35 :: u16))) 3 (ctx, st) = Some
        (case find is_addr (take (unat (hd_ancount h)) rs) of
           None \<Rightarrow> DNS_TEST_IP_NO_IP_FOUND
         | Some r \<Rightarrow> if \<not> addr_ok r then DNS_TEST_IP_OTHER_CASE
             else if F (rr_type r = DNS_TYPE_A) \<noteq> None \<and> (rr_type r = DNS_TYPE_A, rr_data r) \<in> {(True, [1, 1, 1, 1])} then DNS_TEST_IP_IS_CHINA_IP
             else DNS_TEST_IP_NON_CHINA_IP, (ctx', st'))" by blast
  have "dns_test_ip (set_test False) Dns_Check.sample_reply (int (unat (35 :: u16))) 3 (ctx, st) = Some (DNS_TEST_IP_NON_CHINA_IP, (ctx', st'))"
    using r(6) unfolding sample_answer [OF r(1-5)] by (simp add: sample_rr_def is_addr_def addr_ok_def DNS_TYPE_A_def)
  then show ?thesis using new(1) by blast
qed

end
