(* ===== verification/Cache_Db.thy ===== *)
theory Cache_Db
  imports Netlink Dns_Name
begin

text \<open>
  The database of cached replies: how \<^verbatim>\<open>src/CacheMsg.zig\<close> dumps and loads it, and the header
  by which \<^verbatim>\<open>tool/dns_cache_mgr.c\<close> reads it. An entry is a header of 24 bytes in the byte order
  of the host and the reply; \<open>be\<close> says whether the host is big-endian.
\<close>

section \<open>64-bit integers in host order\<close>

type_synonym u64 = "64 word"

definition host64 :: "bool \<Rightarrow> u64 \<Rightarrow> bytes" where
  "host64 be w =
     (let bs = be32_bytes (ucast (drop_bit 32 w)) @ be32_bytes (ucast w) in if be then bs else rev bs)"

definition unhost64 :: "bool \<Rightarrow> bytes \<Rightarrow> u64" where
  "unhost64 be bs =
     (let bs = (if be then bs else rev bs)
      in word_cat (be32 (bs ! 0) (bs ! 1) (bs ! 2) (bs ! 3)) (be32 (bs ! 4) (bs ! 5) (bs ! 6) (bs ! 7)))"

definition rdh64 :: "bool \<Rightarrow> bytes \<Rightarrow> nat \<Rightarrow> u64 option" where
  "rdh64 be m i = map_option (unhost64 be) (slice_at m i 8)"

lemma length_host64 [simp]: "length (host64 be w) = 8"
  by (simp add: host64_def Let_def)

lemma unhost64_host64 [simp]: "unhost64 be (host64 be w) = w"
proof -
  have nth: "(be32_bytes a @ be32_bytes b) ! (4 + i) = be32_bytes b ! i" for a b i
    by (simp add: nth_append)
  have b: "be32 (be32_bytes (ucast w) ! 0) ((be32_bytes a @ be32_bytes (ucast w)) ! 5)
      ((be32_bytes a @ be32_bytes (ucast w)) ! 6) ((be32_bytes a @ be32_bytes (ucast w)) ! 7) = ucast w" for a
    using nth [of a "ucast w" 1] nth [of a "ucast w" 2] nth [of a "ucast w" 3] be32_of_bytes [of "ucast w"] by simp
  have "word_cat (ucast (drop_bit 32 w) :: u32) (ucast w :: u32) = w"
    by (rule bit_word_eqI) (auto simp: bit_simps)
  then show ?thesis
    using b [of "ucast (drop_bit 32 w)"] be32_of_bytes [of "ucast (drop_bit 32 w)"] by (simp add: unhost64_def host64_def nth_append)
qed

section \<open>The header\<close>

definition HDR_SIZE :: nat where "HDR_SIZE = 24"

text \<open>The fields of \<^verbatim>\<open>struct header\<close> that the tool reads, by their offsets.\<close>

definition h_update_time :: "bool \<Rightarrow> bytes \<Rightarrow> u64 option" where "h_update_time be h = rdh64 be h 0"
definition h_ttl :: "bool \<Rightarrow> bytes \<Rightarrow> u32 option" where "h_ttl be h = rdh32 be h 12"
definition h_msg_len :: "bool \<Rightarrow> bytes \<Rightarrow> u16 option" where "h_msg_len be h = rdh16 be h 20"
definition h_qnamelen :: "bytes \<Rightarrow> u8 option" where "h_qnamelen h = rd8 h 22"

section \<open>CacheMsg.zig\<close>

record cache_msg =
  c_update_time :: u64
  c_hashv :: u32
  c_ttl :: u32
  c_ttl_r :: u32
  c_qnamelen :: u8
  c_added_ip :: bool
  c_msg :: bytes

text \<open>The padding byte of \<^verbatim>\<open>Header\<close> has any value.\<close>

definition header_bytes :: "bool \<Rightarrow> u8 \<Rightarrow> cache_msg \<Rightarrow> bytes" where
  "header_bytes be pad c = host64 be (c_update_time c) @ host32 be (c_hashv c) @ host32 be (c_ttl c) @ host32 be (c_ttl_r c)
     @ host16 be (word_of_nat (length (c_msg c))) @ [c_qnamelen c, pad]"

definition dump :: "bool \<Rightarrow> u8 \<Rightarrow> cache_msg \<Rightarrow> bytes" where
  "dump be pad c = header_bytes be pad c @ c_msg c"

definition load :: "bool \<Rightarrow> bytes \<Rightarrow> (cache_msg \<times> bytes) option" where
  "load be data =
     (if length data = 0 then None
      else if length data \<le> HDR_SIZE then None
      else let h = take HDR_SIZE data; msg_len = unat (unhost16 be (take 2 (drop 20 h)))
           in if length data < HDR_SIZE + msg_len then None
              else Some (\<lparr>c_update_time = unhost64 be (take 8 h), c_hashv = unhost32 be (take 4 (drop 8 h)),
                          c_ttl = unhost32 be (take 4 (drop 12 h)), c_ttl_r = unhost32 be (take 4 (drop 16 h)),
                          c_qnamelen = h ! 22, c_added_ip = False, c_msg = take msg_len (drop HDR_SIZE data)\<rparr>,
                        drop (HDR_SIZE + msg_len) data))"

lemma load_shorter: "load be data = Some (c, rest) \<Longrightarrow> length rest < length data"
  by (auto simp: load_def Let_def HDR_SIZE_def split: if_splits)

text \<open>\<open>cache.load\<close> takes at most \<open>size\<close> entries.\<close>

function load_all :: "bool \<Rightarrow> nat \<Rightarrow> bytes \<Rightarrow> cache_msg list" where
  "load_all be n data =
     (case load be data of
        None \<Rightarrow> []
      | Some (c, rest) \<Rightarrow> if n \<le> 1 then [c] else c # load_all be (n - 1) rest)"
  by pat_completeness auto
termination
  by (relation "measure (\<lambda>(be, n, data). length data)") (auto dest: load_shorter)

declare load_all.simps [simp del]

section \<open>Lemmas\<close>

lemma length_header_bytes [simp]: "length (header_bytes be pad c) = HDR_SIZE"
  by (simp add: header_bytes_def HDR_SIZE_def)

lemma header_fields:
  shows "h_update_time be (header_bytes be pad c) = Some (c_update_time c)"
    "h_ttl be (header_bytes be pad c) = Some (c_ttl c)"
    "h_msg_len be (header_bytes be pad c) = Some (word_of_nat (length (c_msg c)))"
    "h_qnamelen (header_bytes be pad c) = Some (c_qnamelen c)"
  by (simp_all add: h_update_time_def h_ttl_def h_msg_len_def h_qnamelen_def rdh64_def rdh32_def rdh16_def slice_at_def
      header_bytes_def rd8_def nth_append)

lemma load_dump:
  assumes "0 < length (c_msg c)" "length (c_msg c) < 65536"
  shows "load be (dump be pad c @ rest) = Some (c\<lparr>c_added_ip := False\<rparr>, rest)"
proof -
  let ?h = "header_bytes be pad c"
  have h: "take HDR_SIZE (dump be pad c @ rest) = ?h" by (simp add: dump_def)
  have len: "unat (unhost16 be (take 2 (drop 20 ?h))) = length (c_msg c)"
    using assms(2) by (simp add: header_bytes_def unat_of_nat)
  have fields: "unhost64 be (take 8 ?h) = c_update_time c" "unhost32 be (take 4 (drop 8 ?h)) = c_hashv c"
    "unhost32 be (take 4 (drop 12 ?h)) = c_ttl c" "unhost32 be (take 4 (drop 16 ?h)) = c_ttl_r c" "?h ! 22 = c_qnamelen c"
    by (simp_all add: header_bytes_def nth_append)
  have "\<not> length (dump be pad c @ rest) = 0" "\<not> length (dump be pad c @ rest) \<le> HDR_SIZE"
    "\<not> length (dump be pad c @ rest) < HDR_SIZE + length (c_msg c)" using assms(1) by (simp_all add: dump_def HDR_SIZE_def)
  then show ?thesis
    unfolding load_def Let_def h len fields by (simp add: dump_def del: length_append)
qed

text \<open>A file that ends within an entry ends before it.\<close>

lemma load_torn:
  assumes "length (c_msg c) < 65536" "n < HDR_SIZE + length (c_msg c)"
  shows "load be (take n (dump be pad c)) = None"
proof (cases "n \<le> HDR_SIZE")
  case True
  then show ?thesis by (simp add: load_def dump_def)
next
  case False
  let ?h = "header_bytes be pad c"
  have h: "take HDR_SIZE (take n (dump be pad c)) = ?h" using False by (simp add: dump_def)
  have len: "unat (unhost16 be (take 2 (drop 20 ?h))) = length (c_msg c)"
    using assms(1) by (simp add: header_bytes_def unat_of_nat)
  have "length (take n (dump be pad c)) < HDR_SIZE + length (c_msg c)" using assms(2) by (simp add: dump_def)
  then show ?thesis unfolding load_def Let_def h len by simp
qed

lemma load_all_dump:
  assumes "\<forall>c \<in> set cs. 0 < length (c_msg c) \<and> length (c_msg c) < 65536" "length cs \<le> n" "length tail \<le> HDR_SIZE"
  shows "load_all be n (concat (map (dump be pad) cs) @ tail) = map (\<lambda>c. c\<lparr>c_added_ip := False\<rparr>) cs"
  using assms
proof (induction cs arbitrary: n)
  case Nil
  then show ?case by (simp add: load_all.simps [of be n tail] load_def)
next
  case (Cons c cs)
  have "load be (dump be pad c @ concat (map (dump be pad) cs) @ tail) = Some (c\<lparr>c_added_ip := False\<rparr>, concat (map (dump be pad) cs) @ tail)"
    using Cons.prems(1) by (intro load_dump) simp_all
  moreover have "load_all be (n - 1) (concat (map (dump be pad) cs) @ tail) = map (\<lambda>c. c\<lparr>c_added_ip := False\<rparr>) cs" if "\<not> n \<le> 1"
    using Cons that by (intro Cons.IH) auto
  moreover have "cs = []" if "n \<le> 1" using Cons.prems(2) that by (cases cs) simp_all
  ultimately show ?case by (subst load_all.simps) simp
qed

end
