(* ===== verification/Cache_Mgr.thy ===== *)
theory Cache_Mgr
  imports Cache_Db
begin

text \<open>
  The tool \<^verbatim>\<open>tool/dns_cache_mgr.c\<close>, which lists the database of cached replies or removes the
  entries of the given domains from it. A \<^verbatim>\<open>FILE\<close> is its bytes and the position in them. What
  the system decides (the clock, whether the temporary file can be made and renamed, how much
  each \<^verbatim>\<open>write\<close> stores) is in a record of oracles. \<open>Exit\<close> is \<^verbatim>\<open>printf_exit\<close>, \<open>None\<close> a
  failed assertion, an access outside an object or the overflow of a signed integer.
\<close>

section \<open>Files\<close>

type_synonym cfile = "bytes \<times> nat"

text \<open>\<^verbatim>\<open>fread(p, size, 1, file)\<close>: \<open>None\<close> if it does not return 1.\<close>

definition fread :: "cfile \<Rightarrow> nat \<Rightarrow> bytes option \<times> cfile" where
  "fread f n =
     (let (data, pos) = f; got = take n (drop pos data)
      in if n = 0 then (None, f)
         else if length got = n then (Some got, (data, pos + n))
         else (None, (data, pos + length got)))"

text \<open>\<^verbatim>\<open>fseek(file, off, SEEK_CUR)\<close>; it may leave the position behind the end, not before the start.\<close>

definition fseek_cur :: "cfile \<Rightarrow> int \<Rightarrow> cfile option" where
  "fseek_cur f off = (let (data, pos) = f in if int pos + off < 0 then None else Some (data, nat (int pos + off)))"

definition strlen :: "bytes \<Rightarrow> nat option" where
  "strlen buf = do { r \<leftarrow> memchr buf 0 (length buf) 0; r }"

record oracles =
  o_now :: int
  o_mkstemp :: bool
  o_rename :: bool
  o_write :: "nat \<Rightarrow> nat"

section \<open>next\<close>

text \<open>
  \<open>msg\<close> is the optional message buffer, \<open>name\<close> the buffer of the name and \<open>qname\<close> the content
  of the local array. The result tells whether there was an entry.
\<close>

definition next_entry :: "bool \<Rightarrow> cfile \<Rightarrow> bytes option \<Rightarrow> bytes \<Rightarrow> bytes \<Rightarrow>
    (bool \<times> bytes \<times> bytes option \<times> bytes \<times> cfile) run option" where
  "next_entry be file msg name qname =
     (case fread file HDR_SIZE of
        (None, file) \<Rightarrow> Some (Run (False, [], msg, name, file))
      | (Some h, file) \<Rightarrow> do {
          qnamelen \<leftarrow> map_option unat (h_qnamelen h);
          msg_len \<leftarrow> map_option unat (h_msg_len be h);
          and_then
            (case msg of
               Some msg \<Rightarrow>
                 (case fread file msg_len of
                    (None, _) \<Rightarrow> Some Exit
                  | (Some bs, file) \<Rightarrow> do {
                      msg \<leftarrow> put msg 0 bs;
                      q \<leftarrow> slice_at msg (unat dns_header_len) qnamelen;
                      qname \<leftarrow> put qname 0 q;
                      Some (Run (Some msg, qname, file)) })
             | None \<Rightarrow>
                 (case fseek_cur file (int (unat dns_header_len)) of
                    None \<Rightarrow> Some Exit
                  | Some file \<Rightarrow>
                      (case fread file qnamelen of
                         (None, _) \<Rightarrow> Some Exit
                       | (Some q, file) \<Rightarrow> do {
                           qname \<leftarrow> put qname 0 q;
                           case fseek_cur file (int msg_len - int (unat dns_header_len) - int qnamelen) of
                             None \<Rightarrow> Some Exit
                           | Some file \<Rightarrow> Some (Run (None, qname, file)) })))
            (\<lambda>(msg, qname, file). do {
               (ok, name) \<leftarrow> dns_wire_to_ascii qname (int qnamelen) name;
               Some (if ok then Run (True, h, msg, name, file) else Exit) }) })"

section \<open>list\<close>

text \<open>Subtraction of signed integers of \<open>w\<close> bits, which must not overflow.\<close>

definition c_sub :: "nat \<Rightarrow> int \<Rightarrow> int \<Rightarrow> int option" where
  "c_sub w a b = (if - (2 ^ (w - 1)) \<le> a - b \<and> a - b < 2 ^ (w - 1) then Some (a - b) else None)"

text \<open>One printed line: the name, the type of the question, the remaining TTL and the size.\<close>

type_synonym entry_line = "bytes \<times> u16 \<times> int \<times> nat"

definition entry_line :: "bool \<Rightarrow> int \<Rightarrow> bytes \<Rightarrow> bytes \<Rightarrow> bytes \<Rightarrow> entry_line option" where
  "entry_line be now h msg name = do {
     n \<leftarrow> strlen name;
     qnamelen \<leftarrow> h_qnamelen h;
     qtype \<leftarrow> dns_get_qtype msg (unat qnamelen);
     ttl \<leftarrow> h_ttl be h;
     update_time \<leftarrow> h_update_time be h;
     age \<leftarrow> c_sub 64 now (sint update_time);
     left \<leftarrow> c_sub 32 (sint ttl) (to_i32 age);
     msg_len \<leftarrow> h_msg_len be h;
     Some (take n name, qtype, left, unat msg_len) }"

partial_function (option) list_loop :: "bool \<Rightarrow> int \<Rightarrow> cfile \<Rightarrow> bytes \<Rightarrow> bytes \<Rightarrow> bytes \<Rightarrow> entry_line list \<Rightarrow> entry_line list run option" where
  "list_loop be now file msg name qname out = do {
     r \<leftarrow> next_entry be file (Some msg) name qname;
     case r of
       Exit \<Rightarrow> Some Exit
     | Run (ok, h, msg', name, file) \<Rightarrow>
         if \<not> ok then Some (Run out)
         else do {
           msg \<leftarrow> msg';
           l \<leftarrow> entry_line be now h msg name;
           list_loop be now file msg name qname (out @ [l]) } }"

definition list_cache :: "bool \<Rightarrow> oracles \<Rightarrow> (nat \<Rightarrow> u8) \<Rightarrow> bytes \<Rightarrow> entry_line list run option" where
  "list_cache be w garbage data =
     list_loop be (o_now w) (data, 0) (map garbage [0 ..< DNS_MSG_MAXSIZE])
       (map garbage [0 ..< DNS_NAME_MAXLEN + 1]) (map garbage [0 ..< DNS_NAME_WIRE_MAXLEN]) []"

section \<open>delete\<close>

text \<open>The loop over the suffixes: whether one of them is the name or a parent of it.\<close>

fun suffix_loop :: "bytes list \<Rightarrow> bytes \<Rightarrow> nat \<Rightarrow> bool option" where
  "suffix_loop [] name namelen = Some False"
| "suffix_loop (suffix # suffixes) name namelen = do {
     let suffixlen = length suffix;
     hit \<leftarrow> (if namelen \<ge> suffixlen then do {
         s \<leftarrow> slice_at name (namelen - suffixlen) suffixlen;
         if s = suffix then
           if namelen = suffixlen then Some True
           else do { b \<leftarrow> rd8 name (namelen - suffixlen - 1); Some (b = DOT) }
         else Some False }
       else Some False);
     if hit then Some True else suffix_loop suffixes name namelen }"

text \<open>\<open>i\<close> counts the calls of \<^verbatim>\<open>write\<close>, \<open>tmp\<close> is the temporary file, \<open>out\<close> what is printed.\<close>

partial_function (option) delete_loop :: "bool \<Rightarrow> (nat \<Rightarrow> nat) \<Rightarrow> bytes list \<Rightarrow> cfile \<Rightarrow> bytes \<Rightarrow> bytes \<Rightarrow> bytes
    \<Rightarrow> nat \<Rightarrow> bytes \<Rightarrow> bytes list \<Rightarrow> (bytes \<times> bytes list) run option" where
  "delete_loop be write_max suffixes file msg name qname i tmp out = do {
     r \<leftarrow> next_entry be file (Some msg) name qname;
     case r of
       Exit \<Rightarrow> Some Exit
     | Run (ok, h, msg', name, file) \<Rightarrow>
         if \<not> ok then Some (Run (tmp, out))
         else do {
           msg \<leftarrow> msg';
           namelen \<leftarrow> strlen name;
           hit \<leftarrow> suffix_loop suffixes name namelen;
           if hit then delete_loop be write_max suffixes file msg name qname i tmp (out @ [take namelen name])
           else do {
             let tmp = tmp @ take (write_max i) h;
             msg_len \<leftarrow> h_msg_len be h;
             bs \<leftarrow> slice_at msg 0 (unat msg_len);
             let tmp = tmp @ take (write_max (i + 1)) bs;
             delete_loop be write_max suffixes file msg name qname (i + 2) tmp out } } }"

text \<open>The new content of the file and what is printed.\<close>

definition delete_cache :: "bool \<Rightarrow> oracles \<Rightarrow> (nat \<Rightarrow> u8) \<Rightarrow> bytes list \<Rightarrow> bytes \<Rightarrow> (bytes \<times> bytes list) run option" where
  "delete_cache be w garbage suffixes data =
     (if \<not> o_mkstemp w then Some Exit
      else and_then (delete_loop be (o_write w) suffixes (data, 0) (map garbage [0 ..< DNS_MSG_MAXSIZE])
          (map garbage [0 ..< DNS_NAME_MAXLEN + 1]) (map garbage [0 ..< DNS_NAME_WIRE_MAXLEN]) 0 [] [])
        (\<lambda>(tmp, out). Some (if o_rename w then Run (tmp, out) else Exit)))"

section \<open>main\<close>

definition OPT_F :: bytes where "OPT_F = [45, 102]"
definition OPT_R :: bytes where "OPT_R = [45, 114]"
definition MAX_SUFFIXES :: nat where "MAX_SUFFIXES = 10"

text \<open>The loop over the arguments behind the name of the program.\<close>

fun parse_args :: "bytes list \<Rightarrow> bytes \<Rightarrow> bytes list \<Rightarrow> (bytes \<times> bytes list) run" where
  "parse_args [] path suffixes = Run (path, suffixes)"
| "parse_args (arg # args) path suffixes =
     (if arg = OPT_F then (case args of [] \<Rightarrow> Exit | p # args \<Rightarrow> parse_args args p suffixes)
      else if arg = OPT_R then
        if length suffixes < MAX_SUFFIXES then (case args of [] \<Rightarrow> Exit | s # args \<Rightarrow> parse_args args path (suffixes @ [s]))
        else Exit
      else Exit)"

definition DEFAULT_PATH :: bytes where
  "DEFAULT_PATH = [100, 110, 115, 45, 99, 97, 99, 104, 101, 46, 100, 98]"

datatype mgr_output = Listed "entry_line list" | Deleted "bytes list"

definition mgr_main :: "bool \<Rightarrow> oracles \<Rightarrow> (nat \<Rightarrow> u8) \<Rightarrow> bytes list \<Rightarrow> (bytes \<Rightarrow> bytes option)
    \<Rightarrow> (mgr_output \<times> (bytes \<Rightarrow> bytes option)) run option" where
  "mgr_main be w garbage args fs =
     (case parse_args args DEFAULT_PATH [] of
        Exit \<Rightarrow> Some Exit
      | Run (path, suffixes) \<Rightarrow>
          (case fs path of
             None \<Rightarrow> Some Exit
           | Some data \<Rightarrow>
               if suffixes \<noteq> []
               then and_then (delete_cache be w garbage suffixes data)
                      (\<lambda>(new, out). Some (Run (Deleted out, fs(path := Some new))))
               else and_then (list_cache be w garbage data) (\<lambda>out. Some (Run (Listed out, fs)))))"

end
