(* ===== verification/Cache_Mgr_Correct.thy ===== *)
theory Cache_Mgr_Correct
  imports Cache_Mgr
begin

text \<open>
  What \<^verbatim>\<open>tool/dns_cache_mgr.c\<close> does to a database that the cache has dumped: it lists every
  entry, and removes exactly the entries of the given domains and of their subdomains.
\<close>

section \<open>Entries of a dumped database\<close>

definition wire_name :: "cache_msg \<Rightarrow> bytes" where
  "wire_name c = take (unat (c_qnamelen c) - 1) (drop HEADER_LEN (c_msg c))"

text \<open>A stored reply has a header, a well-formed name and a question.\<close>

definition msg_wf :: "cache_msg \<Rightarrow> bool" where
  "msg_wf c \<longleftrightarrow> (let qn = unat (c_qnamelen c) in
     1 \<le> qn \<and> HEADER_LEN + qn + QUESTION_LEN \<le> length (c_msg c) \<and> length (c_msg c) \<le> DNS_MSG_MAXSIZE
     \<and> c_msg c ! (HEADER_LEN + qn - 1) = 0 \<and> parse_labels (wire_name c) \<noteq> None)"

definition entry_name :: "cache_msg \<Rightarrow> bytes" where
  "entry_name c = takeWhile (\<lambda>b. b \<noteq> 0) (name_text (the (parse_labels (wire_name c))))"

definition is_under :: "bytes \<Rightarrow> bytes \<Rightarrow> bool" where
  "is_under s x \<longleftrightarrow> x = s \<or> (\<exists>p. x = p @ DOT # s)"

lemma msg_wf_shape:
  assumes "msg_wf c"
  obtains hdr post where "c_msg c = hdr @ (wire_name c @ [0]) @ post" "length hdr = 12" "4 \<le> length post"
    "unat (c_qnamelen c) = length (wire_name c) + 1" "length (wire_name c) \<le> 254" "length (c_msg c) < 65536"
proof -
  let ?qn = "unat (c_qnamelen c)"
  have wf: "1 \<le> ?qn" "12 + ?qn + 4 \<le> length (c_msg c)" "length (c_msg c) \<le> 65535" "c_msg c ! (12 + ?qn - 1) = 0"
    using assms by (simp_all add: msg_wf_def Let_def dns_sizes)
  let ?w = "wire_name c"
  have w: "?w = take (?qn - 1) (drop 12 (c_msg c))" by (simp add: wire_name_def dns_sizes)
  have len: "length ?w = ?qn - 1" using wf by (simp add: w)
  have "drop 12 (c_msg c) ! (?qn - 1) = 0" using wf by simp
  moreover have "?qn - 1 < length (drop 12 (c_msg c))" using wf by simp
  ultimately have "drop 12 (c_msg c) = ?w @ 0 # drop ?qn (drop 12 (c_msg c))"
    using id_take_nth_drop [of "?qn - 1" "drop 12 (c_msg c)"] wf(1) unfolding w by simp
  then have "take 12 (c_msg c) @ drop 12 (c_msg c) = take 12 (c_msg c) @ ?w @ 0 # drop ?qn (drop 12 (c_msg c))"
    by (rule arg_cong)
  then have m: "c_msg c = take 12 (c_msg c) @ (?w @ [0]) @ drop ?qn (drop 12 (c_msg c))"
    by (simp only: append_take_drop_id append.assoc append_Cons append_Nil)
  have "?qn < 256" by simp
  with wf len show ?thesis by (intro that [OF m]) (simp_all del: unat_u8_less)
qed

lemma strlen_append: "0 \<notin> set s \<Longrightarrow> strlen (s @ 0 # r) = Some (length s)"
  using memchr_append [of 0 s "length (s @ 0 # r)" "[]" r] by (simp add: strlen_def)

lemma strlen_prefix:
  assumes "take (length t + 1) buf = t @ [0]"
  shows "strlen buf = Some (length (takeWhile (\<lambda>b. b \<noteq> 0) t))"
    "take (length (takeWhile (\<lambda>b. b \<noteq> 0) t)) buf = takeWhile (\<lambda>b. b \<noteq> 0) t"
proof -
  let ?s = "takeWhile (\<lambda>b. b \<noteq> 0) (t @ [0])"
  have s: "?s = takeWhile (\<lambda>b. b \<noteq> 0) t" by (induction t) auto
  have "\<exists>r. t @ [0] = ?s @ 0 # r"
  proof -
    have "dropWhile (\<lambda>b. b \<noteq> 0) (t @ [0]) \<noteq> []" by simp
    then obtain b r where r: "dropWhile (\<lambda>b. b \<noteq> 0) (t @ [0]) = b # r" by (meson neq_Nil_conv)
    then have "b = 0" using hd_dropWhile [of "\<lambda>b. b \<noteq> 0" "t @ [0]"] by simp
    then show ?thesis using r takeWhile_dropWhile_id [of "\<lambda>b. b \<noteq> 0" "t @ [0]"] by metis
  qed
  then obtain r where r: "t @ [0] = ?s @ 0 # r" by blast
  have "buf = take (length t + 1) buf @ drop (length t + 1) buf" by simp
  then have "buf = (t @ [0]) @ drop (length t + 1) buf" by (simp only: assms)
  then have "buf = (?s @ 0 # r) @ drop (length t + 1) buf" using r by argo
  then have b: "buf = takeWhile (\<lambda>b. b \<noteq> 0) t @ 0 # r @ drop (length t + 1) buf" by (simp add: s)
  show "strlen buf = Some (length (takeWhile (\<lambda>b. b \<noteq> 0) t))"
    by (subst b, rule strlen_append) (auto dest: set_takeWhileD)
  show "take (length (takeWhile (\<lambda>b. b \<noteq> 0) t)) buf = takeWhile (\<lambda>b. b \<noteq> 0) t"
    using arg_cong [OF b, of "take (length (takeWhile (\<lambda>b. b \<noteq> 0) t))"] by simp
qed

section \<open>Reading an entry\<close>

lemma fread_append:
  assumes "0 < length bs"
  shows "fread (pre @ bs @ rest, length pre) (length bs) = (Some bs, (pre @ bs @ rest, length pre + length bs))"
  using assms by (simp add: fread_def)

lemma fread_short: "length rest < n \<Longrightarrow> \<exists>f. fread (pre @ rest, length pre) n = (None, f)"
  by (simp add: fread_def Let_def)

definition bufs_ok :: "bytes \<Rightarrow> bytes \<Rightarrow> bytes \<Rightarrow> bool" where
  "bufs_ok buf name qname \<longleftrightarrow> length buf = DNS_MSG_MAXSIZE \<and> length name = DNS_NAME_MAXLEN + 1 \<and> length qname = DNS_NAME_WIRE_MAXLEN"

lemma next_entry_end:
  assumes "length tail < HDR_SIZE"
  shows "\<exists>h m n f. next_entry be (pre @ tail, length pre) msg name qname = Some (Run (False, h, m, n, f))"
proof -
  obtain f where "fread (pre @ tail, length pre) HDR_SIZE = (None, f)" using fread_short [OF assms] by blast
  then show ?thesis by (simp add: next_entry_def)
qed

lemma next_entry_dump:
  assumes wf: "msg_wf c" and bufs: "bufs_ok buf name qname"
  shows "\<exists>name'. next_entry be (pre @ dump be pad c @ rest, length pre) (Some buf) name qname
      = Some (Run (True, header_bytes be pad c, Some (c_msg c @ drop (length (c_msg c)) buf), name',
          (pre @ dump be pad c @ rest, length (pre @ dump be pad c))))
    \<and> length name' = DNS_NAME_MAXLEN + 1
    \<and> strlen name' = Some (length (entry_name c)) \<and> take (length (entry_name c)) name' = entry_name c"
proof -
  obtain hdr post where m: "c_msg c = hdr @ (wire_name c @ [0]) @ post" "length hdr = 12" "4 \<le> length post"
    "unat (c_qnamelen c) = length (wire_name c) + 1" "length (wire_name c) \<le> 254" "length (c_msg c) < 65536"
    by (rule msg_wf_shape [OF wf])
  let ?h = "header_bytes be pad c" and ?qn = "unat (c_qnamelen c)"
  have f1: "fread (pre @ dump be pad c @ rest, length pre) HDR_SIZE
      = (Some ?h, (pre @ dump be pad c @ rest, length (pre @ ?h)))"
    using fread_append [of ?h pre "c_msg c @ rest"] by (simp add: dump_def HDR_SIZE_def)
  have f2: "fread (pre @ dump be pad c @ rest, length (pre @ ?h)) (length (c_msg c))
      = (Some (c_msg c), (pre @ dump be pad c @ rest, length (pre @ dump be pad c)))"
    using fread_append [of "c_msg c" "pre @ ?h" rest] m(1) by (simp add: dump_def add.assoc)
  let ?buf = "c_msg c @ drop (length (c_msg c)) buf"
  have p: "put buf 0 (c_msg c) = Some ?buf"
    using m(6) bufs by (simp add: put_def bufs_ok_def dns_sizes)
  have q: "slice_at ?buf 12 ?qn = Some (wire_name c @ [0])"
    using m(2,4) by (subst m(1)) (simp add: slice_at_def)
  obtain qrest where pq: "put qname 0 (wire_name c @ [0]) = Some (wire_name c @ 0 # qrest)"
    using m(4,5) bufs by (simp add: put_def bufs_ok_def dns_sizes)
  obtain ls where ls: "parse_labels (wire_name c) = Some ls" using wf by (auto simp: msg_wf_def Let_def)
  have "length name = DNS_NAME_MAXLEN + 1" using bufs by (simp add: bufs_ok_def)
  from decode_name_text [OF m(5) this, of "[]" qrest] ls obtain out where
    out: "decode_name name (wire_name c @ 0 # qrest) 0 (int (length (wire_name c)) + 1) = Some (True, out)"
    "length out = DNS_NAME_MAXLEN + 1" "take (length (name_text ls) + 1) out = name_text ls @ [0]"
    by auto
  have d: "dns_wire_to_ascii (wire_name c @ 0 # qrest) (int ?qn) name = Some (True, out)"
    using out(1) m(4,5) by (simp add: dns_wire_to_ascii_def dns_sizes add.commute)
  have hl: "unat dns_header_len = 12" by (simp add: dns_header_len_def dns_sizes)
  have ml: "map_option unat (h_msg_len be ?h) = Some (length (c_msg c))"
    using m(6) by (simp add: header_fields unat_of_nat)
  have qn: "map_option unat (h_qnamelen ?h) = Some ?qn" by (simp add: header_fields)
  have "next_entry be (pre @ dump be pad c @ rest, length pre) (Some buf) name qname
      = Some (Run (True, ?h, Some ?buf, out, (pre @ dump be pad c @ rest, length (pre @ dump be pad c))))"
    unfolding next_entry_def f1 prod.case option.case qn ml Option.bind.bind_lunit f2 p hl q pq and_then_def run.case d
    by simp
  moreover have "entry_name c = takeWhile (\<lambda>b. b \<noteq> 0) (name_text ls)" by (simp add: entry_name_def ls)
  ultimately show ?thesis using strlen_prefix [OF out(3)] out(2) by simp
qed

section \<open>The loops\<close>

lemma slice_at_end: "n \<le> length s \<Longrightarrow> slice_at s (length s - n) n = Some (drop (length s - n) s)"
  by (simp add: slice_at_def)

lemma suffix_loop_eq:
  assumes "take n name = x" "n = length x" "n \<le> length name"
  shows "suffix_loop sufs name n = Some (\<exists>s \<in> set sufs. is_under s x)"
proof (induction sufs)
  case (Cons s sufs)
  have name: "name = x @ drop n name" using assms(1) append_take_drop_id [of n name] by simp
  have sl: "slice_at name (n - length s) (length s) = Some (drop (n - length s) x)" if "length s \<le> n"
  proof -
    have "drop (n - length s) name = drop (n - length s) x @ drop n name" using assms(2) by (subst name) simp
    then show ?thesis using that assms by (simp add: slice_at_def)
  qed
  have rd: "rd8 name (n - length s - 1) = Some (x ! (n - length s - 1))" if "length s < n"
  proof -
    have "n - length s - 1 < n" using that by simp
    from nth_take [OF this, of name] have "x ! (n - length s - 1) = name ! (n - length s - 1)" unfolding assms(1) .
    then show ?thesis using that assms(3) by (simp add: rd8_def)
  qed
  have under: "is_under s x \<longleftrightarrow> length s \<le> n \<and> drop (n - length s) x = s \<and> (n = length s \<or> x ! (n - length s - 1) = DOT)"
  proof (cases "length s < n")
    case True
    let ?k = "n - length s - 1"
    have x: "x = take ?k x @ x ! ?k # drop (n - length s) x"
    proof -
      have "?k < length x" "Suc ?k = n - length s" using True assms(2) by simp_all
      then show ?thesis using id_take_nth_drop [of ?k x] by argo
    qed
    have "x \<noteq> s" using True assms(2) by auto
    moreover have "(\<exists>p. x = p @ DOT # s) \<longleftrightarrow> drop (n - length s) x = s \<and> x ! ?k = DOT"
    proof
      assume "\<exists>p. x = p @ DOT # s"
      then obtain p where p: "x = p @ DOT # s" by blast
      then have "?k = length p" "n - length s = Suc (length p)" using assms(2) by simp_all
      then show "drop (n - length s) x = s \<and> x ! ?k = DOT" unfolding p by simp
    next
      assume "drop (n - length s) x = s \<and> x ! ?k = DOT"
      then show "\<exists>p. x = p @ DOT # s" using x by metis
    qed
    ultimately show ?thesis using True by (simp add: is_under_def)
  next
    case False
    then show ?thesis using assms(2) by (auto simp: is_under_def)
  qed
  have "(if n \<ge> length s then do {
         t \<leftarrow> slice_at name (n - length s) (length s);
         if t = s then
           if n = length s then Some True
           else do { b \<leftarrow> rd8 name (n - length s - 1); Some (b = DOT) }
         else Some False }
       else Some False) = Some (is_under s x)"
    using sl rd by (auto simp: under)
  then show ?case by (simp only: suffix_loop.simps Let_def Option.bind.bind_lunit Cons.IH) simp
qed simp

definition line_of :: "int \<Rightarrow> cache_msg \<Rightarrow> entry_line" where
  "line_of now c = (entry_name c,
     be16 (c_msg c ! (HEADER_LEN + unat (c_qnamelen c))) (c_msg c ! (HEADER_LEN + unat (c_qnamelen c) + 1)),
     sint (c_ttl c) - (now - sint (c_update_time c)), length (c_msg c))"

text \<open>The TTL can be computed without an overflow.\<close>

definition ttl_ok :: "int \<Rightarrow> cache_msg \<Rightarrow> bool" where
  "ttl_ok now c \<longleftrightarrow> (let age = now - sint (c_update_time c) in
     - (2 ^ 31) \<le> age \<and> age < 2 ^ 31 \<and> - (2 ^ 31) \<le> sint (c_ttl c) - age \<and> sint (c_ttl c) - age < 2 ^ 31)"

lemma bufs_ok_step:
  "bufs_ok buf name qname \<Longrightarrow> length m < 65536 \<Longrightarrow> length name' = DNS_NAME_MAXLEN + 1 \<Longrightarrow> bufs_ok (m @ drop (length m) buf) name' qname"
  by (simp add: bufs_ok_def dns_sizes)

lemma list_loop_eq:
  assumes "\<forall>c \<in> set cs. msg_wf c \<and> ttl_ok now c" "length tail < HDR_SIZE" "bufs_ok buf name qname"
  shows "list_loop be now (pre @ concat (map (dump be pad) cs) @ tail, length pre) buf name qname out
    = Some (Run (out @ map (line_of now) cs))"
  using assms
proof (induction cs arbitrary: pre buf name out)
  case Nil
  obtain h m n f where "next_entry be (pre @ tail, length pre) (Some buf) name qname = Some (Run (False, h, m, n, f))"
    using next_entry_end [OF Nil.prems(2)] by blast
  then show ?case by (subst list_loop.simps) simp
next
  case (Cons c cs)
  let ?rest = "concat (map (dump be pad) cs) @ tail"
  have wf: "msg_wf c" "ttl_ok now c" using Cons.prems(1) by simp_all
  obtain hdr post where m: "c_msg c = hdr @ (wire_name c @ [0]) @ post" "length hdr = 12" "4 \<le> length post"
    "unat (c_qnamelen c) = length (wire_name c) + 1" "length (wire_name c) \<le> 254" "length (c_msg c) < 65536"
    by (rule msg_wf_shape [OF wf(1)])
  from next_entry_dump [OF wf(1) Cons.prems(3), of be pre pad ?rest] obtain name' where
    n: "next_entry be (pre @ dump be pad c @ ?rest, length pre) (Some buf) name qname
      = Some (Run (True, header_bytes be pad c, Some (c_msg c @ drop (length (c_msg c)) buf), name',
          (pre @ dump be pad c @ ?rest, length (pre @ dump be pad c))))"
    "length name' = DNS_NAME_MAXLEN + 1" "strlen name' = Some (length (entry_name c))" "take (length (entry_name c)) name' = entry_name c"
    by blast
  let ?buf = "c_msg c @ drop (length (c_msg c)) buf"
  have rd: "rd16 ?buf (HEADER_LEN + unat (c_qnamelen c))
      = Some (be16 (c_msg c ! (HEADER_LEN + unat (c_qnamelen c))) (c_msg c ! (HEADER_LEN + unat (c_qnamelen c) + 1)))"
  proof -
    have "HEADER_LEN + unat (c_qnamelen c) + 1 < length (c_msg c)"
      using m(2-4) arg_cong [OF m(1), of length] by (simp add: dns_sizes)
    then show ?thesis by (simp add: rd16_eq nth_append)
  qed
  have "entry_line be now (header_bytes be pad c) ?buf name' = Some (line_of now c)"
    using wf(2) m(6) n(4)
    by (simp add: entry_line_def n(3) header_fields dns_get_qtype_def rd c_sub_def ttl_ok_def Let_def line_of_def
        to_i32_id unat_of_nat)
  moreover have "list_loop be now ((pre @ dump be pad c) @ ?rest, length (pre @ dump be pad c)) ?buf name' qname (out @ [line_of now c])
      = Some (Run ((out @ [line_of now c]) @ map (line_of now) cs))"
    using Cons.prems bufs_ok_step [OF Cons.prems(3) m(6) n(2)] by (intro Cons.IH) auto
  ultimately show ?case
    using n(1) by (subst list_loop.simps) simp
qed

lemma delete_loop_eq:
  assumes "\<forall>c \<in> set cs. msg_wf c" "length tail < HDR_SIZE" "bufs_ok buf name qname" "\<And>i. 65535 \<le> wr i"
  shows "delete_loop be wr sufs (pre @ concat (map (dump be pad) cs) @ tail, length pre) buf name qname i tmp out
    = Some (Run (tmp @ concat (map (dump be pad) (filter (\<lambda>c. \<not> (\<exists>s \<in> set sufs. is_under s (entry_name c))) cs)),
        out @ map entry_name (filter (\<lambda>c. \<exists>s \<in> set sufs. is_under s (entry_name c)) cs)))"
  using assms(1-3)
proof (induction cs arbitrary: pre buf name i tmp out)
  case Nil
  obtain h m n f where "next_entry be (pre @ tail, length pre) (Some buf) name qname = Some (Run (False, h, m, n, f))"
    using next_entry_end [OF Nil.prems(2)] by blast
  then show ?case by (subst delete_loop.simps) simp
next
  case (Cons c cs)
  let ?rest = "concat (map (dump be pad) cs) @ tail" and ?hit = "\<exists>s \<in> set sufs. is_under s (entry_name c)"
  have wf: "msg_wf c" using Cons.prems(1) by simp
  obtain hdr post where m: "c_msg c = hdr @ (wire_name c @ [0]) @ post" "length (c_msg c) < 65536"
    by (rule msg_wf_shape [OF wf])
  from next_entry_dump [OF wf Cons.prems(3), of be pre pad ?rest] obtain name' where
    n: "next_entry be (pre @ dump be pad c @ ?rest, length pre) (Some buf) name qname
      = Some (Run (True, header_bytes be pad c, Some (c_msg c @ drop (length (c_msg c)) buf), name',
          (pre @ dump be pad c @ ?rest, length (pre @ dump be pad c))))"
    "length name' = DNS_NAME_MAXLEN + 1" "strlen name' = Some (length (entry_name c))" "take (length (entry_name c)) name' = entry_name c"
    by blast
  let ?buf = "c_msg c @ drop (length (c_msg c)) buf"
  have len: "length (entry_name c) \<le> length name'"
    using arg_cong [OF n(4), of length] by simp
  note hit = suffix_loop_eq [OF n(4) refl len, of sufs]
  have IH: "delete_loop be wr sufs ((pre @ dump be pad c) @ ?rest, length (pre @ dump be pad c)) ?buf name' qname i' tmp' out'
    = Some (Run (tmp' @ concat (map (dump be pad) (filter (\<lambda>c. \<not> (\<exists>s \<in> set sufs. is_under s (entry_name c))) cs)),
        out' @ map entry_name (filter (\<lambda>c. \<exists>s \<in> set sufs. is_under s (entry_name c)) cs)))" for i' tmp' out'
    using Cons.prems bufs_ok_step [OF Cons.prems(3) m(2) n(2)] by (intro Cons.IH) auto
  have w: "take (wr j) (header_bytes be pad c) = header_bytes be pad c" "take (wr j) (c_msg c) = c_msg c" for j
    using assms(4) [of j] m(2) by (simp_all add: HDR_SIZE_def)
  have sl: "slice_at ?buf 0 (length (c_msg c)) = Some (c_msg c)" by (simp add: slice_at_def)
  have ml: "h_msg_len be (header_bytes be pad c) = Some (word_of_nat (length (c_msg c)))" "unat (word_of_nat (length (c_msg c)) :: u16) = length (c_msg c)"
    using m(2) by (simp_all add: header_fields unat_of_nat)
  have "delete_loop be wr sufs (pre @ concat (map (dump be pad) (c # cs)) @ tail, length pre) buf name qname i tmp out
    = (if ?hit then delete_loop be wr sufs ((pre @ dump be pad c) @ ?rest, length (pre @ dump be pad c)) ?buf name' qname i tmp (out @ [entry_name c])
       else delete_loop be wr sufs ((pre @ dump be pad c) @ ?rest, length (pre @ dump be pad c)) ?buf name' qname (i + 2)
              (tmp @ header_bytes be pad c @ c_msg c) out)"
    by (subst delete_loop.simps) (simp add: n(1,3,4) hit w sl ml)
  also have "\<dots> = Some (Run (tmp @ concat (map (dump be pad) (filter (\<lambda>c. \<not> (\<exists>s \<in> set sufs. is_under s (entry_name c))) (c # cs))),
      out @ map entry_name (filter (\<lambda>c. \<exists>s \<in> set sufs. is_under s (entry_name c)) (c # cs))))"
    unfolding IH by (simp add: dump_def [of _ _ c])
  finally show ?case .
qed

section \<open>The tool\<close>

lemma parse_args_suffixes:
  "length sufs0 + length sufs \<le> MAX_SUFFIXES \<Longrightarrow>
    parse_args (concat (map (\<lambda>s. [OPT_R, s]) sufs)) path sufs0 = Run (path, sufs0 @ sufs)"
  by (induction sufs arbitrary: sufs0) (simp_all add: OPT_F_def OPT_R_def MAX_SUFFIXES_def)

lemma bufs_ok_garbage:
  "bufs_ok (map garbage [0 ..< DNS_MSG_MAXSIZE]) (map garbage [0 ..< DNS_NAME_MAXLEN + 1]) (map garbage [0 ..< DNS_NAME_WIRE_MAXLEN])"
  by (simp add: bufs_ok_def)

lemma msg_wf_length: "msg_wf c \<Longrightarrow> 0 < length (c_msg c) \<and> length (c_msg c) < 65536"
  by (auto simp: msg_wf_def Let_def dns_sizes)

text \<open>
  C13: Started with \<^verbatim>\<open>-r\<close> options on a database that the cache has dumped, the tool prints the
  names of exactly the entries at or below one of the given domains and leaves a database
  from which the cache loads exactly the other entries, unchanged and in order. A torn entry at
  the end is dropped. The writes to the temporary file must not be short.
\<close>

theorem cache_mgr_deletes:
  assumes "\<forall>c \<in> set cs. msg_wf c" "fs path = Some (concat (map (dump be pad) cs) @ tail)" "length tail < HDR_SIZE"
    "sufs \<noteq> []" "length sufs \<le> 10" "o_mkstemp w" "o_rename w" "\<forall>i. 65535 \<le> o_write w i" "length cs \<le> n"
  shows "\<exists>new. mgr_main be w garbage (OPT_F # path # concat (map (\<lambda>s. [OPT_R, s]) sufs)) fs
      = Some (Run (Deleted (map entry_name (filter (\<lambda>c. \<exists>s \<in> set sufs. is_under s (entry_name c)) cs)), fs(path \<mapsto> new)))
    \<and> load_all be n new = map (\<lambda>c. c\<lparr>c_added_ip := False\<rparr>) (filter (\<lambda>c. \<not> (\<exists>s \<in> set sufs. is_under s (entry_name c))) cs)"
proof -
  let ?kept = "filter (\<lambda>c. \<not> (\<exists>s \<in> set sufs. is_under s (entry_name c))) cs"
  let ?new = "concat (map (dump be pad) ?kept)"
  have "parse_args (OPT_F # path # concat (map (\<lambda>s. [OPT_R, s]) sufs)) DEFAULT_PATH [] = Run (path, sufs)"
    using parse_args_suffixes [of "[]" sufs path] assms(5) by (simp add: MAX_SUFFIXES_def)
  moreover have "delete_cache be w garbage sufs (concat (map (dump be pad) cs) @ tail)
      = Some (Run (?new, map entry_name (filter (\<lambda>c. \<exists>s \<in> set sufs. is_under s (entry_name c)) cs)))"
    using delete_loop_eq [OF assms(1,3) bufs_ok_garbage, of "o_write w" be sufs "[]"] assms(6-8)
    by (simp add: delete_cache_def and_then_def)
  moreover have "load_all be n ?new = map (\<lambda>c. c\<lparr>c_added_ip := False\<rparr>) ?kept"
  proof -
    have "\<forall>c \<in> set ?kept. 0 < length (c_msg c) \<and> length (c_msg c) < 65536" using assms(1) msg_wf_length by simp
    moreover have "length ?kept \<le> n" using length_filter_le assms(9) by (rule order_trans)
    ultimately show ?thesis using load_all_dump [of ?kept n "[]" be pad] by simp
  qed
  ultimately show ?thesis using assms(2,4) by (intro exI [of _ ?new]) (simp add: mgr_main_def and_then_def)
qed

definition sample_entry :: "bytes \<Rightarrow> cache_msg" where
  "sample_entry n = \<lparr>c_update_time = 1000, c_hashv = 7, c_ttl = 300, c_ttl_r = 60, c_qnamelen = word_of_nat (length n),
     c_added_ip = False, c_msg = replicate 12 0 @ n @ [0, 1, 0, 1]\<rparr>"

definition sample_world :: oracles where
  "sample_world = \<lparr>o_now = 1100, o_mkstemp = True, o_rename = True, o_write = (\<lambda>_. 65535)\<rparr>"

lemma sample_entries:
  "msg_wf (sample_entry [1, 97, 0])" "msg_wf (sample_entry [1, 98, 1, 97, 0])"
  "entry_name (sample_entry [1, 97, 0]) = [97]" "entry_name (sample_entry [1, 98, 1, 97, 0]) = [98, DOT, 97]"
proof -
  have w: "wire_name (sample_entry [1, 97, 0]) = [1, 97]" "wire_name (sample_entry [1, 98, 1, 97, 0]) = [1, 98, 1, 97]"
    by (simp_all add: wire_name_def sample_entry_def dns_sizes)
  have p: "parse_labels [1, 97] = Some [[97]]" "parse_labels [1, 98, 1, 97] = Some [[98], [97]]" by simp_all
  show "msg_wf (sample_entry [1, 97, 0])" "msg_wf (sample_entry [1, 98, 1, 97, 0])"
    by (simp_all add: msg_wf_def w p dns_sizes) (simp_all add: sample_entry_def nth_append)
  show "entry_name (sample_entry [1, 97, 0]) = [97]" "entry_name (sample_entry [1, 98, 1, 97, 0]) = [98, DOT, 97]"
    by (simp_all add: entry_name_def w p name_text_def DOT_def)
qed

theorem cache_mgr_deletes_witness:
  "\<exists>new. mgr_main False sample_world (\<lambda>_. 1) [OPT_F, [120], OPT_R, [98, DOT, 97]]
      [[120] \<mapsto> dump False 0 (sample_entry [1, 97, 0]) @ dump False 0 (sample_entry [1, 98, 1, 97, 0])]
    = Some (Run (Deleted [[98, DOT, 97]], [[120] \<mapsto> new])) \<and> load_all False 9 new = [sample_entry [1, 97, 0]]"
proof -
  have u: "\<not> is_under [98, DOT, 97] [97]" "is_under [98, DOT, 97] [98, DOT, 97]"
    by (auto simp: is_under_def DOT_def Cons_eq_append_conv)
  have "sample_entry [1, 97, 0]\<lparr>c_added_ip := False\<rparr> = sample_entry [1, 97, 0]" by (simp add: sample_entry_def)
  then show ?thesis
    using cache_mgr_deletes [where cs = "[sample_entry [1, 97, 0], sample_entry [1, 98, 1, 97, 0]]" and path = "[120]"
        and fs = "[[120] \<mapsto> dump False 0 (sample_entry [1, 97, 0]) @ dump False 0 (sample_entry [1, 98, 1, 97, 0])]"
        and be = False and pad = 0 and tail = "[]" and sufs = "[[98, DOT, 97]]" and w = sample_world and n = 9 and garbage = "\<lambda>_. 1"]
    by (simp add: sample_entries u sample_world_def HDR_SIZE_def)
qed

text \<open>
  C27: Without \<^verbatim>\<open>-r\<close> options the tool changes no file and prints one line per entry of a database
  that the cache has dumped, in order: the name, the type of the question, the TTL that is left
  now and the size of the reply.
\<close>

theorem cache_mgr_lists:
  assumes "\<forall>c \<in> set cs. msg_wf c \<and> ttl_ok (o_now w) c" "fs path = Some (concat (map (dump be pad) cs) @ tail)" "length tail < HDR_SIZE"
  shows "mgr_main be w garbage [OPT_F, path] fs = Some (Run (Listed (map (line_of (o_now w)) cs), fs))"
proof -
  have "list_cache be w garbage (concat (map (dump be pad) cs) @ tail) = Some (Run (map (line_of (o_now w)) cs))"
    using list_loop_eq [OF assms(1,3) bufs_ok_garbage, of be "[]"] by (simp add: list_cache_def)
  then show ?thesis using assms(2) by (simp add: mgr_main_def and_then_def)
qed

theorem cache_mgr_lists_witness:
  "mgr_main True sample_world (\<lambda>_. 1) [OPT_F, [120]] [[120] \<mapsto> dump True 0 (sample_entry [1, 97, 0])]
    = Some (Run (Listed [([97], 1, 200, 19)], [[120] \<mapsto> dump True 0 (sample_entry [1, 97, 0])]))"
proof -
  have t: "ttl_ok 1100 (sample_entry [1, 97, 0])" by (simp add: ttl_ok_def sample_entry_def)
  have l: "line_of 1100 (sample_entry [1, 97, 0]) = ([97], 1, 200, 19)"
    by (simp add: line_of_def sample_entries) (simp add: sample_entry_def dns_sizes nth_append be16_def word_cat_eq)
  show ?thesis
    using cache_mgr_lists [where cs = "[sample_entry [1, 97, 0]]" and path = "[120]"
        and fs = "[[120] \<mapsto> dump True 0 (sample_entry [1, 97, 0])]" and be = True and pad = 0 and tail = "[]"
        and w = sample_world and garbage = "\<lambda>_. 1"]
    by (simp add: sample_entries t l sample_world_def HDR_SIZE_def)
qed

section \<open>A name without its final zero\<close>

text \<open>
  The check of the name ignores its last byte, so that the text of a name that does not end in
  zero is not terminated, and the length of the text is read from whatever follows it.
\<close>

lemma unterminated_name:
  assumes "list_all label_ok ls" "ls \<noteq> []" "length (wire_labels ls) \<le> 253" "0 \<notin> set (dotted ls)" "z \<noteq> 0"
  shows "\<exists>out. dns_wire_to_ascii (wire_labels ls @ [z]) (int (length (wire_labels ls)) + 1) (replicate (DNS_NAME_MAXLEN + 1) 1)
      = Some (True, out) \<and> strlen out = None"
proof -
  let ?w = "wire_labels ls" and ?buf = "replicate (DNS_NAME_MAXLEN + 1) (1 :: u8)"
  have w: "?w \<noteq> []" using assms(2) by (cases ls) (simp_all add: wire_labels_def wire_label_def)
  have p: "parse_labels ?w = Some ls" by (rule parse_wire_labels [OF assms(1)])
  have "length ?w \<le> length ?buf" using assms(3) by (simp add: dns_sizes)
  from decode_name_labels [OF w this, of "[]" z "[]"] p obtain out where
    out: "decode_name ?buf (?w @ [z]) 0 (int (length ?w) + 1) = Some (True, out)" "out = dotted ls @ z # drop (length ?w) ?buf"
    by auto
  have "0 \<notin> set out" unfolding out(2) using assms(4,5) by (auto dest: in_set_dropD)
  then have "memchr out 0 (length out) 0 = Some None" by (simp add: memchr_None)
  then have "strlen out = None" by (simp add: strlen_def)
  then show ?thesis using out(1) assms(3) by (simp add: dns_wire_to_ascii_def dns_sizes)
qed

end
