(* ===== verification/Misc.thy ===== *)
theory Misc
  imports Dnl_Load
begin

text \<open>
  The remaining helpers of \<^verbatim>\<open>src/misc.c\<close> and the accessors of epoll events in
  \<^verbatim>\<open>src/net.c\<close>. The results of the system calls are arguments: the status that \<^verbatim>\<open>stat\<close> gives
  for a path or a descriptor, the content of \<^verbatim>\<open>/proc/cpuinfo\<close>, the monotonic clock.
\<close>

section \<open>Files\<close>

record stat_t =
  st_mode :: u32
  st_size :: int

definition S_ISDIR :: "u32 \<Rightarrow> bool" where
  "S_ISDIR mode \<longleftrightarrow> and mode 0xF000 = 0x4000"

definition is_dir :: "(bytes \<Rightarrow> stat_t option) \<Rightarrow> bytes \<Rightarrow> bool" where
  "is_dir stat_path fname = (case stat_path fname of Some st \<Rightarrow> S_ISDIR (st_mode st) | None \<Rightarrow> False)"

definition fstat_size :: "(int \<Rightarrow> stat_t option) \<Rightarrow> int \<Rightarrow> int" where
  "fstat_size fstat fd = (case fstat fd of Some st \<Rightarrow> st_size st | None \<Rightarrow> -1)"

section \<open>has_aes\<close>

text \<open>\<^verbatim>\<open>strstr(buf, "aes")\<close>.\<close>

definition AES :: bytes where "AES = [97, 101, 115]"

fun contains :: "bytes \<Rightarrow> bytes \<Rightarrow> bool" where
  "contains s [] \<longleftrightarrow> s = []"
| "contains s (b # bs) \<longleftrightarrow> take (length s) (b # bs) = s \<or> contains s bs"

function has_aes_loop :: "bytes \<Rightarrow> bool" where
  "has_aes_loop inp =
     (case fscanf_s 9 inp of
        None \<Rightarrow> False
      | Some (buf, inp) \<Rightarrow> if contains AES (c_str buf) then True else has_aes_loop inp)"
  by pat_completeness auto
termination
  by (relation "measure length") (auto intro: fscanf_s_shorter [of 9])

declare has_aes_loop.simps [simp del]

definition has_aes :: "bytes option \<Rightarrow> bool" where
  "has_aes f = (case f of None \<Rightarrow> False | Some inp \<Rightarrow> has_aes_loop inp)"

section \<open>monotime\<close>

definition monotime :: "int \<Rightarrow> int \<Rightarrow> 64 word" where
  "monotime tv_sec tv_nsec = word_of_int tv_sec * 1000 + word_of_int tv_nsec div 1000000"

text \<open>The clock in milliseconds, which does not wrap around within the age of the universe.\<close>

lemma monotime_eq:
  assumes "0 \<le> tv_sec" "tv_sec < 2 ^ 53" "0 \<le> tv_nsec" "tv_nsec < 10 ^ 9"
  shows "uint (monotime tv_sec tv_nsec) = (tv_sec * 10 ^ 9 + tv_nsec) div 10 ^ 6"
proof -
  have "uint (word_of_int tv_nsec :: 64 word) = tv_nsec" using assms by (simp add: uint_word_of_int_eq take_bit_int_eq_self)
  then have d: "uint (word_of_int tv_nsec div 1000000 :: 64 word) = tv_nsec div 1000000" by (simp add: uint_div)
  have "uint (word_of_int tv_sec :: 64 word) = tv_sec" using assms by (simp add: uint_word_of_int_eq take_bit_int_eq_self)
  then have m: "uint (word_of_int tv_sec * 1000 :: 64 word) = tv_sec * 1000"
    using assms by (subst uint_mult_lem [THEN iffD1]) simp_all
  have "tv_nsec div 1000000 < 1000" using assms by simp
  then have "tv_sec * 1000 + tv_nsec div 1000000 < 2 ^ 64" using assms by simp
  then have "uint (word_of_int tv_sec * 1000 :: 64 word) + uint (word_of_int tv_nsec div 1000000 :: 64 word) < 2 ^ LENGTH(64)"
    unfolding d m by simp
  then have "uint (monotime tv_sec tv_nsec) = tv_sec * 1000 + tv_nsec div 1000000"
    unfolding monotime_def by (metis uint_add_lem d m)
  also have "\<dots> = (tv_sec * 10 ^ 9 + tv_nsec) div 10 ^ 6"
    using assms by simp
  finally show ?thesis .
qed

section \<open>Epoll events\<close>

record epoll_event =
  ev_events :: u32
  ev_ptr :: nat

definition epev_get_events :: "epoll_event \<Rightarrow> u32" where "epev_get_events ev = ev_events ev"
definition epev_get_ptrdata :: "epoll_event \<Rightarrow> nat" where "epev_get_ptrdata ev = ev_ptr ev"
definition epev_set_events :: "u32 \<Rightarrow> epoll_event \<Rightarrow> epoll_event" where "epev_set_events e ev = ev\<lparr>ev_events := e\<rparr>"
definition epev_set_ptrdata :: "nat \<Rightarrow> epoll_event \<Rightarrow> epoll_event" where "epev_set_ptrdata p ev = ev\<lparr>ev_ptr := p\<rparr>"

text \<open>The data of an event is a union: the accessors of one member do not touch the events.\<close>

lemma epev_accessors [simp]:
  "epev_get_events (epev_set_events e ev) = e" "epev_get_ptrdata (epev_set_ptrdata p ev) = p"
  "epev_get_events (epev_set_ptrdata p ev) = epev_get_events ev" "epev_get_ptrdata (epev_set_events e ev) = epev_get_ptrdata ev"
  by (simp_all add: epev_get_events_def epev_get_ptrdata_def epev_set_events_def epev_set_ptrdata_def)

section \<open>What has_aes finds\<close>

lemma contains_append: "contains s bs \<longleftrightarrow> (\<exists>p q. bs = p @ s @ q)"
proof (induction s bs rule: contains.induct)
  case (2 s b bs)
  show ?case
  proof
    assume "contains s (b # bs)"
    then consider "take (length s) (b # bs) = s" | "contains s bs" by auto
    then show "\<exists>p q. b # bs = p @ s @ q"
    proof cases
      case 1
      then show ?thesis using append_take_drop_id [of "length s" "b # bs"] by (metis append_Nil)
    next
      case c: 2
      then obtain p q where "bs = p @ s @ q" using 2 by blast
      then have "b # bs = (b # p) @ s @ q" by simp
      then show ?thesis by blast
    qed
  next
    assume "\<exists>p q. b # bs = p @ s @ q"
    then obtain p q where p: "b # bs = p @ s @ q" by blast
    show "contains s (b # bs)"
    proof (cases p)
      case Nil
      then have "take (length s) (b # bs) = s" using p by simp
      then show ?thesis by simp
    next
      case (Cons c p')
      then show ?thesis using p 2 by auto
    qed
  qed
qed auto

text \<open>
  A word of at most nine bytes that contains \<^verbatim>\<open>aes\<close> is found; longer words are cut into pieces
  of nine bytes, and \<^verbatim>\<open>aes\<close> across a cut is not.
\<close>

lemma has_aes_loop_word:
  assumes "w \<noteq> []" "list_all (\<lambda>b. \<not> is_space b \<and> b \<noteq> 0) w" "length w \<le> 9" "rest = [] \<or> is_space (hd rest)" "contains AES w"
    "pre = [] \<or> is_space (last pre)"
  shows "has_aes_loop (pre @ w @ rest)"
  using assms(6)
proof (induction "length pre" arbitrary: pre rule: less_induct)
  case less
  have cs: "c_str w = w" using assms(2) by (simp add: c_str_def list_all_iff takeWhile_eq_all_conv)
  have tw: "takeWhile (\<lambda>b. \<not> is_space b) (w @ rest) = w"
    using assms(2,4) by (cases rest) (auto simp: takeWhile_append2 list_all_iff)
  show ?case
  proof (cases "dropWhile is_space pre = []")
    case True
    then have "\<And>b. b \<in> set pre \<Longrightarrow> is_space b" by simp
    then have "dropWhile is_space (pre @ w @ rest) = dropWhile is_space (w @ rest)" by (rule dropWhile_append2)
    also have "\<dots> = w @ rest" using assms(1,2) by (cases w) simp_all
    finally have "dropWhile is_space (pre @ w @ rest) = w @ rest" .
    then have "fscanf_s 9 (pre @ w @ rest) = Some (w, rest)"
      using assms(1,3) tw by (simp add: fscanf_s_def Let_def)
    then show ?thesis using assms(5) cs by (subst has_aes_loop.simps) simp
  next
    case False
    define u where "u = dropWhile is_space pre"
    have d: "dropWhile is_space (pre @ w @ rest) = u @ w @ rest"
      using False by (auto simp: u_def dropWhile_append1)
    have last: "is_space (last u)" "u \<noteq> []"
      using False less.prems by (auto simp: u_def) (metis dropWhile_eq_Nil_conv last_appendR takeWhile_dropWhile_id)
    then have ex: "\<exists>b \<in> set u. is_space b" by auto
    let ?t = "take 9 (takeWhile (\<lambda>b. \<not> is_space b) u)"
    have t: "takeWhile (\<lambda>b. \<not> is_space b) (u @ w @ rest) = takeWhile (\<lambda>b. \<not> is_space b) u"
      using ex by (auto simp: takeWhile_append1)
    have f: "fscanf_s 9 (pre @ w @ rest) = Some (?t, drop (length ?t) (u @ w @ rest))"
      unfolding fscanf_s_def d Let_def t using last(2) by simp
    have lt: "length ?t < length u"
    proof -
      have "takeWhile (\<lambda>b. \<not> is_space b) u \<noteq> u" using ex by (metis takeWhile_eq_all_conv)
      then have "length (takeWhile (\<lambda>b. \<not> is_space b) u) \<noteq> length u" by (metis append_Nil2 append_eq_append_conv takeWhile_dropWhile_id)
      then show ?thesis using length_takeWhile_le [of "\<lambda>b. \<not> is_space b" u] by simp
    qed
    have "hd u \<notin> Collect is_space" using hd_dropWhile [of is_space pre] False by (simp add: u_def)
    then have "0 < length ?t" using last(2) by (cases u) auto
    moreover have "length u \<le> length pre" by (simp add: u_def length_dropWhile_le)
    ultimately have "length (drop (length ?t) u) < length pre" using lt unfolding length_drop by linarith
    moreover have "drop (length ?t) u = [] \<or> is_space (last (drop (length ?t) u))" using last lt by simp
    ultimately have "has_aes_loop (drop (length ?t) u @ w @ rest)" by (rule less.hyps)
    then show ?thesis using lt by (subst has_aes_loop.simps) (simp add: f)
  qed
qed

end
