(* ===== verification/Cache_Msg.thy ===== *)
theory Cache_Msg
  imports Cache_Db Dns_Check Hash
begin

text \<open>
  The replies in the cache (\<^verbatim>\<open>src/CacheMsg.zig\<close>): how an entry is made of a reply, its question,
  and its TTL as time goes by. The time is the clock \<open>now\<close> in seconds. \<open>None\<close> is an access
  outside the message or the overflow of an integer, which Zig leaves undefined or traps.
\<close>

section \<open>Configuration\<close>

record cache_conf =
  g_cache_size :: u16
  g_cache_stale :: u32
  g_cache_refresh :: u8
  g_cache_nodata_ttl :: int
  g_cache_min_ttl :: int
  g_cache_max_ttl :: int

section \<open>Operations\<close>

definition zig_i32 :: "int \<Rightarrow> u32 option" where
  "zig_i32 x = (if - (2 ^ 31) \<le> x \<and> x < 2 ^ 31 then Some (word_of_int x) else None)"

text \<open>\<^verbatim>\<open>@divTrunc(x, 100)\<close>.\<close>

definition percent :: "int \<Rightarrow> int" where
  "percent x = (if x < 0 then - ((- x) div 100) else x div 100)"

definition msg_init :: "cache_conf \<Rightarrow> int \<Rightarrow> bytes \<Rightarrow> nat \<Rightarrow> int \<Rightarrow> u32 \<Rightarrow> cache_msg option" where
  "msg_init g now in_msg qnamelen ttl hashv = do {
     ttl_w \<leftarrow> zig_i32 ttl;
     product \<leftarrow> zig_i32 (ttl * int (unat (g_cache_refresh g)));
     _ \<leftarrow> c_assert (length in_msg < 65536);
     _ \<leftarrow> c_assert (qnamelen < 256);
     Some \<lparr>c_update_time = word_of_int now, c_hashv = hashv, c_ttl = ttl_w,
       c_ttl_r = word_of_int (percent (sint product)), c_qnamelen = word_of_nat qnamelen, c_added_ip = True, c_msg = in_msg\<rparr> }"

definition dns_question :: "bytes \<Rightarrow> nat \<Rightarrow> bytes option" where
  "dns_question msg qnamelen = slice_at msg (unat dns_header_len) (unat (dns_question_len qnamelen))"

definition msg_question :: "'a cache_msg_scheme \<Rightarrow> bytes option" where
  "msg_question c = dns_question (c_msg c) (unat (c_qnamelen c))"

definition calc_ttl_change :: "'a cache_msg_scheme \<Rightarrow> int \<Rightarrow> int option" where
  "calc_ttl_change c now = do {
     let update_time = sint (c_update_time c);
     let elapsed_sec = (if now > update_time then now - update_time else 0);
     change \<leftarrow> zig_i32 elapsed_sec;
     Some (- sint change) }"

definition msg_update_ttl :: "int \<Rightarrow> 'a cache_msg_scheme \<Rightarrow> 'a cache_msg_scheme option" where
  "msg_update_ttl now c = do {
     ttl_change \<leftarrow> calc_ttl_change c now;
     if ttl_change \<noteq> 0 then do {
       let c = c\<lparr>c_update_time := word_of_int now\<rparr>;
       ttl \<leftarrow> zig_i32 (sint (c_ttl c) + ttl_change);
       let c = c\<lparr>c_ttl := ttl\<rparr>;
       msg \<leftarrow> dns_update_ttl (c_msg c) (int (length (c_msg c))) (unat (c_qnamelen c)) ttl_change;
       Some (c\<lparr>c_msg := msg\<rparr>) }
     else Some c }"

definition msg_get_ttl :: "'a cache_msg_scheme \<Rightarrow> int \<Rightarrow> int option" where
  "msg_get_ttl c now = do {
     ttl_change \<leftarrow> calc_ttl_change c now;
     ttl \<leftarrow> zig_i32 (sint (c_ttl c) + ttl_change);
     Some (sint ttl) }"

text \<open>\<^verbatim>\<open>ttl_ok\<close> of \<^verbatim>\<open>src/cache.zig\<close>: not expired, or stale but still usable.\<close>

definition ttl_ok :: "cache_conf \<Rightarrow> int \<Rightarrow> bool option" where
  "ttl_ok g ttl =
     (if ttl > 0 then Some True
      else if g_cache_stale g = 0 then Some False
      else do { age \<leftarrow> zig_i32 (- ttl); Some (sint age \<le> int (unat (g_cache_stale g))) })"

section \<open>Entries\<close>

text \<open>The part of a stored reply up to the records, and its records.\<close>

definition entry_parts :: "'a cache_msg_scheme \<Rightarrow> bytes \<Rightarrow> rr list \<Rightarrow> bool" where
  "entry_parts c hq rs \<longleftrightarrow> (\<exists>h. c_msg c = hq @ encode_rrs rs \<and> length hq = msg_minlen (unat (c_qnamelen c)) \<and> list_all wf_rr rs
     \<and> view_header hq = Some h \<and> unat (hd_ancount h) + unat (hd_nscount h) + unat (hd_arcount h) = length rs)"

definition entry_wf :: "'a cache_msg_scheme \<Rightarrow> bool" where
  "entry_wf c \<longleftrightarrow> (\<exists>hq rs. entry_parts c hq rs) \<and> length (c_msg c) < 65536"

definition elapsed :: "int \<Rightarrow> 'a cache_msg_scheme \<Rightarrow> int" where
  "elapsed now c = max 0 (now - sint (c_update_time c))"

text \<open>The clock has not gone so far that the TTL of the entry leaves the range of its type.\<close>

definition clock_ok :: "int \<Rightarrow> 'a cache_msg_scheme \<Rightarrow> bool" where
  "clock_ok now c \<longleftrightarrow> - (2 ^ 63) \<le> now \<and> now < 2 ^ 63 \<and> elapsed now c < 2 ^ 31 \<and> - (2 ^ 31) < sint (c_ttl c) - elapsed now c"

definition ttl_at :: "int \<Rightarrow> 'a cache_msg_scheme \<Rightarrow> int" where
  "ttl_at now c = sint (c_ttl c) - elapsed now c"

definition question :: "'a cache_msg_scheme \<Rightarrow> bytes" where
  "question c = the (msg_question c)"

definition aged :: "int \<Rightarrow> 'a cache_msg_scheme \<Rightarrow> 'a cache_msg_scheme" where
  "aged now c = the (msg_update_ttl now c)"

lemma zig_i32_eq: "- (2 ^ 31) \<le> x \<Longrightarrow> x < 2 ^ 31 \<Longrightarrow> zig_i32 x = Some (word_of_int x)"
  by (simp add: zig_i32_def)

lemma sint_i32: "- (2 ^ 31) \<le> x \<Longrightarrow> x < 2 ^ 31 \<Longrightarrow> sint (word_of_int x :: u32) = x"
  using to_i32_id [of x] by (simp add: to_i32_def)

lemma sint_i64: "- (2 ^ 63) \<le> x \<Longrightarrow> x < 2 ^ 63 \<Longrightarrow> sint (word_of_int x :: u64) = x"
  by (simp add: signed_of_int signed_take_bit_int_eq_self)

lemma sint_u32_range: "- (2 ^ 31) \<le> sint (w :: u32)" "sint (w :: u32) < 2 ^ 31"
  using sint_range_size [of w] by (simp_all add: word_size)

lemma elapsed_nonneg [simp]: "0 \<le> elapsed now c"
  by (simp add: elapsed_def)

lemma zig_i32_Some:
  assumes "- (2 ^ 31) \<le> x" "x < 2 ^ 31"
  obtains w where "zig_i32 x = Some w" "sint w = x"
  using zig_i32_eq [OF assms] sint_i32 [OF assms] by blast

lemma calc_ttl_change_eq: "clock_ok now c \<Longrightarrow> calc_ttl_change c now = Some (- elapsed now c)"
proof -
  assume "clock_ok now c"
  then obtain w where "zig_i32 (elapsed now c) = Some w" "sint w = elapsed now c"
    using zig_i32_Some [of "elapsed now c"] elapsed_nonneg [of now c] by (auto simp: clock_ok_def)
  moreover have "elapsed now c = (if now > sint (c_update_time c) then now - sint (c_update_time c) else 0)"
    by (simp add: elapsed_def)
  ultimately show ?thesis by (simp add: calc_ttl_change_def Let_def)
qed

lemma ttl_range: "clock_ok now c \<Longrightarrow> - (2 ^ 31) < ttl_at now c \<and> ttl_at now c < 2 ^ 31"
  using sint_u32_range [of "c_ttl c"] elapsed_nonneg [of now c] unfolding clock_ok_def ttl_at_def by linarith

lemma msg_get_ttl_eq: "clock_ok now c \<Longrightarrow> msg_get_ttl c now = Some (ttl_at now c)"
proof -
  assume ok: "clock_ok now c"
  then obtain w where "zig_i32 (ttl_at now c) = Some w" "sint w = ttl_at now c"
    using ttl_range [OF ok] zig_i32_Some [of "ttl_at now c"] by auto
  then show ?thesis using ok by (simp add: msg_get_ttl_def calc_ttl_change_eq ttl_at_def)
qed

lemma ttl_ok_eq:
  assumes "clock_ok now c"
  shows "ttl_ok g (ttl_at now c) = Some (0 < ttl_at now c \<or> g_cache_stale g \<noteq> 0 \<and> - ttl_at now c \<le> int (unat (g_cache_stale g)))"
proof -
  obtain w where "zig_i32 (- ttl_at now c) = Some w" "sint w = - ttl_at now c" if "\<not> 0 < ttl_at now c"
    using ttl_range [OF assms] zig_i32_Some [of "- ttl_at now c"] by auto
  then show ?thesis by (cases "0 < ttl_at now c") (auto simp: ttl_ok_def)
qed

lemma question_len: "n < 256 \<Longrightarrow> unat (dns_question_len n) = n + 4"
  by (simp add: dns_question_len_def dns_sizes unat_word_ariths unat_of_nat)

lemma msg_question_eq:
  assumes "entry_parts c hq rs"
  shows "msg_question c = Some (drop HEADER_LEN hq)"
proof -
  have "unat (dns_question_len (unat (c_qnamelen c))) = unat (c_qnamelen c) + 4"
    by (rule question_len) simp
  then show ?thesis
    using assms by (auto simp: msg_question_def dns_question_def dns_header_len_def slice_at_def entry_parts_def msg_minlen_def dns_sizes unat_of_nat)
qed

lemma question_eq: "entry_parts c hq rs \<Longrightarrow> question c = drop HEADER_LEN hq"
  by (simp add: question_def msg_question_eq)

lemma msg_question_wf: "entry_wf c \<Longrightarrow> msg_question c = Some (question c)"
  by (auto simp: entry_wf_def msg_question_eq question_eq)

text \<open>An entry after some time: the TTLs have gone down, nothing else has changed.\<close>

lemma msg_update_ttl_eq:
  assumes "entry_parts c hq rs" "clock_ok now c" "elapsed now c \<noteq> 0"
  shows "msg_update_ttl now c = Some (c\<lparr>c_update_time := word_of_int now, c_ttl := word_of_int (ttl_at now c),
    c_msg := hq @ encode_rrs (map (update_rr (- elapsed now c)) rs)\<rparr>)"
proof -
  obtain h where p: "c_msg c = hq @ encode_rrs rs" "length hq = msg_minlen (unat (c_qnamelen c))" "list_all wf_rr rs"
    "view_header hq = Some h" "unat (hd_ancount h) + unat (hd_nscount h) + unat (hd_arcount h) = length rs"
    using assms(1) by (auto simp: entry_parts_def)
  have "records (length rs) (encode_rrs rs) = (rs, [], True)" using records_encode [OF p(3), of "[]"] by simp
  then have "dns_update_ttl (hq @ encode_rrs rs) (int (length hq + length (encode_rrs rs))) (unat (c_qnamelen c)) (- elapsed now c)
      = Some (hq @ encode_rrs (map (update_rr (- elapsed now c)) rs))"
    using dns_update_ttl_eq [OF p(2,4) refl, unfolded p(5), of "encode_rrs rs" rs "[]" True "[]"] by simp
  then show ?thesis
    using assms(2,3) ttl_range [OF assms(2)] p(1)
    by (simp add: msg_update_ttl_def calc_ttl_change_eq zig_i32_eq ttl_at_def Let_def)
qed

lemma msg_update_ttl_now: "clock_ok now c \<Longrightarrow> elapsed now c = 0 \<Longrightarrow> msg_update_ttl now c = Some c"
  by (simp add: msg_update_ttl_def calc_ttl_change_eq)

lemma msg_update_ttl_wf:
  assumes "entry_wf c" "clock_ok now c"
  shows "msg_update_ttl now c = Some (aged now c)"
  using assms msg_update_ttl_eq [of c _ _ now] msg_update_ttl_now [of now c]
  by (cases "elapsed now c = 0") (auto simp: aged_def entry_wf_def)

lemma aged_parts:
  assumes "entry_parts c hq rs" "clock_ok now c"
  shows "entry_parts (aged now c) hq (if elapsed now c = 0 then rs else map (update_rr (- elapsed now c)) rs)"
  using assms msg_update_ttl_eq [OF assms] msg_update_ttl_now [OF assms(2)]
  by (cases "elapsed now c = 0") (auto simp: aged_def entry_parts_def list_all_iff)

lemma aged_fields:
  assumes "entry_wf c" "clock_ok now c"
  shows "c_hashv (aged now c) = c_hashv c" "c_qnamelen (aged now c) = c_qnamelen c" "c_ttl_r (aged now c) = c_ttl_r c"
    "c_added_ip (aged now c) = c_added_ip c" "sint (c_ttl (aged now c)) = ttl_at now c"
    "elapsed now c \<noteq> 0 \<Longrightarrow> sint (c_update_time (aged now c)) = now" "elapsed now c = 0 \<Longrightarrow> aged now c = c"
    "question (aged now c) = question c" "length (c_msg (aged now c)) = length (c_msg c)"
proof -
  obtain hq rs where p: "entry_parts c hq rs" using assms(1) by (auto simp: entry_wf_def)
  note e = msg_update_ttl_eq [OF p assms(2)] and n = msg_update_ttl_now [OF assms(2)]
  have b: "- (2 ^ 63) \<le> now" "now < 2 ^ 63" using assms(2) by (simp_all add: clock_ok_def)
  show "c_hashv (aged now c) = c_hashv c" "c_qnamelen (aged now c) = c_qnamelen c" "c_ttl_r (aged now c) = c_ttl_r c"
    "c_added_ip (aged now c) = c_added_ip c"
    using e n by (cases "elapsed now c = 0"; simp add: aged_def)+
  show "sint (c_ttl (aged now c)) = ttl_at now c"
    using e n ttl_range [OF assms(2)] by (cases "elapsed now c = 0") (simp_all add: aged_def sint_i32, simp add: ttl_at_def)
  show "elapsed now c \<noteq> 0 \<Longrightarrow> sint (c_update_time (aged now c)) = now" "elapsed now c = 0 \<Longrightarrow> aged now c = c"
    using e n sint_i64 [OF b] by (simp_all add: aged_def)
  show "question (aged now c) = question c" using question_eq [OF aged_parts [OF p assms(2)]] question_eq [OF p] by simp
  have "length (encode_rrs (map (update_rr ch) rs)) = length (encode_rrs rs)" for ch
    by (simp add: encode_rrs_def length_concat comp_def)
  then show "length (c_msg (aged now c)) = length (c_msg c)"
    using e n p by (cases "elapsed now c = 0") (auto simp: aged_def entry_parts_def)
qed

lemma aged_wf: "entry_wf c \<Longrightarrow> clock_ok now c \<Longrightarrow> entry_wf (aged now c)"
  using aged_parts aged_fields(9) [of c now] unfolding entry_wf_def by metis

end
