(* ===== verification/Node.thy ===== *)
theory Node
  imports Prelude
begin

text \<open>
  The intrusive list of \<^verbatim>\<open>src/Node.zig\<close>, which keeps the cache in the order of use: nodes with
  pointers to their neighbours, in a circle through a sentinel. \<open>None\<close> is the use of a pointer
  that was left undefined. The lemmas say what the operations do to the list of nodes that
  \<open>dlist\<close> reads off the pointers.
\<close>

section \<open>Operations\<close>

record 'a nodes =
  n_prev :: "'a \<Rightarrow> 'a option"
  n_next :: "'a \<Rightarrow> 'a option"

definition node_init :: "'a \<Rightarrow> 'a nodes \<Rightarrow> 'a nodes" where
  "node_init l n = n\<lparr>n_prev := (n_prev n)(l := Some l), n_next := (n_next n)(l := Some l)\<rparr>"

definition head :: "'a nodes \<Rightarrow> 'a \<Rightarrow> 'a option" where "head n l = n_next n l"
definition tail :: "'a nodes \<Rightarrow> 'a \<Rightarrow> 'a option" where "tail n l = n_prev n l"

definition is_empty :: "'a nodes \<Rightarrow> 'a \<Rightarrow> bool option" where
  "is_empty n l = do { h \<leftarrow> head n l; Some (h = l) }"

definition link :: "'a \<Rightarrow> 'a \<Rightarrow> 'a \<Rightarrow> 'a nodes \<Rightarrow> 'a nodes" where
  "link node prv nxt n =
     (let n = n\<lparr>n_next := (n_next n)(prv := Some node)\<rparr>;
          n = n\<lparr>n_prev := (n_prev n)(node := Some prv)\<rparr>;
          n = n\<lparr>n_next := (n_next n)(node := Some nxt)\<rparr>
      in n\<lparr>n_prev := (n_prev n)(nxt := Some node)\<rparr>)"

definition unlink :: "'a \<Rightarrow> 'a nodes \<Rightarrow> 'a nodes option" where
  "unlink node n = do {
     p \<leftarrow> n_prev n node;
     q \<leftarrow> n_next n node;
     let n = n\<lparr>n_next := (n_next n)(p := Some q)\<rparr>;
     q \<leftarrow> n_next n node;
     p \<leftarrow> n_prev n node;
     let n = n\<lparr>n_prev := (n_prev n)(q := Some p)\<rparr>;
     Some (n\<lparr>n_prev := (n_prev n)(node := None), n_next := (n_next n)(node := None)\<rparr>) }"

definition link_to_head :: "'a \<Rightarrow> 'a \<Rightarrow> 'a nodes \<Rightarrow> 'a nodes option" where
  "link_to_head l node n = do { h \<leftarrow> head n l; Some (link node l h n) }"

definition link_to_tail :: "'a \<Rightarrow> 'a \<Rightarrow> 'a nodes \<Rightarrow> 'a nodes option" where
  "link_to_tail l node n = do { t \<leftarrow> tail n l; Some (link node t l n) }"

definition move_to_head :: "'a \<Rightarrow> 'a \<Rightarrow> 'a nodes \<Rightarrow> 'a nodes option" where
  "move_to_head l node n = do {
     h \<leftarrow> head n l;
     if node \<noteq> h then do { n \<leftarrow> unlink node n; link_to_head l node n } else Some n }"

definition move_to_tail :: "'a \<Rightarrow> 'a \<Rightarrow> 'a nodes \<Rightarrow> 'a nodes option" where
  "move_to_tail l node n = do {
     t \<leftarrow> tail n l;
     if node \<noteq> t then do { n \<leftarrow> unlink node n; link_to_tail l node n } else Some n }"

text \<open>The \<open>next\<close> of an iterator that stands at \<open>node\<close>: the node it returns and where it stands then.\<close>

definition it_next :: "'a nodes \<Rightarrow> 'a \<Rightarrow> 'a \<Rightarrow> ('a option \<times> 'a) option" where
  "it_next n l node = (if node \<noteq> l then do { q \<leftarrow> n_next n node; Some (Some node, q) } else Some (None, node))"

section \<open>The list of the nodes\<close>

text \<open>From \<open>a\<close> through the nodes \<open>xs\<close> to \<open>b\<close>, in both directions.\<close>

fun links :: "'a nodes \<Rightarrow> 'a \<Rightarrow> 'a list \<Rightarrow> 'a \<Rightarrow> bool" where
  "links n a [] b \<longleftrightarrow> n_next n a = Some b \<and> n_prev n b = Some a"
| "links n a (x # xs) b \<longleftrightarrow> n_next n a = Some x \<and> n_prev n x = Some a \<and> links n x xs b"

definition dlist :: "'a nodes \<Rightarrow> 'a \<Rightarrow> 'a list \<Rightarrow> bool" where
  "dlist n l xs \<longleftrightarrow> distinct (l # xs) \<and> links n l xs l"

lemma links_append: "links n a (xs @ x # ys) b \<longleftrightarrow> links n a xs x \<and> links n x ys b"
  by (induction xs arbitrary: a) auto

lemma links_cong:
  assumes "\<And>x. x = a \<or> x \<in> set xs \<Longrightarrow> n_next m x = n_next n x" "\<And>x. x = b \<or> x \<in> set xs \<Longrightarrow> n_prev m x = n_prev n x"
  shows "links m a xs b = links n a xs b"
  using assms
proof (induction xs arbitrary: a)
  case (Cons x xs)
  have "links m x xs b = links n x xs b" by (rule Cons.IH) (use Cons.prems in auto)
  then show ?case using Cons.prems by simp
qed simp

lemma links_ends: "links n a xs b \<Longrightarrow> n_next n a = Some (hd (xs @ [b])) \<and> n_prev n b = Some (last (a # xs))"
  by (induction xs arbitrary: a) auto

lemma dlist_ends:
  assumes "dlist n l xs"
  shows "head n l = Some (hd (xs @ [l]))" "tail n l = Some (last (l # xs))"
  using links_ends [of n l xs l] assms by (simp_all add: dlist_def head_def tail_def)

lemma dlist_empty: "dlist n l xs \<Longrightarrow> is_empty n l = Some (xs = [])"
  by (cases xs) (auto simp: is_empty_def dlist_ends, auto simp: dlist_def)

lemma dlist_init: "dlist (node_init l n) l []"
  by (simp add: dlist_def node_init_def)

text \<open>Linking a new node between two neighbours.\<close>

lemma link_fields:
  "n_next (link x p q n) = (n_next n)(p := Some x, x := Some q)" "n_prev (link x p q n) = (n_prev n)(x := Some p, q := Some x)"
  by (simp_all add: link_def Let_def)

lemma dlist_link:
  assumes "dlist n l (xs @ ys)" "x \<noteq> l" "x \<notin> set (xs @ ys)"
  shows "dlist (link x (last (l # xs)) (hd (ys @ [l])) n) l (xs @ x # ys)"
proof -
  let ?p = "last (l # xs)" and ?q = "hd (ys @ [l])" and ?m = "link x (last (l # xs)) (hd (ys @ [l])) n"
  have d: "distinct (l # xs @ ys)" and k: "links n l (xs @ ys) l" using assms(1) by (simp_all add: dlist_def)
  note nx = link_fields(1) and pv = link_fields(2)
  have "links ?m l xs x"
  proof (cases xs rule: rev_cases)
    case Nil
    then show ?thesis using assms(2,3) d by (cases ys) (auto simp: nx pv)
  next
    case (snoc zs p)
    then have "links n l zs p" using k by (simp add: links_append)
    then have "links ?m l zs p"
      using snoc d assms(2,3) by (subst links_cong [of _ _ _ n]) (cases ys; auto simp: nx pv)+
    then show ?thesis using snoc assms(2,3) d by (cases ys) (auto simp: links_append nx pv)
  qed
  moreover have "links ?m x ys l"
  proof (cases ys)
    case Nil
    then show ?thesis using assms(2) by (simp add: nx pv)
  next
    case (Cons q zs)
    then have "links n q zs l" using k by (simp add: links_append)
    have "?p \<notin> set ys" using d by (cases xs rule: rev_cases) auto
    with \<open>links n q zs l\<close> have "links ?m q zs l"
      using Cons d assms(2,3) by (subst links_cong [of _ _ _ n]) (auto simp: nx pv split: if_splits)
    then show ?thesis using Cons assms(2,3) d by (auto simp: nx pv)
  qed
  ultimately show ?thesis using d assms(2,3) by (auto simp: dlist_def links_append)
qed

lemma dlist_link_to_head:
  assumes "dlist n l xs" "x \<noteq> l" "x \<notin> set xs"
  obtains m where "link_to_head l x n = Some m" "dlist m l (x # xs)"
  using dlist_link [of n l "[]" xs x] assms dlist_ends(1) [OF assms(1)] by (simp add: link_to_head_def)

lemma dlist_link_to_tail:
  assumes "dlist n l xs" "x \<noteq> l" "x \<notin> set xs"
  obtains m where "link_to_tail l x n = Some m" "dlist m l (xs @ [x])"
  using dlist_link [of n l xs "[]" x] assms dlist_ends(2) [OF assms(1)] by (simp add: link_to_tail_def)

text \<open>Unlinking a node.\<close>

lemma dlist_unlink:
  assumes "dlist n l (xs @ x # ys)"
  obtains m where "unlink x n = Some m" "dlist m l (xs @ ys)"
proof -
  let ?p = "last (l # xs)" and ?q = "hd (ys @ [l])"
  have d: "distinct (l # xs @ x # ys)" and k: "links n l xs x" "links n x ys l" using assms by (simp_all add: dlist_def links_append)
  have e: "n_prev n x = Some ?p" "n_next n x = Some ?q" using links_ends k by fast+
  have "?p \<noteq> x" using d by (cases xs rule: rev_cases) auto
  moreover have "?q \<noteq> x" using d by (cases ys) auto
  ultimately have ne: "?p \<noteq> x" "?q \<noteq> x" .
  define m where "m = n\<lparr>n_prev := (n_prev n)(?q := Some ?p, x := None), n_next := (n_next n)(?p := Some ?q, x := None)\<rparr>"
  have u: "unlink x n = Some m" using e ne by (simp add: unlink_def m_def Let_def)
  have nx: "n_next m = (n_next n)(?p := Some ?q, x := None)" and pv: "n_prev m = (n_prev n)(?q := Some ?p, x := None)"
    by (simp_all add: m_def)
  have "links m l (xs @ ys) l"
  proof (cases xs rule: rev_cases)
    case Nil
    show ?thesis
    proof (cases ys)
      case Nil
      then show ?thesis using \<open>xs = []\<close> d by (simp add: nx pv)
    next
      case (Cons q zs)
      then have "links m q zs l" using k d \<open>xs = []\<close>
        by (subst links_cong [of _ _ _ n]) (auto simp: nx pv)
      then show ?thesis using Cons \<open>xs = []\<close> d by (auto simp: nx pv)
    qed
  next
    case (snoc zs p)
    then have z: "links n l zs p" using k by (simp add: links_append)
    have "links m l zs p"
      using z snoc d by (subst links_cong [of _ _ _ n]) (cases ys; auto simp: nx pv)+
    moreover have "links m p ys l"
    proof (cases ys)
      case Nil
      then show ?thesis using snoc d by (simp add: nx pv)
    next
      case (Cons q ws)
      then have "links m q ws l" using k d snoc
        by (subst links_cong [of _ _ _ n]) (auto simp: nx pv)
      then show ?thesis using Cons snoc d by (auto simp: nx pv)
    qed
    ultimately show ?thesis using snoc by (simp add: links_append)
  qed
  then show ?thesis using d u that by (auto simp: dlist_def)
qed

lemma dlist_remove:
  assumes "dlist n l xs" "x \<in> set xs"
  obtains m where "unlink x n = Some m" "dlist m l (remove1 x xs)"
proof -
  obtain ys zs where xs: "xs = ys @ x # zs" using assms(2) by (auto dest: split_list)
  then have "remove1 x xs = ys @ zs" using assms(1) by (simp add: dlist_def remove1_append)
  then show ?thesis using dlist_unlink [of n l ys x zs] assms(1) xs that by metis
qed

lemma dlist_move_to_head:
  assumes "dlist n l xs" "x \<in> set xs"
  obtains m where "move_to_head l x n = Some m" "dlist m l (x # remove1 x xs)"
proof (cases "x = hd (xs @ [l])")
  case True
  then have "xs = x # remove1 x xs" using assms(2) by (cases xs) simp_all
  then show ?thesis using that [of n] assms(1) True dlist_ends(1) [OF assms(1)] by (simp add: move_to_head_def)
next
  case False
  from assms(1) have d: "distinct (l # xs)" by (simp add: dlist_def)
  obtain m where m: "unlink x n = Some m" "dlist m l (remove1 x xs)" by (rule dlist_remove [OF assms])
  have "x \<noteq> l" "x \<notin> set (remove1 x xs)" using d assms(2) by auto
  then obtain m' where "link_to_head l x m = Some m'" "dlist m' l (x # remove1 x xs)" by (rule dlist_link_to_head [OF m(2)])
  then show ?thesis using that [of m'] False m(1) dlist_ends(1) [OF assms(1)] by (simp add: move_to_head_def)
qed

text \<open>The nodes an iterator visits.\<close>

lemma dlist_it_next:
  assumes "dlist n l (xs @ ys)"
  shows "it_next n l (hd (ys @ [l])) = Some (case ys of [] \<Rightarrow> (None, l) | y # zs \<Rightarrow> (Some y, hd (zs @ [l])))"
proof (cases ys)
  case (Cons y zs)
  then have "links n y zs l" "y \<noteq> l" using assms by (auto simp: dlist_def links_append)
  then show ?thesis using Cons links_ends by (fastforce simp: it_next_def)
qed (simp add: it_next_def)

end
