(* ===== verification/Cache_Map.thy ===== *)
theory Cache_Map
  imports Cache_Msg Node
begin

text \<open>
  The hash map of \<^verbatim>\<open>src/cache.zig\<close>: buckets of entries that are chained through their \<open>next\<close>
  fields, found by the question of a reply. The loops walk over the places where a pointer is
  stored (\<open>p: *?*CacheMsg\<close>), a bucket or the field of an entry. The lemmas give the set of
  entries that the operations maintain.
\<close>

section \<open>State\<close>

text \<open>Entries are objects with addresses; the nodes of the recency list are in them.\<close>

record cache_obj = cache_msg +
  c_chain :: "nat option"

datatype nref = Sentinel | Obj nat

record cache_state =
  buckets :: "nat option list"
  nitems :: nat
  objs :: "nat \<Rightarrow> cache_obj option"
  lru :: "nref nodes"
  brk :: nat

datatype slot = Bucket nat | Next nat

fun rd_slot :: "cache_state \<Rightarrow> slot \<Rightarrow> nat option option" where
  "rd_slot s (Bucket i) = (if i < length (buckets s) then Some (buckets s ! i) else None)"
| "rd_slot s (Next a) = map_option c_chain (objs s a)"

fun wr_slot :: "slot \<Rightarrow> nat option \<Rightarrow> cache_state \<Rightarrow> cache_state option" where
  "wr_slot (Bucket i) v s = (if i < length (buckets s) then Some (s\<lparr>buckets := (buckets s)[i := v]\<rparr>) else None)"
| "wr_slot (Next a) v s = map_option (\<lambda>ob. s\<lparr>objs := (objs s)(a \<mapsto> ob\<lparr>c_chain := v\<rparr>)\<rparr>) (objs s a)"

section \<open>Operations\<close>

definition calc_idx :: "cache_state \<Rightarrow> u32 \<Rightarrow> nat" where
  "calc_idx s hashv = and (unat hashv) (length (buckets s) - 1)"

text \<open>\<^verbatim>\<open>cur.next = _buckets[idx]; _buckets[idx] = cur\<close>.\<close>

definition chain_push :: "nat \<Rightarrow> nat \<Rightarrow> cache_state \<Rightarrow> cache_state option" where
  "chain_push idx cur s = do {
     first \<leftarrow> rd_slot s (Bucket idx);
     s \<leftarrow> wr_slot (Next cur) first s;
     wr_slot (Bucket idx) (Some cur) s }"

partial_function (option) map_get_loop :: "bytes \<Rightarrow> u32 \<Rightarrow> nat \<Rightarrow> slot \<Rightarrow> cache_state \<Rightarrow> (nat option \<times> cache_state) option" where
  "map_get_loop q hashv idx p s = do {
     c \<leftarrow> rd_slot s p;
     case c of
       None \<Rightarrow> Some (None, s)
     | Some cur \<Rightarrow> do {
         ob \<leftarrow> objs s cur;
         hit \<leftarrow> (if c_hashv ob = hashv then do { cq \<leftarrow> msg_question ob; Some (cq = q) } else Some False);
         if hit then do {
           first \<leftarrow> rd_slot s (Bucket idx);
           if Some cur \<noteq> first then do {
             s \<leftarrow> wr_slot p (c_chain ob) s;
             s \<leftarrow> chain_push idx cur s;
             Some (Some cur, s) }
           else Some (Some cur, s) }
         else map_get_loop q hashv idx (Next cur) s } }"

definition map_get :: "bytes \<Rightarrow> u32 \<Rightarrow> cache_state \<Rightarrow> (nat option \<times> cache_state) option" where
  "map_get q hashv s =
     (if length (buckets s) = 0 then Some (None, s)
      else let idx = calc_idx s hashv in map_get_loop q hashv idx (Bucket idx) s)"

partial_function (option) map_del_loop :: "nat \<Rightarrow> slot \<Rightarrow> cache_state \<Rightarrow> cache_state option" where
  "map_del_loop cmsg p s = do {
     c \<leftarrow> rd_slot s p;
     case c of
       None \<Rightarrow> Some s
     | Some cur \<Rightarrow> do {
         ob \<leftarrow> objs s cur;
         if cur = cmsg then do {
           s \<leftarrow> wr_slot p (c_chain ob) s;
           _ \<leftarrow> c_assert (0 < nitems s);
           Some (s\<lparr>nitems := nitems s - 1\<rparr>) }
         else map_del_loop cmsg (Next cur) s } }"

definition map_del :: "nat \<Rightarrow> cache_state \<Rightarrow> cache_state option" where
  "map_del cmsg s =
     (if length (buckets s) = 0 then Some s
      else do { ob \<leftarrow> objs s cmsg; map_del_loop cmsg (Bucket (calc_idx s (c_hashv ob))) s })"

partial_function (option) rehash_chain_loop :: "nat \<Rightarrow> nat \<Rightarrow> slot \<Rightarrow> cache_state \<Rightarrow> cache_state option" where
  "rehash_chain_loop old_len idx p s = do {
     c \<leftarrow> rd_slot s p;
     case c of
       None \<Rightarrow> Some s
     | Some cur \<Rightarrow> do {
         ob \<leftarrow> objs s cur;
         let new_idx = calc_idx s (c_hashv ob);
         if new_idx \<noteq> idx then do {
           _ \<leftarrow> c_assert (new_idx \<ge> old_len);
           s \<leftarrow> wr_slot p (c_chain ob) s;
           s \<leftarrow> chain_push new_idx cur s;
           rehash_chain_loop old_len idx p s }
         else rehash_chain_loop old_len idx (Next cur) s } }"

text \<open>The buckets from \<open>idx\<close> on, of which \<open>n\<close> are left.\<close>

fun rehash_loop :: "nat \<Rightarrow> nat \<Rightarrow> nat \<Rightarrow> cache_state \<Rightarrow> cache_state option" where
  "rehash_loop old_len idx 0 s = Some s"
| "rehash_loop old_len idx (Suc n) s = do {
     s \<leftarrow> rehash_chain_loop old_len idx (Bucket idx) s;
     rehash_loop old_len (idx + 1) n s }"

definition load_factor :: nat where "load_factor = 75"

definition try_resize :: "cache_state \<Rightarrow> cache_state option" where
  "try_resize s =
     (let max_nitems = length (buckets s) * load_factor div 100
      in if nitems s < max_nitems then Some s
         else let old_len = length (buckets s); new_len = max (2 * old_len) 16;
                  s = s\<lparr>buckets := buckets s @ replicate (new_len - old_len) None\<rparr>
              in rehash_loop old_len 0 old_len s)"

definition map_add :: "nat \<Rightarrow> cache_state \<Rightarrow> cache_state option" where
  "map_add cmsg s = do {
     s \<leftarrow> try_resize s;
     ob \<leftarrow> objs s cmsg;
     s \<leftarrow> chain_push (calc_idx s (c_hashv ob)) cmsg s;
     Some (s\<lparr>nitems := nitems s + 1\<rparr>) }"

end
