(* ===== verification/Cache_Index.thy ===== *)
theory Cache_Index
  imports Cache_Map
begin

text \<open>
  The hash map of the cache as a set of entries: the invariant of buckets and chains, and what
  lookup, removal, insertion and resizing do to the set.
\<close>

section \<open>Chains\<close>

fun chain :: "(nat \<Rightarrow> cache_obj option) \<Rightarrow> nat option \<Rightarrow> nat list \<Rightarrow> bool" where
  "chain h v [] \<longleftrightarrow> v = None"
| "chain h v (a # as) \<longleftrightarrow> v = Some a \<and> (\<exists>ob. h a = Some ob \<and> chain h (c_chain ob) as)"

definition chains :: "cache_state \<Rightarrow> nat list list \<Rightarrow> bool" where
  "chains s B \<longleftrightarrow> length B = length (buckets s) \<and> (\<forall>i < length B. chain (objs s) (buckets s ! i) (B ! i) \<and> distinct (B ! i))
     \<and> (\<forall>i < length B. \<forall>j < length B. i \<noteq> j \<longrightarrow> set (B ! i) \<inter> set (B ! j) = {})"

definition content :: "cache_state \<Rightarrow> nat \<Rightarrow> cache_msg option" where
  "content s a = map_option cache_msg.truncate (objs s a)"

text \<open>Nothing has changed but the order within chains.\<close>

definition same :: "cache_state \<Rightarrow> cache_state \<Rightarrow> bool" where
  "same s s' \<longleftrightarrow> content s' = content s \<and> lru s' = lru s \<and> brk s' = brk s \<and> nitems s' = nitems s \<and> length (buckets s') = length (buckets s)"

lemma same_refl [simp]: "same s s" by (simp add: same_def)
lemma same_trans: "same s s' \<Longrightarrow> same s' s'' \<Longrightarrow> same s s''" by (simp add: same_def)

lemma chain_cong: "(\<And>a. a \<in> set as \<Longrightarrow> h' a = h a) \<Longrightarrow> chain h' v as = chain h v as"
  by (induction as arbitrary: v) auto

lemma chain_upd [simp]: "a \<notin> set as \<Longrightarrow> chain (h(a := v)) w as = chain h w as"
  by (rule chain_cong) auto

lemma chainsD:
  assumes "chains s B" "i < length B"
  shows "chain (objs s) (buckets s ! i) (B ! i)" "distinct (B ! i)" "i < length (buckets s)"
    "j < length B \<Longrightarrow> i \<noteq> j \<Longrightarrow> set (B ! i) \<inter> set (B ! j) = {}"
  using assms by (simp_all add: chains_def)

lemma chain_exists: "chain h v as \<Longrightarrow> a \<in> set as \<Longrightarrow> \<exists>ob. h a = Some ob"
  by (induction as arbitrary: v) auto

definition slot_at :: "nat \<Rightarrow> nat list \<Rightarrow> slot" where
  "slot_at idx pre = (if pre = [] then Bucket idx else Next (last pre))"

lemma slot_at_simps [simp]: "slot_at idx [] = Bucket idx" "slot_at idx (pre @ [a]) = Next a"
  by (simp_all add: slot_at_def)

definition first :: "nat list \<Rightarrow> nat option" where
  "first as = (case as of [] \<Rightarrow> None | a # _ \<Rightarrow> Some a)"

lemma first_simps [simp]: "first [] = None" "first (a # as) = Some a"
  by (simp_all add: first_def)

lemma chain_first: "chain h v as \<Longrightarrow> v = first as"
  by (cases as) simp_all

lemma chain_upto:
  assumes "chain h v (pre @ a # post)"
  obtains ob where "h a = Some ob" "chain h (c_chain ob) post"
  using assms by (induction pre arbitrary: v) auto

lemma chain_update:
  assumes "chain h v (pre @ a # post)" "a \<notin> set pre" "a \<notin> set post'" "chain h w post'" "h a = Some ob"
  shows "chain (h(a \<mapsto> ob\<lparr>c_chain := w\<rparr>)) v (pre @ a # post')"
  using assms(1,2)
proof (induction pre arbitrary: v)
  case Nil
  then show ?case using assms(3-5) by (simp del: fun_upd_apply) simp
qed auto

lemma rd_slot_at:
  assumes "chains s B" "idx < length B" "B ! idx = pre @ post"
  shows "rd_slot s (slot_at idx pre) = Some (first post)"
proof (cases pre rule: rev_cases)
  case Nil
  then show ?thesis using assms chain_first by (fastforce simp: chains_def)
next
  case (snoc as a)
  then have "chain (objs s) (buckets s ! idx) (as @ a # post)" using assms by (auto simp: chains_def)
  then obtain ob where "objs s a = Some ob" "chain (objs s) (c_chain ob) post" by (rule chain_upto)
  then show ?thesis using snoc chain_first by fastforce
qed

lemma chains_list_update:
  assumes "chains s B" "length (buckets s') = length (buckets s)"
    and "\<And>j. j < length B \<Longrightarrow> j \<noteq> idx \<Longrightarrow> chain (objs s') (buckets s' ! j) (B ! j)"
    and "chain (objs s') (buckets s' ! idx) xs" "distinct xs" "\<forall>j < length B. j \<noteq> idx \<longrightarrow> set xs \<inter> set (B ! j) = {}"
  shows "chains s' (B[idx := xs])"
  unfolding chains_def
proof (intro conjI allI impI)
  show "length (B[idx := xs]) = length (buckets s')" using assms(1,2) by (simp add: chains_def)
  fix i assume i: "i < length (B[idx := xs])"
  show "chain (objs s') (buckets s' ! i) (B[idx := xs] ! i)" "distinct (B[idx := xs] ! i)"
    using i assms(3-5) chainsD(2) [OF assms(1), of i] by (cases "i = idx"; simp)+
  fix j assume "j < length (B[idx := xs])" "i \<noteq> j"
  then show "set (B[idx := xs] ! i) \<inter> set (B[idx := xs] ! j) = {}"
    using i assms(6) chainsD(4) [OF assms(1), of i j] by (cases "i = idx"; cases "j = idx"; auto)
qed

text \<open>Writing to a place in a chain replaces what follows it.\<close>

lemma wr_slot_at:
  assumes c: "chains s B" and i: "idx < length B" "B ! idx = pre @ post"
    and w: "chain (objs s) w post'" "distinct post'" "set post' \<inter> set pre = {}" "\<forall>j < length B. j \<noteq> idx \<longrightarrow> set post' \<inter> set (B ! j) = {}"
  obtains s' where "wr_slot (slot_at idx pre) w s = Some s'" "chains s' (B[idx := pre @ post'])" "same s s'"
    "\<And>a. a \<notin> set pre \<Longrightarrow> objs s' a = objs s a"
proof (cases pre rule: rev_cases)
  case Nil
  let ?s = "s\<lparr>buckets := (buckets s)[idx := w]\<rparr>"
  have "chains ?s (B[idx := pre @ post'])"
    by (rule chains_list_update [OF c]) (use chainsD [OF c] i w Nil in auto)
  then show ?thesis using c i Nil by (intro that [of ?s]) (auto simp: chains_def same_def content_def)
next
  case (snoc as a)
  have ch: "chain (objs s) (buckets s ! idx) (as @ a # post)" and d: "distinct (as @ a # post)"
    using chainsD(1,2) [OF c i(1)] i(2) snoc by simp_all
  from ch obtain ob where ob: "objs s a = Some ob" by (rule chain_upto)
  let ?h = "(objs s)(a \<mapsto> ob\<lparr>c_chain := w\<rparr>)" let ?s = "s\<lparr>objs := ?h\<rparr>"
  have new: "chain ?h (buckets s ! idx) (pre @ post')"
    using chain_update [OF ch _ _ w(1) ob] d w(3) snoc by auto
  have old: "chain ?h (buckets s ! j) (B ! j)" if "j < length B" "j \<noteq> idx" for j
  proof -
    have "a \<notin> set (B ! j)" using chainsD(4) [OF c i(1) that(1)] that(2) i(2) snoc by auto
    then show ?thesis using chainsD(1) [OF c that(1)] by simp
  qed
  have dj: "set pre \<inter> set (B ! j) = {}" if "j < length B" "j \<noteq> idx" for j
    using chainsD(4) [OF c i(1) that(1)] that(2) i(2) by auto
  have "chains ?s (B[idx := pre @ post'])"
  proof (rule chains_list_update [OF c])
    show "distinct (pre @ post')" using d w(2,3) snoc by auto
    show "\<forall>j < length B. j \<noteq> idx \<longrightarrow> set (pre @ post') \<inter> set (B ! j) = {}" using w(4) dj by (simp add: Int_Un_distrib2)
  qed (use new old in simp_all)
  moreover have "content ?s = content s" using ob by (auto simp: content_def fun_eq_iff cache_msg.truncate_def)
  ultimately show ?thesis using snoc ob c by (intro that [of ?s]) (auto simp: same_def)
qed

lemma chains_outside:
  assumes "chains s B" "\<forall>j < length B. a \<notin> set (B ! j)"
  shows "chains (s\<lparr>objs := (objs s)(a := v)\<rparr>) B"
proof -
  have "chain ((objs s)(a := v)) (buckets s ! j) (B ! j)" if "j < length B" for j
    using that assms(2) chainsD(1) [OF assms(1) that] by simp
  then show ?thesis using assms(1) by (simp add: chains_def)
qed

lemma chain_push_at:
  assumes c: "chains s B" and i: "idx < length B" and a: "objs s a = Some ob" "\<forall>j < length B. a \<notin> set (B ! j)"
  obtains s' where "chain_push idx a s = Some s'" "chains s' (B[idx := a # B ! idx])" "same s s'" "\<And>b. b \<noteq> a \<Longrightarrow> objs s' b = objs s b"
proof -
  have f: "rd_slot s (Bucket idx) = Some (first (B ! idx))" using rd_slot_at [OF c i, of "[]"] by simp
  let ?ob = "ob\<lparr>c_chain := first (B ! idx)\<rparr>" let ?s = "s\<lparr>objs := (objs s)(a \<mapsto> ?ob)\<rparr>"
  have w: "wr_slot (Next a) (first (B ! idx)) s = Some ?s" using a by simp
  have c': "chains ?s B" by (rule chains_outside [OF c a(2)])
  have "chain (objs ?s) (buckets s ! idx) (B ! idx)" using c' i by (auto simp: chains_def)
  moreover from this have "buckets s ! idx = first (B ! idx)" by (rule chain_first)
  ultimately have "chain (objs ?s) (Some a) (a # B ! idx)" by simp
  then obtain s' where s': "wr_slot (Bucket idx) (Some a) ?s = Some s'" "chains s' (B[idx := a # B ! idx])" "same ?s s'"
      "\<And>b. objs s' b = objs ?s b"
    using wr_slot_at [OF c' i, of "[]" "B ! idx" "Some a" "a # B ! idx"] a i c by (auto simp: chains_def)
  have "same s ?s" using a by (auto simp: same_def content_def fun_eq_iff cache_msg.truncate_def)
  then have "same s s'" using s'(3) by (rule same_trans)
  moreover have "chain_push idx a s = Some s'" unfolding chain_push_def f w Option.bind.bind_lunit by (rule s'(1))
  ultimately show ?thesis using s' by (intro that [of s']) simp_all
qed

lemma chain_push_update:
  assumes "chains s (B[i := xs])" "i < length B" "objs s a = Some ob" "\<forall>j < length B. a \<notin> set (B[i := xs] ! j)"
  obtains s' where "chain_push i a s = Some s'" "chains s' (B[i := a # xs])" "same s s'" "\<And>b. b \<noteq> a \<Longrightarrow> objs s' b = objs s b"
proof -
  have "i < length (B[i := xs])" "\<forall>j < length (B[i := xs]). a \<notin> set (B[i := xs] ! j)" using assms(2,4) by simp_all
  from chain_push_at [OF assms(1) this(1) assms(3) this(2)] obtain s' where "chain_push i a s = Some s'"
    "chains s' (B[i := xs, i := a # B[i := xs] ! i])" "same s s'" "\<And>b. b \<noteq> a \<Longrightarrow> objs s' b = objs s b" by blast
  then show ?thesis using assms(2) by (intro that [of s']) simp_all
qed

text \<open>Taking an entry out of its chain.\<close>

lemma chain_remove_at:
  assumes c: "chains s B" and i: "idx < length B" "B ! idx = pre @ a # post" and ob: "objs s a = Some ob"
  obtains s' where "wr_slot (slot_at idx pre) (c_chain ob) s = Some s'" "chains s' (B[idx := pre @ post])" "same s s'"
    "objs s' a = Some ob" "\<forall>j < length B. a \<notin> set (B[idx := pre @ post] ! j)"
proof -
  have ch: "chain (objs s) (buckets s ! idx) (pre @ a # post)" and d: "distinct (pre @ a # post)"
    using chainsD(1,2) [OF c i(1)] i(2) by simp_all
  from ch obtain ob' where "objs s a = Some ob'" "chain (objs s) (c_chain ob') post" by (rule chain_upto)
  then have w: "chain (objs s) (c_chain ob) post" using ob by simp
  have dj: "set post \<inter> set (B ! j) = {}" "a \<notin> set (B ! j)" if "j < length B" "j \<noteq> idx" for j
    using chainsD(4) [OF c i(1) that(1)] that(2) i(2) by auto
  obtain s' where s': "wr_slot (slot_at idx pre) (c_chain ob) s = Some s'" "chains s' (B[idx := pre @ post])" "same s s'"
    "\<And>b. b \<notin> set pre \<Longrightarrow> objs s' b = objs s b"
    using wr_slot_at [OF c i w] d dj(1) by (auto simp: Int_commute)
  moreover have "a \<notin> set (B[idx := pre @ post] ! j)" if "j < length B" for j
    using dj(2) [OF that] d i(1) by (cases "j = idx") auto
  ultimately show ?thesis using d ob by (intro that [of s']) auto
qed

section \<open>The invariant\<close>

definition addrs :: "nat list list \<Rightarrow> nat set" where
  "addrs B = (\<Union>i < length B. set (B ! i))"

definition hval :: "cache_state \<Rightarrow> nat \<Rightarrow> nat" where
  "hval s a = unat (c_hashv (the (content s a)))"

definition map_inv :: "cache_state \<Rightarrow> nat list list \<Rightarrow> bool" where
  "map_inv s B \<longleftrightarrow> chains s B \<and> (\<forall>i < length B. \<forall>a \<in> set (B ! i). hval s a mod length B = i)
     \<and> nitems s = card (addrs B) \<and> (B = [] \<or> (\<exists>k \<ge> 4. length B = 2 ^ k))"

definition matches :: "cache_state \<Rightarrow> bytes \<Rightarrow> u32 \<Rightarrow> nat \<Rightarrow> bool" where
  "matches s q h a \<longleftrightarrow> (\<exists>c. content s a = Some c \<and> c_hashv c = h \<and> question c = q)"

text \<open>\<open>r\<close> is an entry of \<open>A\<close> for the question, if there is one.\<close>

definition finds :: "cache_state \<Rightarrow> bytes \<Rightarrow> u32 \<Rightarrow> nat set \<Rightarrow> nat option \<Rightarrow> bool" where
  "finds s q h A r \<longleftrightarrow> (case r of None \<Rightarrow> \<forall>a \<in> A. \<not> matches s q h a | Some a \<Rightarrow> a \<in> A \<and> matches s q h a)"

lemma finds_simps [simp]:
  "finds s q h A None \<longleftrightarrow> (\<forall>a \<in> A. \<not> matches s q h a)" "finds s q h A (Some a) \<longleftrightarrow> a \<in> A \<and> matches s q h a"
  by (simp_all add: finds_def)

lemma finds_mono: "finds s q h A r \<Longrightarrow> A \<subseteq> A' \<Longrightarrow> (\<And>a. a \<in> A' \<Longrightarrow> matches s q h a \<Longrightarrow> a \<in> A) \<Longrightarrow> finds s q h A' r"
  by (cases r) auto

lemma finite_addrs [simp]: "finite (addrs B)"
  by (simp add: addrs_def)

lemma addrs_Nil [simp]: "addrs [] = {}"
  by (simp add: addrs_def)

lemma addrs_update: "i < length B \<Longrightarrow> addrs (B[i := xs]) = set xs \<union> (\<Union>j \<in> {..< length B} - {i}. set (B ! j))"
  by (auto simp: addrs_def nth_list_update split: if_splits)

lemma addrs_split: "i < length B \<Longrightarrow> addrs B = set (B ! i) \<union> (\<Union>j \<in> {..< length B} - {i}. set (B ! j))"
  using addrs_update [of i B "B ! i"] by simp

lemma truncate_fields [simp]:
  "c_hashv (cache_msg.truncate ob) = c_hashv ob" "c_msg (cache_msg.truncate ob) = c_msg ob"
  "c_qnamelen (cache_msg.truncate ob) = c_qnamelen ob" "msg_question (cache_msg.truncate ob) = msg_question ob"
  by (simp_all add: cache_msg.truncate_def msg_question_def)

lemma content_Some: "content s a = Some c \<longleftrightarrow> (\<exists>ob. objs s a = Some ob \<and> c = cache_msg.truncate ob)"
  by (auto simp: content_def)

lemma chains_content: "chains s B \<Longrightarrow> a \<in> addrs B \<Longrightarrow> \<exists>ob. objs s a = Some ob"
  unfolding addrs_def using chainsD(1) chain_exists by blast

lemma same_hval: "same s s' \<Longrightarrow> hval s' = hval s"
  by (simp add: same_def hval_def fun_eq_iff)

lemma same_matches: "same s s' \<Longrightarrow> matches s' = matches s"
  by (simp add: same_def matches_def fun_eq_iff)

lemma calc_idx_mod:
  assumes "length (buckets s) = 2 ^ k"
  shows "calc_idx s h = unat h mod length (buckets s)"
proof -
  have "length (buckets s) - 1 = mask k" using assms by (simp add: mask_eq_exp_minus_1)
  then show ?thesis using assms by (simp add: calc_idx_def flip: take_bit_eq_mask take_bit_eq_mod)
qed

section \<open>Lookup\<close>

lemma map_get_loop_eq:
  assumes "chains s B" "idx < length B" "B ! idx = pre @ post" "\<forall>a \<in> addrs B. \<exists>c. content s a = Some c \<and> entry_wf c"
  shows "\<exists>r s' B'. map_get_loop q h idx (slot_at idx pre) s = Some (r, s') \<and> chains s' B' \<and> same s s' \<and> length B' = length B
    \<and> (\<forall>j < length B. set (B' ! j) = set (B ! j)) \<and> finds s q h (set post) r"
  using assms(3)
proof (induction post arbitrary: pre)
  case Nil
  have "rd_slot s (slot_at idx pre) = Some None" using rd_slot_at [OF assms(1,2) Nil] by simp
  then have "map_get_loop q h idx (slot_at idx pre) s = Some (None, s)" by (subst map_get_loop.simps) simp
  then show ?case using assms(1) by (intro exI [of _ None] exI [of _ s] exI [of _ B]) simp
next
  case (Cons a post)
  have rd: "rd_slot s (slot_at idx pre) = Some (Some a)" using rd_slot_at [OF assms(1,2) Cons.prems] by simp
  have a: "a \<in> addrs B" using assms(2) Cons.prems addrs_split [OF assms(2)] by simp
  then obtain ob where ob: "objs s a = Some ob" and wf: "entry_wf (cache_msg.truncate ob)"
    using assms(4) by (auto simp: content_Some)
  have mq: "msg_question ob = Some (question (cache_msg.truncate ob))" using msg_question_wf [OF wf] by simp
  have m: "matches s q h a \<longleftrightarrow> c_hashv ob = h \<and> question (cache_msg.truncate ob) = q"
    using ob by (auto simp: matches_def content_Some)
  have hit: "(if c_hashv ob = h then do { cq \<leftarrow> msg_question ob; Some (cq = q) } else Some False) = Some (matches s q h a)"
    unfolding mq m by simp
  show ?case
  proof (cases "matches s q h a")
    case False
    have "map_get_loop q h idx (slot_at idx pre) s = map_get_loop q h idx (slot_at idx (pre @ [a])) s"
      by (subst map_get_loop.simps) (simp only: rd bind.bind_lunit option.case ob hit False if_False slot_at_simps)
    moreover have "B ! idx = (pre @ [a]) @ post" using Cons.prems by simp
    moreover from this obtain r s' B' where "map_get_loop q h idx (slot_at idx (pre @ [a])) s = Some (r, s')" "chains s' B'" "same s s'"
      "length B' = length B" "\<forall>j < length B. set (B' ! j) = set (B ! j)" "finds s q h (set post) r"
      using Cons.IH [of "pre @ [a]"] by blast
    moreover from this have "finds s q h (set (a # post)) r" using False by (auto intro: finds_mono)
    ultimately show ?thesis by (intro exI [of _ r] exI [of _ s'] exI [of _ B']) simp
  next
    case True
    have f: "rd_slot s (Bucket idx) = Some (first (B ! idx))" using rd_slot_at [OF assms(1,2), of "[]"] by simp
    show ?thesis
    proof (cases pre)
      case Nil
      then have "first (B ! idx) = Some a" using Cons.prems by simp
      then have "map_get_loop q h idx (slot_at idx pre) s = Some (Some a, s)"
        by (subst map_get_loop.simps) (simp only: rd bind.bind_lunit option.case ob hit True if_True f simp_thms if_False)
      then show ?thesis using assms(1) True by (intro exI [of _ "Some a"] exI [of _ s] exI [of _ B]) simp
    next
      case p: (Cons b pre')
      have d: "distinct (B ! idx)" using chainsD(2) [OF assms(1,2)] .
      then have ne: "Some a \<noteq> first (B ! idx)" using Cons.prems p by simp
      obtain s1 where s1: "wr_slot (slot_at idx pre) (c_chain ob) s = Some s1" "chains s1 (B[idx := pre @ post])" "same s s1"
        "objs s1 a = Some ob" "\<forall>j < length B. a \<notin> set (B[idx := pre @ post] ! j)"
        using chain_remove_at [OF assms(1,2) Cons.prems ob] .
      obtain s2 where s2: "chain_push idx a s1 = Some s2" "chains s2 (B[idx := a # pre @ post])" "same s1 s2"
        by (rule chain_push_update [OF s1(2) assms(2) s1(4,5)])
      have "map_get_loop q h idx (slot_at idx pre) s = Some (Some a, s2)"
        by (subst map_get_loop.simps) (simp only: rd bind.bind_lunit option.case ob hit True if_True f ne s1(1) s2(1) not_False_eq_True simp_thms)
      moreover have "set (B[idx := a # pre @ post] ! j) = set (B ! j)" if "j < length B" for j
        using that Cons.prems by (cases "j = idx") auto
      ultimately show ?thesis
        using s2(2) same_trans [OF s1(3) s2(3)] True
        by (intro exI [of _ "Some a"] exI [of _ s2] exI [of _ "B[idx := a # pre @ post]"]) simp
    qed
  qed
qed

lemma map_inv_reorder:
  assumes "map_inv s B" "chains s' B'" "same s s'" "length B' = length B" "\<forall>j < length B. set (B' ! j) = set (B ! j)"
  shows "map_inv s' B'" "addrs B' = addrs B"
proof -
  show "addrs B' = addrs B" using assms(4,5) by (simp add: addrs_def)
  then show "map_inv s' B'" using assms same_hval [OF assms(3)] by (auto simp: map_inv_def same_def)
qed

lemma map_get_eq:
  assumes "map_inv s B" "\<forall>a \<in> addrs B. \<exists>c. content s a = Some c \<and> entry_wf c"
  obtains r s' B' where "map_get q h s = Some (r, s')" "map_inv s' B'" "same s s'" "addrs B' = addrs B"
    "finds s q h (addrs B) r"
proof (cases "B = []")
  case True
  then show ?thesis using assms(1) by (intro that [of None s B]) (auto simp: map_get_def map_inv_def chains_def)
next
  case False
  have c: "chains s B" and len: "length B = length (buckets s)" using assms(1) by (simp_all add: map_inv_def chains_def)
  obtain k where k: "length (buckets s) = 2 ^ k" using assms(1) False len by (auto simp: map_inv_def)
  let ?i = "calc_idx s h"
  have i: "?i = unat h mod length B" "?i < length B" using calc_idx_mod [OF k, of h] len k by simp_all
  obtain r s' B' where r: "map_get_loop q h ?i (slot_at ?i []) s = Some (r, s')" "chains s' B'" "same s s'" "length B' = length B"
    "\<forall>j < length B. set (B' ! j) = set (B ! j)"
    "finds s q h (set (B ! ?i)) r"
    using map_get_loop_eq [OF c i(2) _ assms(2), of "[]" "B ! ?i" q h] by auto
  have away: "a \<in> set (B ! ?i)" if a: "a \<in> addrs B" "matches s q h a" for a
  proof -
    obtain j where j: "j < length B" "a \<in> set (B ! j)" using a(1) by (auto simp: addrs_def)
    then have "hval s a mod length B = j" using assms(1) by (simp add: map_inv_def)
    moreover have "hval s a = unat h" using a(2) by (auto simp: matches_def hval_def)
    ultimately show ?thesis using i(1) j(2) by simp
  qed
  have "map_get q h s = Some (r, s')" using r(1) False len by (auto simp: map_get_def Let_def)
  moreover have "finds s q h (addrs B) r"
    using r(6) by (rule finds_mono) (use away i(2) in \<open>auto simp: addrs_def\<close>)
  ultimately show ?thesis using that map_inv_reorder [OF assms(1) r(2-5)] r(3) by blast
qed

section \<open>Removal\<close>

lemma map_del_loop_walk:
  assumes "chains s B" "idx < length B" "B ! idx = pre @ ys @ a # post" "objs s a = Some ob"
  shows "map_del_loop a (slot_at idx pre) s = do {
     s \<leftarrow> wr_slot (slot_at idx (pre @ ys)) (c_chain ob) s;
     _ \<leftarrow> c_assert (0 < nitems s);
     Some (s\<lparr>nitems := nitems s - 1\<rparr>) }"
  using assms(3)
proof (induction ys arbitrary: pre)
  case Nil
  then have "rd_slot s (slot_at idx pre) = Some (Some a)" using rd_slot_at [OF assms(1,2)] by simp
  then show ?case by (subst map_del_loop.simps) (simp add: assms(4))
next
  case (Cons y ys)
  then have rd: "rd_slot s (slot_at idx pre) = Some (Some y)" using rd_slot_at [OF assms(1,2)] by simp
  have d: "distinct (B ! idx)" by (rule chainsD(2) [OF assms(1,2)])
  then have "y \<noteq> a" using Cons.prems by simp
  have "chain (objs s) (buckets s ! idx) (pre @ y # ys @ a # post)" using chainsD(1) [OF assms(1,2)] Cons.prems by simp
  then obtain oy where "objs s y = Some oy" by (rule chain_upto)
  then have "map_del_loop a (slot_at idx pre) s = map_del_loop a (slot_at idx (pre @ [y])) s"
    using rd \<open>y \<noteq> a\<close> by (subst map_del_loop.simps) simp
  then show ?case using Cons.IH [of "pre @ [y]"] Cons.prems by simp
qed

lemma map_del_eq:
  assumes "map_inv s B" "a \<in> addrs B"
  obtains s' B' where "map_del a s = Some s'" "map_inv s' B'" "addrs B' = addrs B - {a}"
    "content s' = content s" "lru s' = lru s" "brk s' = brk s"
proof -
  have c: "chains s B" and len: "length B = length (buckets s)" using assms(1) by (simp_all add: map_inv_def chains_def)
  have "B \<noteq> []" using assms(2) by auto
  then obtain k where k: "length (buckets s) = 2 ^ k" using assms(1) len by (auto simp: map_inv_def)
  obtain i where i: "i < length B" "a \<in> set (B ! i)" using assms(2) by (auto simp: addrs_def)
  obtain ob where ob: "objs s a = Some ob" using chains_content [OF c assms(2)] by blast
  have "calc_idx s (c_hashv ob) = hval s a mod length B" using calc_idx_mod [OF k] ob len by (simp add: hval_def content_def)
  then have idx: "calc_idx s (c_hashv ob) = i" using assms(1) i by (simp add: map_inv_def)
  obtain pre post where sp: "B ! i = pre @ a # post" using i(2) by (auto dest: split_list)
  obtain s1 where s1: "wr_slot (slot_at i pre) (c_chain ob) s = Some s1" "chains s1 (B[i := pre @ post])" "same s s1"
    by (rule chain_remove_at [OF c i(1) sp ob])
  let ?B = "B[i := pre @ post]" let ?s = "s1\<lparr>nitems := nitems s1 - 1\<rparr>"
  have dj: "a \<notin> set (B ! j)" if "j < length B" "j \<noteq> i" for j using chainsD(4) [OF c i(1) that(1)] that(2) i(2) by auto
  have ad: "addrs ?B = addrs B - {a}"
    using chainsD(2) [OF c i(1)] dj unfolding addrs_update [OF i(1)] addrs_split [OF i(1)] sp by auto
  have n: "nitems s1 = card (addrs B)" using s1(3) assms(1) by (simp add: same_def map_inv_def)
  then have "0 < nitems s1" using assms(2) card_gt_0_iff by fastforce
  then have "map_del_loop a (Bucket i) s = Some ?s"
    using map_del_loop_walk [OF c i(1), of "[]" pre a post ob] sp ob s1(1) by simp
  then have "map_del a s = Some ?s" using \<open>B \<noteq> []\<close> len ob idx by (auto simp: map_del_def)
  moreover have "map_inv ?s ?B"
  proof -
    have "chains ?s ?B" using s1(2) by (simp add: chains_def)
    moreover have "hval ?s = hval s" using same_hval [OF s1(3)] by (simp add: hval_def content_def fun_eq_iff)
    moreover have "set (?B ! j) \<subseteq> set (B ! j)" if "j < length B" for j using that sp by (cases "j = i") auto
    moreover have "nitems ?s = card (addrs ?B)" using n ad assms(2) by (simp add: card_Diff_singleton)
    ultimately show ?thesis using assms(1) by (auto simp: map_inv_def)
  qed
  ultimately show ?thesis using ad s1(3) by (intro that [of ?s ?B]) (simp_all add: same_def content_def fun_eq_iff)
qed

section \<open>Resizing\<close>

lemma index_double:
  fixes h :: nat
  assumes "h mod n = i" "0 < n"
  shows "h mod (2 * n) = i \<or> h mod (2 * n) = i + n"
proof -
  let ?x = "h mod (2 * n)"
  have m: "?x mod n = i" using assms(1) mod_mod_cancel [of n "2 * n" h] by simp
  have x: "?x < 2 * n" using assms(2) by simp
  show ?thesis
  proof (cases "?x < n")
    case True
    then show ?thesis using m by simp
  next
    case False
    then have "?x mod n = ?x - n" using x by (simp add: le_mod_geq)
    then show ?thesis using m False by simp
  qed
qed

lemma rehash_chain_loop_eq:
  assumes "length B = 2 * n" "n = 2 ^ k" "idx < n" "chains s B" "B ! idx = pre @ post" "\<forall>a \<in> set post. hval s a mod n = idx"
  shows "\<exists>s'. rehash_chain_loop n idx (slot_at idx pre) s = Some s' \<and> same s s'
    \<and> chains s' (B[idx := pre @ filter (\<lambda>a. hval s a mod (2 * n) = idx) post,
                   idx + n := rev (filter (\<lambda>a. hval s a mod (2 * n) \<noteq> idx) post) @ B ! (idx + n)])"
  using assms
proof (induction post arbitrary: pre s B)
  case Nil
  have i: "idx < length B" using Nil.prems by simp
  have "rd_slot s (slot_at idx pre) = Some None" using rd_slot_at [OF Nil.prems(4) i Nil.prems(5)] by simp
  then have "rehash_chain_loop n idx (slot_at idx pre) s = Some s" by (subst rehash_chain_loop.simps) simp
  moreover have "pre = B ! idx" using Nil.prems(5) by simp
  then have "B[idx := pre @ [], idx + n := [] @ B ! (idx + n)] = B" by simp
  ultimately show ?case using Nil.prems(4) by simp
next
  case (Cons a post)
  have i: "idx < length B" and i': "idx + n < length B" using Cons.prems by simp_all
  have len: "length (buckets s) = 2 ^ Suc k" using Cons.prems(1,2,4) by (simp add: chains_def)
  have rd: "rd_slot s (slot_at idx pre) = Some (Some a)" using rd_slot_at [OF Cons.prems(4) i Cons.prems(5)] by simp
  have "a \<in> addrs B" using i Cons.prems(5) addrs_split [OF i] by simp
  then obtain ob where ob: "objs s a = Some ob" using chains_content [OF Cons.prems(4)] by blast
  have idx: "calc_idx s (c_hashv ob) = hval s a mod (2 * n)"
    using calc_idx_mod [OF len] ob len Cons.prems(2) by (simp add: hval_def content_def)
  show ?case
  proof (cases "hval s a mod (2 * n) = idx")
    case True
    have "rehash_chain_loop n idx (slot_at idx pre) s = rehash_chain_loop n idx (slot_at idx (pre @ [a])) s"
      using rd ob idx True by (subst rehash_chain_loop.simps) simp
    then show ?thesis using Cons.IH [of B s "pre @ [a]"] Cons.prems True by simp
  next
    case False
    then have new: "hval s a mod (2 * n) = idx + n" using index_double [of "hval s a" n idx] Cons.prems(2,6) by auto
    obtain s1 where s1: "wr_slot (slot_at idx pre) (c_chain ob) s = Some s1" "chains s1 (B[idx := pre @ post])" "same s s1"
      "objs s1 a = Some ob" "\<forall>j < length B. a \<notin> set (B[idx := pre @ post] ! j)"
      by (rule chain_remove_at [OF Cons.prems(4) i Cons.prems(5) ob])
    let ?B1 = "B[idx := pre @ post]"
    have "idx + n < length ?B1" "\<forall>j < length ?B1. a \<notin> set (?B1 ! j)" using i' s1(5) by simp_all
    from chain_push_at [OF s1(2) this(1) s1(4) this(2)] obtain s2 where
      s2: "chain_push (idx + n) a s1 = Some s2" "chains s2 (?B1[idx + n := a # ?B1 ! (idx + n)])" "same s1 s2" by blast
    have ne: "idx \<noteq> idx + n" using Cons.prems(2) by simp
    let ?B2 = "B[idx := pre @ post, idx + n := a # B ! (idx + n)]"
    have b2: "chains s2 ?B2" using s2(2) ne by simp
    have sm: "same s s2" using s1(3) s2(3) by (rule same_trans)
    have "rehash_chain_loop n idx (slot_at idx pre) s = rehash_chain_loop n idx (slot_at idx pre) s2"
      using rd ob idx new ne s1(1) s2(1) by (subst rehash_chain_loop.simps) simp
    moreover have "\<exists>s'. rehash_chain_loop n idx (slot_at idx pre) s2 = Some s' \<and> same s2 s'
      \<and> chains s' (?B2[idx := pre @ filter (\<lambda>a. hval s2 a mod (2 * n) = idx) post,
                   idx + n := rev (filter (\<lambda>a. hval s2 a mod (2 * n) \<noteq> idx) post) @ ?B2 ! (idx + n)])"
      by (rule Cons.IH) (use Cons.prems b2 ne i same_hval [OF sm] in auto)
    moreover have "?B2[idx := xs, idx + n := ys] = B[idx := xs, idx + n := ys]" for xs ys
      using ne by (simp add: list_update_swap)
    ultimately show ?thesis using same_hval [OF sm] same_trans [OF sm] False i i' ne by auto
  qed
qed

text \<open>Between the two parts of the buckets, when the first \<open>i\<close> have been redistributed.\<close>

definition rehashed :: "nat \<Rightarrow> nat \<Rightarrow> cache_state \<Rightarrow> nat list list \<Rightarrow> bool" where
  "rehashed n i s B \<longleftrightarrow> length B = 2 * n \<and> chains s B
     \<and> (\<forall>j < i. (\<forall>a \<in> set (B ! j). hval s a mod (2 * n) = j) \<and> (\<forall>a \<in> set (B ! (j + n)). hval s a mod (2 * n) = j + n))
     \<and> (\<forall>j < n. i \<le> j \<longrightarrow> (\<forall>a \<in> set (B ! j). hval s a mod n = j) \<and> B ! (j + n) = [])"

lemma rehashed_step:
  assumes "rehashed n i s B" "n = 2 ^ k" "i < n"
  shows "\<exists>s' B'. rehash_chain_loop n i (Bucket i) s = Some s' \<and> same s s' \<and> rehashed n (i + 1) s' B' \<and> addrs B' = addrs B"
proof -
  have B: "length B = 2 * n" "chains s B" "\<forall>a \<in> set (B ! i). hval s a mod n = i" "B ! (i + n) = []"
    using assms(1,3) by (simp_all add: rehashed_def)
  have i: "i < length B" "i + n < length B" "i \<noteq> i + n" using B(1) assms(3) by simp_all
  let ?b1 = "filter (\<lambda>a. hval s a mod (2 * n) = i) (B ! i)" and ?b2 = "rev (filter (\<lambda>a. hval s a mod (2 * n) \<noteq> i) (B ! i))"
  let ?B = "B[i := ?b1, i + n := ?b2]"
  obtain s' where s': "rehash_chain_loop n i (Bucket i) s = Some s'" "same s s'" "chains s' ?B"
    using rehash_chain_loop_eq [OF B(1) assms(2,3) B(2), of "[]" "B ! i"] B(3,4) by auto
  have h: "hval s' = hval s" by (rule same_hval [OF s'(2)])
  have low: "?B ! i = ?b1" "?B ! (i + n) = ?b2" and keep: "\<And>j. j \<noteq> i \<Longrightarrow> j \<noteq> i + n \<Longrightarrow> ?B ! j = B ! j" using i by simp_all
  have "rehashed n (i + 1) s' ?B"
    unfolding rehashed_def h
  proof (intro conjI allI impI)
    show "length ?B = 2 * n" "chains s' ?B" using B(1) s'(3) by simp_all
    fix j
    { assume "j < i + 1"
      then have j: "j < i \<or> j = i" by auto
      have moved: "\<forall>a \<in> set ?b2. hval s a mod (2 * n) = i + n"
        using index_double [of _ n i] B(3) assms(3) by fastforce
      have old: "(\<forall>a \<in> set (B ! j). hval s a mod (2 * n) = j) \<and> (\<forall>a \<in> set (B ! (j + n)). hval s a mod (2 * n) = j + n)" if "j < i"
        using assms(1) that unfolding rehashed_def by simp
      have new: "?B ! j = (if j = i then ?b1 else B ! j)" "?B ! (j + n) = (if j = i then ?b2 else B ! (j + n))"
        using j low keep [of j] keep [of "j + n"] assms(3) by auto
      show "\<forall>a \<in> set (?B ! j). hval s a mod (2 * n) = j" unfolding new(1) using j old by (cases "j = i") simp_all
      show "\<forall>a \<in> set (?B ! (j + n)). hval s a mod (2 * n) = j + n"
      proof (cases "j = i")
        case True
        show ?thesis unfolding new(2) unfolding True if_P [OF refl] by (rule moved)
      next
        case False
        then have "j < i" using j by simp
        from old [OF this] show ?thesis unfolding new(2) if_not_P [OF False] by (rule conjunct2)
      qed }
    assume "j < n" "i + 1 \<le> j"
    then have "?B ! j = B ! j" "?B ! (j + n) = B ! (j + n)" using keep [of j] keep [of "j + n"] assms(3) by simp_all
    moreover have "(\<forall>a \<in> set (B ! j). hval s a mod n = j) \<and> B ! (j + n) = []"
      using assms(1) \<open>j < n\<close> \<open>i + 1 \<le> j\<close> unfolding rehashed_def by simp
    ultimately show "\<forall>a \<in> set (?B ! j). hval s a mod n = j" "?B ! (j + n) = []" by simp_all
  qed
  moreover have "addrs ?B = addrs B"
  proof -
    have "addrs ?B = set ?b2 \<union> (\<Union>j \<in> {..< length B} - {i + n}. set (B[i := ?b1] ! j))"
      using addrs_update [of "i + n" "B[i := ?b1]" ?b2] i by simp
    also have "\<dots> = set ?b2 \<union> set ?b1 \<union> (\<Union>j \<in> {..< length B} - {i + n} - {i}. set (B ! j))"
    proof -
      have d: "{..< length B} - {i + n} = insert i ({..< length B} - {i + n} - {i})" using i by auto
      have "(\<Union>j \<in> {..< length B} - {i + n} - {i}. set (B[i := ?b1] ! j)) = (\<Union>j \<in> {..< length B} - {i + n} - {i}. set (B ! j))"
        by (rule SUP_cong) simp_all
      moreover have "(\<Union>j \<in> {..< length B} - {i + n}. set (B[i := ?b1] ! j))
          = set (B[i := ?b1] ! i) \<union> (\<Union>j \<in> {..< length B} - {i + n} - {i}. set (B[i := ?b1] ! j))"
        by (rule trans [OF arg_cong [where f = "\<lambda>S. \<Union>j \<in> S. set (B[i := ?b1] ! j)", OF d]]) (rule UN_insert)
      ultimately show ?thesis using i(1) by (simp add: Un_assoc)
    qed
    also have "\<dots> = set (B ! i) \<union> (\<Union>j \<in> {..< length B} - {i}. set (B ! j))"
    proof -
      have "set ?b2 \<union> set ?b1 = set (B ! i)" by auto
      moreover have "{..< length B} - {i} = insert (i + n) ({..< length B} - {i + n} - {i})" using i by auto
      ultimately show ?thesis by (simp add: B(4))
    qed
    finally show ?thesis using addrs_split [OF i(1)] by simp
  qed
  ultimately show ?thesis using s'(1,2) by blast
qed

lemma rehash_loop_eq:
  assumes "rehashed n i s B" "n = 2 ^ k" "i + m = n"
  shows "\<exists>s' B'. rehash_loop n i m s = Some s' \<and> same s s' \<and> rehashed n n s' B' \<and> addrs B' = addrs B"
  using assms(1,3)
proof (induction m arbitrary: i s B)
  case 0
  then show ?case by auto
next
  case (Suc m)
  then obtain s1 B1 where s1: "rehash_chain_loop n i (Bucket i) s = Some s1" "same s s1" "rehashed n (i + 1) s1 B1" "addrs B1 = addrs B"
    using rehashed_step [OF Suc.prems(1) assms(2)] by auto
  from Suc.IH [OF s1(3)] Suc.prems(2) obtain s2 B2 where "rehash_loop n (i + 1) m s1 = Some s2" "same s1 s2" "rehashed n n s2 B2"
    "addrs B2 = addrs B1" by auto
  then show ?case using s1 same_trans [OF s1(2)] by auto
qed

lemma try_resize_eq:
  assumes "map_inv s B"
  obtains s' B' where "try_resize s = Some s'" "map_inv s' B'" "addrs B' = addrs B" "B' \<noteq> []"
    "content s' = content s" "lru s' = lru s" "brk s' = brk s"
proof (cases "nitems s < length (buckets s) * load_factor div 100")
  case True
  then have "B \<noteq> []" using assms by (auto simp: map_inv_def chains_def)
  then show ?thesis using True assms by (intro that [of s B]) (simp_all add: try_resize_def)
next
  case full: False
  have c: "chains s B" and len: "length B = length (buckets s)" and ni: "nitems s = card (addrs B)" using assms by (simp_all add: map_inv_def chains_def)
  show ?thesis
  proof (cases "B = []")
    case True
    let ?s = "s\<lparr>buckets := replicate 16 None\<rparr>"
    have "try_resize s = Some ?s" using full True len by (simp add: try_resize_def Let_def)
    moreover have "map_inv ?s (replicate 16 [])"
      using ni True by (auto simp: map_inv_def chains_def addrs_def intro!: exI [of _ 4])
    ultimately show ?thesis using True by (intro that [of ?s "replicate 16 []"]) (simp_all add: addrs_def content_def fun_eq_iff)
  next
    case False
    then obtain k where k: "4 \<le> k" "length B = 2 ^ k" using assms by (auto simp: map_inv_def)
    let ?n = "length B"
    have "(2 :: nat) ^ 4 \<le> 2 ^ k" using k(1) by (rule power_increasing) simp
    then have n: "max (2 * ?n) 16 = 2 * ?n" using k(2) by simp
    let ?s = "s\<lparr>buckets := buckets s @ replicate ?n None\<rparr>" and ?B = "B @ replicate ?n []"
    have h: "hval ?s = hval s" by (simp add: hval_def content_def fun_eq_iff)
    have "chains ?s ?B" using c by (auto simp: chains_def nth_append)
    then have "rehashed ?n 0 ?s ?B" using assms unfolding h rehashed_def by (auto simp: map_inv_def nth_append h)
    then obtain s' B' where s': "rehash_loop ?n 0 ?n ?s = Some s'" "same ?s s'" "rehashed ?n ?n s' B'" "addrs B' = addrs ?B"
      using rehash_loop_eq [of ?n 0 ?s ?B k ?n] k(2) by auto
    have "try_resize s = Some s'" using full s'(1) n len by (simp add: try_resize_def Let_def)
    moreover have ad: "addrs B' = addrs B" using s'(4) by (auto simp: addrs_def nth_append split: if_splits)
    moreover have "map_inv s' B'"
    proof -
      have "\<forall>a \<in> set (B' ! i). hval s' a mod length B' = i" if "i < length B'" for i
        using that s'(3) by (cases "i < ?n") (auto simp: rehashed_def dest: spec [of _ "i - ?n"])
      moreover have "length B' = 2 ^ Suc k" using s'(3) k(2) by (simp add: rehashed_def)
      ultimately show ?thesis
        using s'(2,3) ad ni k(1) by (auto simp: map_inv_def rehashed_def same_def intro!: exI [of _ "Suc k"])
    qed
    moreover have "B' \<noteq> []" using s'(3) False by (auto simp: rehashed_def)
    ultimately show ?thesis using s'(2) by (intro that [of s' B']) (simp_all add: same_def content_def fun_eq_iff)
  qed
qed

section \<open>Insertion\<close>

lemma map_add_eq:
  assumes "map_inv s B" "a \<notin> addrs B" "content s a = Some c"
  obtains s' B' where "map_add a s = Some s'" "map_inv s' B'" "addrs B' = insert a (addrs B)"
    "content s' = content s" "lru s' = lru s" "brk s' = brk s"
proof -
  obtain s1 B1 where s1: "try_resize s = Some s1" "map_inv s1 B1" "addrs B1 = addrs B" "B1 \<noteq> []"
    "content s1 = content s" "lru s1 = lru s" "brk s1 = brk s" by (rule try_resize_eq [OF assms(1)])
  have ch: "chains s1 B1" and len: "length B1 = length (buckets s1)" using s1(2) by (simp_all add: map_inv_def chains_def)
  obtain k where k: "length (buckets s1) = 2 ^ k" using s1(2,4) len by (auto simp: map_inv_def)
  have "content s1 a = Some c" using assms(3) s1(5) by simp
  then obtain ob where ob: "objs s1 a = Some ob" "c = cache_msg.truncate ob" by (auto simp: content_Some)
  let ?i = "calc_idx s1 (c_hashv ob)"
  have i: "?i = hval s1 a mod length B1" "?i < length B1" using calc_idx_mod [OF k] ob len k by (simp_all add: hval_def content_def)
  have out: "\<forall>j < length B1. a \<notin> set (B1 ! j)" using assms(2) s1(3) by (auto simp: addrs_def)
  obtain s2 where s2: "chain_push ?i a s1 = Some s2" "chains s2 (B1[?i := a # B1 ! ?i])" "same s1 s2"
    by (rule chain_push_at [OF ch i(2) ob(1) out])
  let ?s = "s2\<lparr>nitems := nitems s2 + 1\<rparr>" and ?B = "B1[?i := a # B1 ! ?i]"
  have ad: "addrs ?B = insert a (addrs B1)" unfolding addrs_update [OF i(2)] addrs_split [OF i(2)] by simp
  have "map_inv ?s ?B"
  proof -
    have "chains ?s ?B" using s2(2) by (simp add: chains_def)
    moreover have "hval ?s = hval s1" using same_hval [OF s2(3)] by (simp add: hval_def content_def fun_eq_iff)
    moreover have "nitems ?s = card (addrs ?B)" using s2(3) s1(2,3) assms(2) ad by (simp add: same_def map_inv_def)
    moreover have "\<forall>b \<in> set (?B ! j). hval s1 b mod length B1 = j" if "j < length B1" for j
      using that s1(2) i by (cases "j = ?i") (auto simp: map_inv_def)
    ultimately show ?thesis using s1(2,4) by (auto simp: map_inv_def)
  qed
  moreover have "map_add a s = Some ?s" using s1(1) ob(1) s2(1) by (simp add: map_add_def)
  ultimately show ?thesis
    using ad s1 s2(3) by (intro that [of ?s ?B]) (simp_all add: same_def content_def fun_eq_iff)
qed

end
