(* ===== verification/Cache_Ignore.thy ===== *)
theory Cache_Ignore
  imports Dns_Name
begin

text \<open>
  The domains whose replies are not cached (\<^verbatim>\<open>src/cache_ignore.zig\<close>): a set of names in wire
  format, which the hash map of the Zig library represents and a list does here, and the levels
  that occur, which are the only ones of a question that are looked up.
\<close>

record ignore =
  i_domains :: "bytes list"
  i_levels :: u8

definition ignore_initial :: ignore where
  "ignore_initial = \<lparr>i_domains = [], i_levels = 0\<rparr>"

definition MAX_LEVEL :: nat where "MAX_LEVEL = 8"

text \<open>\<open>buf\<close> is the content of the local buffer; the result is \<open>False\<close> for an invalid domain.\<close>

definition ignore_add :: "bytes \<Rightarrow> bytes \<Rightarrow> ignore \<Rightarrow> (bool \<times> ignore) option" where
  "ignore_add buf ascii_domain ig = do {
     r \<leftarrow> dns_ascii_to_wire ascii_domain (length ascii_domain) buf;
     case r of
       None \<Rightarrow> Some (False, ig)
     | Some (n, buf, level) \<Rightarrow>
         if unat level > MAX_LEVEL then Some (False, ig)
         else let domain = take (n - 1) buf in
           if List.member (i_domains ig) domain then Some (True, ig)
           else do {
             _ \<leftarrow> c_assert (1 \<le> level);
             Some (True, ig\<lparr>i_domains := domain # i_domains ig, i_levels := or (i_levels ig) (push_bit (unat level - 1) 1)\<rparr>) } }"

text \<open>The pointers of the suffixes and their common end.\<close>

fun ignored_loop :: "bytes list \<Rightarrow> bytes \<Rightarrow> nat option \<Rightarrow> nat list \<Rightarrow> bool option" where
  "ignored_loop domains rmsg domain_end [] = Some False"
| "ignored_loop domains rmsg domain_end (p # ps) = do {
     e \<leftarrow> domain_end;
     domain \<leftarrow> slice_at rmsg p (e - p);
     if List.member domains domain then Some True else ignored_loop domains rmsg domain_end ps }"

definition is_ignored :: "ignore \<Rightarrow> bytes \<Rightarrow> nat \<Rightarrow> bool option" where
  "is_ignored ig rmsg qnamelen =
     (if i_domains ig = [] then Some False
      else do {
        (n, domains, domain_end) \<leftarrow> dns_qname_domains rmsg qnamelen (i_levels ig);
        if n < 0 then Some True
        else ignored_loop (i_domains ig) rmsg domain_end (take (nat n) domains) })"

section \<open>What is ignored\<close>

text \<open>The set of domains, as lists of labels, that the state stands for.\<close>

definition ignore_inv :: "ignore \<Rightarrow> bytes list set \<Rightarrow> bool" where
  "ignore_inv ig D \<longleftrightarrow> set (i_domains ig) = wire_labels ` D
     \<and> (\<forall>d \<in> D. list_all label_ok d \<and> 1 \<le> length d \<and> length d \<le> 8)
     \<and> (\<forall>k < 8. bit (i_levels ig) k \<longleftrightarrow> (\<exists>d \<in> D. length d = k + 1))"

lemma ignore_inv_initial: "ignore_inv ignore_initial {}"
  by (simp add: ignore_inv_def ignore_initial_def)

lemma wire_labels_inj: "list_all label_ok xs \<Longrightarrow> list_all label_ok ys \<Longrightarrow> wire_labels xs = wire_labels ys \<Longrightarrow> xs = ys"
  using parse_wire_labels by (metis option.inject)

lemma length_split_dots: "length (split_dots a) \<le> length a + 1"
proof -
  have "length ls \<le> length (wire_labels ls)" for ls :: "bytes list"
    by (induction ls) (simp_all add: wire_labels_def wire_label_def)
  then show ?thesis using length_wire_split_dots [of a] by metis
qed

lemma ignore_add_eq:
  assumes "length a < 2 ^ 31" "length buf = DNS_NAME_WIRE_MAXLEN" "ignore_inv ig D"
  shows "\<exists>ig'. ignore_add buf a ig = Some (list_all label_ok (split_dots a) \<and> length a + 2 \<le> DNS_NAME_WIRE_MAXLEN \<and> length (split_dots a) \<le> 8, ig')
    \<and> ignore_inv ig' (if list_all label_ok (split_dots a) \<and> length a + 2 \<le> DNS_NAME_WIRE_MAXLEN \<and> length (split_dots a) \<le> 8
        then insert (split_dots a) D else D)"
proof -
  let ?ls = "split_dots a"
  note conv = dns_ascii_to_wire_eq [OF assms(1,2)]
  show ?thesis
  proof (cases "list_all label_ok ?ls \<and> length a + 2 \<le> DNS_NAME_WIRE_MAXLEN")
    case False
    then show ?thesis using conv assms(3) by (auto simp: ignore_add_def)
  next
    case ok: True
    let ?n = "length ?ls"
    have n: "?n < 256" "1 \<le> ?n" using length_split_dots [of a] ok split_dots_nonempty [of a] by (simp_all add: dns_sizes Suc_leI)
    then have lv: "unat (word_of_nat ?n :: u8) = ?n" "(1 :: u8) \<le> word_of_nat ?n" by (simp_all add: unat_of_nat word_le_nat_alt)
    have dom: "take (length a + 2 - 1) (wire_labels ?ls @ 0 # drop (length a + 2) buf) = wire_labels ?ls"
      using length_wire_split_dots [of a] by simp
    show ?thesis
    proof (cases "?n \<le> 8")
      case False
      then show ?thesis using conv ok assms(3) lv by (auto simp: ignore_add_def MAX_LEVEL_def)
    next
      case le: True
      have known: "List.member (i_domains ig) (wire_labels ?ls) \<longleftrightarrow> ?ls \<in> D"
        using assms(3) ok wire_labels_inj by (auto simp: ignore_inv_def)
      show ?thesis
      proof (cases "?ls \<in> D")
        case True
        then show ?thesis
          using conv ok assms(3) lv le known dom by (auto simp: ignore_add_def MAX_LEVEL_def Let_def insert_absorb)
      next
        case False
        let ?ig = "ig\<lparr>i_domains := wire_labels ?ls # i_domains ig, i_levels := or (i_levels ig) (push_bit (?n - 1) 1)\<rparr>"
        have "ignore_add buf a ig = Some (True, ?ig)"
          using conv ok lv le known dom False by (simp add: ignore_add_def MAX_LEVEL_def Let_def)
        moreover have "bit (i_levels ?ig) k \<longleftrightarrow> (\<exists>d \<in> insert ?ls D. length d = k + 1)" if "k < 8" for k
        proof -
          have "bit (push_bit (?n - 1) 1 :: u8) k \<longleftrightarrow> k = ?n - 1" using that by (auto simp: bit_exp_iff)
          then have "bit (i_levels ?ig) k \<longleftrightarrow> bit (i_levels ig) k \<or> k = ?n - 1" by (simp add: bit_or_iff)
          then show ?thesis using that assms(3) n by (auto simp: ignore_inv_def)
        qed
        then have "ignore_inv ?ig (insert ?ls D)"
          using assms(3) ok n le by (auto simp: ignore_inv_def)
        ultimately show ?thesis using ok le by auto
      qed
    qed
  qed
qed

text \<open>
  A question whose name is well formed is ignored exactly if it is at or below one of the
  domains, one whose name is malformed always (unless there are no domains at all).
\<close>

lemma ignored_loop_eq:
  assumes "\<forall>p \<in> set ps. p \<le> e" "e \<le> length m" "ps \<noteq> [] \<longrightarrow> de = Some e"
  shows "ignored_loop domains m de ps = Some (\<exists>p \<in> set ps. take (e - p) (drop p m) \<in> set domains)"
  using assms
proof (induction ps)
  case (Cons p ps)
  then have "slice_at m p (e - p) = Some (take (e - p) (drop p m))" by (simp add: slice_at_def)
  then show ?case using Cons by simp
qed simp

lemma interest_suffixes_iff:
  "x \<in> set (interest_suffixes i ls) \<longleftrightarrow> x \<noteq> [] \<and> length x \<le> 8 \<and> bit i (length x - 1) \<and> (\<exists>ys. ls = ys @ x)"
proof (induction ls)
  case (Cons l ls)
  have "(\<exists>ys. l # ls = ys @ x) \<longleftrightarrow> x = l # ls \<or> (\<exists>ys. ls = ys @ x)" by (metis append_Cons append_eq_Cons_conv self_append_conv2)
  then show ?case using Cons by auto
qed auto

lemma is_ignored_eq:
  assumes "ignore_inv ig D" "length hdr = HEADER_LEN" "0 \<notin> set w"
  shows "is_ignored ig (hdr @ w @ 0 # rest) (length w + 1) =
    Some (D \<noteq> {} \<and> (case parse_labels w of None \<Rightarrow> True | Some ls \<Rightarrow> \<exists>d \<in> D. \<exists>ys. ls = ys @ d))"
proof (cases "i_domains ig = []")
  case True
  then have "D = {}" using assms(1) by (auto simp: ignore_inv_def)
  then show ?thesis using True by (simp add: is_ignored_def)
next
  case False
  let ?m = "hdr @ w @ 0 # rest"
  have "D \<noteq> {}" using False assms(1) by (auto simp: ignore_inv_def)
  then obtain d0 where "d0 \<in> D" by blast
  then have "1 \<le> length d0" "length d0 \<le> 8" using assms(1) by (auto simp: ignore_inv_def)
  then have "length d0 - 1 < 8" "length d0 = length d0 - 1 + 1" by simp_all
  then have "bit (i_levels ig) (length d0 - 1)" using assms(1) \<open>d0 \<in> D\<close> unfolding ignore_inv_def by blast
  then have lv: "i_levels ig \<noteq> 0" by auto
  note q = dns_qname_domains_eq [OF assms(2,3) lv refl, of rest]
  show ?thesis
  proof (cases "parse_labels w")
    case None
    then show ?thesis using q False \<open>D \<noteq> {}\<close> by (simp add: is_ignored_def)
  next
    case (Some ls)
    obtain ds e where ds: "dns_qname_domains ?m (length w + 1) (i_levels ig) = Some (int (length ds), ds, e)"
      "e = (if ds = [] then None else Some (HEADER_LEN + length w))"
      "map (\<lambda>p. take (HEADER_LEN + length w - p) (drop p ?m)) ds = map wire_labels (interest_suffixes (i_levels ig) ls)"
      using q Some by auto
    let ?e = "HEADER_LEN + length w" and ?S = "interest_suffixes (i_levels ig) ls"
    have suf: "(\<lambda>p. take (?e - p) (drop p ?m)) ` set ds = wire_labels ` set ?S" using arg_cong [OF ds(3), of set] by simp
    have "p \<le> ?e" if "p \<in> set ds" for p
    proof -
      have "take (?e - p) (drop p ?m) \<in> (\<lambda>p. take (?e - p) (drop p ?m)) ` set ds" using that by (rule imageI)
      then obtain x where x: "x \<in> set ?S" "take (?e - p) (drop p ?m) = wire_labels x" unfolding suf by (auto elim: imageE)
      have "x \<noteq> []" using x(1) interest_suffixes_iff by blast
      then have "wire_labels x \<noteq> []" by (cases x) (simp_all add: wire_labels_def wire_label_def)
      then have "?e - p \<noteq> 0" unfolding x(2) [symmetric] by (metis take_0)
      then show ?thesis by simp
    qed
    then have below: "\<forall>p \<in> set ds. p \<le> ?e" by blast
    have "?e \<le> length ?m" "ds \<noteq> [] \<longrightarrow> e = Some ?e" using ds(2) assms(2) by simp_all
    from ignored_loop_eq [OF below this]
    have "ignored_loop (i_domains ig) ?m e ds = Some (\<exists>p \<in> set ds. take (?e - p) (drop p ?m) \<in> set (i_domains ig))" .
    also have "(\<exists>p \<in> set ds. take (?e - p) (drop p ?m) \<in> set (i_domains ig)) \<longleftrightarrow> (\<exists>x \<in> set ?S. wire_labels x \<in> wire_labels ` D)"
    proof -
      have "(\<exists>y \<in> (\<lambda>p. take (?e - p) (drop p ?m)) ` set ds. y \<in> set (i_domains ig)) \<longleftrightarrow> (\<exists>y \<in> wire_labels ` set ?S. y \<in> set (i_domains ig))"
        unfolding suf ..
      then show ?thesis using assms(1) by (simp add: ignore_inv_def)
    qed
    also have "\<dots> \<longleftrightarrow> (\<exists>d \<in> D. \<exists>ys. ls = ys @ d)"
    proof
      assume "\<exists>x \<in> set ?S. wire_labels x \<in> wire_labels ` D"
      then obtain x d where x: "x \<in> set ?S" "d \<in> D" "wire_labels x = wire_labels d" by blast
      then obtain ys where ys: "ls = ys @ x" by (auto simp: interest_suffixes_iff)
      have "list_all label_ok ls" using Some by (simp add: parse_labels_iff)
      then have "x = d" using ys x(2,3) assms(1) by (intro wire_labels_inj) (auto simp: ignore_inv_def)
      then show "\<exists>d \<in> D. \<exists>ys. ls = ys @ d" using x(2) ys by blast
    next
      assume "\<exists>d \<in> D. \<exists>ys. ls = ys @ d"
      then obtain d ys where d: "d \<in> D" "ls = ys @ d" by blast
      then have l: "1 \<le> length d" "length d \<le> 8" using assms(1) by (auto simp: ignore_inv_def)
      then have "length d - 1 < 8" "length d = length d - 1 + 1" by simp_all
      then have "bit (i_levels ig) (length d - 1)" using assms(1) d(1) unfolding ignore_inv_def by blast
      then have "d \<in> set ?S" using d(2) l by (auto simp: interest_suffixes_iff)
      then show "\<exists>x \<in> set ?S. wire_labels x \<in> wire_labels ` D" using d(1) by blast
    qed
    finally show ?thesis using False \<open>D \<noteq> {}\<close> Some ds(1) by (simp add: is_ignored_def)
  qed
qed

end
