(* ===== verification/Cache.thy ===== *)
theory Cache
  imports Cache_Index Cache_Ignore
begin

text \<open>
  The cache of replies (\<^verbatim>\<open>src/cache.zig\<close>): the hash map and the recency list over the same
  entries, and the operations on both. The configuration \<open>g\<close>, the clock \<open>now\<close> and whether the
  allocator can resize a block in place (\<open>resize\<close>, by the old and the new length of the reply)
  are arguments; the clock does not advance within a call. Freed entries are not reused: a new
  entry gets the next address.
\<close>

section \<open>Entries in memory\<close>

definition cache_initial :: "cache_state" where
  "cache_initial = \<lparr>buckets = [], nitems = 0, objs = (\<lambda>_. None),
     lru = node_init Sentinel \<lparr>n_prev = (\<lambda>_. None), n_next = (\<lambda>_. None)\<rparr>, brk = 0\<rparr>"

definition store_msg :: "nat \<Rightarrow> cache_msg \<Rightarrow> cache_state \<Rightarrow> cache_state" where
  "store_msg a c s = s\<lparr>objs := (objs s)(a \<mapsto> cache_msg.extend c \<lparr>c_chain = None\<rparr>)\<rparr>"

definition free_msg :: "nat \<Rightarrow> cache_state \<Rightarrow> cache_state" where
  "free_msg a s = s\<lparr>objs := (objs s)(a := None)\<rparr>"

definition msg_new :: "cache_conf \<Rightarrow> int \<Rightarrow> bytes \<Rightarrow> nat \<Rightarrow> int \<Rightarrow> u32 \<Rightarrow> cache_state \<Rightarrow> (nat \<times> cache_state) option" where
  "msg_new g now in_msg qnamelen ttl hashv s = do {
     c \<leftarrow> msg_init g now in_msg qnamelen ttl hashv;
     Some (brk s, store_msg (brk s) c (s\<lparr>brk := brk s + 1\<rparr>)) }"

definition msg_reuse :: "cache_conf \<Rightarrow> int \<Rightarrow> (nat \<Rightarrow> nat \<Rightarrow> bool) \<Rightarrow> nat \<Rightarrow> bytes \<Rightarrow> nat \<Rightarrow> int \<Rightarrow> u32 \<Rightarrow> cache_state
    \<Rightarrow> (nat \<times> cache_state) option" where
  "msg_reuse g now resize a in_msg qnamelen ttl hashv s = do {
     old \<leftarrow> objs s a;
     if resize (length (c_msg old)) (length in_msg) then do {
       c \<leftarrow> msg_init g now in_msg qnamelen ttl hashv;
       Some (a, store_msg a c s) }
     else msg_new g now in_msg qnamelen ttl hashv (free_msg a s) }"

definition del_nofree :: "nat \<Rightarrow> cache_state \<Rightarrow> cache_state option" where
  "del_nofree a s = do {
     s \<leftarrow> map_del a s;
     n \<leftarrow> unlink (Obj a) (lru s);
     Some (s\<lparr>lru := n\<rparr>) }"

section \<open>get\<close>

text \<open>The values stored through \<open>p_ttl\<close>, \<open>p_ttl_r\<close>, \<open>p_add_ip\<close> if there was an entry, and the reply.\<close>

definition cache_get :: "cache_conf \<Rightarrow> int \<Rightarrow> bytes \<Rightarrow> nat \<Rightarrow> cache_state
    \<Rightarrow> ((int \<times> int \<times> bool) option \<times> bytes option \<times> cache_state) option" where
  "cache_get g now qmsg qnamelen s =
     (if \<not> g_cache_size g > 0 then Some (None, None, s)
      else do {
        q \<leftarrow> dns_question qmsg qnamelen;
        let hashv = calc_hashv q;
        (r, s) \<leftarrow> map_get q hashv s;
        case r of
          None \<Rightarrow> Some (None, None, s)
        | Some a \<Rightarrow> do {
            ob \<leftarrow> objs s a;
            ob \<leftarrow> msg_update_ttl now ob;
            let ttl = sint (c_ttl ob);
            let outs = (ttl, sint (c_ttl_r ob), \<not> c_added_ip ob);
            let ob = (if \<not> c_added_ip ob then ob\<lparr>c_added_ip := True\<rparr> else ob);
            let s = s\<lparr>objs := (objs s)(a \<mapsto> ob)\<rparr>;
            ok \<leftarrow> ttl_ok g ttl;
            if ok then do {
              n \<leftarrow> move_to_head Sentinel (Obj a) (lru s);
              Some (Some outs, Some (c_msg ob), s\<lparr>lru := n\<rparr>) }
            else do {
              s \<leftarrow> del_nofree a s;
              Some (Some outs, None, free_msg a s) } } })"

section \<open>add\<close>

text \<open>
  The entry to be inserted: a duplicate is left alone if its TTL hardly differs, and otherwise
  its memory is used; when the cache is full, that of the least recently used entry.
\<close>

definition take_entry :: "cache_conf \<Rightarrow> int \<Rightarrow> (nat \<Rightarrow> nat \<Rightarrow> bool) \<Rightarrow> bytes \<Rightarrow> nat \<Rightarrow> int \<Rightarrow> bytes \<Rightarrow> u32 \<Rightarrow> cache_state
    \<Rightarrow> (nat option \<times> cache_state) option" where
  "take_entry g now resize msg qnamelen ttl q hashv s = do {
     (r, s) \<leftarrow> map_get q hashv s;
     case r of
       Some old \<Rightarrow> do {
         ob \<leftarrow> objs s old;
         old_ttl \<leftarrow> msg_get_ttl ob now;
         diff \<leftarrow> zig_i32 (ttl - old_ttl);
         if \<bar>sint diff\<bar> \<le> 2 then Some (None, s)
         else do {
           s \<leftarrow> del_nofree old s;
           (a, s) \<leftarrow> msg_reuse g now resize old msg qnamelen ttl hashv s;
           Some (Some a, s) } }
     | None \<Rightarrow>
         if nitems s < unat (g_cache_size g) then do {
           (a, s) \<leftarrow> msg_new g now msg qnamelen ttl hashv s;
           Some (Some a, s) }
         else do {
           t \<leftarrow> tail (lru s) Sentinel;
           case t of
             Sentinel \<Rightarrow> None
           | Obj old \<Rightarrow> do {
               s \<leftarrow> del_nofree old s;
               (a, s) \<leftarrow> msg_reuse g now resize old msg qnamelen ttl hashv s;
               Some (Some a, s) } } }"

text \<open>The result, the value stored through \<open>p_ttl\<close>, and the message, whose TTLs are clamped.\<close>

definition cache_add :: "cache_conf \<Rightarrow> int \<Rightarrow> (nat \<Rightarrow> nat \<Rightarrow> bool) \<Rightarrow> ignore \<Rightarrow> bytes \<Rightarrow> nat \<Rightarrow> cache_state
    \<Rightarrow> (bool \<times> int option \<times> bytes \<times> cache_state) option" where
  "cache_add g now resize ig msg qnamelen s =
     (if \<not> g_cache_size g > 0 then Some (False, None, msg, s)
      else do {
        good \<leftarrow> dns_is_good msg;
        if \<not> good then Some (False, None, msg, s)
        else do {
          ignored \<leftarrow> is_ignored ig msg qnamelen;
          if ignored then Some (False, None, msg, s)
          else do {
            (ttl, msg) \<leftarrow> dns_get_ttl msg (int (length msg)) qnamelen (g_cache_nodata_ttl g) (g_cache_min_ttl g) (g_cache_max_ttl g);
            if \<not> ttl > 0 then Some (False, None, msg, s)
            else do {
              q \<leftarrow> dns_question msg qnamelen;
              let hashv = calc_hashv q;
              (r, s) \<leftarrow> take_entry g now resize msg qnamelen ttl q hashv s;
              case r of
                None \<Rightarrow> Some (False, Some ttl, msg, s)
              | Some a \<Rightarrow> do {
                  s \<leftarrow> map_add a s;
                  n \<leftarrow> link_to_head Sentinel (Obj a) (lru s);
                  Some (True, Some ttl, msg, s\<lparr>lru := n\<rparr>) } } } } })"

section \<open>load and dump\<close>

text \<open>
  The loop over the file that is mapped into memory; \<open>None\<close> as the path or the file: nothing to
  load. The entry is made by \<open>new\<close>, which computes a refresh TTL from the TTL of the file; the one
  of the file then replaces it.
\<close>

function cache_load_loop :: "cache_conf \<Rightarrow> bool \<Rightarrow> bytes \<Rightarrow> cache_state \<Rightarrow> cache_state option" where
  "cache_load_loop g be data s =
     (case load be data of
        None \<Rightarrow> Some s
      | Some (c, rest) \<Rightarrow> do {
          let a = brk s;
          _ \<leftarrow> zig_i32 (sint (c_ttl c) * int (unat (g_cache_refresh g)));
          s \<leftarrow> map_add a (store_msg a c (s\<lparr>brk := brk s + 1\<rparr>));
          n \<leftarrow> link_to_tail Sentinel (Obj a) (lru s);
          let s = s\<lparr>lru := n\<rparr>;
          if nitems s \<ge> unat (g_cache_size g) then Some s else cache_load_loop g be rest s })"
  by pat_completeness auto
termination
  by (relation "measure (\<lambda>(g, be, data, s). length data)") (auto dest: load_shorter)

declare cache_load_loop.simps [simp del]

definition cache_load :: "cache_conf \<Rightarrow> bool \<Rightarrow> bytes option \<Rightarrow> cache_state \<Rightarrow> cache_state option" where
  "cache_load g be file s = do {
     _ \<leftarrow> c_assert (g_cache_size g > 0);
     case file of None \<Rightarrow> Some s | Some mem \<Rightarrow> cache_load_loop g be mem s }"

text \<open>What is written to the file, from the node the iterator stands at.\<close>

partial_function (option) cache_dump_loop :: "cache_conf \<Rightarrow> bool \<Rightarrow> u8 \<Rightarrow> int \<Rightarrow> cache_state \<Rightarrow> nref \<Rightarrow> bytes \<Rightarrow> bytes option" where
  "cache_dump_loop g be pad now s it out = do {
     (r, it) \<leftarrow> it_next (lru s) Sentinel it;
     case r of
       None \<Rightarrow> Some out
     | Some node \<Rightarrow> (case node of
           Sentinel \<Rightarrow> None
         | Obj a \<Rightarrow> do {
             ob \<leftarrow> objs s a;
             ttl \<leftarrow> msg_get_ttl ob now;
             ok \<leftarrow> ttl_ok g ttl;
             if \<not> ok then cache_dump_loop g be pad now s it out
             else cache_dump_loop g be pad now s it (out @ dump be pad (cache_msg.truncate ob)) }) }"

definition cache_dump :: "cache_conf \<Rightarrow> bool \<Rightarrow> u8 \<Rightarrow> int \<Rightarrow> cache_state \<Rightarrow> bytes option option" where
  "cache_dump g be pad now s =
     (if \<not> g_cache_size g > 0 then Some None
      else do { h \<leftarrow> head (lru s) Sentinel; out \<leftarrow> cache_dump_loop g be pad now s h []; Some (Some out) })"

end
