(* ===== verification/Cache_Rep.thy ===== *)
theory Cache_Rep
  imports Cache
begin

text \<open>
  The cache as a list of entries, the most recently used first: what it means that the hash map
  and the recency list represent it, and what the steps of the operations do to it.
\<close>

section \<open>The represented list\<close>

definition entry_ok :: "cache_msg \<Rightarrow> bool" where
  "entry_ok e \<longleftrightarrow> entry_wf e \<and> c_hashv e = calc_hashv (question e)"

text \<open>\<open>as\<close> are the addresses of the entries \<open>es\<close>.\<close>

definition cache_rep :: "cache_state \<Rightarrow> nat list \<Rightarrow> cache_msg list \<Rightarrow> bool" where
  "cache_rep s as es \<longleftrightarrow> (\<exists>B. map_inv s B \<and> addrs B = set as) \<and> dlist (lru s) Sentinel (map Obj as)
     \<and> map (content s) as = map Some es \<and> list_all entry_ok es \<and> distinct (map question es)
     \<and> (\<forall>a \<ge> brk s. content s a = None)"

lemma cache_repD:
  assumes "cache_rep s as es"
  shows "dlist (lru s) Sentinel (map Obj as)" "map (content s) as = map Some es" "list_all entry_ok es" "distinct (map question es)"
    "length as = length es" "distinct as" "brk s \<le> a \<Longrightarrow> content s a = None" "i < length es \<Longrightarrow> content s (as ! i) = Some (es ! i)"
proof -
  show "dlist (lru s) Sentinel (map Obj as)" and m: "map (content s) as = map Some es" and "list_all entry_ok es" "distinct (map question es)"
    "brk s \<le> a \<Longrightarrow> content s a = None" using assms by (simp_all add: cache_rep_def)
  then show "distinct as" by (simp add: dlist_def distinct_map)
  show len: "length as = length es" using arg_cong [OF m, of length] by simp
  show "i < length es \<Longrightarrow> content s (as ! i) = Some (es ! i)" using arg_cong [OF m, of "\<lambda>xs. xs ! i"] len by simp
qed

lemma cache_rep_map: "cache_rep s as es \<Longrightarrow> \<exists>B. map_inv s B \<and> addrs B = set as"
  by (simp add: cache_rep_def)

lemma cache_rep_nitems: "cache_rep s as es \<Longrightarrow> nitems s = length es"
  using cache_repD(5,6) [of s as es] by (auto simp: cache_rep_def map_inv_def distinct_card)

lemma cache_rep_initial: "cache_rep cache_initial [] []"
  by (auto simp: cache_rep_def cache_initial_def map_inv_def chains_def content_def dlist_init intro!: exI [of _ "[]"])

text \<open>The position of an address.\<close>

lemma cache_rep_split:
  assumes "cache_rep s as es" "a \<in> set as"
  obtains xs ys exs e eys where "as = xs @ a # ys" "es = exs @ e # eys" "length exs = length xs" "content s a = Some e"
proof -
  obtain i where i: "i < length as" "as ! i = a" using assms(2) by (auto simp: in_set_conv_nth)
  have len: "length as = length es" by (rule cache_repD(5) [OF assms(1)])
  have "as = take i as @ a # drop (Suc i) as" "es = take i es @ es ! i # drop (Suc i) es"
    using i id_take_nth_drop len by metis+
  moreover have "length (take i es) = length (take i as)" "content s a = Some (es ! i)"
    using cache_repD(8) [OF assms(1), of i] i len by simp_all
  ultimately show ?thesis by (rule that)
qed

lemma question_others:
  assumes "distinct (map question (exs @ e # eys))"
  shows "filter (\<lambda>x. question x \<noteq> question e) (exs @ e # eys) = exs @ eys" "find (\<lambda>x. question x = question e) (exs @ e # eys) = Some e"
proof -
  have "\<forall>x \<in> set exs. question x \<noteq> question e" "\<forall>x \<in> set eys. question x \<noteq> question e" using assms by (auto simp: image_iff)
  then show "filter (\<lambda>x. question x \<noteq> question e) (exs @ e # eys) = exs @ eys" by (simp add: filter_id_conv)
  show "find (\<lambda>x. question x = question e) (exs @ e # eys) = Some e"
    using \<open>\<forall>x \<in> set exs. question x \<noteq> question e\<close> by (induction exs) auto
qed

section \<open>Lookup\<close>

lemma map_get_rep:
  assumes "cache_rep s as es"
  obtains s' where "map_get q (calc_hashv q) s = Some (None, s')" "cache_rep s' as es" "find (\<lambda>e. question e = q) es = None"
  | s' xs a ys exs e eys where "map_get q (calc_hashv q) s = Some (Some a, s')" "cache_rep s' as es" "as = xs @ a # ys" "es = exs @ e # eys"
      "length exs = length xs" "question e = q" "content s' a = Some e"
proof -
  obtain B where B: "map_inv s B" "addrs B = set as" using cache_rep_map [OF assms] by blast
  have el: "\<exists>c. content s a = Some c \<and> entry_wf c" if a: "a \<in> addrs B" for a
  proof -
    have "a \<in> set as" using a B(2) by simp
    then obtain xs ys exs e eys where "es = exs @ e # eys" "content s a = Some e" by (rule cache_rep_split [OF assms])
    then show ?thesis using cache_repD(3) [OF assms] by (auto simp: entry_ok_def)
  qed
  obtain r s' B' where r: "map_get q (calc_hashv q) s = Some (r, s')" "map_inv s' B'" "same s s'" "addrs B' = addrs B"
    "finds s q (calc_hashv q) (addrs B) r"
    by (rule map_get_eq [of s B q "calc_hashv q", OF B(1)]) (use el in blast)+
  have rep: "cache_rep s' as es" using assms r(2-4) B(2) by (auto simp: cache_rep_def same_def)
  show ?thesis
  proof (cases r)
    case None
    have "question e \<noteq> q" if e: "e \<in> set es" for e
    proof
      assume q: "question e = q"
      obtain i where i: "i < length es" "es ! i = e" using e by (auto simp: in_set_conv_nth)
      then have c: "content s (as ! i) = Some e" using cache_repD(8) [OF assms] by simp
      moreover have "entry_ok e" using e cache_repD(3) [OF assms] by (simp add: list_all_iff)
      ultimately have "matches s q (calc_hashv q) (as ! i)" using q by (simp add: matches_def entry_ok_def)
      moreover have "as ! i \<in> addrs B" using i B(2) cache_repD(5) [OF assms] by simp
      ultimately show False using r(5) None by simp
    qed
    then have "find (\<lambda>e. question e = q) es = None" by (simp add: find_None_iff)
    then show ?thesis using that(1) r(1) rep None by simp
  next
    case (Some a)
    then have "a \<in> set as" "matches s q (calc_hashv q) a" using r(5) B(2) by simp_all
    moreover from this(1) obtain xs ys exs e eys where "as = xs @ a # ys" "es = exs @ e # eys" "length exs = length xs" "content s a = Some e"
      by (rule cache_rep_split [OF assms])
    moreover have "content s' a = content s a" using r(3) by (simp add: same_def)
    ultimately show ?thesis using that(2) [of a s' xs ys exs e eys] r(1) rep Some by (auto simp: matches_def)
  qed
qed

section \<open>Removal\<close>

lemma content_lru [simp]: "content (s\<lparr>lru := n\<rparr>) = content s"
  by (simp add: content_def fun_eq_iff)

lemma map_inv_lru [simp]: "map_inv (s\<lparr>lru := n\<rparr>) B = map_inv s B"
proof -
  have "hval (s\<lparr>lru := n\<rparr>) = hval s" by (simp add: hval_def fun_eq_iff)
  then show ?thesis by (simp add: map_inv_def chains_def)
qed

lemma del_nofree_rep:
  assumes "cache_rep s (xs @ a # ys) (exs @ e # eys)" "length exs = length xs"
  obtains s' where "del_nofree a s = Some s'" "cache_rep s' (xs @ ys) (exs @ eys)" "content s' = content s" "brk s' = brk s"
proof -
  note D = cache_repD [OF assms(1)]
  obtain B where B: "map_inv s B" "addrs B = set (xs @ a # ys)" using cache_rep_map [OF assms(1)] by blast
  then have "a \<in> addrs B" by simp
  then obtain s1 B1 where s1: "map_del a s = Some s1" "map_inv s1 B1" "addrs B1 = addrs B - {a}" "content s1 = content s" "lru s1 = lru s" "brk s1 = brk s"
    by (rule map_del_eq [OF B(1)])
  have "dlist (lru s1) Sentinel (map Obj xs @ Obj a # map Obj ys)" using D(1) s1(5) by simp
  then obtain n where n: "unlink (Obj a) (lru s1) = Some n" "dlist n Sentinel (map Obj xs @ map Obj ys)" by (rule dlist_unlink)
  let ?s = "s1\<lparr>lru := n\<rparr>"
  have c: "content ?s = content s" using s1(4) by simp
  have "addrs B1 = set (xs @ ys)" using s1(3) B(2) D(6) by auto
  moreover have "map_inv ?s B1" using s1(2) by simp
  moreover have "map (content s) (xs @ ys) = map Some (exs @ eys)" using D(2) assms(2) by simp
  ultimately have "cache_rep ?s (xs @ ys) (exs @ eys)"
    using D(3,4) n(2) s1(6) D(7) unfolding cache_rep_def c by auto
  then show ?thesis using that [of ?s] s1(1,6) n(1) c by (simp add: del_nofree_def)
qed

section \<open>Memory outside the cache\<close>

lemma outside_rep:
  assumes "cache_rep s as es" "a \<notin> set as" "brk s \<le> b" "a < b"
  shows "cache_rep (s\<lparr>objs := (objs s)(a := v), brk := b\<rparr>) as es"
proof -
  let ?s = "s\<lparr>objs := (objs s)(a := v), brk := b\<rparr>"
  have c: "content ?s x = content s x" if "x \<noteq> a" for x using that by (simp add: content_def)
  obtain B where B: "map_inv s B" "addrs B = set as" using cache_rep_map [OF assms(1)] by blast
  have out: "\<forall>j < length B. a \<notin> set (B ! j)" using B(2) assms(2) by (auto simp: addrs_def)
  have "chains ?s B" using chains_outside [of s B a v] B(1) out by (simp add: map_inv_def chains_def)
  moreover have "hval ?s x = hval s x" if "x \<noteq> a" for x using c [OF that] by (simp add: hval_def)
  ultimately have "map_inv ?s B" using B(1) out by (auto simp: map_inv_def) metis
  moreover have "map (content ?s) as = map (content s) as" 
    by (rule map_cong [OF refl], rule c) (use assms(2) in auto)
  ultimately show ?thesis
    using assms B(2) c unfolding cache_rep_def by auto
qed

lemma store_rep:
  assumes "cache_rep s as es" "a \<notin> set as" "a < brk s"
  shows "cache_rep (store_msg a c s) as es" "content (store_msg a c s) a = Some c" "brk (store_msg a c s) = brk s"
  using outside_rep [OF assms(1,2) order_refl assms(3)]
  by (simp_all add: store_msg_def content_def cache_msg.defs)

lemma store_new_rep:
  assumes "cache_rep s as es"
  shows "cache_rep (store_msg (brk s) c (s\<lparr>brk := brk s + 1\<rparr>)) as es" "content (store_msg (brk s) c (s\<lparr>brk := brk s + 1\<rparr>)) (brk s) = Some c"
    "brk s \<notin> set as"
proof -
  show out: "brk s \<notin> set as"
  proof
    assume "brk s \<in> set as"
    then obtain xs ys exs e eys where "content s (brk s) = Some e" by (rule cache_rep_split [OF assms])
    then show False using cache_repD(7) [OF assms order_refl] by simp
  qed
  have "store_msg (brk s) c (s\<lparr>brk := brk s + 1\<rparr>) = s\<lparr>objs := (objs s)(brk s \<mapsto> cache_msg.extend c \<lparr>c_chain = None\<rparr>), brk := brk s + 1\<rparr>"
    by (simp add: store_msg_def)
  then show "cache_rep (store_msg (brk s) c (s\<lparr>brk := brk s + 1\<rparr>)) as es"
    using outside_rep [OF assms out, of "brk s + 1" "Some (cache_msg.extend c \<lparr>c_chain = None\<rparr>)"] by simp
  show "content (store_msg (brk s) c (s\<lparr>brk := brk s + 1\<rparr>)) (brk s) = Some c" by (simp add: store_msg_def content_def cache_msg.defs)
qed

lemma free_rep:
  assumes "cache_rep s as es" "a \<notin> set as" "a < brk s"
  shows "cache_rep (free_msg a s) as es" "brk (free_msg a s) = brk s"
  using outside_rep [OF assms(1,2) order_refl assms(3)] by (simp_all add: free_msg_def)

lemma rep_below_brk: "cache_rep s as es \<Longrightarrow> content s a = Some e \<Longrightarrow> a < brk s"
  using cache_repD(7) [of s as es a] by fastforce

section \<open>Insertion\<close>

lemma map_add_rep:
  assumes "cache_rep s as es" "a \<notin> set as" "content s a = Some e"
  obtains s' B where "map_add a s = Some s'" "map_inv s' B" "addrs B = insert a (set as)" "content s' = content s" "lru s' = lru s" "brk s' = brk s"
proof -
  obtain B where "map_inv s B" "addrs B = set as" using cache_rep_map [OF assms(1)] by blast
  then show ?thesis using map_add_eq [of s B a e] assms(2,3) that by metis
qed

lemma insert_head_rep:
  assumes "cache_rep s as es" "a \<notin> set as" "content s a = Some e" "entry_ok e" "question e \<notin> question ` set es"
  obtains s1 n where "map_add a s = Some s1" "link_to_head Sentinel (Obj a) (lru s1) = Some n" "cache_rep (s1\<lparr>lru := n\<rparr>) (a # as) (e # es)"
    "brk s1 = brk s"
proof -
  note D = cache_repD [OF assms(1)]
  obtain s1 B where s1: "map_add a s = Some s1" "map_inv s1 B" "addrs B = insert a (set as)" "content s1 = content s" "lru s1 = lru s" "brk s1 = brk s"
    by (rule map_add_rep [OF assms(1-3)])
  have "Obj a \<notin> set (map Obj as)" using assms(2) by auto
  then obtain n where n: "link_to_head Sentinel (Obj a) (lru s) = Some n" "dlist n Sentinel (Obj a # map Obj as)"
    using dlist_link_to_head [OF D(1)] by blast
  have c: "content (s1\<lparr>lru := n\<rparr>) = content s" using s1(4) by simp
  have "map_inv (s1\<lparr>lru := n\<rparr>) B" using s1(2) by simp
  then have "cache_rep (s1\<lparr>lru := n\<rparr>) (a # as) (e # es)"
    using D(2-4,7) assms(3-5) n(2) s1(3,6) unfolding cache_rep_def c by auto
  then show ?thesis using that s1(1,5,6) n(1) by metis
qed

lemma insert_tail_rep:
  assumes "cache_rep s as es" "a \<notin> set as" "content s a = Some e" "entry_ok e" "question e \<notin> question ` set es"
  obtains s1 n where "map_add a s = Some s1" "link_to_tail Sentinel (Obj a) (lru s1) = Some n" "cache_rep (s1\<lparr>lru := n\<rparr>) (as @ [a]) (es @ [e])"
proof -
  note D = cache_repD [OF assms(1)]
  obtain s1 B where s1: "map_add a s = Some s1" "map_inv s1 B" "addrs B = insert a (set as)" "content s1 = content s" "lru s1 = lru s" "brk s1 = brk s"
    by (rule map_add_rep [OF assms(1-3)])
  have "Obj a \<notin> set (map Obj as)" using assms(2) by auto
  then obtain n where n: "link_to_tail Sentinel (Obj a) (lru s) = Some n" "dlist n Sentinel (map Obj as @ [Obj a])"
    using dlist_link_to_tail [OF D(1)] by blast
  have c: "content (s1\<lparr>lru := n\<rparr>) = content s" using s1(4) by simp
  have "map_inv (s1\<lparr>lru := n\<rparr>) B" using s1(2) by simp
  then have "cache_rep (s1\<lparr>lru := n\<rparr>) (as @ [a]) (es @ [e])"
    using D(2-4,7) assms(3-5) n(2) s1(3,6) unfolding cache_rep_def c by auto
  then show ?thesis using that s1(1,5) n(1) by metis
qed

section \<open>Change in place\<close>

lemma chain_same_link:
  assumes "h a = Some ob" "c_chain ob' = c_chain ob"
  shows "chain (h(a \<mapsto> ob')) v as = chain h v as"
  using assms by (induction as arbitrary: v) auto

lemma update_rep:
  assumes "cache_rep s (xs @ a # ys) (exs @ e # eys)" "length exs = length xs" "objs s a = Some ob"
    and "c_chain ob' = c_chain ob" "cache_msg.truncate ob' = e'" "c_hashv e' = c_hashv e" "question e' = question e" "entry_wf e'"
  shows "cache_rep (s\<lparr>objs := (objs s)(a \<mapsto> ob')\<rparr>) (xs @ a # ys) (exs @ e' # eys)"
proof -
  note D = cache_repD [OF assms(1)]
  let ?s = "s\<lparr>objs := (objs s)(a \<mapsto> ob')\<rparr>"
  have ca: "content s a = Some e" using D(2) assms(2) by simp
  have c: "content ?s = (content s)(a \<mapsto> e')" using assms(5) by (auto simp: content_def fun_eq_iff)
  obtain B where B: "map_inv s B" "addrs B = set (xs @ a # ys)" using cache_rep_map [OF assms(1)] by blast
  have "chains ?s B" using B(1) chain_same_link [of "objs s" a ob ob', OF assms(3,4)] by (simp add: map_inv_def chains_def)
  moreover have "hval ?s = hval s" using ca assms(6) by (simp add: hval_def c fun_eq_iff)
  ultimately have "map_inv ?s B" using B(1) by (simp add: map_inv_def)
  moreover have "map (content ?s) (xs @ a # ys) = map Some (exs @ e' # eys)" using D(2,6) assms(2) unfolding c by (auto simp: map_eq_conv)
  moreover have "a < brk s" by (rule rep_below_brk [OF assms(1) ca])
  ultimately show ?thesis
    using D(1,3,4,7) B(2) assms(6-8) unfolding cache_rep_def by (auto simp: c entry_ok_def)
qed

end
