(* ===== verification/Cache_Correct.thy ===== *)
theory Cache_Correct
  imports Cache_Rep
begin

text \<open>
  What the cache promises: its operations on the list of entries, most recently used first, and
  that the code with its hash map and its linked list does the same.
\<close>

section \<open>Specification\<close>

definition usable :: "cache_conf \<Rightarrow> int \<Rightarrow> bool" where
  "usable g ttl \<longleftrightarrow> 0 < ttl \<or> g_cache_stale g \<noteq> 0 \<and> - ttl \<le> int (unat (g_cache_stale g))"

definition others :: "bytes \<Rightarrow> cache_msg list \<Rightarrow> cache_msg list" where
  "others q es = filter (\<lambda>e. question e \<noteq> q) es"

definition find_entry :: "bytes \<Rightarrow> cache_msg list \<Rightarrow> cache_msg option" where
  "find_entry q es = find (\<lambda>e. question e = q) es"

text \<open>
  A lookup ages the entry and moves it to the front, or drops it if it is too old. The flag
  \<open>added_ip\<close>, which is unset for entries from the database, is reported once.
\<close>

definition spec_get :: "cache_conf \<Rightarrow> int \<Rightarrow> bytes \<Rightarrow> cache_msg list \<Rightarrow> (int \<times> int \<times> bool) option \<times> bytes option \<times> cache_msg list" where
  "spec_get g now q es =
     (case find_entry q es of
        None \<Rightarrow> (None, None, es)
      | Some e \<Rightarrow>
          let outs = (ttl_at now e, sint (c_ttl_r e), \<not> c_added_ip e)
          in if usable g (ttl_at now e)
             then (Some outs, Some (c_msg (aged now e)), (aged now e)\<lparr>c_added_ip := True\<rparr> # others q es)
             else (Some outs, None, others q es))"

text \<open>
  An insertion replaces an entry for the same question unless the TTLs are within two seconds;
  a full cache loses its last entry.
\<close>

definition spec_add :: "cache_conf \<Rightarrow> int \<Rightarrow> cache_msg \<Rightarrow> cache_msg list \<Rightarrow> bool \<times> cache_msg list" where
  "spec_add g now e es =
     (case find_entry (question e) es of
        Some old \<Rightarrow> if \<bar>sint (c_ttl e) - ttl_at now old\<bar> \<le> 2 then (False, es) else (True, e # others (question e) es)
      | None \<Rightarrow> (True, e # (if length es < unat (g_cache_size g) then es else butlast es)))"

text \<open>The entry made of a reply.\<close>

definition new_entry :: "cache_conf \<Rightarrow> int \<Rightarrow> bytes \<Rightarrow> nat \<Rightarrow> int \<Rightarrow> cache_msg" where
  "new_entry g now msg qn ttl = \<lparr>c_update_time = word_of_int now, c_hashv = calc_hashv (the (dns_question msg qn)), c_ttl = word_of_int ttl,
     c_ttl_r = word_of_int (ttl * int (unat (g_cache_refresh g)) div 100), c_qnamelen = word_of_nat qn, c_added_ip = True, c_msg = msg\<rparr>"

section \<open>Lookup\<close>

lemma usable_ok: "clock_ok now e \<Longrightarrow> ttl_ok g (ttl_at now e) = Some (usable g (ttl_at now e))"
  by (simp add: ttl_ok_eq usable_def)

lemma truncate_update [simp]:
  "cache_msg.truncate (ob\<lparr>c_update_time := u, c_ttl := t, c_msg := m\<rparr>) = (cache_msg.truncate ob)\<lparr>c_update_time := u, c_ttl := t, c_msg := m\<rparr>"
  "cache_msg.truncate (ob\<lparr>c_added_ip := b\<rparr>) = (cache_msg.truncate ob)\<lparr>c_added_ip := b\<rparr>"
  by (simp_all add: cache_msg.truncate_def)

text \<open>Aging an entry in memory is aging its content; the chain is not touched.\<close>

lemma aged_object:
  assumes "cache_msg.truncate ob = e" "entry_wf e" "clock_ok now e"
  obtains ob' where "msg_update_ttl now ob = Some ob'" "cache_msg.truncate ob' = aged now e" "c_chain ob' = c_chain (ob :: cache_obj)"
proof -
  obtain hq rs where p: "entry_parts e hq rs" using assms(2) by (auto simp: entry_wf_def)
  have fields: "c_msg ob = c_msg e" "c_qnamelen ob = c_qnamelen e" "c_ttl ob = c_ttl e" "c_update_time ob = c_update_time e"
    unfolding assms(1) [symmetric] by (simp_all add: cache_msg.truncate_def)
  then have po: "entry_parts ob hq rs" and co: "clock_ok now ob" and el: "elapsed now ob = elapsed now e" and tt: "ttl_at now ob = ttl_at now e"
    using p assms(3) by (simp_all add: entry_parts_def clock_ok_def elapsed_def ttl_at_def)
  show ?thesis
  proof (cases "elapsed now e = 0")
    case True
    then show ?thesis
      using that [of ob] msg_update_ttl_now [OF co] msg_update_ttl_now [OF assms(3)] el assms(1) by (simp add: aged_def)
  next
    case False
    then show ?thesis
      using that msg_update_ttl_eq [OF po co] msg_update_ttl_eq [OF p assms(3)] el tt assms(1) by (simp add: aged_def)
  qed
qed

lemma move_to_head_rep:
  assumes "cache_rep s (xs @ a # ys) (exs @ e # eys)" "length exs = length xs"
  obtains n where "move_to_head Sentinel (Obj a) (lru s) = Some n" "cache_rep (s\<lparr>lru := n\<rparr>) (a # xs @ ys) (e # exs @ eys)"
proof -
  note D = cache_repD [OF assms(1)]
  have "Obj a \<in> set (map Obj (xs @ a # ys))" by simp
  then obtain n where n: "move_to_head Sentinel (Obj a) (lru s) = Some n" "dlist n Sentinel (Obj a # remove1 (Obj a) (map Obj (xs @ a # ys)))"
    using dlist_move_to_head [OF D(1)] by blast
  have "remove1 (Obj a) (map Obj (xs @ a # ys)) = map Obj (xs @ ys)" using D(6) by (auto simp: remove1_append)
  then have "dlist n Sentinel (map Obj (a # xs @ ys))" using n(2) by simp
  moreover have "map (content s) (a # xs @ ys) = map Some (e # exs @ eys)" using D(2) assms(2) by simp
  moreover obtain B where "map_inv s B" "addrs B = set (xs @ a # ys)" using cache_rep_map [OF assms(1)] by blast
  then have "map_inv (s\<lparr>lru := n\<rparr>) B \<and> addrs B = set (a # xs @ ys)" by auto
  ultimately have "cache_rep (s\<lparr>lru := n\<rparr>) (a # xs @ ys) (e # exs @ eys)"
    using D(3,4,7) unfolding cache_rep_def by auto
  then show ?thesis using that n(1) by blast
qed

lemma cache_get_eq:
  assumes "cache_rep s as es" "dns_question qmsg qn = Some q" "0 < g_cache_size g" "\<forall>e. find_entry q es = Some e \<longrightarrow> clock_ok now e"
  shows "\<exists>s' as'. cache_get g now qmsg qn s = Some (fst (spec_get g now q es), fst (snd (spec_get g now q es)), s')
    \<and> cache_rep s' as' (snd (snd (spec_get g now q es)))"
proof (rule map_get_rep [OF assms(1), of q])
  fix s' assume h: "map_get q (calc_hashv q) s = Some (None, s')" "cache_rep s' as es" "find (\<lambda>e. question e = q) es = None"
  then show ?thesis using assms(2,3) by (auto simp: cache_get_def spec_get_def find_entry_def Let_def)
next
  fix s1 xs a ys exs e eys
  assume h: "map_get q (calc_hashv q) s = Some (Some a, s1)" "cache_rep s1 as es" "as = xs @ a # ys" "es = exs @ e # eys"
    "length exs = length xs" "question e = q" "content s1 a = Some e"
  note D = cache_repD [OF h(2)]
  have f: "find_entry q es = Some e" "others q es = exs @ eys" using question_others [of exs e eys] D(4) h(4,6) by (simp_all add: find_entry_def others_def)
  then have clk: "clock_ok now e" using assms(4) by blast
  have eo: "entry_wf e" "c_hashv e = calc_hashv (question e)" using D(3) h(4) by (simp_all add: entry_ok_def)
  note A = aged_fields [OF eo(1) clk]
  obtain ob where ob: "objs s1 a = Some ob" "cache_msg.truncate ob = e" using h(7) by (auto simp: content_Some)
  obtain ob' where ob': "msg_update_ttl now ob = Some ob'" "cache_msg.truncate ob' = aged now e" "c_chain ob' = c_chain ob"
    by (rule aged_object [OF ob(2) eo(1) clk])
  have fld: "sint (c_ttl ob') = ttl_at now e" "c_ttl_r ob' = c_ttl_r e" "c_added_ip ob' = c_added_ip e" "c_msg ob' = c_msg (aged now e)"
    using A(3,4,5) unfolding ob'(2) [symmetric] by (simp_all add: cache_msg.truncate_def)
  define ob2 where "ob2 = (if \<not> c_added_ip ob' then ob'\<lparr>c_added_ip := True\<rparr> else ob')"
  define e2 where "e2 = (aged now e)\<lparr>c_added_ip := True\<rparr>"
  have ob2: "cache_msg.truncate ob2 = e2" "c_chain ob2 = c_chain ob" "c_msg ob2 = c_msg (aged now e)"
    using ob'(2,3) fld(3,4) A(4) by (auto simp: ob2_def e2_def)
  let ?s2 = "s1\<lparr>objs := (objs s1)(a \<mapsto> ob2)\<rparr>"
  have e2: "question e2 = question e" "c_hashv e2 = c_hashv e" "entry_wf e2"
    using A(1,8) aged_wf [OF eo(1) clk] by (auto simp: e2_def question_def msg_question_def entry_wf_def entry_parts_def)
  have r2: "cache_rep ?s2 (xs @ a # ys) (exs @ e2 # eys)"
    by (rule update_rep [OF h(2) [unfolded h(3,4)] h(5) ob(1) ob2(2,1) e2(2,1,3)])
  have run: "cache_get g now qmsg qn s = do {
      ok \<leftarrow> ttl_ok g (ttl_at now e);
      if ok then do { n \<leftarrow> move_to_head Sentinel (Obj a) (lru ?s2);
                      Some (Some (ttl_at now e, sint (c_ttl_r e), \<not> c_added_ip e), Some (c_msg ob2), ?s2\<lparr>lru := n\<rparr>) }
      else do { s \<leftarrow> del_nofree a ?s2; Some (Some (ttl_at now e, sint (c_ttl_r e), \<not> c_added_ip e), None, free_msg a s) } }"
    unfolding cache_get_def Let_def assms(2) bind.bind_lunit h(1) prod.case option.case ob(1) ob'(1)
    unfolding ob2_def [symmetric] unfolding fld(1-3) using assms(3) by simp
  show ?thesis
  proof (cases "usable g (ttl_at now e)")
    case True
    obtain n where n: "move_to_head Sentinel (Obj a) (lru ?s2) = Some n" "cache_rep (?s2\<lparr>lru := n\<rparr>) (a # xs @ ys) (e2 # exs @ eys)"
      by (rule move_to_head_rep [OF r2 h(5)])
    then show ?thesis using run True usable_ok [OF clk] ob2(3) f by (auto simp: spec_get_def Let_def e2_def)
  next
    case False
    obtain s3 where s3: "del_nofree a ?s2 = Some s3" "cache_rep s3 (xs @ ys) (exs @ eys)" "content s3 = content ?s2" "brk s3 = brk ?s2"
      by (rule del_nofree_rep [OF r2 h(5)])
    have "a \<notin> set (xs @ ys)" using D(6) h(3) by simp
    moreover have "a < brk s3" using rep_below_brk [OF h(2,7)] s3(4) by simp
    ultimately have "cache_rep (free_msg a s3) (xs @ ys) (exs @ eys)" by (rule free_rep(1) [OF s3(2)])
    then show ?thesis using run False usable_ok [OF clk] s3(1) f by (auto simp: spec_get_def Let_def)
  qed
qed

section \<open>Insertion\<close>

text \<open>The TTL times the percentage need not fit into 32 bits.\<close>

lemma msg_init_overflow:
  assumes "2 \<le> g_cache_refresh g"
  shows "msg_init g now msg qn 2147483647 h = None"
proof -
  have "2 \<le> int (unat (g_cache_refresh g))" using assms by (simp add: word_le_def)
  then have "zig_i32 (2147483647 * int (unat (g_cache_refresh g))) = None" unfolding zig_i32_def by simp
  then show ?thesis by (simp only: msg_init_def bind.bind_lzero) (simp add: zig_i32_def)
qed

lemma msg_init_eq:
  assumes "0 < ttl" "ttl < 2 ^ 31" "ttl * int (unat (g_cache_refresh g)) < 2 ^ 31" "length msg < 65536" "qn < 256"
    and "dns_question msg qn = Some q"
  shows "msg_init g now msg qn ttl (calc_hashv q) = Some (new_entry g now msg qn ttl)"
proof -
  obtain w where w: "zig_i32 ttl = Some w" "sint w = ttl" "w = word_of_int ttl"
    using zig_i32_eq [of ttl] sint_i32 [of ttl] assms(1,2) by auto
  have pos: "0 \<le> ttl * int (unat (g_cache_refresh g))" using assms(1) by simp
  have "- (2 ^ 31) \<le> ttl * int (unat (g_cache_refresh g))" by (rule order_trans [OF _ pos]) simp
  from this assms(3) obtain p where p: "zig_i32 (ttl * int (unat (g_cache_refresh g))) = Some p" "sint p = ttl * int (unat (g_cache_refresh g))"
    by (rule zig_i32_Some)
  have "\<not> sint p < 0" using p(2) pos by linarith
  then show ?thesis
    unfolding msg_init_def w(1) p(1) bind.bind_lunit percent_def
    using assms(4-6) w(3) p(2) by (simp add: new_entry_def)
qed

lemma msg_new_rep:
  assumes "cache_rep s as es" "msg_init g now msg qn ttl h = Some e"
  obtains a s' where "msg_new g now msg qn ttl h s = Some (a, s')" "cache_rep s' as es" "a \<notin> set as" "content s' a = Some e"
proof -
  have "msg_new g now msg qn ttl h s = Some (brk s, store_msg (brk s) e (s\<lparr>brk := brk s + 1\<rparr>))" using assms(2) by (simp add: msg_new_def)
  then show ?thesis using that store_new_rep [OF assms(1)] by blast
qed

lemma msg_reuse_rep:
  assumes "cache_rep s as es" "msg_init g now msg qn ttl h = Some e" "a \<notin> set as" "content s a = Some e0"
  obtains a' s' where "msg_reuse g now resize a msg qn ttl h s = Some (a', s')" "cache_rep s' as es" "a' \<notin> set as" "content s' a' = Some e"
proof -
  obtain old where old: "objs s a = Some old" using assms(4) by (auto simp: content_Some)
  have a: "a < brk s" by (rule rep_below_brk [OF assms(1,4)])
  show ?thesis
  proof (cases "resize (length (c_msg old)) (length msg)")
    case True
    then show ?thesis
      using that [of a "store_msg a e s"] store_rep [OF assms(1,3) a] old assms(2,3) by (simp add: msg_reuse_def)
  next
    case False
    have "cache_rep (free_msg a s) as es" by (rule free_rep(1) [OF assms(1,3) a])
    then obtain a' s' where "msg_new g now msg qn ttl h (free_msg a s) = Some (a', s')" "cache_rep s' as es" "a' \<notin> set as" "content s' a' = Some e"
      by (rule msg_new_rep [OF _ assms(2)])
    then show ?thesis using that old False by (simp add: msg_reuse_def)
  qed
qed

text \<open>The memory of the new entry, and the entries that stay.\<close>

lemma take_entry_rep:
  assumes rep: "cache_rep s as es"
    and init': "(\<forall>x. find_entry q es = Some x \<longrightarrow> 2 < \<bar>ttl - ttl_at now x\<bar>) \<Longrightarrow> msg_init g now msg qn ttl (calc_hashv q) = Some e"
    and ttl: "0 < ttl" "ttl < 2 ^ 31" "sint (c_ttl e) = ttl" and q: "question e = q" and size: "0 < g_cache_size g"
    and old: "\<forall>x. find_entry q es = Some x \<longrightarrow> clock_ok now x \<and> ttl - ttl_at now x < 2 ^ 31"
  shows "(\<exists>s'. take_entry g now resize msg qn ttl q (calc_hashv q) s = Some (None, s') \<and> cache_rep s' as es \<and> spec_add g now e es = (False, es))
    \<or> (\<exists>a s' as' es'. take_entry g now resize msg qn ttl q (calc_hashv q) s = Some (Some a, s') \<and> cache_rep s' as' es' \<and> a \<notin> set as'
         \<and> content s' a = Some e \<and> q \<notin> question ` set es' \<and> spec_add g now e es = (True, e # es'))"
proof (rule map_get_rep [OF rep, of q])
  fix s1 assume h: "map_get q (calc_hashv q) s = Some (None, s1)" "cache_rep s1 as es" "find (\<lambda>e. question e = q) es = None"
  have new: "find_entry (question e) es = None" "q \<notin> question ` set es" using h(3) q by (auto simp: find_entry_def find_None_iff)
  then have init: "msg_init g now msg qn ttl (calc_hashv q) = Some e" using init' q by simp
  show ?thesis
  proof (cases "length es < unat (g_cache_size g)")
    case True
    obtain a s' where "msg_new g now msg qn ttl (calc_hashv q) s1 = Some (a, s')" "cache_rep s' as es" "a \<notin> set as" "content s' a = Some e"
      by (rule msg_new_rep [OF h(2) init])
    then show ?thesis using h(1) True cache_rep_nitems [OF h(2)] new by (auto simp: take_entry_def spec_add_def)
  next
    case False
    have len: "length as = length es" by (rule cache_repD(5) [OF h(2)])
    have "es \<noteq> []" using False size by (auto simp: word_gt_0 unat_eq_0)
    then obtain exs x where es: "es = exs @ [x]" by (cases es rule: rev_cases) auto
    then obtain xs a where as: "as = xs @ [a]" using len by (cases as rule: rev_cases) auto
    have lx: "length exs = length xs" using len es as by simp
    have t: "tail (lru s1) Sentinel = Some (Obj a)" using dlist_ends(2) [OF cache_repD(1) [OF h(2)]] as by simp
    obtain s2 where s2: "del_nofree a s1 = Some s2" "cache_rep s2 (xs @ []) (exs @ [])" "content s2 = content s1" "brk s2 = brk s1"
      by (rule del_nofree_rep [OF h(2) [unfolded as es] lx])
    have ca: "content s2 a = Some x" using cache_repD(8) [OF h(2), of "length exs"] s2(3) es as lx by (simp add: nth_append)
    have ax: "a \<notin> set (xs @ [])" using cache_repD(6) [OF h(2)] as by simp
    obtain a' s' where "msg_reuse g now resize a msg qn ttl (calc_hashv q) s2 = Some (a', s')" "cache_rep s' (xs @ []) (exs @ [])"
      "a' \<notin> set (xs @ [])" "content s' a' = Some e"
      by (rule msg_reuse_rep [OF s2(2) init ax ca])
    moreover have "spec_add g now e es = (True, e # exs)" using new(1) False es by (simp add: spec_add_def)
    ultimately show ?thesis
      using h(1) False cache_rep_nitems [OF h(2)] t s2(1) new(2) es by (auto simp: take_entry_def)
  qed
next
  fix s1 xs a ys exs x eys
  assume h: "map_get q (calc_hashv q) s = Some (Some a, s1)" "cache_rep s1 as es" "as = xs @ a # ys" "es = exs @ x # eys"
    "length exs = length xs" "question x = q" "content s1 a = Some x"
  note D = cache_repD [OF h(2)]
  have f: "find_entry q es = Some x" "others q es = exs @ eys" using question_others [of exs x eys] D(4) h(4,6) by (simp_all add: find_entry_def others_def)
  then have clk: "clock_ok now x" and lt: "ttl - ttl_at now x < 2 ^ 31" using old by blast+
  obtain ob where ob: "objs s1 a = Some ob" "cache_msg.truncate ob = x" using h(7) by (auto simp: content_Some)
  have "clock_ok now ob" "ttl_at now ob = ttl_at now x"
    using clk unfolding ob(2) [symmetric] by (simp_all add: clock_ok_def ttl_at_def elapsed_def cache_msg.truncate_def)
  then have g: "msg_get_ttl ob now = Some (ttl_at now x)" using msg_get_ttl_eq [of now ob] by simp
  obtain d where d: "zig_i32 (ttl - ttl_at now x) = Some d" "sint d = ttl - ttl_at now x"
    using zig_i32_Some [of "ttl - ttl_at now x"] lt ttl(1) ttl_range [OF clk] by auto
  have run: "take_entry g now resize msg qn ttl q (calc_hashv q) s =
      (if \<bar>ttl - ttl_at now x\<bar> \<le> 2 then Some (None, s1)
       else do { s \<leftarrow> del_nofree a s1; (a, s) \<leftarrow> msg_reuse g now resize a msg qn ttl (calc_hashv q) s; Some (Some a, s) })"
    unfolding take_entry_def h(1) bind.bind_lunit prod.case option.case ob(1) g d(1) d(2) ..
  show ?thesis
  proof (cases "\<bar>ttl - ttl_at now x\<bar> \<le> 2")
    case True
    then show ?thesis using run h(2) f(1) q ttl(3) by (simp add: spec_add_def)
  next
    case False
    then have init: "msg_init g now msg qn ttl (calc_hashv q) = Some e" using init' f(1) by simp
    obtain s2 where s2: "del_nofree a s1 = Some s2" "cache_rep s2 (xs @ ys) (exs @ eys)" "content s2 = content s1" "brk s2 = brk s1"
      by (rule del_nofree_rep [OF h(2) [unfolded h(3,4)] h(5)])
    have ca: "content s2 a = Some x" using h(7) s2(3) by simp
    have ax: "a \<notin> set (xs @ ys)" using D(6) h(3) by simp
    obtain a' s' where "msg_reuse g now resize a msg qn ttl (calc_hashv q) s2 = Some (a', s')" "cache_rep s' (xs @ ys) (exs @ eys)"
      "a' \<notin> set (xs @ ys)" "content s' a' = Some e"
      by (rule msg_reuse_rep [OF s2(2) init ax ca])
    moreover have "q \<notin> question ` set (exs @ eys)" unfolding f(2) [symmetric] others_def by auto
    moreover have "spec_add g now e es = (True, e # exs @ eys)" using f q ttl(3) False by (simp add: spec_add_def)
    ultimately show ?thesis using run False s2(1) by auto
  qed
qed

text \<open>An entry that cannot be made, because its TTL does not fit or differs too much, stops the insertion.\<close>

lemma msg_reuse_fails: "msg_init g now msg qn ttl h = None \<Longrightarrow> msg_reuse g now resize a msg qn ttl h s = None"
  by (cases "objs s a") (auto simp: msg_reuse_def msg_new_def)

lemma take_entry_fails:
  assumes rep: "cache_rep s as es" and clk: "\<forall>x. find_entry q es = Some x \<longrightarrow> clock_ok now x"
    and bad: "(case find_entry q es of None \<Rightarrow> False | Some x \<Rightarrow> 2 ^ 31 \<le> ttl - ttl_at now x)
      \<or> (\<forall>x. find_entry q es = Some x \<longrightarrow> 2 < \<bar>ttl - ttl_at now x\<bar>) \<and> msg_init g now msg qn ttl (calc_hashv q) = None"
  shows "take_entry g now resize msg qn ttl q (calc_hashv q) s = None"
proof (rule map_get_rep [OF rep, of q])
  fix s1 assume h: "map_get q (calc_hashv q) s = Some (None, s1)" "find (\<lambda>e. question e = q) es = None"
  then have "msg_init g now msg qn ttl (calc_hashv q) = None" using bad by (simp add: find_entry_def)
  then show ?thesis using h(1) by (auto simp: take_entry_def msg_new_def msg_reuse_fails bind_eq_None_conv split: nref.split)
next
  fix s1 xs a ys exs x eys
  assume h: "map_get q (calc_hashv q) s = Some (Some a, s1)" "cache_rep s1 as es" "es = exs @ x # eys" "question x = q" "content s1 a = Some x"
  have f: "find_entry q es = Some x" using question_others [of exs x eys] cache_repD(4) [OF h(2)] h(3,4) by (simp add: find_entry_def)
  then have c: "clock_ok now x" using clk by blast
  obtain ob where ob: "objs s1 a = Some ob" "cache_msg.truncate ob = x" using h(5) by (auto simp: content_Some)
  have "clock_ok now ob" "ttl_at now ob = ttl_at now x"
    using c unfolding ob(2) [symmetric] by (simp_all add: clock_ok_def ttl_at_def elapsed_def cache_msg.truncate_def)
  then have g: "msg_get_ttl ob now = Some (ttl_at now x)" using msg_get_ttl_eq [of now ob] by simp
  show ?thesis
  proof (cases "zig_i32 (ttl - ttl_at now x)")
    case None
    then show ?thesis using h(1) ob(1) g by (simp add: take_entry_def)
  next
    case (Some d)
    then have r: "- (2 ^ 31) \<le> ttl - ttl_at now x" "ttl - ttl_at now x < 2 ^ 31" by (auto simp: zig_i32_def split: if_splits)
    have d: "sint d = ttl - ttl_at now x" using zig_i32_Some [OF r] Some by auto
    have "2 < \<bar>ttl - ttl_at now x\<bar>" "msg_init g now msg qn ttl (calc_hashv q) = None" using bad f r by auto
    then show ?thesis using h(1) ob(1) g Some d by (auto simp: take_entry_def msg_reuse_fails bind_eq_None_conv)
  qed
qed

lemma spec_add_length: "length es \<le> unat (g_cache_size g) \<Longrightarrow> 0 < g_cache_size g \<Longrightarrow> length (snd (spec_add g now e es)) \<le> unat (g_cache_size g)"
proof -
  assume a: "length es \<le> unat (g_cache_size g)" "0 < g_cache_size g"
  have "length (others (question e) es) < length es" if "find_entry (question e) es = Some x" for x
    using that unfolding others_def find_entry_def by (intro length_filter_less [of x]) (auto simp: find_Some_iff)
  moreover have "0 < unat (g_cache_size g)" using a(2) by (simp add: word_gt_0 unat_gt_0)
  ultimately show ?thesis using a(1) by (fastforce simp: spec_add_def split: option.splits)
qed

section \<open>Replies\<close>

text \<open>A good reply with the name \<open>w\<close> (without its final zero) and the records \<open>rs\<close>.\<close>

definition reply_front :: "bytes \<Rightarrow> nat \<Rightarrow> bytes \<Rightarrow> nat \<Rightarrow> bool" where
  "reply_front hq qn w n \<longleftrightarrow> (\<exists>hdr h q. hq = hdr @ w @ 0 # q \<and> length hdr = 12 \<and> 0 \<notin> set w \<and> length q = 4 \<and> qn = length w + 1 \<and> qn \<le> 255
     \<and> view_header hdr = Some h \<and> hd_good h \<and> unat (hd_ancount h) + unat (hd_nscount h) + unat (hd_arcount h) = n)"

definition good_reply :: "bytes \<Rightarrow> nat \<Rightarrow> bytes \<Rightarrow> bytes \<Rightarrow> rr list \<Rightarrow> bool" where
  "good_reply m qn w hq rs \<longleftrightarrow> reply_front hq qn w (length rs) \<and> m = hq @ encode_rrs rs \<and> list_all wf_rr rs \<and> length m < 65536"

lemma checked_good_reply:
  assumes "dns_check_reply msg len asc = Some (True, msg', asc', Some qn, Some newlen)"
    and "len \<le> int (length msg)" "ascii_buf asc" "dns_is_good msg = Some True"
  obtains w hq rs where "good_reply (take (unat newlen) msg') qn w hq rs"
proof (rule checked_reply_parts [OF assms])
  fix hdr w q h rs post
  assume p: "msg' = (hdr @ w @ 0 # q) @ encode_rrs rs @ post" "length hdr = 12" "0 \<notin> set w" "length q = 4" "qn = length w + 1" "qn \<le> 255"
    "unat newlen = length ((hdr @ w @ 0 # q) @ encode_rrs rs)" "list_all wf_rr rs" "view_header hdr = Some h" "hd_good h"
    "unat (hd_ancount h) + unat (hd_nscount h) + unat (hd_arcount h) = length rs"
  have t: "take (unat newlen) msg' = (hdr @ w @ 0 # q) @ encode_rrs rs" unfolding p(1) p(7) by simp
  have "length (take (unat newlen) msg') < 65536" unfolding t p(7) [symmetric] by simp
  moreover have "reply_front (hdr @ w @ 0 # q) qn w (length rs)" unfolding reply_front_def using p(2-6,9-11) by blast
  ultimately have "good_reply (take (unat newlen) msg') qn w (hdr @ w @ 0 # q) rs"
    unfolding good_reply_def using t p(8) by blast
  then show thesis by (rule that)
qed

definition reply_ttl :: "cache_conf \<Rightarrow> rr list \<Rightarrow> int" where
  "reply_ttl g rs = (let ts = map (\<lambda>r. clamp_ttl (g_cache_min_ttl g) (g_cache_max_ttl g) (rr_sttl r)) (non_opt rs)
     in if ts = [] then g_cache_nodata_ttl g else Min (set ts))"

definition clamped :: "cache_conf \<Rightarrow> rr list \<Rightarrow> rr list" where
  "clamped g rs = map (clamp_rr (g_cache_min_ttl g) (g_cache_max_ttl g)) rs"

lemma length_encode_clamped [simp]: "length (encode_rrs (clamped g rs)) = length (encode_rrs rs)"
  by (simp add: clamped_def encode_rrs_def length_concat comp_def)

lemma length_clamped [simp]: "length (clamped g rs) = length rs"
  by (simp add: clamped_def)

lemma reply_frontD:
  assumes "reply_front hq qn w n"
  obtains h where "length hq = msg_minlen qn" "view_header hq = Some h" "hd_good h"
    "unat (hd_ancount h) + unat (hd_nscount h) + unat (hd_arcount h) = n" "0 < qn" "qn < 256"
proof -
  obtain hdr h q where r: "hq = hdr @ w @ 0 # q" "length hdr = 12" "length q = 4" "qn = length w + 1" "qn \<le> 255"
    "view_header hdr = Some h" "hd_good h" "unat (hd_ancount h) + unat (hd_nscount h) + unat (hd_arcount h) = n"
    using assms by (auto simp: reply_front_def)
  then show ?thesis by (intro that [of h]) (simp_all add: msg_minlen_def dns_sizes view_header_append)
qed

lemma good_reply_ttl:
  assumes "good_reply m qn w hq rs"
  shows "dns_is_good m = Some True"
    "dns_get_ttl m (int (length m)) qn (g_cache_nodata_ttl g) (g_cache_min_ttl g) (g_cache_max_ttl g)
      = Some (reply_ttl g rs, hq @ encode_rrs (clamped g rs))"
    "good_reply (hq @ encode_rrs (clamped g rs)) qn w hq (clamped g rs)"
proof -
  have f: "reply_front hq qn w (length rs)" and m: "m = hq @ encode_rrs rs" "list_all wf_rr rs" "length m < 65536"
    using assms unfolding good_reply_def by blast+
  obtain h where h: "length hq = msg_minlen qn" "view_header hq = Some h" "hd_good h"
    "unat (hd_ancount h) + unat (hd_nscount h) + unat (hd_arcount h) = length rs" by (rule reply_frontD [OF f])
  show "dns_is_good m = Some True"
    using view_accessors(7) [OF msg_view [OF h(1,2)], of "encode_rrs rs"] h(3) m(1) by simp
  have "records (length rs) (encode_rrs rs) = (rs, [], True)" using records_encode [OF m(2), of "[]"] by simp
  then show "dns_get_ttl m (int (length m)) qn (g_cache_nodata_ttl g) (g_cache_min_ttl g) (g_cache_max_ttl g)
      = Some (reply_ttl g rs, hq @ encode_rrs (clamped g rs))"
    using dns_get_ttl_eq [OF h(1-3) refl, unfolded h(4), of "encode_rrs rs" rs "[]" True "[]"] m(1)
    by (simp add: reply_ttl_def clamped_def)
  show "good_reply (hq @ encode_rrs (clamped g rs)) qn w hq (clamped g rs)"
    using f m by (simp add: good_reply_def) (simp add: clamped_def list_all_iff)
qed

lemma reply_question:
  assumes "reply_front hq qn w n"
  shows "dns_question (hq @ xs) qn = Some (drop HEADER_LEN hq)"
proof -
  obtain h where h: "length hq = msg_minlen qn" "qn < 256" by (rule reply_frontD [OF assms])
  then show ?thesis
    using question_len [OF h(2)] by (simp add: dns_question_def dns_header_len_def slice_at_def msg_minlen_def dns_sizes unat_of_nat)
qed

lemma new_entry_ok:
  assumes "good_reply m qn w hq rs" "0 < ttl" "ttl < 2 ^ 31"
  shows "entry_parts (new_entry g now m qn ttl) hq rs" "entry_ok (new_entry g now m qn ttl)"
    "question (new_entry g now m qn ttl) = drop HEADER_LEN hq" "sint (c_ttl (new_entry g now m qn ttl)) = ttl"
proof -
  have f: "reply_front hq qn w (length rs)" and m: "m = hq @ encode_rrs rs" "list_all wf_rr rs" "length m < 65536"
    using assms(1) unfolding good_reply_def by blast+
  obtain h where h: "length hq = msg_minlen qn" "view_header hq = Some h"
    "unat (hd_ancount h) + unat (hd_nscount h) + unat (hd_arcount h) = length rs" "qn < 256" by (rule reply_frontD [OF f])
  have "unat (word_of_nat qn :: u8) = qn" using h(4) by (simp add: unat_of_nat)
  then show p: "entry_parts (new_entry g now m qn ttl) hq rs"
    using h m unfolding entry_parts_def new_entry_def by simp
  from question_eq [OF this] show q: "question (new_entry g now m qn ttl) = drop HEADER_LEN hq" .
  have "c_hashv (new_entry g now m qn ttl) = calc_hashv (drop HEADER_LEN hq)"
    using reply_question [OF f, of "encode_rrs rs"] m(1) by (simp add: new_entry_def)
  moreover have "length (c_msg (new_entry g now m qn ttl)) < 65536" using m(3) by (simp add: new_entry_def)
  ultimately show "entry_ok (new_entry g now m qn ttl)" using p q by (auto simp: entry_ok_def entry_wf_def)
  show "sint (c_ttl (new_entry g now m qn ttl)) = ttl" using sint_i32 [of ttl] assms(2,3) by (simp add: new_entry_def)
qed

definition ignored :: "bytes list set \<Rightarrow> bytes \<Rightarrow> bool" where
  "ignored D w \<longleftrightarrow> D \<noteq> {} \<and> (case parse_labels w of None \<Rightarrow> True | Some ls \<Rightarrow> \<exists>d \<in> D. \<exists>ys. ls = ys @ d)"

text \<open>What the integers of the code must hold: the TTL, its product with the percentage, and differences.\<close>

definition add_fits :: "cache_conf \<Rightarrow> int \<Rightarrow> int \<Rightarrow> bytes \<Rightarrow> cache_msg list \<Rightarrow> bool" where
  "add_fits g now ttl q es \<longleftrightarrow> ttl < 2 ^ 31 \<and> (0 < ttl \<longrightarrow>
     (case find_entry q es of
        None \<Rightarrow> ttl * int (unat (g_cache_refresh g)) < 2 ^ 31
      | Some x \<Rightarrow> clock_ok now x \<and> ttl - ttl_at now x < 2 ^ 31
          \<and> (2 < \<bar>ttl - ttl_at now x\<bar> \<longrightarrow> ttl * int (unat (g_cache_refresh g)) < 2 ^ 31)))"

lemma add_fitsI:
  assumes "ttl < 2 ^ 31" "ttl * int (unat (g_cache_refresh g)) < 2 ^ 31"
    "\<forall>x. find_entry q es = Some x \<longrightarrow> clock_ok now x \<and> ttl - ttl_at now x < 2 ^ 31"
  shows "add_fits g now ttl q es"
  using assms by (simp add: add_fits_def split: option.split)

lemma cache_add_skips:
  assumes reply: "good_reply m qn w hq rs" and size: "0 < g_cache_size g" and ig: "ignore_inv ig D"
  shows "ignored D w \<or> reply_ttl g rs \<le> 0 \<Longrightarrow> \<exists>out m'. cache_add g now resize ig m qn s = Some (False, out, m', s)"
    "\<not> ignored D w \<Longrightarrow> 0 < reply_ttl g rs \<Longrightarrow> cache_add g now resize ig m qn s = do {
        (r, s) \<leftarrow> take_entry g now resize (hq @ encode_rrs (clamped g rs)) qn (reply_ttl g rs) (drop HEADER_LEN hq) (calc_hashv (drop HEADER_LEN hq)) s;
        case r of None \<Rightarrow> Some (False, Some (reply_ttl g rs), hq @ encode_rrs (clamped g rs), s)
        | Some a \<Rightarrow> do { s \<leftarrow> map_add a s; n \<leftarrow> link_to_head Sentinel (Obj a) (lru s); Some (True, Some (reply_ttl g rs), hq @ encode_rrs (clamped g rs), s\<lparr>lru := n\<rparr>) } }"
proof -
  let ?m = "hq @ encode_rrs (clamped g rs)" and ?ttl = "reply_ttl g rs" and ?q = "drop HEADER_LEN hq"
  note R = good_reply_ttl [OF reply]
  have f: "reply_front hq qn w (length rs)" and m: "m = hq @ encode_rrs rs" using reply by (simp_all add: good_reply_def)
  then obtain hdr q where hq: "hq = hdr @ w @ 0 # q" "length hdr = 12" "0 \<notin> set w" "qn = length w + 1" by (auto simp: reply_front_def)
  have "length hdr = HEADER_LEN" using hq(2) by (simp add: dns_sizes)
  from is_ignored_eq [OF ig this hq(3), of "q @ encode_rrs rs"] have i: "is_ignored ig m qn = Some (ignored D w)"
    by (simp add: m hq ignored_def)
  show "\<exists>out m'. cache_add g now resize ig m qn s = Some (False, out, m', s)" if "ignored D w \<or> ?ttl \<le> 0"
    using that size R(1,2) i by (auto simp: cache_add_def)
  have ql: "dns_question ?m qn = Some ?q" by (rule reply_question [OF f])
  show "cache_add g now resize ig m qn s = do {
        (r, s) \<leftarrow> take_entry g now resize ?m qn ?ttl ?q (calc_hashv ?q) s;
        case r of None \<Rightarrow> Some (False, Some ?ttl, ?m, s)
        | Some a \<Rightarrow> do { s \<leftarrow> map_add a s; n \<leftarrow> link_to_head Sentinel (Obj a) (lru s); Some (True, Some ?ttl, ?m, s\<lparr>lru := n\<rparr>) } }"
    if "\<not> ignored D w" "0 < ?ttl"
    unfolding cache_add_def R(1,2) i bind.bind_lunit prod.case ql Let_def using size that by simp
qed

lemma cache_add_eq:
  assumes rep: "cache_rep s as es" and reply: "good_reply m qn w hq rs" and size: "0 < g_cache_size g" and ig: "ignore_inv ig D"
    and fits: "add_fits g now (reply_ttl g rs) (drop HEADER_LEN hq) es"
  shows "\<exists>out m' s' as'. cache_add g now resize ig m qn s
      = Some (\<not> ignored D w \<and> 0 < reply_ttl g rs \<and> fst (spec_add g now (new_entry g now (hq @ encode_rrs (clamped g rs)) qn (reply_ttl g rs)) es), out, m', s')
    \<and> cache_rep s' as' (if ignored D w \<or> reply_ttl g rs \<le> 0 then es
        else snd (spec_add g now (new_entry g now (hq @ encode_rrs (clamped g rs)) qn (reply_ttl g rs)) es))
    \<and> (\<not> ignored D w \<and> 0 < reply_ttl g rs \<longrightarrow> out = Some (reply_ttl g rs) \<and> m' = hq @ encode_rrs (clamped g rs))"
proof -
  let ?m = "hq @ encode_rrs (clamped g rs)" and ?ttl = "reply_ttl g rs" and ?q = "drop HEADER_LEN hq"
  note R = good_reply_ttl [OF reply]
  have f: "reply_front hq qn w (length rs)" using reply by (simp add: good_reply_def)
  show ?thesis
  proof (cases "ignored D w \<or> ?ttl \<le> 0")
    case True
    then show ?thesis using cache_add_skips(1) [OF reply size ig True, of now resize s] rep by auto
  next
    case False
    then have ttl: "0 < ?ttl" "?ttl < 2 ^ 31" using fits by (simp_all add: add_fits_def)
    let ?e = "new_entry g now ?m qn ?ttl"
    note E = new_entry_ok [OF R(3) ttl(1,2)]
    have ql: "dns_question ?m qn = Some ?q" by (rule reply_question [OF f])
    have "length ?m < 65536" "qn < 256" using R(3) reply_frontD [OF f] by (auto simp: good_reply_def)
    moreover have "?ttl * int (unat (g_cache_refresh g)) < 2 ^ 31" if "\<forall>x. find_entry ?q es = Some x \<longrightarrow> 2 < \<bar>?ttl - ttl_at now x\<bar>"
      using fits ttl(1) that by (auto simp: add_fits_def split: option.splits)
    ultimately have init: "msg_init g now ?m qn ?ttl (calc_hashv ?q) = Some ?e"
      if "\<forall>x. find_entry ?q es = Some x \<longrightarrow> 2 < \<bar>?ttl - ttl_at now x\<bar>"
      using msg_init_eq [OF ttl _ _ _ ql, of g now] that by blast
    have old: "\<forall>x. find_entry ?q es = Some x \<longrightarrow> clock_ok now x \<and> ?ttl - ttl_at now x < 2 ^ 31"
      using fits ttl(1) by (auto simp: add_fits_def split: option.splits)
    note run = cache_add_skips(2) [OF reply size ig, of now resize s]
    consider s1 where "take_entry g now resize ?m qn ?ttl ?q (calc_hashv ?q) s = Some (None, s1)" "cache_rep s1 as es" "spec_add g now ?e es = (False, es)"
      | a s1 as1 es1 where "take_entry g now resize ?m qn ?ttl ?q (calc_hashv ?q) s = Some (Some a, s1)" "cache_rep s1 as1 es1" "a \<notin> set as1"
        "content s1 a = Some ?e" "?q \<notin> question ` set es1" "spec_add g now ?e es = (True, ?e # es1)"
      using take_entry_rep [OF rep init ttl(1,2) E(4,3) size old, of resize] by blast
    then show ?thesis
    proof cases
      case 1
      then show ?thesis using run False by auto
    next
      case 2
      have "question ?e \<notin> question ` set es1" using 2(5) E(3) by simp
      from insert_head_rep [OF 2(2-4) E(2) this] obtain s2 n where
        "map_add a s1 = Some s2" "link_to_head Sentinel (Obj a) (lru s2) = Some n" "cache_rep (s2\<lparr>lru := n\<rparr>) (a # as1) (?e # es1)" by blast
      then show ?thesis using run False 2(1,6) by auto
    qed
  qed
qed

text \<open>The insertion fails exactly when one of the integers does not fit.\<close>

lemma cache_add_fails_iff:
  assumes rep: "cache_rep s as es" and reply: "good_reply m qn w hq rs" and ig: "ignore_inv ig D" and ttl: "reply_ttl g rs < 2 ^ 31"
    and clk: "\<forall>e \<in> set es. clock_ok now e"
  shows "cache_add g now resize ig m qn s = None
    \<longleftrightarrow> 0 < g_cache_size g \<and> \<not> ignored D w \<and> \<not> add_fits g now (reply_ttl g rs) (drop HEADER_LEN hq) es"
proof (cases "0 < g_cache_size g \<and> \<not> ignored D w \<and> \<not> add_fits g now (reply_ttl g rs) (drop HEADER_LEN hq) es")
  case True
  let ?m = "hq @ encode_rrs (clamped g rs)" and ?ttl = "reply_ttl g rs" and ?q = "drop HEADER_LEN hq"
  have pos: "0 < ?ttl" using True ttl by (auto simp: add_fits_def)
  have c: "\<forall>x. find_entry ?q es = Some x \<longrightarrow> clock_ok now x" using clk by (auto simp: find_entry_def find_Some_iff)
  have init: "msg_init g now ?m qn ?ttl (calc_hashv ?q) = None" if "\<not> ?ttl * int (unat (g_cache_refresh g)) < 2 ^ 31"
  proof -
    have "zig_i32 (?ttl * int (unat (g_cache_refresh g))) = None" using that unfolding zig_i32_def by simp
    then show ?thesis unfolding msg_init_def by (cases "zig_i32 ?ttl") simp_all
  qed
  have "(case find_entry ?q es of None \<Rightarrow> False | Some x \<Rightarrow> 2 ^ 31 \<le> ?ttl - ttl_at now x)
      \<or> (\<forall>x. find_entry ?q es = Some x \<longrightarrow> 2 < \<bar>?ttl - ttl_at now x\<bar>) \<and> msg_init g now ?m qn ?ttl (calc_hashv ?q) = None"
  proof (cases "find_entry ?q es")
    case None
    then have "\<not> ?ttl * int (unat (g_cache_refresh g)) < 2 ^ 31" using True ttl pos by (simp add: add_fits_def)
    then show ?thesis using init None by simp
  next
    case (Some x)
    then have "\<not> ?ttl - ttl_at now x < 2 ^ 31 \<or> 2 < \<bar>?ttl - ttl_at now x\<bar> \<and> \<not> ?ttl * int (unat (g_cache_refresh g)) < 2 ^ 31"
      using True ttl pos c by (auto simp: add_fits_def)
    then show ?thesis using init Some by fastforce
  qed
  from take_entry_fails [OF rep c this, of resize] show ?thesis
    using True cache_add_skips(2) [OF reply _ ig _ pos, of now resize s] by simp
next
  case False
  have "cache_add g now resize ig m qn s \<noteq> None"
  proof (cases "0 < g_cache_size g")
    case size: True
    show ?thesis
    proof (cases "ignored D w")
      case True
      then show ?thesis using cache_add_skips(1) [OF reply size ig] by (metis option.distinct(1))
    next
      case i: False
      then have "add_fits g now (reply_ttl g rs) (drop HEADER_LEN hq) es" using False size by simp
      from cache_add_eq [OF rep reply size ig this] show ?thesis by (metis option.distinct(1))
    qed
  qed (simp add: cache_add_def)
  then show ?thesis using False by blast
qed

end
