(* ===== verification/Cache_Disk.thy ===== *)
theory Cache_Disk
  imports Cache_Correct
begin

text \<open>
  Saving the cache and loading it again: what \<open>dump\<close> writes, what \<open>load\<close> makes of it, and that
  a restart of the program keeps the entries and their order.
\<close>

definition unadded :: "cache_msg \<Rightarrow> cache_msg" where
  "unadded e = e\<lparr>c_added_ip := False\<rparr>"

lemma unadded_ok [simp]: "question (unadded e) = question e" "entry_ok (unadded e) = entry_ok e" "entry_wf (unadded e) = entry_wf e"
proof -
  show q: "question (unadded e) = question e" by (simp add: question_def msg_question_def unadded_def)
  show w: "entry_wf (unadded e) = entry_wf e" by (simp add: entry_wf_def entry_parts_def unadded_def)
  show "entry_ok (unadded e) = entry_ok e" unfolding entry_ok_def q w by (simp add: unadded_def)
qed

section \<open>dump\<close>

lemma cache_dump_loop_eq:
  assumes rep: "cache_rep s (xs @ ys) (exs @ eys)" and len: "length exs = length xs" and clk: "\<forall>e \<in> set eys. clock_ok now e"
  shows "cache_dump_loop g be pad now s (hd (map Obj ys @ [Sentinel])) out
    = Some (out @ concat (map (dump be pad) (filter (\<lambda>e. usable g (ttl_at now e)) eys)))"
  using rep len clk
proof (induction eys arbitrary: xs ys exs out)
  case Nil
  then have "ys = []" using cache_repD(5) [OF Nil.prems(1)] by simp
  then show ?case by (subst cache_dump_loop.simps) (simp add: it_next_def)
next
  case (Cons e eys)
  note D = cache_repD [OF Cons.prems(1)]
  obtain a ys' where ys: "ys = a # ys'" using D(5) Cons.prems(2) by (cases ys) auto
  have it: "it_next (lru s) Sentinel (hd (map Obj ys @ [Sentinel])) = Some (Some (Obj a), hd (map Obj ys' @ [Sentinel]))"
    using dlist_it_next [of "lru s" Sentinel "map Obj xs" "map Obj ys"] D(1) ys by simp
  have "content s a = Some e" using D(2) ys Cons.prems(2) by simp
  then obtain ob where ob: "objs s a = Some ob" "cache_msg.truncate ob = e" by (auto simp: content_Some)
  have clk: "clock_ok now e" using Cons.prems(3) by simp
  have "clock_ok now ob" "ttl_at now ob = ttl_at now e"
    using clk unfolding ob(2) [symmetric] by (simp_all add: clock_ok_def ttl_at_def elapsed_def cache_msg.truncate_def)
  then have g: "msg_get_ttl ob now = Some (ttl_at now e)" using msg_get_ttl_eq [of now ob] by simp
  have rep': "cache_rep s ((xs @ [a]) @ ys') ((exs @ [e]) @ eys)" "length (exs @ [e]) = length (xs @ [a])" "\<forall>e \<in> set eys. clock_ok now e"
    using Cons.prems ys by simp_all
  have "cache_dump_loop g be pad now s (hd (map Obj ys @ [Sentinel])) out = cache_dump_loop g be pad now s (hd (map Obj ys' @ [Sentinel]))
      (if usable g (ttl_at now e) then out @ dump be pad e else out)"
    by (subst cache_dump_loop.simps) (simp add: it ob g usable_ok [OF clk])
  then show ?case using Cons.IH [OF rep'] by simp
qed

lemma cache_dump_eq:
  assumes "cache_rep s as es" "\<forall>e \<in> set es. clock_ok now e" "0 < g_cache_size g"
  shows "cache_dump g be pad now s = Some (Some (concat (map (dump be pad) (filter (\<lambda>e. usable g (ttl_at now e)) es))))"
  using cache_dump_loop_eq [of s "[]" as "[]" es now g be pad "[]"] assms dlist_ends(1) [OF cache_repD(1) [OF assms(1)]]
  by (simp add: cache_dump_def)

section \<open>load\<close>

lemma entry_wf_length: "entry_wf e \<Longrightarrow> 0 < length (c_msg e) \<and> length (c_msg e) < 65536"
  by (auto simp: entry_wf_def entry_parts_def msg_minlen_def dns_sizes)

text \<open>The entries that are complete within the first \<open>n\<close> bytes of the file.\<close>

fun whole :: "nat \<Rightarrow> cache_msg list \<Rightarrow> cache_msg list" where
  "whole n [] = []"
| "whole n (e # es) = (if HDR_SIZE + length (c_msg e) \<le> n then e # whole (n - (HDR_SIZE + length (c_msg e))) es else [])"

lemma length_dump [simp]: "length (dump be pad e) = HDR_SIZE + length (c_msg e)"
  by (simp add: dump_def)

lemma whole_all: "length (concat (map (dump be pad) es)) \<le> n \<Longrightarrow> whole n es = es"
  by (induction es arbitrary: n) auto

lemma whole_prefix: "\<exists>k. whole n es = take k es"
proof (induction es arbitrary: n)
  case (Cons e es)
  obtain k where "whole (n - (HDR_SIZE + length (c_msg e))) es = take k es" using Cons.IH by blast
  then have "whole n (e # es) = take (if HDR_SIZE + length (c_msg e) \<le> n then Suc k else 0) (e # es)" by simp
  then show ?case by blast
qed simp

text \<open>The TTL of an entry times the percentage fits into 32 bits.\<close>

definition reloadable :: "cache_conf \<Rightarrow> cache_msg \<Rightarrow> bool" where
  "reloadable g e \<longleftrightarrow> - (2 ^ 31) \<le> sint (c_ttl e) * int (unat (g_cache_refresh g)) \<and> sint (c_ttl e) * int (unat (g_cache_refresh g)) < 2 ^ 31"

lemma cache_load_loop_eq:
  assumes "list_all entry_ok es" "distinct (map question (es0 @ es))" "cache_rep s as es0" "length es0 < unat (g_cache_size g)"
    "list_all (reloadable g) es"
  shows "\<exists>s' as'. cache_load_loop g be (take n (concat (map (dump be pad) es))) s = Some s'
    \<and> cache_rep s' as' (es0 @ map unadded (take (unat (g_cache_size g) - length es0) (whole n es)))"
  using assms
proof (induction es arbitrary: es0 s as n)
  case Nil
  then have "cache_load_loop g be [] s = Some s" by (simp add: cache_load_loop.simps load_def)
  then show ?case using Nil by auto
next
  case (Cons e es)
  let ?n = "HDR_SIZE + length (c_msg e)"
  have eok: "entry_ok e" "entry_wf e" "reloadable g e" using Cons.prems(1,5) by (simp_all add: entry_ok_def)
  show ?case
  proof (cases "?n \<le> n")
    case False
    have "take n (concat (map (dump be pad) (e # es))) = take n (dump be pad e)" using False by simp
    then have "load be (take n (concat (map (dump be pad) (e # es)))) = None"
      using load_torn [of e n be pad] entry_wf_length [OF eok(2)] False by simp
    then have "cache_load_loop g be (take n (concat (map (dump be pad) (e # es)))) s = Some s" by (simp add: cache_load_loop.simps)
    then show ?thesis using Cons.prems(3) False by auto
  next
    case whole: True
    let ?data = "take (n - ?n) (concat (map (dump be pad) es))" and ?a = "brk s"
    have t: "take n (concat (map (dump be pad) (e # es))) = dump be pad e @ ?data" using whole by simp
    have l: "load be (dump be pad e @ ?data) = Some (unadded e, ?data)"
      using load_dump [of e be pad ?data] entry_wf_length [OF eok(2)] by (simp add: unadded_def)
    have fit: "zig_i32 (sint (c_ttl (unadded e)) * int (unat (g_cache_refresh g))) \<noteq> None"
      using eok(3) by (simp add: reloadable_def unadded_def zig_i32_def)
    let ?s = "store_msg ?a (unadded e) (s\<lparr>brk := brk s + 1\<rparr>)"
    note N = store_new_rep [OF Cons.prems(3)]
    have "question (unadded e) \<notin> question ` set es0" using Cons.prems(2) by (auto simp: image_iff)
    from insert_tail_rep [OF N(1,3,2) _ this] obtain s1 n1 where s1: "map_add ?a ?s = Some s1"
      "link_to_tail Sentinel (Obj ?a) (lru s1) = Some n1" "cache_rep (s1\<lparr>lru := n1\<rparr>) (as @ [?a]) (es0 @ [unadded e])" using eok(1) by auto
    have ni: "nitems (s1\<lparr>lru := n1\<rparr>) = length es0 + 1" using cache_rep_nitems [OF s1(3)] by simp
    have run: "cache_load_loop g be (take n (concat (map (dump be pad) (e # es)))) s
        = (if length es0 + 1 \<ge> unat (g_cache_size g) then Some (s1\<lparr>lru := n1\<rparr>) else cache_load_loop g be ?data (s1\<lparr>lru := n1\<rparr>))"
      unfolding t using l s1(1,2) ni fit by (subst cache_load_loop.simps) (auto simp: Let_def)
    show ?thesis
    proof (cases "length es0 + 1 \<ge> unat (g_cache_size g)")
      case True
      then have "unat (g_cache_size g) - length es0 = 1" using Cons.prems(4) by simp
      then show ?thesis using run True s1(3) whole by (auto intro!: exI [of _ "as @ [?a]"])
    next
      case False
      have "distinct (map question ((es0 @ [unadded e]) @ es))" using Cons.prems(2) by auto
      moreover have "list_all entry_ok es" "length (es0 @ [unadded e]) < unat (g_cache_size g)" "list_all (reloadable g) es"
        using Cons.prems(1,5) False by simp_all
      ultimately obtain s' as' where "cache_load_loop g be ?data (s1\<lparr>lru := n1\<rparr>) = Some s'"
        "cache_rep s' as' ((es0 @ [unadded e]) @ map unadded (take (unat (g_cache_size g) - length (es0 @ [unadded e])) (whole (n - ?n) es)))"
        using Cons.IH [OF _ _ s1(3)] by blast
      moreover have "unat (g_cache_size g) - length es0 = Suc (unat (g_cache_size g) - length (es0 @ [unadded e]))"
        using False Cons.prems(4) by simp
      ultimately show ?thesis using run False whole by auto
    qed
  qed
qed

lemma cache_dump_load_eq:
  assumes "cache_rep s as es" "\<forall>e \<in> set es. clock_ok now e" "0 < g_cache_size g" "length es \<le> unat (g_cache_size g)"
    "\<forall>e \<in> set es. usable g (ttl_at now e) \<longrightarrow> reloadable g e"
  shows "\<exists>file. cache_dump g be pad now s = Some (Some file)
    \<and> (\<forall>n. \<exists>s' as'. cache_load g be (Some (take n file)) cache_initial = Some s'
        \<and> cache_rep s' as' (map unadded (whole n (filter (\<lambda>e. usable g (ttl_at now e)) es))))
    \<and> whole (length file) (filter (\<lambda>e. usable g (ttl_at now e)) es) = filter (\<lambda>e. usable g (ttl_at now e)) es"
proof -
  let ?es = "filter (\<lambda>e. usable g (ttl_at now e)) es" and ?file = "concat (map (dump be pad) (filter (\<lambda>e. usable g (ttl_at now e)) es))"
  have len: "length ?es \<le> unat (g_cache_size g)" using length_filter_le assms(4) by (rule order_trans)
  have "list_all entry_ok ?es" using cache_repD(3) [OF assms(1)] by (auto simp: list_all_iff)
  moreover have "distinct (map question ?es)" using cache_repD(4) [OF assms(1)] by (rule distinct_map_filter)
  moreover have "0 < unat (g_cache_size g)" using assms(3) by (simp add: word_gt_0 unat_gt_0)
  moreover have "list_all (reloadable g) ?es" using assms(5) by (auto simp: list_all_iff)
  ultimately have load: "\<exists>s' as'. cache_load g be (Some (take n ?file)) cache_initial = Some s' \<and> cache_rep s' as' (map unadded (whole n ?es))" for n
  proof -
    assume a: "list_all entry_ok ?es" "distinct (map question ?es)" "0 < unat (g_cache_size g)" "list_all (reloadable g) ?es"
    obtain k where "whole n ?es = take k ?es" using whole_prefix by blast
    then have "length (whole n ?es) \<le> unat (g_cache_size g)" using len by simp
    then have "take (unat (g_cache_size g)) (whole n ?es) = whole n ?es" by simp
    then show ?thesis
      using cache_load_loop_eq [of ?es "[]" cache_initial "[]" g be n pad] cache_rep_initial a assms(3) by (auto simp: cache_load_def)
  qed
  have "whole (length ?file) ?es = ?es" by (rule whole_all [of be pad]) simp
  then show ?thesis using cache_dump_eq [OF assms(1-3), of be pad] load by blast
qed

end
