(* ===== verification/Cache_Props.thy ===== *)
theory Cache_Props
  imports Cache_Disk
begin

text \<open>
  What is proved of the cache as a whole, from the packet that \<open>dns_check_reply\<close> accepts to the
  file that is written when the program ends, and for every history of calls.
\<close>

section \<open>Histories\<close>

text \<open>The options for TTLs are 32-bit integers.\<close>

definition options_ok :: "cache_conf \<Rightarrow> bool" where
  "options_ok g \<longleftrightarrow> g_cache_nodata_ttl g < 2 ^ 31 \<and> g_cache_min_ttl g < 2 ^ 31 \<and> g_cache_max_ttl g < 2 ^ 31"

text \<open>
  All states the cache goes through from time \<open>t0\<close> on, when it starts empty: time passes, at most
  34 years, queries are looked up and good replies are added, whatever their TTLs. A lookup or an
  insertion that is stuck (\<open>None\<close>) has no state after it.
\<close>

inductive cache_runs :: "cache_conf \<Rightarrow> ignore \<Rightarrow> int \<Rightarrow> int \<Rightarrow> cache_state \<Rightarrow> bool" for g ig t0 where
  start: "options_ok g \<Longrightarrow> cache_runs g ig t0 t0 cache_initial"
| tick: "cache_runs g ig t0 t s \<Longrightarrow> t \<le> t' \<Longrightarrow> t' < t0 + 2 ^ 30 \<Longrightarrow> cache_runs g ig t0 t' s"
| get: "cache_runs g ig t0 t s \<Longrightarrow> cache_get g t qmsg qn s = Some (outs, r, s') \<Longrightarrow> cache_runs g ig t0 t s'"
| add: "cache_runs g ig t0 t s \<Longrightarrow> good_reply m qn w hq rs
    \<Longrightarrow> cache_add g t resize ig m qn s = Some (b, out, m', s') \<Longrightarrow> cache_runs g ig t0 t s'"

text \<open>An entry was last updated between \<open>t0\<close> and now, and expires after \<open>t0\<close>.\<close>

definition time_ok :: "int \<Rightarrow> int \<Rightarrow> cache_msg \<Rightarrow> bool" where
  "time_ok t0 t e \<longleftrightarrow> t0 \<le> sint (c_update_time e) \<and> sint (c_update_time e) \<le> t \<and> t0 < sint (c_ttl e) + sint (c_update_time e)"

definition cache_inv :: "cache_conf \<Rightarrow> int \<Rightarrow> int \<Rightarrow> cache_state \<Rightarrow> bool" where
  "cache_inv g t0 t s \<longleftrightarrow> t0 \<le> t \<and> t < t0 + 2 ^ 30
     \<and> (\<exists>as es. cache_rep s as es \<and> length es \<le> unat (g_cache_size g) \<and> list_all (time_ok t0 t) es)"

lemma time_ok_clock:
  assumes "time_ok t0 t e" "0 \<le> t0" "t0 < 2 ^ 62" "t < t0 + 2 ^ 30"
  shows "clock_ok t e" "elapsed t e = t - sint (c_update_time e)" "ttl_at t e = sint (c_ttl e) + sint (c_update_time e) - t"
proof -
  show e: "elapsed t e = t - sint (c_update_time e)" using assms(1) by (simp add: elapsed_def time_ok_def)
  then show "ttl_at t e = sint (c_ttl e) + sint (c_update_time e) - t" by (simp add: ttl_at_def)
  show "clock_ok t e" using assms unfolding clock_ok_def e time_ok_def by simp
qed

lemma time_ok_aged:
  assumes "time_ok t0 t e" "0 \<le> t0" "t0 < 2 ^ 62" "t < t0 + 2 ^ 30" "entry_wf e"
  shows "time_ok t0 t ((aged t e)\<lparr>c_added_ip := True\<rparr>)"
proof -
  note c = time_ok_clock [OF assms(1-4)]
  note A = aged_fields [OF assms(5) c(1)]
  show ?thesis
  proof (cases "elapsed t e = 0")
    case True
    then show ?thesis using A(7) assms(1) by (simp add: time_ok_def)
  next
    case False
    then have "sint (c_update_time (aged t e)) = t" by (rule A(6))
    then show ?thesis using A(5) c(3) assms(1) by (simp add: time_ok_def)
  qed
qed

lemma time_ok_new:
  assumes "0 \<le> t0" "t0 < 2 ^ 62" "t0 \<le> t" "t < t0 + 2 ^ 30" "0 < ttl" "ttl < 2 ^ 31"
  shows "time_ok t0 t (new_entry g t m qn ttl)"
  using sint_i32 [of ttl] sint_i64 [of t] assms by (simp add: new_entry_def time_ok_def)

lemma find_entry_in: "find_entry q es = Some e \<Longrightarrow> e \<in> set es"
  by (auto simp: find_entry_def find_Some_iff)

lemma cache_inv_fits:
  assumes "list_all (time_ok t0 t) es" "0 \<le> t0" "t0 < 2 ^ 62" "t < t0 + 2 ^ 30" "ttl < 2 ^ 30" "ttl * int (unat (g_cache_refresh g)) < 2 ^ 31"
  shows "add_fits g t ttl q es"
proof -
  have "clock_ok t x \<and> ttl - ttl_at t x < 2 ^ 31" if "find_entry q es = Some x" for x
  proof -
    have "time_ok t0 t x" using find_entry_in [OF that] assms(1) by (simp add: list_all_iff)
    then show ?thesis using time_ok_clock [of t0 t x] assms(2-5) by (simp add: time_ok_def)
  qed
  then show ?thesis using assms(5,6) by (intro add_fitsI) simp_all
qed

lemma cache_inv_get:
  assumes inv: "cache_inv g t0 t s" and t0: "0 \<le> t0" "t0 < 2 ^ 62" and q: "dns_question qmsg qn = Some q"
  obtains outs r s' where "cache_get g t qmsg qn s = Some (outs, r, s')" "cache_inv g t0 t s'"
proof (cases "0 < g_cache_size g")
  case False
  then show ?thesis using that [of None None s] inv by (simp add: cache_get_def)
next
  case True
  obtain as es where r: "t0 \<le> t" "t < t0 + 2 ^ 30" "cache_rep s as es" "length es \<le> unat (g_cache_size g)" "list_all (time_ok t0 t) es"
    using inv by (auto simp: cache_inv_def)
  have el: "clock_ok t e" "entry_wf e" if "e \<in> set es" for e
    using that r(5) time_ok_clock(1) [OF _ t0 r(2)] cache_repD(3) [OF r(3)] by (auto simp: list_all_iff entry_ok_def)
  have "\<forall>e. find_entry q es = Some e \<longrightarrow> clock_ok t e" using find_entry_in el(1) by blast
  from cache_get_eq [OF r(3) q True this] obtain s' as' where
    s': "cache_get g t qmsg qn s = Some (fst (spec_get g t q es), fst (snd (spec_get g t q es)), s')"
      "cache_rep s' as' (snd (snd (spec_get g t q es)))" by blast
  have "length (snd (snd (spec_get g t q es))) \<le> unat (g_cache_size g) \<and> list_all (time_ok t0 t) (snd (snd (spec_get g t q es)))"
  proof (cases "find_entry q es")
    case None
    then show ?thesis using r by (simp add: spec_get_def)
  next
    case (Some e)
    then have e: "e \<in> set es" "question e = q" by (auto simp: find_entry_def find_Some_iff)
    have "length (others q es) < length es" unfolding others_def by (rule length_filter_less [OF e(1)]) (simp add: e(2))
    moreover have "list_all (time_ok t0 t) (others q es)" using r(5) by (auto simp: others_def list_all_iff)
    moreover have "time_ok t0 t ((aged t e)\<lparr>c_added_ip := True\<rparr>)"
      using r(5) e(1) el(2) by (intro time_ok_aged [OF _ t0 r(2)]) (simp_all add: list_all_iff)
    ultimately show ?thesis using r(4) Some by (auto simp: spec_get_def Let_def)
  qed
  then show ?thesis using that s' r(1,2) unfolding cache_inv_def by blast
qed

lemma cache_inv_step:
  assumes inv: "cache_inv g t0 t s" and t0: "0 \<le> t0" "t0 < 2 ^ 62" and ig: "ignore_inv ig D"
    and m: "good_reply m qn w hq rs" "reply_ttl g rs < 2 ^ 31" and run: "cache_add g t resize ig m qn s = Some (b, out, m', s')"
  shows "cache_inv g t0 t s'"
proof (cases "0 < g_cache_size g")
  case False
  then show ?thesis using run inv by (simp add: cache_add_def)
next
  case True
  obtain as es where r: "t0 \<le> t" "t < t0 + 2 ^ 30" "cache_rep s as es" "length es \<le> unat (g_cache_size g)" "list_all (time_ok t0 t) es"
    using inv by (auto simp: cache_inv_def)
  let ?e = "new_entry g t (hq @ encode_rrs (clamped g rs)) qn (reply_ttl g rs)"
  show ?thesis
  proof (cases "ignored D w \<or> reply_ttl g rs \<le> 0")
    case skip: True
    then show ?thesis using cache_add_skips(1) [OF m(1) True ig skip, of t resize s] run inv by simp
  next
    case store: False
    have clk: "\<forall>e \<in> set es. clock_ok t e" using r(5) time_ok_clock(1) [OF _ t0 r(2)] by (simp add: list_all_iff)
    have "add_fits g t (reply_ttl g rs) (drop HEADER_LEN hq) es"
      using cache_add_fails_iff [OF r(3) m(1) ig m(2) clk, of resize] run True store by simp
    from cache_add_eq [OF r(3) m(1) True ig this, of resize] obtain as' where
      s': "cache_rep s' as' (snd (spec_add g t ?e es))" using run store by auto
    have "list_all (time_ok t0 t) (snd (spec_add g t ?e es))"
      using r(5) time_ok_new [OF t0 r(1,2) _ m(2)] store
      by (auto simp: spec_add_def others_def list_all_iff split: option.splits dest: in_set_butlastD)
    then show ?thesis using s' r(1,2) spec_add_length [OF r(4) True] unfolding cache_inv_def by blast
  qed
qed

lemma cache_inv_add:
  assumes inv: "cache_inv g t0 t s" and t0: "0 \<le> t0" "t0 < 2 ^ 62" and ig: "ignore_inv ig D"
    and m: "good_reply m qn w hq rs" "reply_ttl g rs < 2 ^ 30" "reply_ttl g rs * int (unat (g_cache_refresh g)) < 2 ^ 31"
  obtains b out m' s' where "cache_add g t resize ig m qn s = Some (b, out, m', s')" "cache_inv g t0 t s'"
proof -
  obtain as es where r: "t0 \<le> t" "t < t0 + 2 ^ 30" "cache_rep s as es" "list_all (time_ok t0 t) es"
    using inv by (auto simp: cache_inv_def)
  have clk: "\<forall>e \<in> set es. clock_ok t e" using r(4) time_ok_clock(1) [OF _ t0 r(2)] by (simp add: list_all_iff)
  have ttl: "reply_ttl g rs < 2 ^ 31" using m(2) by simp
  have "cache_add g t resize ig m qn s \<noteq> None"
    using cache_add_fails_iff [OF r(3) m(1) ig ttl clk, of resize] cache_inv_fits [OF r(4) t0 r(2) m(2,3)] by simp
  then obtain b out m' s' where "cache_add g t resize ig m qn s = Some (b, out, m', s')" by auto
  then show ?thesis using that cache_inv_step [OF inv t0 ig m(1) ttl] by blast
qed

lemma reply_ttl_range:
  assumes "options_ok g"
  shows "reply_ttl g rs < 2 ^ 31"
proof (cases "non_opt rs = []")
  case True
  then show ?thesis using assms by (simp add: reply_ttl_def options_ok_def)
next
  case False
  let ?ts = "map (\<lambda>r. clamp_ttl (g_cache_min_ttl g) (g_cache_max_ttl g) (rr_sttl r)) (non_opt rs)"
  have "Min (set ?ts) \<in> set ?ts" using False by (intro Min_in) auto
  then obtain r where "Min (set ?ts) = clamp_ttl (g_cache_min_ttl g) (g_cache_max_ttl g) (rr_sttl r)" by auto
  then have "reply_ttl g rs = clamp_ttl (g_cache_min_ttl g) (g_cache_max_ttl g) (rr_sttl r)" using False by (simp add: reply_ttl_def)
  then show ?thesis using assms sint_u32_range(2) [of "rr_ttl r"] by (simp add: clamp_ttl_def rr_sttl_def options_ok_def Let_def)
qed

lemma cache_runs_options: "cache_runs g ig t0 t s \<Longrightarrow> options_ok g"
  by (induction rule: cache_runs.induct)

lemma cache_runs_inv:
  assumes "cache_runs g ig t0 t s" "0 \<le> t0" "t0 < 2 ^ 62" "ignore_inv ig D"
  shows "cache_inv g t0 t s"
  using assms(1)
proof (induction rule: cache_runs.induct)
  case start
  then show ?case using cache_rep_initial by (fastforce simp: cache_inv_def)
next
  case (tick t s t')
  then show ?case by (fastforce simp: cache_inv_def time_ok_def list_all_iff)
next
  case (get t s qmsg qn outs r s')
  show ?case
  proof (cases "0 < g_cache_size g")
    case False
    then show ?thesis using get by (simp add: cache_get_def)
  next
    case True
    then obtain q where "dns_question qmsg qn = Some q" using get.hyps(2) by (auto simp: cache_get_def bind_eq_Some_conv)
    from cache_inv_get [OF get.IH assms(2,3) this] show ?thesis using get.hyps(2) by (metis option.inject prod.inject)
  qed
next
  case (add t s m qn w hq rs resize b out m' s')
  show ?case by (rule cache_inv_step [OF add.IH assms(2-4) add.hyps(2) reply_ttl_range [OF cache_runs_options [OF assms(1)]] add.hyps(3)])
qed

lemma spec_add_head: "fst (spec_add g t e es) \<Longrightarrow> \<exists>es'. snd (spec_add g t e es) = e # es'"
  by (auto simp: spec_add_def split: option.splits if_splits)

section \<open>A sample\<close>

definition sample_conf :: cache_conf where
  "sample_conf = \<lparr>g_cache_size = 2, g_cache_stale = 0, g_cache_refresh = 20, g_cache_nodata_ttl = 60, g_cache_min_ttl = 0, g_cache_max_ttl = 0\<rparr>"

lemma sample_good:
  obtains w hq rs where "good_reply sample_reply 3 w hq rs" "reply_ttl sample_conf rs = 300"
proof -
  have "(35 :: int) \<le> int (length sample_reply)" "dns_is_good sample_reply = Some True" "ascii_buf None"
    by (code_simp, code_simp, simp add: ascii_buf_def)
  from checked_good_reply [OF sample_checked this(1,3,2)] obtain w hq rs where
    g: "good_reply (take (unat (35 :: u16)) sample_reply) 3 w hq rs" by blast
  have "take (unat (35 :: u16)) sample_reply = sample_reply" by code_simp
  then have r: "good_reply sample_reply 3 w hq rs" using g by simp
  have "map_option fst (dns_get_ttl sample_reply (int (length sample_reply)) 3 60 0 0) = Some 300" by code_simp
  moreover have "dns_get_ttl sample_reply (int (length sample_reply)) 3 60 0 0 = Some (reply_ttl sample_conf rs, hq @ encode_rrs (clamped sample_conf rs))"
    using good_reply_ttl(2) [OF r, of sample_conf] by (simp add: sample_conf_def)
  ultimately have "reply_ttl sample_conf rs = 300" by simp
  then show ?thesis using r that by blast
qed

lemma sample_size: "0 < g_cache_size sample_conf" "unat (g_cache_size sample_conf) = 2" "unat (g_cache_refresh sample_conf) = 20"
  by (simp_all add: sample_conf_def)

lemma sample_fits: "add_fits sample_conf 1000 300 q []"
  by (simp add: add_fits_def sample_size find_entry_def)

lemma sample_options: "options_ok sample_conf"
  by (simp add: options_ok_def sample_conf_def)

text \<open>The cache with this one reply in it.\<close>

lemma sample_cached:
  obtains s as e where "cache_rep s as [e]" "dns_question sample_reply 3 = Some (question e)" "clock_ok 1000 e" "ttl_at 1000 e = 300"
    "c_ttl e = 300" "length (c_msg e) = 35"
proof -
  obtain w hq rs where g: "good_reply sample_reply 3 w hq rs" "reply_ttl sample_conf rs = 300" by (rule sample_good)
  let ?e = "new_entry sample_conf 1000 (hq @ encode_rrs (clamped sample_conf rs)) 3 300"
  obtain s as where "cache_rep s as (snd (spec_add sample_conf 1000 ?e []))"
    using cache_add_eq [OF cache_rep_initial g(1) sample_size(1) ignore_inv_initial, where now = 1000 and resize = "\<lambda>_ _. True"] sample_fits g(2) by (auto simp: ignored_def)
  then have r: "cache_rep s as [?e]" by (simp add: spec_add_def find_entry_def sample_size)
  have "sint (c_update_time ?e) = 1000" "sint (c_ttl ?e) = 300"
    using sint_i64 [of 1000] sint_i32 [of 300] by (simp_all add: new_entry_def)
  then have "clock_ok 1000 ?e" "ttl_at 1000 ?e = 300" by (simp_all add: clock_ok_def ttl_at_def elapsed_def)
  have "length (hq @ encode_rrs rs) = length sample_reply" using g(1) by (simp add: good_reply_def)
  moreover have "length sample_reply = 35" by code_simp
  ultimately have "length (c_msg ?e) = 35" "c_ttl ?e = 300" by (simp_all add: new_entry_def)
  moreover note \<open>clock_ok 1000 ?e\<close> \<open>ttl_at 1000 ?e = 300\<close>
  moreover have "question ?e = drop HEADER_LEN hq" using new_entry_ok(3) [OF good_reply_ttl(3) [OF g(1)], of 300 sample_conf 1000] by simp
  moreover have "dns_question sample_reply 3 = Some (drop HEADER_LEN hq)"
    using g(1) reply_question [of hq 3 w "length rs" "encode_rrs rs"] unfolding good_reply_def by metis
  ultimately show ?thesis using that r by metis
qed

section \<open>Properties\<close>

text \<open>
  C2: What is answered from the cache. A good reply that \<open>dns_check_reply\<close> has accepted and that
  \<open>cache.add\<close> has stored, at any point of any history of the cache, is what \<open>cache.get\<close>
  returns for its question until its TTL is over: the same bytes, with the TTL of every record
  lowered by the seconds that have passed, and the smallest TTL lowered in the same way.
\<close>

theorem cached_reply_served:
  assumes "dns_check_reply msg len asc = Some (True, msg', asc', Some qn, Some newlen)" "len \<le> int (length msg)" "ascii_buf asc"
    "dns_is_good msg = Some True"
    and "cache_runs g ig t0 t s" "0 \<le> t0" "t0 < 2 ^ 62" "ignore_inv ig D" "0 < g_cache_size g"
  shows "\<exists>w hq rs. good_reply (take (unat newlen) msg') qn w hq rs
    \<and> (reply_ttl g rs < 2 ^ 30 \<and> reply_ttl g rs * int (unat (g_cache_refresh g)) < 2 ^ 31 \<longrightarrow>
        (\<exists>b out m' s'. cache_add g t resize ig (take (unat newlen) msg') qn s = Some (b, out, m', s')
          \<and> (b \<longrightarrow> (\<forall>t' qmsg qn'. t \<le> t' \<and> t' < t + reply_ttl g rs \<and> dns_question qmsg qn' = Some (drop HEADER_LEN hq) \<longrightarrow>
               (\<exists>ttl_r s''. cache_get g t' qmsg qn' s' = Some (Some (reply_ttl g rs - (t' - t), ttl_r, False),
                  Some (hq @ encode_rrs (if t' = t then clamped g rs else map (update_rr (t - t')) (clamped g rs))), s''))))))"
proof -
  obtain w hq rs where r: "good_reply (take (unat newlen) msg') qn w hq rs" by (rule checked_good_reply [OF assms(1-4)])
  let ?m = "take (unat newlen) msg'" and ?ttl = "reply_ttl g rs" and ?q = "drop HEADER_LEN hq"
  let ?e = "new_entry g t (hq @ encode_rrs (clamped g rs)) qn ?ttl"
  have "\<exists>b out m' s'. cache_add g t resize ig ?m qn s = Some (b, out, m', s')
      \<and> (b \<longrightarrow> 0 < ?ttl \<and> (\<exists>as es. cache_rep s' as (?e # es)))" if fit: "?ttl < 2 ^ 30" "?ttl * int (unat (g_cache_refresh g)) < 2 ^ 31"
  proof -
    have "cache_inv g t0 t s" by (rule cache_runs_inv [OF assms(5-8)])
    then obtain as es where i: "t < t0 + 2 ^ 30" "cache_rep s as es" "list_all (time_ok t0 t) es" by (auto simp: cache_inv_def)
    from cache_add_eq [OF i(2) r assms(9,8) cache_inv_fits [OF i(3) assms(6,7) i(1) fit], of resize] obtain out m' s' as' where
      a: "cache_add g t resize ig ?m qn s = Some (\<not> ignored D w \<and> 0 < ?ttl \<and> fst (spec_add g t ?e es), out, m', s')"
        "cache_rep s' as' (if ignored D w \<or> ?ttl \<le> 0 then es else snd (spec_add g t ?e es))" by blast
    have "\<exists>as es. cache_rep s' as (?e # es)" if b: "\<not> ignored D w" "0 < ?ttl" "fst (spec_add g t ?e es)"
    proof -
      obtain es' where "snd (spec_add g t ?e es) = ?e # es'" using spec_add_head [OF b(3)] by blast
      then have "cache_rep s' as' (?e # es')" using a(2) b by simp
      then show ?thesis by blast
    qed
    then show ?thesis using a(1) by blast
  qed
  moreover have "\<exists>ttl_r s''. cache_get g t' qmsg qn' s' = Some (Some (?ttl - (t' - t), ttl_r, False),
      Some (hq @ encode_rrs (if t' = t then clamped g rs else map (update_rr (t - t')) (clamped g rs))), s'')"
    if st: "cache_rep s' as (?e # es)" "?ttl < 2 ^ 30" "0 < ?ttl" and t': "t \<le> t'" "t' < t + ?ttl" "dns_question qmsg qn' = Some ?q"
    for as es s' t' qmsg qn'
  proof -
    have tt: "t0 \<le> t" "t < t0 + 2 ^ 30" using cache_runs_inv [OF assms(5-8)] by (simp_all add: cache_inv_def)
    have lim: "?ttl < 2 ^ 31" using st(2) by simp
    note E = new_entry_ok [OF good_reply_ttl(3) [OF r] st(3) lim, of g t]
    have up: "sint (c_update_time ?e) = t" using sint_i64 [of t] tt assms(6,7) by (simp add: new_entry_def)
    then have el: "elapsed t' ?e = t' - t" "ttl_at t' ?e = ?ttl - (t' - t)" using t'(1) E(4) by (simp_all add: elapsed_def ttl_at_def)
    have clk: "clock_ok t' ?e" unfolding clock_ok_def el(1) E(4) using tt assms(6,7) st(2) t'(1,2) by simp
    have f: "find_entry ?q (?e # es) = Some ?e" using E(3) by (simp add: find_entry_def)
    have msg: "c_msg (aged t' ?e) = hq @ encode_rrs (if t' = t then clamped g rs else map (update_rr (t - t')) (clamped g rs))"
      using msg_update_ttl_eq [OF E(1) clk] msg_update_ttl_now [OF clk] el(1) by (auto simp: aged_def new_entry_def)
    have "c_added_ip ?e" by (simp add: new_entry_def)
    moreover have "usable g (ttl_at t' ?e)" using el(2) t'(2) by (simp add: usable_def)
    ultimately show ?thesis
      using cache_get_eq [OF st(1) t'(3) assms(9), of t'] clk f msg el(2) by (auto simp: spec_get_def Let_def)
  qed
  ultimately show ?thesis using r by blast
qed

theorem cached_reply_served_witness:
  "\<exists>qn b out m' s'. cache_add sample_conf 1000 (\<lambda>_ _. True) ignore_initial sample_reply qn cache_initial = Some (b, out, m', s')"
proof -
  have g: "(35 :: int) \<le> int (length sample_reply)" "dns_is_good sample_reply = Some True" "ascii_buf None"
    by (code_simp, code_simp, simp add: ascii_buf_def)
  have t0: "(0 :: int) \<le> 1000" "(1000 :: int) < 2 ^ 62" by simp_all
  obtain w hq rs where r: "good_reply (take (unat (35 :: u16)) sample_reply) 3 w hq rs"
    "reply_ttl sample_conf rs < 2 ^ 30 \<and> reply_ttl sample_conf rs * int (unat (g_cache_refresh sample_conf)) < 2 ^ 31 \<longrightarrow>
      (\<exists>b out m' s'. cache_add sample_conf 1000 (\<lambda>_ _. True) ignore_initial (take (unat (35 :: u16)) sample_reply) 3 cache_initial = Some (b, out, m', s'))"
    using cached_reply_served [OF sample_checked g(1,3,2) cache_runs.start [OF sample_options, of ignore_initial 1000] t0 ignore_inv_initial sample_size(1),
        where resize = "\<lambda>_ _. True"]
    by blast
  have t: "take (unat (35 :: u16)) sample_reply = sample_reply" by code_simp
  have "map_option fst (dns_get_ttl sample_reply (int (length sample_reply)) 3 60 0 0) = Some 300" by code_simp
  moreover have "dns_get_ttl sample_reply (int (length sample_reply)) 3 60 0 0 = Some (reply_ttl sample_conf rs, hq @ encode_rrs (clamped sample_conf rs))"
    using good_reply_ttl(2) [OF r(1) [unfolded t], of sample_conf] by (simp add: sample_conf_def)
  ultimately have "reply_ttl sample_conf rs = 300" by simp
  then have "\<exists>b out m' s'. cache_add sample_conf 1000 (\<lambda>_ _. True) ignore_initial sample_reply 3 cache_initial = Some (b, out, m', s')"
    using r(2) sample_size(3) unfolding t by simp
  then show ?thesis by blast
qed

text \<open>
  C10: Insertion into the cache. \<open>cache.add\<close> with its hash map, its linked list and the reuse of
  memory does what the specification does on the list of entries, most recently used first. It
  returns true exactly if the reply is not below an ignored domain, has a positive TTL and is
  not a near duplicate; the cache keeps at most \<open>cache_size\<close> entries and drops the least
  recently used one.
\<close>

theorem cache_add_refines:
  assumes "cache_rep s as es" "good_reply m qn w hq rs" "0 < g_cache_size g" "ignore_inv ig D" "length es \<le> unat (g_cache_size g)"
    "add_fits g now (reply_ttl g rs) (drop HEADER_LEN hq) es"
  shows "\<exists>out m' s' as'. let e = new_entry g now (hq @ encode_rrs (clamped g rs)) qn (reply_ttl g rs);
        stores = (\<not> ignored D w \<and> 0 < reply_ttl g rs); es' = (if stores then snd (spec_add g now e es) else es)
      in cache_add g now resize ig m qn s = Some (stores \<and> fst (spec_add g now e es), out, m', s')
        \<and> cache_rep s' as' es' \<and> length es' \<le> unat (g_cache_size g)"
proof -
  let ?e = "new_entry g now (hq @ encode_rrs (clamped g rs)) qn (reply_ttl g rs)"
  obtain out m' s' as' where a: "cache_add g now resize ig m qn s = Some (\<not> ignored D w \<and> 0 < reply_ttl g rs \<and> fst (spec_add g now ?e es), out, m', s')"
    "cache_rep s' as' (if ignored D w \<or> reply_ttl g rs \<le> 0 then es else snd (spec_add g now ?e es))"
    using cache_add_eq [OF assms(1-4,6), of resize] by blast
  have "(if ignored D w \<or> reply_ttl g rs \<le> 0 then es else snd (spec_add g now ?e es))
      = (if \<not> ignored D w \<and> 0 < reply_ttl g rs then snd (spec_add g now ?e es) else es)" by auto
  then show ?thesis
    using a assms(5) spec_add_length [OF assms(5,3), of now ?e]
    by (intro exI [of _ out] exI [of _ m'] exI [of _ s'] exI [of _ as']) (simp add: Let_def)
qed

theorem cache_add_refines_witness:
  "\<exists>out m' s' e. cache_add sample_conf 1000 (\<lambda>_ _. False) ignore_initial sample_reply 3 cache_initial = Some (True, out, m', s')
    \<and> (\<exists>as. cache_rep s' as [e])"
proof -
  obtain w hq rs where g: "good_reply sample_reply 3 w hq rs" "reply_ttl sample_conf rs = 300" by (rule sample_good)
  have fit: "add_fits sample_conf 1000 (reply_ttl sample_conf rs) (drop HEADER_LEN hq) []" using sample_fits g(2) by simp
  have n: "length ([] :: cache_msg list) \<le> unat (g_cache_size sample_conf)" by simp
  show ?thesis
    using cache_add_refines [OF cache_rep_initial g(1) sample_size(1) ignore_inv_initial n fit, of "\<lambda>_ _. False"] g(2)
    by (simp add: Let_def ignored_def spec_add_def find_entry_def sample_size(2)) blast
qed

text \<open>
  C11: Lookup in the cache. \<open>cache.get\<close> does what the specification does on the list of entries:
  it finds the entry for exactly the question asked, ages it and moves it to the front, or drops
  it when it is expired and not usable as stale; nothing else changes.
\<close>

theorem cache_get_refines:
  assumes "cache_rep s as es" "dns_question qmsg qn = Some q" "0 < g_cache_size g" "\<forall>e. find_entry q es = Some e \<longrightarrow> clock_ok now e"
  shows "\<exists>s' as'. cache_get g now qmsg qn s = Some (fst (spec_get g now q es), fst (snd (spec_get g now q es)), s')
    \<and> cache_rep s' as' (snd (snd (spec_get g now q es)))"
  by (rule cache_get_eq [OF assms])

theorem cache_get_refines_witness:
  "\<exists>s s' outs r. cache_get sample_conf 1000 sample_reply 3 s = Some (outs, r, s') \<and> outs \<noteq> None"
proof -
  obtain s as e where r: "cache_rep s as [e]" "dns_question sample_reply 3 = Some (question e)" "clock_ok 1000 e" "ttl_at 1000 e = 300"
    by (rule sample_cached)
  have f: "find_entry (question e) [e] = Some e" by (simp add: find_entry_def)
  then have "\<forall>x. find_entry (question e) [e] = Some x \<longrightarrow> clock_ok 1000 x" using r(3) by simp
  from cache_get_refines [OF r(1,2) sample_size(1) this] obtain s' where
    "cache_get sample_conf 1000 sample_reply 3 s = Some (fst (spec_get sample_conf 1000 (question e) [e]),
      fst (snd (spec_get sample_conf 1000 (question e) [e])), s')" by blast
  moreover have "fst (spec_get sample_conf 1000 (question e) [e]) \<noteq> None" using f r(4) by (simp add: spec_get_def Let_def)
  ultimately show ?thesis by blast
qed

text \<open>
  C3: Every history of the cache is safe, up to two overflows that are stated exactly. Whatever
  queries and good replies came since the start, the hash map and the recency list hold the same
  entries, at most \<open>cache_size\<close>; the next lookup and a dump run to their end: no pointer left
  undefined is used, no integer overflows, no assertion fails. The next insertion of a good reply
  fails if and only if the reply is to be stored and an \<^verbatim>\<open>i32\<close> of the code overflows: the product of
  the TTL and the refresh percentage, or the difference to the TTL of the entry that it replaces.
\<close>

theorem cache_history_safe:
  assumes "cache_runs g ig t0 t s" "0 \<le> t0" "t0 < 2 ^ 62" "ignore_inv ig D"
  shows "(\<exists>as es. cache_rep s as es \<and> length es \<le> unat (g_cache_size g) \<and> nitems s = length es
      \<and> (\<forall>resize m qn w hq rs. good_reply m qn w hq rs \<longrightarrow> (cache_add g t resize ig m qn s = None \<longleftrightarrow>
          0 < g_cache_size g \<and> \<not> ignored D w \<and> 0 < reply_ttl g rs
          \<and> (case find_entry (drop HEADER_LEN hq) es of
               None \<Rightarrow> 2 ^ 31 \<le> reply_ttl g rs * int (unat (g_cache_refresh g))
             | Some old \<Rightarrow> 2 ^ 31 \<le> reply_ttl g rs - ttl_at t old
                 \<or> 2 < \<bar>reply_ttl g rs - ttl_at t old\<bar> \<and> 2 ^ 31 \<le> reply_ttl g rs * int (unat (g_cache_refresh g))))))
    \<and> (\<forall>qmsg qn q. dns_question qmsg qn = Some q \<longrightarrow> cache_get g t qmsg qn s \<noteq> None)
    \<and> (\<forall>be pad. cache_dump g be pad t s \<noteq> None)"
proof (intro conjI allI impI)
  have inv: "cache_inv g t0 t s" by (rule cache_runs_inv [OF assms])
  then obtain as es where r: "t < t0 + 2 ^ 30" "cache_rep s as es" "length es \<le> unat (g_cache_size g)" "list_all (time_ok t0 t) es"
    by (auto simp: cache_inv_def)
  have clk: "\<forall>e \<in> set es. clock_ok t e" using r(4) time_ok_clock(1) [OF _ assms(2,3) r(1)] by (simp add: list_all_iff)
  have ttl: "reply_ttl g rs < 2 ^ 31" for rs by (rule reply_ttl_range [OF cache_runs_options [OF assms(1)]])
  have c: "clock_ok t x" if "find_entry q es = Some x" for q x using find_entry_in [OF that] clk by blast
  have fits: "\<not> add_fits g t (reply_ttl g rs) q es \<longleftrightarrow> 0 < reply_ttl g rs \<and> (case find_entry q es of
        None \<Rightarrow> 2 ^ 31 \<le> reply_ttl g rs * int (unat (g_cache_refresh g))
      | Some old \<Rightarrow> 2 ^ 31 \<le> reply_ttl g rs - ttl_at t old
          \<or> 2 < \<bar>reply_ttl g rs - ttl_at t old\<bar> \<and> 2 ^ 31 \<le> reply_ttl g rs * int (unat (g_cache_refresh g)))" for rs q
    using ttl [of rs] c [of q] by (cases "find_entry q es") (auto simp: add_fits_def)
  show "\<exists>as es. cache_rep s as es \<and> length es \<le> unat (g_cache_size g) \<and> nitems s = length es
      \<and> (\<forall>resize m qn w hq rs. good_reply m qn w hq rs \<longrightarrow> (cache_add g t resize ig m qn s = None \<longleftrightarrow>
          0 < g_cache_size g \<and> \<not> ignored D w \<and> 0 < reply_ttl g rs
          \<and> (case find_entry (drop HEADER_LEN hq) es of
               None \<Rightarrow> 2 ^ 31 \<le> reply_ttl g rs * int (unat (g_cache_refresh g))
             | Some old \<Rightarrow> 2 ^ 31 \<le> reply_ttl g rs - ttl_at t old
                 \<or> 2 < \<bar>reply_ttl g rs - ttl_at t old\<bar> \<and> 2 ^ 31 \<le> reply_ttl g rs * int (unat (g_cache_refresh g)))))"
    using r(2,3) cache_rep_nitems [OF r(2)] cache_add_fails_iff [OF r(2) _ assms(4) ttl clk, unfolded fits] by blast
  show "cache_get g t qmsg qn s \<noteq> None" if "dns_question qmsg qn = Some q" for qmsg qn q
    using cache_inv_get [OF inv assms(2,3) that] by (metis option.distinct(1))
  show "cache_dump g be pad t s \<noteq> None" for be pad
    using cache_dump_eq [OF r(2) clk] by (cases "0 < g_cache_size g") (simp_all add: cache_dump_def)
qed

theorem cache_history_safe_witness:
  "\<exists>s. cache_runs sample_conf ignore_initial 1000 1005 s \<and> nitems s = 1
    \<and> cache_get sample_conf 1005 sample_reply 3 s \<noteq> None \<and> cache_dump sample_conf False 0 1005 s \<noteq> None"
proof -
  obtain w hq rs where g: "good_reply sample_reply 3 w hq rs" "reply_ttl sample_conf rs = 300" by (rule sample_good)
  have fit: "add_fits sample_conf 1000 (reply_ttl sample_conf rs) (drop HEADER_LEN hq) []" using sample_fits g(2) by simp
  have "spec_add sample_conf 1000 e [] = (True, [e])" for e by (simp add: spec_add_def find_entry_def sample_size)
  then obtain out m' s as e where s: "cache_add sample_conf 1000 (\<lambda>_ _. False) ignore_initial sample_reply 3 cache_initial = Some (True, out, m', s)"
    "cache_rep s as [e]"
    using cache_add_eq [OF cache_rep_initial g(1) sample_size(1) ignore_inv_initial fit, of "\<lambda>_ _. False"] g(2)
    by (auto simp: ignored_def)
  have "cache_runs sample_conf ignore_initial 1000 1000 s"
    by (rule cache_runs.add [OF cache_runs.start [OF sample_options] g(1) s(1)])
  then have run: "cache_runs sample_conf ignore_initial 1000 1005 s" by (rule cache_runs.tick) simp_all
  have t: "(0 :: int) \<le> 1000" "(1000 :: int) < 2 ^ 62" by simp_all
  have "dns_question sample_reply 3 \<noteq> None" by code_simp
  then show ?thesis using cache_history_safe [OF run t ignore_inv_initial] run cache_rep_nitems [OF s(2)] by auto
qed

text \<open>
  C12: A restart keeps the cache, whole or in part. From the file that \<open>cache.dump\<close> writes,
  \<open>cache.load\<close> builds a cache with exactly the entries that were not expired, in the same order of
  use, each marked so that its addresses are added to the sets once more. If the file was cut off
  after any number \<open>n\<close> of bytes, within a header or within a reply, the cache has exactly the
  entries that are complete in what is left. The TTLs have to fit when \<open>new\<close> multiplies them by the
  percentage again.
\<close>

theorem cache_dump_load:
  assumes "cache_rep s as es" "\<forall>e \<in> set es. clock_ok now e" "0 < g_cache_size g" "length es \<le> unat (g_cache_size g)"
    "\<forall>e \<in> set es. usable g (ttl_at now e) \<longrightarrow> reloadable g e"
  shows "\<exists>file. cache_dump g be pad now s = Some (Some file)
    \<and> (\<forall>n. \<exists>s' as'. cache_load g be (Some (take n file)) cache_initial = Some s'
        \<and> cache_rep s' as' (map unadded (whole n (filter (\<lambda>e. usable g (ttl_at now e)) es))))
    \<and> whole (length file) (filter (\<lambda>e. usable g (ttl_at now e)) es) = filter (\<lambda>e. usable g (ttl_at now e)) es"
  by (rule cache_dump_load_eq [OF assms])

theorem cache_dump_load_witness:
  "\<exists>s file s' as' e. cache_dump sample_conf True 0 1000 s = Some (Some file)
    \<and> cache_load sample_conf True (Some file) cache_initial = Some s' \<and> cache_rep s' as' [unadded e]
    \<and> (\<exists>s0 as0. cache_load sample_conf True (Some (take 30 file)) cache_initial = Some s0 \<and> cache_rep s0 as0 [])"
proof -
  obtain s as e where r: "cache_rep s as [e]" "clock_ok 1000 e" "ttl_at 1000 e = 300" "c_ttl e = 300" "length (c_msg e) = 35" by (rule sample_cached)
  have h: "\<forall>x \<in> set [e]. clock_ok 1000 x" "length [e] \<le> unat (g_cache_size sample_conf)"
    "\<forall>x \<in> set [e]. usable sample_conf (ttl_at 1000 x) \<longrightarrow> reloadable sample_conf x"
    using r(2,4) by (simp_all add: sample_size reloadable_def)
  have us: "filter (\<lambda>x. usable sample_conf (ttl_at 1000 x)) [e] = [e]" using r(3) by (simp add: usable_def)
  from cache_dump_load [OF r(1) h(1) sample_size(1) h(2,3), of True 0, unfolded us] obtain db where
    f: "cache_dump sample_conf True 0 1000 s = Some (Some db)" "whole (length db) [e] = [e]"
      "\<And>n. \<exists>s' as'. cache_load sample_conf True (Some (take n db)) cache_initial = Some s' \<and> cache_rep s' as' (map unadded (whole n [e]))"
    by blast
  have "whole 30 [e] = []" using r(5) by (simp add: HDR_SIZE_def)
  then show ?thesis using f(1) f(3) [of "length db"] f(3) [of 30] f(2) by fastforce
qed

end
