(* ===== verification/Spec2Isabelle.thy ===== *)
theory Spec2Isabelle
  imports Tag Dns_Check Dnl_List Ipset_Err Ipset_Wire Reply Cache_Mgr_Correct Misc Cache_Props
begin

text \<open>
  A verification development for the C core of chinadns-ng, a DNS forwarder that sends each
  query to Chinese or to trusted upstream servers by the lists its domain is in, checks the
  addresses in the replies against kernel sets, and adds them to such sets.

  \<^bold>\<open>The program.\<close> The event loop, the sessions with the upstream servers and the caches are
  written in Zig and run on one thread; whatever touches bytes is in the C files. Modelled here
  are the C files and, of the Zig files, the answer cache. A query passes \<^verbatim>\<open>dns_check_query\<close>
  (\<^verbatim>\<open>src/dns.c\<close>), its name is looked up by
  \<^verbatim>\<open>dnl_get_tag\<close> (\<^verbatim>\<open>src/dnl.c\<close>) in the lists that \<^verbatim>\<open>dnl_init\<close> loaded for the tags of
  \<^verbatim>\<open>src/tag.c\<close>; a reply passes \<^verbatim>\<open>dns_check_reply\<close>, its addresses are looked up by
  \<^verbatim>\<open>dns_test_ip\<close> or added by \<^verbatim>\<open>dns_add_ip\<close> through the operations of \<^verbatim>\<open>src/ipset.c\<close>, which
  speak netlink (\<^verbatim>\<open>src/nl.h\<close>, \<^verbatim>\<open>src/nl.c\<close>) over the wrappers of \<^verbatim>\<open>src/net.c\<close>; then it is cached
  with the lifetime that \<^verbatim>\<open>dns_get_ttl\<close> finds. \<^verbatim>\<open>tool/dns_cache_mgr.c\<close> is a program of its own
  on the database the cache is saved to.

  \<^bold>\<open>How the code is represented.\<close> A buffer is a list of bytes. Reads and writes outside it, and
  failed assertions, are \<^term>\<open>None\<close>, so that a theorem of the form ``the result is
  \<^term>\<open>Some y\<close>'' says that the code is memory safe, that its assertions hold and that it
  returns. Integers have the width they have in C wherever it matters (\<^verbatim>\<open>u8\<close>, \<^verbatim>\<open>u16\<close>, \<^verbatim>\<open>u32\<close>
  are words of \<^verbatim>\<open>Prelude\<close>), lengths are \<^typ>\<open>nat\<close> or, where they may be negative, \<^typ>\<open>int\<close>.
  Exits of the program are \<^verbatim>\<open>Exit\<close> of the type \<^verbatim>\<open>run\<close>. Static variables are records that the
  operations take and return: \<^verbatim>\<open>dnl_t\<close>, \<^verbatim>\<open>ipset_state\<close>, \<^verbatim>\<open>tag_table\<close>. The byte order of the host
  is an argument (\<^verbatim>\<open>be\<close>) of everything that writes native integers. The kernel, files, clocks
  and uninitialised memory are arguments too, arbitrary functions that no theorem restricts
  beyond what it says.
\<close>

text \<open>
  \<^bold>\<open>DNS messages\<close> (\<^verbatim>\<open>src/dns.c\<close>, \<^verbatim>\<open>src/dns.h\<close>). \<^verbatim>\<open>Dns_Header\<close> has the header with its bit-fields in
  both declarations, the header accessors and the replies made from a query
  (\<^verbatim>\<open>dns_empty_reply\<close>, \<^verbatim>\<open>dns_truncate\<close>, \<^verbatim>\<open>dns_servfail_reply\<close>, \<^verbatim>\<open>dns_make_reply\<close>). \<^verbatim>\<open>Dns_Name\<close> has the
  conversions between wire and text names and \<^verbatim>\<open>dns_qname_domains\<close>; the lemmas relate both
  forms to lists of labels. \<^verbatim>\<open>Dns_Records\<close> has \<^verbatim>\<open>skip_name\<close>, the iterator \<^verbatim>\<open>foreach_record\<close> and the
  five callbacks; the locale \<^verbatim>\<open>record_visitor\<close> states what an iteration with a callback does on
  the bytes of a list of records, once, and is interpreted for each callback. \<^verbatim>\<open>Dns_Check\<close> has
  \<^verbatim>\<open>check_msg\<close>, \<^verbatim>\<open>rm_additional\<close> and the two checks, their exact results, and that they touch no
  byte outside the packet for any input from the network.

  \<^bold>\<open>Domain lists\<close> (\<^verbatim>\<open>src/dnl.c\<close>, \<^verbatim>\<open>src/dnl.zig\<close>, the hash of \<^verbatim>\<open>src/uthash.h\<close>). \<^verbatim>\<open>Hash\<close> is the hash
  function. \<^verbatim>\<open>Dnl_Arena\<close> is the arena: storage addressed by 29-bit numbers, the allocation and
  the names and list links in it. \<^verbatim>\<open>Dnl_Map\<close> is the two-level map with its redistribution,
  \<^verbatim>\<open>Dnl_Index\<close> its invariant and the refinement of a set of names (locale \<^verbatim>\<open>name_index\<close>: inserting
  keeps the invariant; the lemma on whole lists is proved in it), \<^verbatim>\<open>Dnl_Name\<close> the names the lists
  accept and the suffixes that are looked up, \<^verbatim>\<open>Dnl_Load\<close> the readers of text and gzip lists, and
  \<^verbatim>\<open>Dnl_List\<close> the public operations: after \<^verbatim>\<open>dnl_init\<close> the longest listed suffix decides. List walks
  that might loop are \<^verbatim>\<open>partial_function (option)\<close>; the invariant makes lists finite, and it is
  proved that loading ends. The theorems on loading assume less than \<open>2 ^ 29\<close> bytes of names.

  \<^bold>\<open>Tags\<close> (\<^verbatim>\<open>src/tag.c\<close>): \<^verbatim>\<open>Tag\<close>, the table of names and its invariant.
\<close>

text \<open>
  \<^bold>\<open>Kernel address sets\<close> (\<^verbatim>\<open>src/ipset.c\<close>). \<^verbatim>\<open>Netlink\<close> and \<^verbatim>\<open>Net\<close> have the message macros of
  \<^verbatim>\<open>src/nl.h\<close> and the socket calls of \<^verbatim>\<open>src/net.c\<close> and \<^verbatim>\<open>src/misc.h\<close>; the locale \<^verbatim>\<open>mmsg_send\<close> is the
  contract of \<^verbatim>\<open>sendmmsg\<close>, interpreted for the system call, for its emulation and for the pointer
  that selects one, and \<^verbatim>\<open>sendall\<close> is proved from it. \<^verbatim>\<open>Ipset_Msg\<close> has the messages of both
  backends, \<^verbatim>\<open>Ipset_Name\<close> the option values, \<^verbatim>\<open>Ipset_Build\<close> the bytes the builders write,
  \<^verbatim>\<open>Ipset_Ops\<close> the state and all operations, including the arrays of message headers and I/O
  vectors, which point into named buffers. \<^verbatim>\<open>Ipset_Pending\<close>, \<^verbatim>\<open>Ipset_New\<close>, \<^verbatim>\<open>Ipset_Xfer\<close>,
  \<^verbatim>\<open>Ipset_Test\<close> and \<^verbatim>\<open>Ipset_Flush\<close> prove them step by step; \<^verbatim>\<open>Ipset\<close> has the specification on
  lists of pending addresses and the refinement for every kernel; \<^verbatim>\<open>Ipset_Read\<close> reads attributes
  and requests the way a receiver does; \<^verbatim>\<open>Ipset_Correct\<close> collects the results; \<^verbatim>\<open>Ipset_Wire\<close> reads
  back everything that a context puts on the socket, against a kernel that answers what it reads;
  \<^verbatim>\<open>Ipset_Err\<close> has the names of the error codes. The bounds are those of the code: ten pending addresses per family
  (\<^verbatim>\<open>IP_N\<close>), 20 answers of 36 bytes each in the static buffer.

  \<^bold>\<open>Replies and sets together\<close>: \<^verbatim>\<open>Reply\<close>. The verdict on a reply and the addresses that reach
  the kernel, from the packet to the messages on the socket.

  \<^bold>\<open>The cache database\<close> (\<^verbatim>\<open>tool/dns_cache_mgr.c\<close>, \<^verbatim>\<open>src/CacheMsg.zig\<close>). \<^verbatim>\<open>Cache_Db\<close> is the format as
  the cache writes and loads it, \<^verbatim>\<open>Cache_Mgr\<close> the tool with its C file operations and buffers,
  \<^verbatim>\<open>Cache_Mgr_Correct\<close> what it lists and deletes. \<^verbatim>\<open>unterminated_name\<close> there shows an entry on
  which the tool reads outside its buffer.

  \<^bold>\<open>The answer cache\<close> (\<^verbatim>\<open>src/cache.zig\<close>, \<^verbatim>\<open>src/CacheMsg.zig\<close>, \<^verbatim>\<open>src/Node.zig\<close>,
  \<^verbatim>\<open>src/cache_ignore.zig\<close>). \<^verbatim>\<open>Node\<close> is the intrusive recency list, \<^verbatim>\<open>Cache_Msg\<close> the stored reply, its
  TTLs and the clock, \<^verbatim>\<open>Cache_Map\<close> the hash map with its chains and its doubling, \<^verbatim>\<open>Cache_Ignore\<close> the
  domains that are not cached, \<^verbatim>\<open>Cache\<close> the operations \<^verbatim>\<open>get\<close>, \<^verbatim>\<open>add\<close>, \<^verbatim>\<open>load\<close> and \<^verbatim>\<open>dump\<close> on map,
  list and objects in memory. \<^verbatim>\<open>Cache_Index\<close> has the invariant of the map, \<^verbatim>\<open>Cache_Rep\<close> relates both
  structures to one list of entries with the most recently used first, \<^verbatim>\<open>Cache_Correct\<close> refines the
  operations to that list, \<^verbatim>\<open>Cache_Disk\<close> does so for the file, whole or cut off, and
  \<^verbatim>\<open>Cache_Props\<close> has the results, for every history of lookups and insertions as an inductive
  relation, including when exactly one of the \<^verbatim>\<open>i32\<close> computations of the code overflows.

  \<^bold>\<open>Helpers\<close> (\<^verbatim>\<open>src/misc.c\<close>, \<^verbatim>\<open>src/net.c\<close>): \<^verbatim>\<open>Misc\<close>.
\<close>

text \<open>
  \<^bold>\<open>Not modelled.\<close> Log output and the texts of error messages; failure of \<^verbatim>\<open>malloc\<close>, \<^verbatim>\<open>mmap\<close> and
  \<^verbatim>\<open>strdup\<close>, which the code does not handle either; the registration of signal handlers, which
  only passes a pointer on; the parts of \<^verbatim>\<open>src/uthash.h\<close> for tables, which the program does not
  use. The gzip decoder is a parameter. Of the Zig files, the event loop with its coroutines, the
  upstream sessions, the request handling that runs in these coroutines, the verdict cache, the
  local answers and the option parser are left out; the readers of gzip lists, the answer cache
  and the test for the null tag are in.
\<close>

end
